(* ===== verification/Prelude.thy ===== *)
theory Prelude imports Main "HOL-Library.Word" begin

text \<open>
  Shared vocabulary of the development: the machine integer types of the C++ sources,
  the lemma collections that the component theories feed and use, and generic facts on
  lists (overwriting a segment, overwriting scattered positions, occurrence counts) that
  more than one component needs.
\<close>

section \<open>Machine integers\<close>

type_synonym u8 = "8 word"
type_synonym u32 = "32 word"
type_synonym u64 = "64 word"

lemma unat_of_nat_u32: "n < 2 ^ 32 \<Longrightarrow> unat (word_of_nat n :: u32) = n"
  by (simp add: unsigned_of_nat take_bit_nat_eq_self)

lemma unat_of_nat_u64: "n < 2 ^ 64 \<Longrightarrow> unat (word_of_nat n :: u64) = n"
  by (simp add: unsigned_of_nat take_bit_nat_eq_self)

lemma unat_lt_u32: "unat (x :: u32) < 2 ^ 32"
proof -
  have "(unsigned x :: nat) < 2 ^ LENGTH(32)" by (rule unsigned_less)
  then show ?thesis by simp
qed

lemma unat_lt_u64: "unat (x :: u64) < 2 ^ 64"
proof -
  have "(unsigned x :: nat) < 2 ^ LENGTH(64)" by (rule unsigned_less)
  then show ?thesis by simp
qed

section \<open>Lemma collections\<close>

named_theorems shape_simps \<open>lengths and shapes of the arrays a component keeps\<close>
named_theorems map_simps \<open>what a lookup returns after an update of a container\<close>
named_theorems inv_intros \<open>an operation keeps its component's invariant\<close>

section \<open>Overwriting a contiguous segment\<close>

definition splice :: "'a list \<Rightarrow> nat \<Rightarrow> 'a list \<Rightarrow> 'a list" where
  "splice xs k ys = take k xs @ ys @ drop (k + length ys) xs"

lemma length_splice [simp, shape_simps]:
  "k + length ys \<le> length xs \<Longrightarrow> length (splice xs k ys) = length xs"
  by (simp add: splice_def)

lemma nth_splice_in:
  "k + length ys \<le> length xs \<Longrightarrow> i < length ys \<Longrightarrow> splice xs k ys ! (k + i) = ys ! i"
  by (simp add: splice_def nth_append)

lemma nth_splice_out:
  assumes "k + length ys \<le> length xs" "i < length xs" "i < k \<or> k + length ys \<le> i"
  shows "splice xs k ys ! i = xs ! i"
  using assms by (auto simp: splice_def nth_append)

section \<open>Overwriting scattered positions\<close>

text \<open>Writes the values, in order, to the listed positions; surplus positions keep what
  they hold and surplus values are dropped.\<close>

fun fill_slots :: "nat list \<Rightarrow> 'a list \<Rightarrow> 'a list \<Rightarrow> 'a list" where
  "fill_slots (i # is) (v # vs) xs = fill_slots is vs (xs[i := v])"
| "fill_slots is vs xs = xs"

lemma length_fill_slots [simp, shape_simps]: "length (fill_slots is vs xs) = length xs"
  by (induction "is" vs xs rule: fill_slots.induct) auto

lemma nth_fill_slots_out: "k \<notin> set is \<Longrightarrow> fill_slots is vs xs ! k = xs ! k"
  by (induction "is" vs xs rule: fill_slots.induct) auto

lemma nth_fill_slots_in:
  "distinct is \<Longrightarrow> set is \<subseteq> {..<length xs} \<Longrightarrow> k < length is \<Longrightarrow> k < length vs
   \<Longrightarrow> fill_slots is vs xs ! (is ! k) = vs ! k"
proof (induction "is" vs xs arbitrary: k rule: fill_slots.induct)
  case (1 i "is" v vs xs)
  then show ?case
    by (cases k) (auto simp: nth_fill_slots_out)
qed auto

lemma fill_slots_map:
  assumes "distinct is" "set is \<subseteq> {..<length xs}" "i \<in> set is"
  shows "fill_slots is (map g is) xs ! i = g i"
proof -
  from assms(3) obtain k where "k < length is" "is ! k = i"
    by (auto simp: in_set_conv_nth)
  then show ?thesis
    using nth_fill_slots_in [of "is" xs k "map g is"] assms by simp
qed

section \<open>Segments of equal length\<close>

lemma div_segment: "n < m \<Longrightarrow> (q * m + n) div m = (q :: nat)"
  using div_mult_self1 [of m n q] by (simp add: add.commute)

section \<open>Occurrence counts\<close>

lemma map_of_rev_distinct: "distinct (map fst xs) \<Longrightarrow> map_of (rev xs) = map_of xs"
  by (subst map_of_inject_set) (simp_all flip: rev_map)

lemma length_filter_mono:
  "(\<And>x. x \<in> set xs \<Longrightarrow> P x \<Longrightarrow> Q x) \<Longrightarrow> length (filter P xs) \<le> length (filter Q xs)"
  by (induction xs) (auto intro: le_SucI)

lemma count_list_filter: "count_list xs v = length (filter (\<lambda>x. x = v) xs)"
  by (induction xs) auto

lemma count_list_two:
  "a \<noteq> b \<Longrightarrow> count_list xs a + count_list xs b \<le> length xs"
  by (induction xs) auto

lemma count_list_pos: "0 < count_list xs v \<longleftrightarrow> v \<in> set xs"
  by (induction xs) auto

lemma count_list_map_card:
  "distinct ps \<Longrightarrow> count_list (map g ps) v = card {p \<in> set ps. g p = v}"
proof (induction ps)
  case (Cons p ps)
  have "{q \<in> set (p # ps). g q = v}
      = (if g p = v then insert p {q \<in> set ps. g q = v} else {q \<in> set ps. g q = v})"
    by auto
  with Cons show ?case by simp
qed simp

lemma count_list_map_inj:
  "inj_on g (insert v (set xs)) \<Longrightarrow> count_list (map g xs) (g v) = count_list xs v"
  by (induction xs) (auto simp: inj_on_def)

end
