(* ===== verification/Eig_Paths.thy ===== *)
theory Eig_Paths imports Eig_Tree begin

text \<open>
  What the arrays of an EIGTree mean. A node is a path of process ids; \<open>idx\<close> and \<open>path\<close>
  translate between paths and node numbers, and the division loop of the constructor is
  shown to compute the path's label set, its repetition-freedom (the \<open>valid\<close> flags) and
  its one-step extensions (the \<open>children\<close> lists). \<open>eig_wf\<close> collects this as the
  well-formedness invariant, which every operation of Eig_Tree keeps; \<open>slot\<close> is the
  abstraction function from the arrays to a function on paths.
\<close>

section \<open>Node numbers and paths\<close>

fun idx :: "nat \<Rightarrow> nat list \<Rightarrow> nat" where
  "idx d [] = 0"
| "idx d (p # ps) = p + d * idx d ps"

definition path :: "nat \<Rightarrow> nat \<Rightarrow> nat \<Rightarrow> nat list" where
  "path d l n = map (\<lambda>k. n div d ^ k mod d) [0..<l]"

text \<open>The nodes of the tree: repetition-free paths over the process ids.\<close>

definition node_path :: "nat \<Rightarrow> nat list \<Rightarrow> bool" where
  "node_path d ps \<longleftrightarrow> distinct ps \<and> set ps \<subseteq> {..<d}"

lemma length_path [simp]: "length (path d l n) = l"
  by (simp add: path_def)

lemma set_path: "0 < d \<Longrightarrow> set (path d l n) \<subseteq> {..<d}"
  by (auto simp: path_def)

lemma idx_append: "idx d (ps @ [q]) = q * d ^ length ps + idx d ps"
  by (induction ps) (auto simp: algebra_simps)

lemma idx_lt: "set ps \<subseteq> {..<d} \<Longrightarrow> idx d ps < d ^ length ps"
proof (induction ps)
  case (Cons p ps)
  then have "p < d" and "Suc (idx d ps) \<le> d ^ length ps" by auto
  then have "d * Suc (idx d ps) \<le> d * d ^ length ps" by (simp only: mult_le_mono2)
  with \<open>p < d\<close> show ?case by simp
qed simp

lemma path_child:
  assumes "n < d ^ l" "q < d"
  shows "path d (Suc l) (q * d ^ l + n) = path d l n @ [q]"
proof -
  have "(q * d ^ l + n) div d ^ k mod d = n div d ^ k mod d" if "k < l" for k
  proof -
    from that obtain m where m: "l = k + Suc m" using less_iff_Suc_add by auto
    have "0 < d" using assms(2) by simp
    then have nz: "d ^ k \<noteq> 0" by simp
    have eq: "q * d ^ l + n = n + d ^ k * (d * (q * d ^ m))"
      by (simp add: m power_add algebra_simps)
    have "(q * d ^ l + n) div d ^ k = d * (q * d ^ m) + n div d ^ k"
      unfolding eq using nz by (rule div_mult_self2)
    then show ?thesis by simp
  qed
  moreover have "(q * d ^ l + n) div d ^ l mod d = q"
    using assms by (auto simp: div_mult_self3)
  ultimately show ?thesis by (simp add: path_def)
qed

lemma path_Suc:
  assumes "n < d ^ Suc l"
  shows "path d (Suc l) n = path d l (n mod d ^ l) @ [n div d ^ l]"
proof -
  have "0 < d ^ l" using assms by (cases "d = 0") auto
  then have "n mod d ^ l < d ^ l" by simp
  moreover have "n div d ^ l < d"
    using assms by (simp add: less_mult_imp_div_less)
  ultimately show ?thesis
    using path_child [of "n mod d ^ l" d l "n div d ^ l"] by (simp add: div_mult_mod_eq)
qed

lemma path_idx: "set ps \<subseteq> {..<d} \<Longrightarrow> path d (length ps) (idx d ps) = ps"
proof (induction ps rule: rev_induct)
  case (snoc q ps)
  then show ?case
    using path_child [of "idx d ps" d "length ps" q] idx_lt [of ps d] by (simp add: idx_append)
qed (simp add: path_def)

lemma idx_path: "n < d ^ l \<Longrightarrow> idx d (path d l n) = n"
proof (induction l arbitrary: n)
  case 0
  then show ?case by (simp add: path_def)
next
  case (Suc l)
  then have "0 < d ^ l" by (cases "d = 0") auto
  then have "idx d (path d l (n mod d ^ l)) = n mod d ^ l" using Suc.IH by simp
  then show ?case using Suc.prems by (simp add: path_Suc idx_append div_mult_mod_eq)
qed

lemma node_path_snoc:
  "node_path d (ps @ [q]) \<longleftrightarrow> node_path d ps \<and> q < d \<and> q \<notin> set ps"
  by (auto simp: node_path_def)

lemma node_path_Nil [simp]: "node_path d []"
  by (simp add: node_path_def)

lemma node_path_length: "node_path d ps \<Longrightarrow> length ps \<le> d"
  unfolding node_path_def
  by (metis card_lessThan card_mono distinct_card finite_lessThan)

section \<open>The constructor's loops\<close>

lemma length_alloc [simp]: "length (alloc_num_nodes d h) = Suc h"
  by (induction h) (auto simp: Let_def)

lemma nth_alloc: "l \<le> h \<Longrightarrow> alloc_num_nodes d h ! l = d ^ l"
proof (induction h arbitrary: l)
  case (Suc h)
  then show ?case by (cases "l = Suc h") (auto simp: Let_def nth_append)
qed simp

lemma decode_labels_eq:
  assumes "\<And>k. k < i \<Longrightarrow> ns ! k = d ^ k" "temp < d ^ i" "length labels = d"
  shows "decode_labels ns i temp labels ok =
    (map (\<lambda>c. labels ! c \<or> c \<in> set (path d i temp)) [0..<d],
     ok \<and> distinct (path d i temp) \<and> (\<forall>c \<in> set (path d i temp). \<not> labels ! c))"
  using assms
proof (induction i arbitrary: temp labels ok)
  case 0
  then show ?case by (auto simp: path_def map_nth)
next
  case (Suc i)
  let ?c = "temp div d ^ i" and ?r = "temp mod d ^ i"
  have d: "0 < d ^ i" using Suc.prems by (cases "d = 0") auto
  have c: "?c < d" using Suc.prems(2) by (simp add: less_mult_imp_div_less)
  have ns: "ns ! i = d ^ i" using Suc.prems(1) by simp
  have "decode_labels ns (Suc i) temp labels ok
      = decode_labels ns i ?r (labels[?c := True]) (if labels ! ?c then False else ok)"
    by (simp add: ns Let_def)
  also have "\<dots> = (map (\<lambda>c. labels[?c := True] ! c \<or> c \<in> set (path d i ?r)) [0..<d],
     (if labels ! ?c then False else ok) \<and> distinct (path d i ?r) \<and>
     (\<forall>c \<in> set (path d i ?r). \<not> labels[?c := True] ! c))"
    using Suc.prems d by (intro Suc.IH) auto
  also have "\<dots> = (map (\<lambda>c. labels ! c \<or> c \<in> set (path d (Suc i) temp)) [0..<d],
     ok \<and> distinct (path d (Suc i) temp) \<and> (\<forall>c \<in> set (path d (Suc i) temp). \<not> labels ! c))"
    using c Suc.prems(3) unfolding path_Suc [OF Suc.prems(2)]
    by (auto simp: nth_list_update)
  finally show ?case .
qed

lemma node_labels_eq:
  assumes "n < d ^ l" "l \<le> h"
  shows "node_labels d (alloc_num_nodes d h) l n =
    (map (\<lambda>c. c \<in> set (path d l n)) [0..<d], distinct (path d l n))"
proof -
  have "set (path d l n) \<subseteq> {..<d}"
  proof (cases "d = 0")
    case True
    with assms(1) have "l = 0" by (cases l) auto
    then show ?thesis by (simp add: path_def)
  next
    case False
    then show ?thesis by (simp add: set_path)
  qed
  then have "\<forall>c \<in> set (path d l n). \<not> replicate d False ! c" by auto
  then show ?thesis
    using assms unfolding node_labels_def
    by (subst decode_labels_eq [where d = d]) (auto simp: nth_alloc)
qed

lemma node_children_eq:
  assumes "n < d ^ l" "l \<le> h"
  shows "node_children d (alloc_num_nodes d h) l n =
    (if distinct (path d l n)
     then map (\<lambda>q. q * d ^ l + n) (filter (\<lambda>q. q \<notin> set (path d l n)) [0..<d]) else [])"
proof -
  have "concat (map (\<lambda>x. if \<not> map (\<lambda>c. P c) [0..<d] ! x then [x * e + n] else []) [0..<d])
     = map (\<lambda>q. q * e + n) (filter (\<lambda>q. \<not> P q) [0..<d])" for P :: "nat \<Rightarrow> bool" and e
  proof -
    have "concat (map (\<lambda>x. if \<not> map P [0..<d] ! x then [x * e + n] else []) xs)
       = map (\<lambda>q. q * e + n) (filter (\<lambda>q. \<not> P q) xs)" if "set xs \<subseteq> {..<d}" for xs
      using that by (induction xs) auto
    then show ?thesis by (simp add: subset_eq)
  qed
  note this [where P = "\<lambda>c. c \<in> set (path d l n)"]
  then show ?thesis
    using assms by (simp add: node_children_def node_labels_eq nth_alloc if_distrib cong: if_cong)
qed

section \<open>Well-formed trees\<close>

abbreviation deg :: "'a eig_tree \<Rightarrow> nat" where
  "deg t \<equiv> unat (degree t)"

abbreviation hgt :: "'a eig_tree \<Rightarrow> nat" where
  "hgt t \<equiv> unat (height t)"

text \<open>The slots of a level that the protocol uses: the valid nodes that process \<open>pid\<close>
  has not relayed yet.\<close>

definition relay_nodes :: "nat \<Rightarrow> nat \<Rightarrow> nat \<Rightarrow> nat list" where
  "relay_nodes d l pid =
     filter (\<lambda>n. distinct (path d l n) \<and> pid \<notin> set (path d l n)) [0..<d ^ l]"

definition eig_wf :: "'a eig_tree \<Rightarrow> bool" where
  "eig_wf t \<longleftrightarrow>
     hgt t \<le> deg t \<and>
     (\<forall>l \<le> hgt t. num_nodes t ! l = deg t ^ l) \<and>
     (\<forall>l \<le> hgt t. \<forall>n < deg t ^ l.
        valid t ! l ! n = distinct (path (deg t) l n) \<and>
        children t ! l ! n =
          (if distinct (path (deg t) l n)
           then map (\<lambda>q. q * deg t ^ l + n) (filter (\<lambda>q. q \<notin> set (path (deg t) l n)) [0..<deg t])
           else [])) \<and>
     length (levels t) = Suc (hgt t) \<and>
     (\<forall>l \<le> hgt t. length (levels t ! l) = deg t ^ l)"

text \<open>The abstraction: the value a tree holds for a path.\<close>

definition slot :: "'a eig_tree \<Rightarrow> nat list \<Rightarrow> 'a" where
  "slot t ps = levels t ! length ps ! idx (deg t) ps"

lemma eig_wf_num_nodes: "eig_wf t \<Longrightarrow> l \<le> hgt t \<Longrightarrow> num_nodes t ! l = deg t ^ l"
  and eig_wf_height: "eig_wf t \<Longrightarrow> hgt t \<le> deg t"
  and eig_wf_levels: "eig_wf t \<Longrightarrow> length (levels t) = Suc (hgt t)"
  and eig_wf_level: "eig_wf t \<Longrightarrow> l \<le> hgt t \<Longrightarrow> length (levels t ! l) = deg t ^ l"
  and eig_wf_valid: "eig_wf t \<Longrightarrow> l \<le> hgt t \<Longrightarrow> n < deg t ^ l \<Longrightarrow>
    valid t ! l ! n = distinct (path (deg t) l n)"
  and eig_wf_children: "eig_wf t \<Longrightarrow> l \<le> hgt t \<Longrightarrow> n < deg t ^ l \<Longrightarrow>
    distinct (path (deg t) l n) \<Longrightarrow> children t ! l ! n =
    map (\<lambda>q. q * deg t ^ l + n) (filter (\<lambda>q. q \<notin> set (path (deg t) l n)) [0..<deg t])"
  and eig_wf_no_children: "eig_wf t \<Longrightarrow> l \<le> hgt t \<Longrightarrow> n < deg t ^ l \<Longrightarrow>
    \<not> distinct (path (deg t) l n) \<Longrightarrow> children t ! l ! n = []"
  by (auto simp: eig_wf_def)

lemmas eig_wf_facts [shape_simps] =
  eig_wf_num_nodes eig_wf_levels eig_wf_level eig_wf_valid

lemma eig_wf_levels_update:
  "eig_wf t \<Longrightarrow> length lv = Suc (hgt t) \<Longrightarrow> (\<And>l. l \<le> hgt t \<Longrightarrow> length (lv ! l) = deg t ^ l)
   \<Longrightarrow> eig_wf (t\<lparr>levels := lv\<rparr>)"
  by (simp add: eig_wf_def)

lemma eig_wf_level_update:
  assumes "eig_wf t" "l \<le> hgt t" "length ys = deg t ^ l"
  shows "eig_wf (t\<lparr>levels := (levels t)[l := ys]\<rparr>)"
  using assms by (intro eig_wf_levels_update) (auto simp: eig_wf_def nth_list_update)

lemma nth_map_upto: "l \<le> m \<Longrightarrow> map f [0..<Suc m] ! l = f l"
  by (simp add: nth_map nth_upt del: upt_Suc)

lemma eig_new_shape:
  assumes "eig_new zero d h = Some t"
  shows "h \<le> d" "degree t = d" "height t = h"
    and "num_nodes t = alloc_num_nodes (unat d) (unat h)"
    and "valid t = map (\<lambda>l. map (\<lambda>n. snd (node_labels (unat d) (num_nodes t) l n))
           [0..<num_nodes t ! l]) [0..<Suc (unat h)]"
    and "children t = map (\<lambda>l. map (\<lambda>n. node_children (unat d) (num_nodes t) l n)
           [0..<num_nodes t ! l]) [0..<Suc (unat h)]"
    and "levels t = map (\<lambda>l. replicate (num_nodes t ! l) zero) [0..<Suc (unat h)]"
  using assms by (auto simp: eig_new_def Let_def simp del: upt_Suc split: if_splits)

lemma eig_new_wf:
  assumes "eig_new zero d h = Some t"
  shows "eig_wf t"
proof -
  note sh = eig_new_shape [OF assms]
  have nn: "num_nodes t ! l = unat d ^ l" if "l \<le> unat h" for l
    using that by (simp add: sh nth_alloc)
  have "valid t ! l ! n = distinct (path (unat d) l n)"
    if "l \<le> unat h" "n < unat d ^ l" for l n
  proof -
    have "valid t ! l ! n = snd (node_labels (unat d) (num_nodes t) l n)"
      using that by (simp only: sh(5) nth_map_upto) (simp add: nn)
    then show ?thesis using that by (simp add: sh(4) node_labels_eq)
  qed
  moreover have "children t ! l ! n = node_children (unat d) (num_nodes t) l n"
    if "l \<le> unat h" "n < unat d ^ l" for l n
    using that by (simp only: sh(6) nth_map_upto) (simp add: nn)
  then have "children t ! l ! n = (if distinct (path (unat d) l n)
      then map (\<lambda>q. q * unat d ^ l + n) (filter (\<lambda>q. q \<notin> set (path (unat d) l n)) [0..<unat d])
      else [])" if "l \<le> unat h" "n < unat d ^ l" for l n
    using that by (simp add: sh(4) node_children_eq)
  moreover have "length (levels t ! l) = unat d ^ l" if "l \<le> unat h" for l
    using that by (simp only: sh(7) nth_map_upto) (simp add: nn)
  ultimately show ?thesis
    using sh(1) nn by (simp add: eig_wf_def sh(2,3) sh(7) word_le_nat_alt del: upt_Suc)
qed

lemma clear_wf [inv_intros]: "eig_wf t \<Longrightarrow> eig_wf (clear zero t)"
  unfolding clear_def
  by (rule eig_wf_levels_update) (auto simp: shape_simps simp del: upt_Suc)

lemma set_root_wf [inv_intros]: "eig_wf t \<Longrightarrow> eig_wf (set_root v t)"
  unfolding set_root_def
  using eig_wf_level [of t 0] by (intro eig_wf_level_update) auto

lemma deliver_wf [inv_intros]: "eig_wf t \<Longrightarrow> l < hgt t \<Longrightarrow> eig_wf (deliver l pid payload t)"
  unfolding deliver_def by (intro eig_wf_level_update) (auto simp: shape_simps)

lemma segment_bound:
  fixes pid :: nat
  assumes "pid < d"
  shows "pid * d ^ l + d ^ l \<le> d ^ Suc l"
proof -
  have "Suc pid * d ^ l \<le> d * d ^ l"
    using assms by (intro mult_le_mono1) simp
  then show ?thesis by simp
qed

lemma copy_current_level_wf [inv_intros]:
  assumes "eig_wf t" "l < hgt t" "pid < deg t"
  shows "eig_wf (copy_current_level l pid t)"
  unfolding copy_current_level_def
  using assms segment_bound [of pid "deg t" l]
  by (intro eig_wf_level_update) (auto simp: shape_simps)

lemma ops_keep_shape [simp]:
  "degree (clear zero t) = degree t" "height (clear zero t) = height t"
  "degree (set_root v t) = degree t" "height (set_root v t) = height t"
  "degree (copy_current_level l pid t) = degree t" "height (copy_current_level l pid t) = height t"
  "degree (deliver l pid xs t) = degree t" "height (deliver l pid xs t) = height t"
  by (simp_all add: clear_def set_root_def copy_current_level_def deliver_def)

end
