(* ===== verification/Eig_Exchange.thy ===== *)
theory Eig_Exchange imports Eig_Paths begin

text \<open>
  The effect of each operation on the path view of a tree, and the send/receive contract
  of one protocol round: the slots a process gathers from level \<open>l\<close> of its own tree are,
  in the same order, the slots of level \<open>l + 1\<close> that its peers scatter its payload into,
  so a payload that arrives intact extends every path \<open>ps\<close> of the sender to \<open>ps @ [sender]\<close>
  at the receiver. The number of gathered slots does not depend on which process sends,
  which is what \<^verbatim>\<open>BFTKVS::job\<close> relies on when it sizes a faulty payload.
\<close>

section \<open>Which slots travel\<close>

lemma set_relay_nodes:
  "n \<in> set (relay_nodes d l pid) \<longleftrightarrow> n < d ^ l \<and> distinct (path d l n) \<and> pid \<notin> set (path d l n)"
  by (auto simp: relay_nodes_def)

lemma distinct_relay_nodes [simp]: "distinct (relay_nodes d l pid)"
  by (simp add: relay_nodes_def)

lemma idx_in_relay_nodes:
  assumes "node_path d (ps @ [pid])"
  shows "idx d ps \<in> set (relay_nodes d (length ps) pid)"
  using assms by (auto simp: node_path_def set_relay_nodes path_idx idx_lt)

lemma has_child_of_iff:
  assumes "eig_wf t" "l \<le> hgt t" "n < deg t ^ l" "pid < deg t"
  shows "has_child_of t l pid n \<longleftrightarrow>
    distinct (path (deg t) l n) \<and> pid \<notin> set (path (deg t) l n)"
proof (cases "distinct (path (deg t) l n)")
  case True
  have "(q * deg t ^ l + n) div deg t ^ l = q" for q
    using assms(3) by (rule div_segment)
  then show ?thesis
    using True assms
    by (auto simp: has_child_of_def eig_wf_num_nodes eig_wf_children list_ex_iff)
next
  case False
  then show ?thesis
    using assms by (simp add: has_child_of_def eig_wf_no_children)
qed

lemma send_slots_eq:
  assumes "eig_wf t" "l \<le> hgt t" "pid < deg t"
  shows "send_slots l pid t = relay_nodes (deg t) l pid"
  unfolding send_slots_def relay_nodes_def eig_wf_num_nodes [OF assms(1,2)]
  using assms by (intro filter_cong) (auto simp: has_child_of_iff)

lemma receive_slots_eq:
  assumes "eig_wf t" "l < hgt t" "pid < deg t"
  shows "receive_buffer_optimized l pid t =
    map (\<lambda>n. pid * deg t ^ l + n) (relay_nodes (deg t) l pid)"
proof -
  let ?d = "deg t"
  have upt: "[pid * ?d ^ l..<pid * ?d ^ l + ?d ^ l] = map (\<lambda>n. pid * ?d ^ l + n) [0..<?d ^ l]"
    by (simp add: map_add_upt add.commute)
  have val: "valid t ! Suc l ! (pid * ?d ^ l + n) =
      (distinct (path ?d l n) \<and> pid \<notin> set (path ?d l n))" if "n < ?d ^ l" for n
  proof -
    have "pid * ?d ^ l + n < ?d ^ Suc l"
      using that segment_bound [OF assms(3), of l] by linarith
    then show ?thesis
      using assms that by (auto simp: eig_wf_valid path_child)
  qed
  have "receive_buffer_optimized l pid t =
      filter (\<lambda>i. valid t ! Suc l ! i) [pid * ?d ^ l..<pid * ?d ^ l + ?d ^ l]"
    using assms by (simp add: receive_buffer_optimized_def eig_wf_num_nodes add.commute)
  also have "\<dots> = map (\<lambda>n. pid * ?d ^ l + n)
      (filter (\<lambda>n. valid t ! Suc l ! (pid * ?d ^ l + n)) [0..<?d ^ l])"
    unfolding upt filter_map by (simp add: o_def)
  also have "filter (\<lambda>n. valid t ! Suc l ! (pid * ?d ^ l + n)) [0..<?d ^ l] = relay_nodes ?d l pid"
    unfolding relay_nodes_def using val by (intro filter_cong) auto
  finally show ?thesis .
qed

lemma sum_sizes_eq: "sum_sizes s p xs r = r + s * length (filter p xs)"
  by (induction s p xs r rule: sum_sizes.induct) auto

lemma buffer_length_optimized_eq:
  "buffer_length_optimized s l pid t = s * length (send_slots l pid t)"
  by (simp add: buffer_length_optimized_def send_slots_def sum_sizes_eq)

section \<open>How many slots travel\<close>

text \<open>Extending the relay nodes of a level by one process id: a bijection between the
  nodes of level \<open>l + 1\<close> that avoid \<open>pid\<close> and pairs of a node of level \<open>l\<close> and a new id.\<close>

definition avoiding :: "nat \<Rightarrow> nat \<Rightarrow> nat \<Rightarrow> nat list set" where
  "avoiding d l pid = {ps. length ps = l \<and> node_path d ps \<and> pid \<notin> set ps}"

lemma card_avoiding:
  assumes "pid < d"
  shows "card (avoiding d l pid) = (\<Prod>k<l. d - 1 - k)"
proof -
  have "avoiding d l pid = {ps. length ps = l \<and> distinct ps \<and> set ps \<subseteq> {..<d} - {pid}}"
    by (auto simp: avoiding_def node_path_def)
  moreover have "card ({..<d} - {pid}) = d - 1" using assms by simp
  ultimately show ?thesis
  proof (cases "l \<le> d - 1")
    case True
    then have "card {ps. length ps = l \<and> distinct ps \<and> set ps \<subseteq> {..<d} - {pid}}
        = \<Prod>{d - 1 - l + 1..d - 1}"
      using \<open>card ({..<d} - {pid}) = d - 1\<close> card_lists_distinct_length_eq [of "{..<d} - {pid}" l]
      by simp
    also have "{d - 1 - l + 1..d - 1} = (\<lambda>k. d - 1 - k) ` {..<l}"
    proof
      show "{d - 1 - l + 1..d - 1} \<subseteq> (\<lambda>k. d - 1 - k) ` {..<l}"
      proof
        fix x assume "x \<in> {d - 1 - l + 1..d - 1}"
        then show "x \<in> (\<lambda>k. d - 1 - k) ` {..<l}"
          using True by (intro image_eqI [where x = "d - 1 - x"]) auto
      qed
    qed (use True in auto)
    also have "\<Prod>((\<lambda>k. d - 1 - k) ` {..<l}) = (\<Prod>k<l. d - 1 - k)"
      using True by (intro prod.reindex_cong [where l = "\<lambda>k. d - 1 - k"]) (auto simp: inj_on_def)
    finally show ?thesis
      using \<open>avoiding d l pid = _\<close> by simp
  next
    case False
    have "avoiding d l pid = {}"
    proof -
      have False if "length ps = l" "distinct ps" "set ps \<subseteq> {..<d} - {pid}" for ps
      proof -
        have "card (set ps) \<le> card ({..<d} - {pid})"
          using that(3) by (intro card_mono) auto
        then show False using that False \<open>card ({..<d} - {pid}) = d - 1\<close> by (simp add: distinct_card)
      qed
      then show ?thesis by (auto simp: avoiding_def node_path_def)
    qed
    moreover have "(\<Prod>k<l. d - 1 - k) = 0"
      using False by (auto intro!: prod_zero bexI [of _ "d - 1"])
    ultimately show ?thesis by simp
  qed
qed

lemma length_relay_nodes:
  assumes "pid < d"
  shows "length (relay_nodes d l pid) = (\<Prod>k<l. d - 1 - k)"
proof -
  have "0 < d" using assms by simp
  have "bij_betw (idx d) (avoiding d l pid) (set (relay_nodes d l pid))"
    unfolding bij_betw_def
  proof
    show "inj_on (idx d) (avoiding d l pid)"
      by (rule inj_on_inverseI [where g = "path d l"]) (auto simp: avoiding_def node_path_def path_idx)
    show "idx d ` avoiding d l pid = set (relay_nodes d l pid)"
    proof
      show "idx d ` avoiding d l pid \<subseteq> set (relay_nodes d l pid)"
        by (auto simp: avoiding_def node_path_def set_relay_nodes path_idx idx_lt)
      show "set (relay_nodes d l pid) \<subseteq> idx d ` avoiding d l pid"
      proof
        fix n assume "n \<in> set (relay_nodes d l pid)"
        then have n: "n < d ^ l" "distinct (path d l n)" "pid \<notin> set (path d l n)"
          by (auto simp: set_relay_nodes)
        then have "path d l n \<in> avoiding d l pid"
          using set_path [OF \<open>0 < d\<close>] by (simp add: avoiding_def node_path_def)
        moreover have "n = idx d (path d l n)" using n by (simp add: idx_path)
        ultimately show "n \<in> idx d ` avoiding d l pid" by blast
      qed
    qed
  qed
  then have "card (set (relay_nodes d l pid)) = (\<Prod>k<l. d - 1 - k)"
    using card_avoiding [OF assms] by (simp add: bij_betw_same_card [symmetric])
  then show ?thesis by (simp add: distinct_card)
qed

section \<open>The operations on the path view\<close>

lemma slot_set_root:
  assumes "eig_wf t"
  shows "slot (set_root v t) [] = v"
    and "ps \<noteq> [] \<Longrightarrow> slot (set_root v t) ps = slot t ps"
  using assms eig_wf_level [OF assms, of 0] eig_wf_levels [OF assms]
  by (auto simp: slot_def set_root_def)

lemma slot_clear:
  assumes "eig_wf t" "length ps \<le> hgt t" "set ps \<subseteq> {..<deg t}"
  shows "slot (clear zero t) ps = zero"
  using assms idx_lt [of ps "deg t"]
  by (simp add: slot_def clear_def nth_map_upto eig_wf_num_nodes del: upt_Suc)

lemma slot_root: "root t = slot t []"
  by (simp add: root_def slot_def)

lemma slot_eig_new:
  assumes "eig_new zero d h = Some t" "length ps \<le> unat h" "set ps \<subseteq> {..<unat d}"
  shows "slot t ps = zero"
proof -
  note sh = eig_new_shape [OF assms(1)]
  have "levels t ! length ps = replicate (unat d ^ length ps) zero"
    using assms(2) by (simp only: sh(7) nth_map_upto) (simp add: sh(4) nth_alloc)
  then show ?thesis using idx_lt [OF assms(3)] by (simp add: slot_def sh(2))
qed

lemma slot_copy_other_level:
  assumes "eig_wf t" "l < hgt t" "length ps \<noteq> Suc l"
  shows "slot (copy_current_level l pid t) ps = slot t ps"
  using assms by (simp add: slot_def copy_current_level_def)

lemma slot_copy_own:
  assumes "eig_wf t" "length ps < hgt t" "pid < deg t" "set ps \<subseteq> {..<deg t}"
  shows "slot (copy_current_level (length ps) pid t) (ps @ [pid]) = slot t ps"
proof -
  let ?l = "length ps" and ?d = "deg t"
  have "idx ?d ps < ?d ^ ?l" using assms(4) by (rule idx_lt)
  moreover have "length (levels t ! ?l) = ?d ^ ?l" "length (levels t ! Suc ?l) = ?d ^ Suc ?l"
    using assms by (auto simp: shape_simps simp del: power_Suc)
  ultimately show ?thesis
    using assms segment_bound [OF assms(3), of ?l]
    by (simp add: slot_def copy_current_level_def eig_wf_levels eig_wf_num_nodes idx_append nth_splice_in)
qed

lemma slot_copy_others:
  assumes "eig_wf t" "length ps < hgt t" "pid < deg t" "set (ps @ [q]) \<subseteq> {..<deg t}" "q \<noteq> pid"
  shows "slot (copy_current_level (length ps) pid t) (ps @ [q]) = slot t (ps @ [q])"
proof -
  let ?l = "length ps" and ?d = "deg t"
  let ?i = "idx ?d (ps @ [q])"
  have lt: "idx ?d ps < ?d ^ ?l" using assms(4) by (intro idx_lt) simp
  have i: "?i = q * ?d ^ ?l + idx ?d ps" by (rule idx_append)
  have i_lt: "?i < ?d ^ Suc ?l" using idx_lt [OF assms(4)] by simp
  have out: "?i < pid * ?d ^ ?l \<or> pid * ?d ^ ?l + ?d ^ ?l \<le> ?i"
  proof (cases "q < pid")
    case True
    then have "q * ?d ^ ?l + ?d ^ ?l \<le> pid * ?d ^ ?l"
      by (metis Suc_leI add.commute mult_Suc mult_le_mono1)
    with lt i show ?thesis by linarith
  next
    case False
    with assms(5) have "Suc pid \<le> q" by simp
    then have "Suc pid * ?d ^ ?l \<le> q * ?d ^ ?l" by (rule mult_le_mono1)
    with i show ?thesis by simp
  qed
  have len: "length (levels t ! ?l) = ?d ^ ?l" "length (levels t ! Suc ?l) = ?d ^ Suc ?l"
    using assms by (auto simp: shape_simps simp del: power_Suc)
  have "splice (levels t ! Suc ?l) (pid * ?d ^ ?l) (levels t ! ?l) ! ?i = levels t ! Suc ?l ! ?i"
    using out i_lt len segment_bound [OF assms(3), of ?l] by (intro nth_splice_out) auto
  then show ?thesis
    using assms len by (simp add: slot_def copy_current_level_def eig_wf_levels eig_wf_num_nodes)
qed

lemma slot_deliver_other_level:
  assumes "eig_wf t" "l < hgt t" "length ps \<noteq> Suc l"
  shows "slot (deliver l pid payload t) ps = slot t ps"
  using assms by (simp add: slot_def deliver_def)

lemma slot_deliver_others:
  assumes "eig_wf t" "length ps < hgt t" "pid < deg t" "set (ps @ [q]) \<subseteq> {..<deg t}" "q \<noteq> pid"
  shows "slot (deliver (length ps) pid payload t) (ps @ [q]) = slot t (ps @ [q])"
proof -
  let ?l = "length ps" and ?d = "deg t"
  have lt: "idx ?d ps < ?d ^ ?l" using assms(4) by (intro idx_lt) simp
  have "idx ?d (ps @ [q]) \<noteq> pid * ?d ^ ?l + n" if "n < ?d ^ ?l" for n
  proof
    assume "idx ?d (ps @ [q]) = pid * ?d ^ ?l + n"
    then have "(q * ?d ^ ?l + idx ?d ps) div ?d ^ ?l = (pid * ?d ^ ?l + n) div ?d ^ ?l"
      by (simp add: idx_append)
    with that lt assms(5) show False by (simp add: div_segment)
  qed
  then have "idx ?d (ps @ [q]) \<notin> (\<lambda>n. pid * ?d ^ ?l + n) ` set (relay_nodes ?d ?l pid)"
    by (blast dest: set_relay_nodes [THEN iffD1])
  then have "idx ?d (ps @ [q]) \<notin> set (receive_buffer_optimized ?l pid t)"
    using assms by (simp add: receive_slots_eq)
  then show ?thesis
    using assms by (simp add: slot_def deliver_def eig_wf_levels nth_fill_slots_out)
qed

lemma slot_deliver_intact:
  assumes t: "eig_wf t" and s: "eig_wf s" "degree s = degree t" "height s = height t"
    and ps: "length ps < hgt t" "node_path (deg t) (ps @ [pid])"
  shows "slot (deliver (length ps) pid (send_buffer_optimized (length ps) pid s) t) (ps @ [pid])
       = slot s ps"
proof -
  let ?l = "length ps" and ?d = "deg t"
  let ?is = "receive_buffer_optimized ?l pid t"
  have pid: "pid < ?d" using ps(2) by (simp add: node_path_def)
  have slots: "?is = map (\<lambda>n. pid * ?d ^ ?l + n) (relay_nodes ?d ?l pid)"
    using t ps(1) pid by (rule receive_slots_eq)
  have payload: "send_buffer_optimized ?l pid s = map (\<lambda>i. levels s ! ?l ! (i - pid * ?d ^ ?l)) ?is"
    using s ps(1) pid by (simp add: send_buffer_optimized_def send_slots_eq slots)
  have "idx ?d (ps @ [pid]) \<in> set ?is"
    using idx_in_relay_nodes [OF ps(2)] by (auto simp: slots idx_append)
  moreover have "distinct ?is" "set ?is \<subseteq> {..<length (levels t ! Suc ?l)}"
    using t ps(1) pid segment_bound [OF pid, of ?l]
    by (auto simp: slots distinct_map inj_on_def set_relay_nodes shape_simps simp del: power_Suc)
  ultimately have "fill_slots ?is (send_buffer_optimized ?l pid s) (levels t ! Suc ?l)
       ! idx ?d (ps @ [pid]) = levels s ! ?l ! (idx ?d (ps @ [pid]) - pid * ?d ^ ?l)"
    unfolding payload by (intro fill_slots_map)
  then show ?thesis
    using t ps(1) s by (simp add: slot_def deliver_def eig_wf_levels idx_append)
qed

end
