(* ===== verification/Std_Containers.thy ===== *)
theory Std_Containers imports Prelude "HOL-Library.Multiset" begin

text \<open>
  The associative containers of the C++ standard library, as the sources use them.

  \<^item> \<^verbatim>\<open>std::unordered_map\<close> is an association list in insertion order. The standard leaves
    its iteration order open, so every loop over one goes through a parameter that permutes
    the entries (\<open>iteration_order\<close>), and the theorems hold for every such parameter.
  \<^item> \<^verbatim>\<open>std::map\<close> is an association list kept sorted by its comparison object. The locale
    \<open>ordered_keys\<close> is the contract the standard asks of the comparison (a strict total
    order on the keys); the laws of lookup, insertion and removal are proved once in it
    and interpreted for the comparisons the program uses.
\<close>

section \<open>Unordered maps\<close>

text \<open>\<open>f\<close> applied to the element that \<open>m[k]\<close> finds or default-constructs.\<close>

fun um_upd :: "'k \<Rightarrow> 'v \<Rightarrow> ('v \<Rightarrow> 'v) \<Rightarrow> ('k \<times> 'v) list \<Rightarrow> ('k \<times> 'v) list" where
  "um_upd k dflt f [] = [(k, f dflt)]"
| "um_upd k dflt f ((k', v) # m) =
     (if k' = k then (k', f v) # m else (k', v) # um_upd k dflt f m)"

definition um_put :: "'k \<Rightarrow> 'v \<Rightarrow> ('k \<times> 'v) list \<Rightarrow> ('k \<times> 'v) list" where
  "um_put k v m = um_upd k v (\<lambda>_. v) m"

definition iteration_order :: "(('k \<times> 'v) list \<Rightarrow> ('k \<times> 'v) list) \<Rightarrow> bool" where
  "iteration_order iter \<longleftrightarrow> (\<forall>m. mset (iter m) = mset m)"

lemma map_of_um_upd [map_simps]:
  "map_of (um_upd k dflt f m) =
   (map_of m)(k \<mapsto> f (case map_of m k of None \<Rightarrow> dflt | Some v \<Rightarrow> v))"
  by (induction k dflt f m rule: um_upd.induct) (auto simp: fun_eq_iff)

lemma map_of_um_put [map_simps]: "map_of (um_put k v m) = (map_of m)(k \<mapsto> v)"
  by (simp add: um_put_def map_of_um_upd)

lemma keys_um_upd [map_simps]: "fst ` set (um_upd k dflt f m) = insert k (fst ` set m)"
  by (induction k dflt f m rule: um_upd.induct) auto

lemma keys_um_put [map_simps]: "fst ` set (um_put k v m) = insert k (fst ` set m)"
  by (simp add: um_put_def keys_um_upd)

lemma distinct_um_upd [inv_intros]:
  "distinct (map fst m) \<Longrightarrow> distinct (map fst (um_upd k dflt f m))"
proof (induction k dflt f m rule: um_upd.induct)
  case (2 k dflt f k' v m)
  then show ?case
    using keys_um_upd [of k dflt f m] by (auto simp flip: set_map)
qed simp

lemma distinct_um_put [inv_intros]:
  "distinct (map fst m) \<Longrightarrow> distinct (map fst (um_put k v m))"
  by (simp add: um_put_def distinct_um_upd)

lemma iteration_order_set: "iteration_order iter \<Longrightarrow> set (iter m) = set m"
  unfolding iteration_order_def by (metis set_mset_mset)

lemma iteration_order_distinct:
  assumes "iteration_order iter" "distinct (map fst m)"
  shows "distinct (map fst (iter m))"
proof -
  have "mset (map fst (iter m)) = mset (map fst m)"
    using assms(1) by (simp add: iteration_order_def mset_map)
  then show ?thesis using assms(2) mset_eq_imp_distinct_iff by blast
qed

lemma iteration_order_map_of:
  assumes "iteration_order iter" "distinct (map fst m)"
  shows "map_of (iter m) = map_of m"
  using iteration_order_set [OF assms(1)] iteration_order_distinct [OF assms] assms(2)
  by (intro map_of_eqI) (auto simp: map_of_eq_Some_iff)

lemma iteration_order_id: "iteration_order (\<lambda>m. m)"
  and iteration_order_rev: "iteration_order rev"
  by (simp_all add: iteration_order_def)

section \<open>Ordered maps\<close>

fun om_put :: "('k \<Rightarrow> 'k \<Rightarrow> bool) \<Rightarrow> 'k \<Rightarrow> 'v \<Rightarrow> ('k \<times> 'v) list \<Rightarrow> ('k \<times> 'v) list" where
  "om_put lt k v [] = [(k, v)]"
| "om_put lt k v ((k', v') # m) =
     (if lt k k' then (k, v) # (k', v') # m
      else if lt k' k then (k', v') # om_put lt k v m
      else (k, v) # m)"

text \<open>\<open>m.erase(--m.end())\<close>: the last entry in key order.\<close>

definition om_erase_last :: "('k \<times> 'v) list \<Rightarrow> ('k \<times> 'v) list" where
  "om_erase_last m = butlast m"

definition om_sorted :: "('k \<Rightarrow> 'k \<Rightarrow> bool) \<Rightarrow> ('k \<times> 'v) list \<Rightarrow> bool" where
  "om_sorted lt m \<longleftrightarrow> sorted_wrt lt (map fst m)"

locale ordered_keys =
  fixes lt :: "'k \<Rightarrow> 'k \<Rightarrow> bool"
  assumes lt_irrefl: "\<not> lt k k"
    and lt_trans: "lt a b \<Longrightarrow> lt b c \<Longrightarrow> lt a c"
    and lt_total: "a \<noteq> b \<Longrightarrow> lt a b \<or> lt b a"
begin

lemma lt_asym: "lt a b \<Longrightarrow> \<not> lt b a"
  using lt_irrefl lt_trans by blast

lemma not_lt_eq: "\<not> lt a b \<Longrightarrow> \<not> lt b a \<Longrightarrow> a = b"
  using lt_total by blast

lemma om_sorted_Cons:
  "om_sorted lt ((k, v) # m) \<longleftrightarrow> (\<forall>k' \<in> fst ` set m. lt k k') \<and> om_sorted lt m"
  by (auto simp: om_sorted_def)

lemma om_sorted_Nil: "om_sorted lt []"
  by (simp add: om_sorted_def)

lemma sorted_distinct: "om_sorted lt m \<Longrightarrow> distinct (map fst m)"
proof (induction m)
  case (Cons e m)
  obtain k v where "e = (k, v)" by (cases e)
  with Cons show ?case by (auto simp: om_sorted_Cons lt_irrefl)
qed simp

lemma keys_put: "fst ` set (om_put lt k v m) = insert k (fst ` set m)"
proof (induction m)
  case (Cons e m)
  obtain k' v' where "e = (k', v')" by (cases e)
  with Cons show ?case using not_lt_eq [of k k'] by auto
qed simp

lemma map_of_put: "map_of (om_put lt k v m) = (map_of m)(k \<mapsto> v)"
proof (induction m)
  case (Cons e m)
  obtain k' v' where "e = (k', v')" by (cases e)
  with Cons show ?case
    using not_lt_eq [of k k'] lt_irrefl [of k] by (auto simp: fun_eq_iff)
qed simp

lemma map_fst_put: "om_sorted lt m \<Longrightarrow> k \<in> fst ` set m \<Longrightarrow> map fst (om_put lt k v m) = map fst m"
proof (induction m)
  case (Cons e m)
  obtain k' v' where "e = (k', v')" by (cases e)
  with Cons show ?case using lt_irrefl [of k] lt_asym [of k] not_lt_eq [of k k'] by (auto simp: om_sorted_Cons)
qed simp

lemma sorted_put: "om_sorted lt m \<Longrightarrow> om_sorted lt (om_put lt k v m)"
proof (induction m)
  case Nil
  then show ?case by (simp add: om_sorted_Cons om_sorted_Nil)
next
  case (Cons e m)
  obtain k' v' where e: "e = (k', v')" by (cases e)
  consider "lt k k'" | "\<not> lt k k'" "lt k' k" | "k = k'"
    using not_lt_eq by blast
  then show ?case
    using Cons e by cases (auto simp: om_sorted_Cons keys_put lt_irrefl intro: lt_trans)
qed

lemma length_put:
  assumes "om_sorted lt m"
  shows "length (om_put lt k v m) = (if k \<in> fst ` set m then length m else Suc (length m))"
proof -
  have len: "length m' = card (fst ` set m')" if "om_sorted lt m'" for m' :: "('k \<times> 'b) list"
    using distinct_card [OF sorted_distinct [OF that]] by simp
  have "length (om_put lt k v m) = card (insert k (fst ` set m))"
    using len [OF sorted_put [OF assms, of k v]] by (simp add: keys_put)
  then show ?thesis using len [OF assms] by (simp add: insert_absorb)
qed

lemma sorted_eqI:
  assumes "om_sorted lt m" "om_sorted lt m'" "map_of m = map_of m'"
  shows "m = m'"
  using assms
proof (induction m arbitrary: m')
  case Nil
  then show ?case by (metis map_of_eq_empty_iff)
next
  case (Cons e m)
  obtain k v where e: "e = (k, v)" by (cases e)
  have dom_eq: "fst ` set (e # m) = fst ` set m'"
    using Cons.prems(3) by (metis dom_map_of_conv_image_fst)
  then obtain k' v' n where m': "m' = (k', v') # n" by (cases m') auto
  have "k = k'"
  proof (rule ccontr)
    assume "k \<noteq> k'"
    with dom_eq e m' have "k \<in> fst ` set n" "k' \<in> fst ` set m" by auto
    with Cons.prems e m' have "lt k' k" "lt k k'" by (auto simp: om_sorted_Cons)
    then show False using lt_asym by blast
  qed
  moreover have "v = v'"
    using fun_cong [OF Cons.prems(3), of k] e m' \<open>k = k'\<close> by simp
  moreover have "map_of m = map_of n"
  proof
    fix x
    have "map_of m k = None" "map_of n k = None"
      using Cons.prems(1,2) e m' \<open>k = k'\<close> lt_irrefl
      by (auto simp: om_sorted_Cons map_of_eq_None_iff)
    then show "map_of m x = map_of n x"
      using fun_cong [OF Cons.prems(3), of x] e m' \<open>k = k'\<close> by (cases "x = k") auto
  qed
  ultimately show ?case
    using Cons.IH [of n] Cons.prems e m' by (auto simp: om_sorted_Cons)
qed

lemma sorted_erase_last: "om_sorted lt m \<Longrightarrow> om_sorted lt (om_erase_last m)"
  unfolding om_sorted_def om_erase_last_def
  by (cases m rule: rev_cases) (auto simp: sorted_wrt_append)

lemma map_of_erase_last:
  assumes "om_sorted lt (m @ [(k, v)])"
  shows "map_of (om_erase_last (m @ [(k, v)])) = (map_of (m @ [(k, v)]))(k := None)"
proof -
  have "map_of m k = None"
    using sorted_distinct [OF assms] by (auto simp: map_of_eq_None_iff)
  then show ?thesis by (auto simp: om_erase_last_def map_add_def fun_eq_iff split: option.splits)
qed

end

text \<open>The comparisons of the program: \<^verbatim>\<open>std::greater<uint64_t>\<close> on publish times,
  \<^verbatim>\<open>std::less\<close> on unsigned ids and on the process ids of the socket maps.\<close>

definition newer :: "u64 \<Rightarrow> u64 \<Rightarrow> bool" where
  "newer a b \<longleftrightarrow> b < a"

interpretation newest_first: ordered_keys newer
  by unfold_locales (auto simp: newer_def)

interpretation u32_less: ordered_keys "(<) :: u32 \<Rightarrow> u32 \<Rightarrow> bool"
  by unfold_locales auto

interpretation nat_less: ordered_keys "(<) :: nat \<Rightarrow> nat \<Rightarrow> bool"
  by unfold_locales auto

interpretation int_less: ordered_keys "(<) :: int \<Rightarrow> int \<Rightarrow> bool"
  by unfold_locales auto

end
