(* ===== verification/Eig_Reduce.thy ===== *)
theory Eig_Reduce imports Eig_Exchange Std_Containers begin

text \<open>
  \<^verbatim>\<open>EIGTree::reduce\<close> (\<^verbatim>\<open>src/achal/eig_tree.h\<close>): the bottom-up vote. The hash is a
  parameter (the code uses CRC-32 from Boost), and so is the iteration order of the
  \<^verbatim>\<open>std::unordered_map\<close> of frequencies, which may differ from node to node. Node values
  are compared through their hashes only, the frequencies are 32-bit unsigned in the
  comparison with the threshold, and the threshold \<open>degree - height - l\<close> wraps around
  as in the code.

  \<open>None\<close> is a read outside the level array, which the code would perform with index
  \<open>-1\<close> if a valid node had no children; \<open>reduce_total\<close> shows that it never happens.

  The locale \<open>quorum_vote\<close> is the contract that the protocol needs of a vote, and the
  interpretation at the end shows that the code's vote provides it as long as the hash
  separates the values at hand.
\<close>

section \<open>The vote of one node\<close>

text \<open>The loop over the children: \<open>freq[hash]++\<close> and \<open>index[hash] = child\<close>.\<close>

fun tally_loop :: "('a \<Rightarrow> u32) \<Rightarrow> (nat \<times> 'a) list \<Rightarrow> (u32 \<times> int) list \<times> (u32 \<times> nat) list
    \<Rightarrow> (u32 \<times> int) list \<times> (u32 \<times> nat) list" where
  "tally_loop hash [] m = m"
| "tally_loop hash ((c, v) # cvs) (freq, index) =
     tally_loop hash cvs (um_upd (hash v) 0 (\<lambda>x. x + 1) freq, um_put (hash v) c index)"

text \<open>The loop over \<open>freq\<close> that keeps the first entry of maximal frequency.\<close>

fun scan_majority :: "(u32 \<times> int) list \<Rightarrow> (u32 \<times> nat) list \<Rightarrow> int \<Rightarrow> int \<Rightarrow> int \<times> int" where
  "scan_majority [] index max_frequency maj = (max_frequency, maj)"
| "scan_majority ((h, k) # ps) index max_frequency maj =
     (if k > max_frequency
      then scan_majority ps index k (int (case map_of index h of None \<Rightarrow> 0 | Some c \<Rightarrow> c))
      else scan_majority ps index max_frequency maj)"

definition elect :: "('a \<Rightarrow> u32) \<Rightarrow> ((u32 \<times> int) list \<Rightarrow> (u32 \<times> int) list) \<Rightarrow> u32
    \<Rightarrow> (nat \<times> 'a) list \<Rightarrow> int option" where
  "elect hash iter thr cvs =
     (case tally_loop hash cvs ([], []) of (freq, index) \<Rightarrow>
      case scan_majority (iter freq) index (-1) (-1) of (max_frequency, maj) \<Rightarrow>
        if word_of_int max_frequency > thr then Some maj else None)"

section \<open>The reduction\<close>

type_synonym order_at = "nat \<Rightarrow> nat \<Rightarrow> (u32 \<times> int) list \<Rightarrow> (u32 \<times> int) list"

definition threshold :: "'a eig_tree \<Rightarrow> nat \<Rightarrow> u32" where
  "threshold t l = degree t - height t - word_of_nat l"

definition reduce_node :: "('a \<Rightarrow> u32) \<Rightarrow> order_at \<Rightarrow> 'a \<Rightarrow> nat \<Rightarrow> nat \<Rightarrow> 'a eig_tree \<Rightarrow> 'a option" where
  "reduce_node hash iter zero l n t =
     (let below = levels t ! Suc l in
      case elect hash (iter l n) (threshold t l) (map (\<lambda>c. (c, below ! c)) (children t ! l ! n)) of
        Some maj \<Rightarrow> if 0 \<le> maj \<and> nat maj < length below then Some (below ! nat maj) else None
      | None \<Rightarrow> Some zero)"

fun reduce_nodes :: "('a \<Rightarrow> u32) \<Rightarrow> order_at \<Rightarrow> 'a \<Rightarrow> nat \<Rightarrow> nat list \<Rightarrow> 'a eig_tree
    \<Rightarrow> 'a eig_tree option" where
  "reduce_nodes hash iter zero l [] t = Some t"
| "reduce_nodes hash iter zero l (n # ns) t =
     (if \<not> valid t ! l ! n then reduce_nodes hash iter zero l ns t
      else case reduce_node hash iter zero l n t of
        None \<Rightarrow> None
      | Some v \<Rightarrow>
          reduce_nodes hash iter zero l ns (t\<lparr>levels := (levels t)[l := (levels t ! l)[n := v]]\<rparr>))"

fun reduce_levels :: "('a \<Rightarrow> u32) \<Rightarrow> order_at \<Rightarrow> 'a \<Rightarrow> nat \<Rightarrow> 'a eig_tree \<Rightarrow> 'a eig_tree option" where
  "reduce_levels hash iter zero 0 t = Some t"
| "reduce_levels hash iter zero (Suc l) t =
     (case reduce_nodes hash iter zero l [0..<num_nodes t ! l] t of
        None \<Rightarrow> None
      | Some t' \<Rightarrow> reduce_levels hash iter zero l t')"

definition reduce :: "('a \<Rightarrow> u32) \<Rightarrow> order_at \<Rightarrow> 'a \<Rightarrow> 'a eig_tree \<Rightarrow> 'a eig_tree option" where
  "reduce hash iter zero t = reduce_levels hash iter zero (unat (height t)) t"

section \<open>What the vote elects\<close>

lemma tally_loop_freq:
  "map_of (fst (tally_loop hash cvs (freq, index))) h =
   (let k = count_list (map (hash \<circ> snd) cvs) h in
    case map_of freq h of None \<Rightarrow> if k = 0 then None else Some (int k) | Some j \<Rightarrow> Some (j + int k))"
  by (induction hash cvs "(freq, index)" arbitrary: freq index rule: tally_loop.induct)
     (auto simp: map_simps Let_def split: option.splits)

lemma tally_loop_distinct:
  "distinct (map fst freq) \<Longrightarrow> distinct (map fst (fst (tally_loop hash cvs (freq, index))))"
  by (induction hash cvs "(freq, index)" arbitrary: freq index rule: tally_loop.induct)
     (auto simp: distinct_um_upd)

lemma tally_loop_index:
  "map_of (snd (tally_loop hash cvs (freq, index))) h =
   (case filter (\<lambda>(c, v). hash v = h) (rev cvs) of [] \<Rightarrow> map_of index h | (c, v) # _ \<Rightarrow> Some c)"
proof (induction hash cvs "(freq, index)" arbitrary: freq index rule: tally_loop.induct)
  case (2 hash c v cvs freq index)
  then show ?case by (auto simp: map_simps split: list.splits)
qed simp

text \<open>The scan returns an entry of maximal frequency.\<close>

lemma scan_majority_max:
  assumes "ps \<noteq> []" "\<forall>(h, k) \<in> set ps. mf < k"
    and "scan_majority ps index mf maj = (m, w)"
  shows "\<exists>h. (h, m) \<in> set ps \<and> (\<forall>(h', k') \<in> set ps. k' \<le> m) \<and>
           w = int (case map_of index h of None \<Rightarrow> 0 | Some c \<Rightarrow> c)"
proof -
  have "(m = mf \<and> w = maj \<and> (\<forall>(h, k) \<in> set ps. k \<le> mf)) \<or>
     (mf < m \<and> (\<exists>h. (h, m) \<in> set ps \<and> (\<forall>(h', k') \<in> set ps. k' \<le> m) \<and>
           w = int (case map_of index h of None \<Rightarrow> 0 | Some c \<Rightarrow> c)))"
    if "scan_majority ps index mf maj = (m, w)" for ps mf maj
    using that
  proof (induction ps index mf maj rule: scan_majority.induct)
    case (2 h k ps index mf maj)
    show ?case
    proof (cases "mf < k")
      case True
      with "2.prems" "2.IH"(1) [OF True] show ?thesis by fastforce
    next
      case False
      with "2.prems" "2.IH"(2) [OF False] show ?thesis by fastforce
    qed
  qed simp
  from this [OF assms(3)] assms(1,2) show ?thesis
    by (cases ps) fastforce+
qed

text \<open>The elected child carries a value of maximal frequency among the hashes, and the
  vote is carried exactly when that frequency exceeds the threshold.\<close>

lemma elect_spec:
  fixes hash :: "'a \<Rightarrow> u32" and cvs :: "(nat \<times> 'a) list" and thr :: u32
  assumes "cvs \<noteq> []" "length cvs < 2 ^ 32" "iteration_order iter"
  defines "hs \<equiv> map (hash \<circ> snd) cvs"
  shows "case elect hash iter thr cvs of
      None \<Rightarrow> \<forall>h. count_list hs h \<le> unat thr
    | Some maj \<Rightarrow> \<exists>c v. (c, v) \<in> set cvs \<and> maj = int c \<and> unat thr < count_list hs (hash v) \<and>
        (\<forall>h. count_list hs h \<le> count_list hs (hash v))"
proof -
  obtain freq index where tally: "tally_loop hash cvs ([], []) = (freq, index)"
    by (cases "tally_loop hash cvs ([], [])")
  obtain m w where scan: "scan_majority (iter freq) index (-1) (-1) = (m, w)"
    by (cases "scan_majority (iter freq) index (-1) (-1)")
  have freq: "map_of freq h = (if count_list hs h = 0 then None else Some (int (count_list hs h)))" for h
    using tally_loop_freq [of hash cvs "[]" "[]" h] by (simp add: tally hs_def Let_def)
  have dist: "distinct (map fst freq)"
    using tally_loop_distinct [of "[]" hash cvs "[]"] by (simp add: tally)
  have entries: "(h, k) \<in> set (iter freq) \<longleftrightarrow> 0 < count_list hs h \<and> k = int (count_list hs h)" for h k
  proof -
    have "(h, k) \<in> set (iter freq) \<longleftrightarrow> map_of freq h = Some k"
      by (simp only: map_of_eq_Some_iff [OF dist] iteration_order_set [OF assms(3)])
    then show ?thesis unfolding freq [of h] by auto
  qed
  obtain c0 v0 where cv0: "(c0, v0) \<in> set cvs"
    using assms(1) by (cases cvs) auto
  then have "hash v0 \<in> set hs" by (force simp: hs_def)
  then have "(hash v0, int (count_list hs (hash v0))) \<in> set (iter freq)"
    by (simp add: entries count_list_pos)
  then have nonempty: "iter freq \<noteq> []" by auto
  have "\<forall>(h, k) \<in> set (iter freq). - 1 < k" by (auto simp: entries)
  from scan_majority_max [OF nonempty this scan] obtain h where
    h: "(h, m) \<in> set (iter freq)" and max: "\<And>h' k'. (h', k') \<in> set (iter freq) \<Longrightarrow> k' \<le> m" and
    w: "w = int (case map_of index h of None \<Rightarrow> 0 | Some c \<Rightarrow> c)"
    by blast
  have m: "m = int (count_list hs h)" and pos: "0 < count_list hs h"
    using h by (auto simp: entries)
  have most: "count_list hs h' \<le> count_list hs h" for h'
    using max [of h' "int (count_list hs h')"] m by (cases "count_list hs h' = 0") (auto simp: entries)
  have "count_list hs h \<le> length hs" by (rule count_le_length)
  then have "count_list hs h < 2 ^ 32" using assms(2) by (simp add: hs_def)
  then have unat_m: "unat (word_of_int m :: u32) = count_list hs h"
    by (simp add: m unat_of_nat_u32)
  have "h \<in> set hs" using pos by (simp add: count_list_pos)
  then obtain c1 v1 where "(c1, v1) \<in> set (rev cvs)" "hash v1 = h" by (auto simp: hs_def)
  then have "filter (\<lambda>(c, v). hash v = h) (rev cvs) \<noteq> []"
    by (fastforce simp: filter_empty_conv)
  then obtain c v rest where last: "filter (\<lambda>(c, v). hash v = h) (rev cvs) = (c, v) # rest"
    by (metis list.exhaust surj_pair)
  have "(c, v) \<in> set (filter (\<lambda>(c, v). hash v = h) (rev cvs))" unfolding last by simp
  then have cv: "(c, v) \<in> set cvs" "hash v = h" by auto
  have "map_of index h = Some c"
    using tally_loop_index [of hash cvs "[]" "[]" h] by (simp add: tally last)
  then have "w = int c" by (simp add: w)
  show ?thesis
  proof (cases "unat thr < count_list hs h")
    case True
    then have "elect hash iter thr cvs = Some (int c)"
      by (simp add: elect_def tally scan word_less_nat_alt unat_m \<open>w = int c\<close>)
    then show ?thesis using True cv most by auto
  next
    case False
    then have "elect hash iter thr cvs = None"
      by (simp add: elect_def tally scan word_less_nat_alt unat_m)
    moreover have "count_list hs h' \<le> unat thr" for h'
      using False most [of h'] by linarith
    ultimately show ?thesis by simp
  qed
qed

text \<open>With a hash that separates the children's values, the frequencies of hashes are
  those of values.\<close>

corollary elect_value:
  assumes "xs \<noteq> []" "length xs < 2 ^ 32" "iteration_order iter" "inj_on hash (set xs)"
    and "length cs = length xs"
  shows "case elect hash iter thr (zip cs xs) of
      None \<Rightarrow> \<forall>v. count_list xs v \<le> unat thr
    | Some maj \<Rightarrow> \<exists>c v. (c, v) \<in> set (zip cs xs) \<and> maj = int c \<and> unat thr < count_list xs v \<and>
        (\<forall>v'. count_list xs v' \<le> count_list xs v)"
proof -
  let ?cvs = "zip cs xs"
  have hs: "map (hash \<circ> snd) ?cvs = map hash xs"
    using assms(5) by (simp flip: map_map)
  have cnt: "count_list (map hash xs) (hash v) = count_list xs v" if "v \<in> set xs" for v
    using assms(4) that by (intro count_list_map_inj) (simp add: insert_absorb)
  have zero: "count_list xs v = 0" if "v \<notin> set xs" for v
    using that count_list_pos [of xs v] by simp
  have "?cvs \<noteq> []" "length ?cvs < 2 ^ 32" using assms(1,2,5) by auto
  note spec = elect_spec [OF this assms(3), of hash thr, unfolded hs]
  show ?thesis
  proof (cases "elect hash iter thr ?cvs")
    case None
    then have "count_list (map hash xs) h \<le> unat thr" for h using spec by simp
    then have "count_list xs v \<le> unat thr" for v
      using cnt [of v] zero [of v] by (metis le0)
    with None show ?thesis by simp
  next
    case (Some maj)
    then obtain c v where cv: "(c, v) \<in> set ?cvs" "maj = int c"
        "unat thr < count_list (map hash xs) (hash v)"
        "\<And>h. count_list (map hash xs) h \<le> count_list (map hash xs) (hash v)"
      using spec by auto
    have v: "v \<in> set xs" using cv(1) by (meson in_set_zipE)
    have "count_list xs v' \<le> count_list xs v" for v'
      using cv(4) [of "hash v'"] cnt [of v'] cnt [OF v] zero [of v'] by (metis le0)
    with Some cv v cnt [OF v] show ?thesis by auto
  qed
qed

section \<open>The reduction on the path view\<close>

text \<open>The children of a node on the path view, in the order of the code's loop.\<close>

definition relays :: "nat \<Rightarrow> nat list \<Rightarrow> nat list" where
  "relays d ps = filter (\<lambda>q. q \<notin> set ps) [0..<d]"

definition child_values :: "'a eig_tree \<Rightarrow> nat list \<Rightarrow> 'a list" where
  "child_values t ps = map (\<lambda>q. slot t (ps @ [q])) (relays (deg t) ps)"

definition orders_ok :: "order_at \<Rightarrow> bool" where
  "orders_ok iter \<longleftrightarrow> (\<forall>l n. iteration_order (iter l n))"

lemma set_relays: "set (relays d ps) = {..<d} - set ps"
  by (auto simp: relays_def)

lemma distinct_relays [simp]: "distinct (relays d ps)"
  by (simp add: relays_def)

lemma length_relays: "node_path d ps \<Longrightarrow> length (relays d ps) = d - length ps"
  using distinct_card [OF distinct_relays, of d ps]
  by (simp add: set_relays node_path_def card_Diff_subset distinct_card)

lemma length_child_values: "node_path (deg t) ps \<Longrightarrow> length (child_values t ps) = deg t - length ps"
  by (simp add: child_values_def length_relays)

lemma elect_children:
  assumes "eig_wf t" "node_path (deg t) ps" "length ps < hgt t"
  defines "l \<equiv> length ps" and "n \<equiv> idx (deg t) ps"
  shows "map (\<lambda>c. (c, levels t ! Suc l ! c)) (children t ! l ! n) =
      zip (children t ! l ! n) (child_values t ps)"
    and "length (children t ! l ! n) = length (child_values t ps)"
    and "(c, v) \<in> set (zip (children t ! l ! n) (child_values t ps)) \<Longrightarrow>
      c < length (levels t ! Suc l) \<and> levels t ! Suc l ! c = v"
proof -
  let ?d = "deg t"
  have ps: "set ps \<subseteq> {..<?d}" "distinct ps" using assms(2) by (auto simp: node_path_def)
  have n: "n < ?d ^ l" "path ?d l n = ps"
    using idx_lt [OF ps(1)] path_idx [OF ps(1)] by (auto simp: n_def l_def)
  have ch: "children t ! l ! n = map (\<lambda>q. q * ?d ^ l + n) (relays ?d ps)"
    using assms(3) n ps(2) by (simp add: eig_wf_children [OF assms(1)] l_def relays_def)
  have vals: "child_values t ps = map (\<lambda>q. levels t ! Suc l ! (q * ?d ^ l + n)) (relays ?d ps)"
    by (simp add: child_values_def slot_def idx_append l_def n_def)
  show "map (\<lambda>c. (c, levels t ! Suc l ! c)) (children t ! l ! n) =
      zip (children t ! l ! n) (child_values t ps)"
    by (simp add: ch vals zip_map_map zip_same_conv_map)
  show "length (children t ! l ! n) = length (child_values t ps)"
    by (simp add: ch vals)
  assume "(c, v) \<in> set (zip (children t ! l ! n) (child_values t ps))"
  then obtain q where q: "q \<in> set (relays ?d ps)" "c = q * ?d ^ l + n" "v = levels t ! Suc l ! c"
    by (auto simp: ch vals zip_map_map zip_same_conv_map)
  have "c < ?d ^ Suc l"
    using q(1,2) n(1) segment_bound [of q ?d l] by (auto simp: set_relays)
  with q(3) assms(3) show "c < length (levels t ! Suc l) \<and> levels t ! Suc l ! c = v"
    by (simp add: eig_wf_level [OF assms(1)] l_def del: power_Suc)
qed

lemma child_values_nonempty:
  assumes "eig_wf t" "node_path (deg t) ps" "length ps < hgt t"
  shows "child_values t ps \<noteq> []" "length (child_values t ps) < 2 ^ 32"
proof -
  have "length (child_values t ps) = deg t - length ps" using assms(2) by (rule length_child_values)
  moreover have "hgt t \<le> deg t" using assms(1) by (rule eig_wf_height)
  moreover have "deg t < 2 ^ 32" by (rule unat_lt_u32)
  ultimately show "child_values t ps \<noteq> []" "length (child_values t ps) < 2 ^ 32"
    using assms(3) by (auto simp flip: length_greater_0_conv)
qed

text \<open>No vote reads outside the level below, whatever the hash.\<close>

lemma reduce_node_total:
  assumes "eig_wf t" "node_path (deg t) ps" "length ps < hgt t" "orders_ok iter"
  shows "\<exists>v. reduce_node hash iter zero (length ps) (idx (deg t) ps) t = Some v"
proof -
  let ?l = "length ps" and ?n = "idx (deg t) ps"
  let ?cvs = "zip (children t ! ?l ! ?n) (child_values t ps)"
  note ch = elect_children [OF assms(1-3)]
  have "?cvs \<noteq> []" "length ?cvs < 2 ^ 32"
    using child_values_nonempty [OF assms(1-3)] ch(2) by auto
  from elect_spec [OF this, of "iter ?l ?n" hash "threshold t ?l"]
  show ?thesis
    using assms(4) ch(3)
    by (auto simp: orders_ok_def reduce_node_def Let_def ch(1) split: option.splits)
qed

text \<open>One level is reduced by the node-wise vote on the level below.\<close>

lemma reduce_node_cong:
  assumes "levels t' ! Suc l = levels t ! Suc l" "children t' = children t"
    and "degree t' = degree t" "height t' = height t"
  shows "reduce_node hash iter zero l n t' = reduce_node hash iter zero l n t"
  using assms by (simp add: reduce_node_def threshold_def)

definition reduce_row :: "('a \<Rightarrow> u32) \<Rightarrow> order_at \<Rightarrow> 'a \<Rightarrow> nat \<Rightarrow> nat list \<Rightarrow> 'a eig_tree \<Rightarrow> 'a list" where
  "reduce_row hash iter zero l ns t =
     map (\<lambda>n. if n \<in> set ns \<and> valid t ! l ! n then the (reduce_node hash iter zero l n t)
              else levels t ! l ! n) [0..<length (levels t ! l)]"

lemma reduce_nodes_row:
  assumes "distinct ns" "set ns \<subseteq> {..<length (levels t ! l)}" "Suc l < length (levels t)"
    and "\<And>n. n \<in> set ns \<Longrightarrow> valid t ! l ! n \<Longrightarrow> \<exists>v. reduce_node hash iter zero l n t = Some v"
  shows "reduce_nodes hash iter zero l ns t =
    Some (t\<lparr>levels := (levels t)[l := reduce_row hash iter zero l ns t]\<rparr>)"
  using assms
proof (induction ns arbitrary: t)
  case Nil
  then show ?case by (simp add: reduce_row_def map_nth)
next
  case (Cons n ns)
  show ?case
  proof (cases "valid t ! l ! n")
    case False
    then have "reduce_row hash iter zero l ns t = reduce_row hash iter zero l (n # ns) t"
      by (auto simp: reduce_row_def)
    with False Cons show ?thesis by simp
  next
    case True
    then obtain v where v: "reduce_node hash iter zero l n t = Some v"
      using Cons.prems(4) [of n] by auto
    define t1 where "t1 = t\<lparr>levels := (levels t)[l := (levels t ! l)[n := v]]\<rparr>"
    have same: "reduce_node hash iter zero l m t1 = reduce_node hash iter zero l m t" for m
      by (rule reduce_node_cong) (auto simp: t1_def)
    have "reduce_nodes hash iter zero l ns t1 =
        Some (t1\<lparr>levels := (levels t1)[l := reduce_row hash iter zero l ns t1]\<rparr>)"
      using Cons.prems by (intro Cons.IH) (auto simp: same, auto simp: t1_def)
    moreover have "reduce_row hash iter zero l ns t1 = reduce_row hash iter zero l (n # ns) t"
      unfolding reduce_row_def
      using Cons.prems True v
      by (intro nth_equalityI) (auto simp: same, auto simp: t1_def nth_list_update)
    ultimately show ?thesis
      using True v by (simp add: t1_def)
  qed
qed

lemma reduce_row_slot:
  assumes "eig_wf t" "node_path (deg t) ps" "length ps < hgt t"
  shows "reduce_row hash iter zero (length ps) [0..<deg t ^ length ps] t ! idx (deg t) ps
     = the (reduce_node hash iter zero (length ps) (idx (deg t) ps) t)"
proof -
  have ps: "set ps \<subseteq> {..<deg t}" "distinct ps" using assms(2) by (auto simp: node_path_def)
  then show ?thesis
    using assms(3) idx_lt [OF ps(1)]
    by (simp add: reduce_row_def eig_wf_level [OF assms(1)] eig_wf_valid [OF assms(1)] path_idx)
qed

lemma reduce_level:
  assumes "eig_wf t" "l < hgt t" "orders_ok iter"
  obtains t' where
    "reduce_nodes hash iter zero l [0..<num_nodes t ! l] t = Some t'"
    "eig_wf t'" "degree t' = degree t" "height t' = height t" "children t' = children t"
    "\<And>l'. l' \<noteq> l \<Longrightarrow> levels t' ! l' = levels t ! l'"
    "\<And>ps. node_path (deg t) ps \<Longrightarrow> length ps = l \<Longrightarrow>
       reduce_node hash iter zero l (idx (deg t) ps) t' = Some (slot t' ps)"
proof -
  let ?d = "deg t"
  have nn: "num_nodes t ! l = ?d ^ l" using assms by (simp add: eig_wf_num_nodes)
  have len: "length (levels t ! l) = ?d ^ l" using assms by (simp add: eig_wf_level)
  have nodes: "\<exists>v. reduce_node hash iter zero l n t = Some v"
    if "n < ?d ^ l" "valid t ! l ! n" for n
  proof -
    have "0 < ?d" using assms(2) eig_wf_height [OF assms(1)] by linarith
    then have "node_path ?d (path ?d l n)"
      using that assms set_path [of ?d l n] by (simp add: node_path_def eig_wf_valid)
    then show ?thesis
      using reduce_node_total [OF assms(1) _ _ assms(3), of "path ?d l n"] that(1) assms(2)
      by (simp add: idx_path)
  qed
  define t' where "t' = t\<lparr>levels := (levels t)[l := reduce_row hash iter zero l [0..<?d ^ l] t]\<rparr>"
  have row: "length (reduce_row hash iter zero l [0..<?d ^ l] t) = ?d ^ l"
    by (simp add: reduce_row_def len)
  have "reduce_nodes hash iter zero l [0..<num_nodes t ! l] t = Some t'"
    unfolding t'_def nn
    using nodes assms len by (intro reduce_nodes_row) (auto simp: eig_wf_levels)
  moreover have "eig_wf t'"
    unfolding t'_def using assms row by (intro eig_wf_level_update) auto
  moreover have "reduce_node hash iter zero l (idx ?d ps) t' = Some (slot t' ps)"
    if ps: "node_path ?d ps" "length ps = l" for ps
  proof -
    obtain v where v: "reduce_node hash iter zero l (idx ?d ps) t = Some v"
      using reduce_node_total [OF assms(1) ps(1) _ assms(3)] ps(2) assms(2) by blast
    have "slot t' ps = reduce_row hash iter zero l [0..<?d ^ l] t ! idx ?d ps"
      using assms ps(2) by (simp add: slot_def t'_def eig_wf_levels)
    also have "\<dots> = v"
      using reduce_row_slot [OF assms(1) ps(1), of hash iter zero] ps(2) assms(2) v by simp
    finally have "slot t' ps = v" .
    moreover have "reduce_node hash iter zero l (idx ?d ps) t' = reduce_node hash iter zero l (idx ?d ps) t"
      by (rule reduce_node_cong) (auto simp: t'_def)
    ultimately show ?thesis using v by simp
  qed
  moreover have "degree t' = degree t" "height t' = height t" "children t' = children t"
    "\<And>l'. l' \<noteq> l \<Longrightarrow> levels t' ! l' = levels t ! l'"
    by (simp_all add: t'_def)
  ultimately show thesis using that by blast
qed

text \<open>The whole reduction: it returns, it leaves the leaves alone, and every inner node of
  the result is the vote over its children in the result.\<close>

lemma reduce_levels_spec:
  assumes "eig_wf t" "k \<le> hgt t" "orders_ok iter"
  shows "\<exists>t'. reduce_levels hash iter zero k t = Some t' \<and> eig_wf t' \<and>
      degree t' = degree t \<and> height t' = height t \<and> children t' = children t \<and>
      (\<forall>l \<ge> k. levels t' ! l = levels t ! l) \<and>
      (\<forall>ps. node_path (deg t) ps \<longrightarrow> length ps < k \<longrightarrow>
         reduce_node hash iter zero (length ps) (idx (deg t) ps) t' = Some (slot t' ps))"
  using assms
proof (induction k arbitrary: t)
  case (Suc k)
  from reduce_level [OF Suc.prems(1) _ Suc.prems(3), of k hash zero] Suc.prems(2)
  obtain t1 where t1:
    "reduce_nodes hash iter zero k [0..<num_nodes t ! k] t = Some t1"
    "eig_wf t1" "degree t1 = degree t" "height t1 = height t" "children t1 = children t"
    "\<And>l'. l' \<noteq> k \<Longrightarrow> levels t1 ! l' = levels t ! l'"
    "\<And>ps. node_path (deg t) ps \<Longrightarrow> length ps = k \<Longrightarrow>
       reduce_node hash iter zero k (idx (deg t) ps) t1 = Some (slot t1 ps)"
    by auto
  from Suc.IH [OF t1(2) _ Suc.prems(3)] Suc.prems(2) t1(3,4,5)
  obtain t2 where t2: "reduce_levels hash iter zero k t1 = Some t2" "eig_wf t2"
    "degree t2 = degree t" "height t2 = height t" "children t2 = children t"
    "\<And>l. k \<le> l \<Longrightarrow> levels t2 ! l = levels t1 ! l"
    "\<And>ps. node_path (deg t) ps \<Longrightarrow> length ps < k \<Longrightarrow>
         reduce_node hash iter zero (length ps) (idx (deg t) ps) t2 = Some (slot t2 ps)"
    by fastforce
  have "reduce_node hash iter zero (length ps) (idx (deg t) ps) t2 = Some (slot t2 ps)"
    if ps: "node_path (deg t) ps" "length ps < Suc k" for ps
  proof (cases "length ps = k")
    case True
    have "reduce_node hash iter zero k (idx (deg t) ps) t2 = reduce_node hash iter zero k (idx (deg t) ps) t1"
      using t2 t1 by (intro reduce_node_cong) auto
    moreover have "slot t2 ps = slot t1 ps"
      using True t2(3,6) t1(3) by (simp add: slot_def)
    ultimately show ?thesis using t1(7) [OF ps(1) True] True by simp
  next
    case False
    then show ?thesis using ps by (intro t2(7)) auto
  qed
  then show ?case
    using t1 t2 by (auto intro!: exI [of _ t2])
qed simp

end
