(* ===== verification/Eig_Vote.thy ===== *)
theory Eig_Vote imports Eig_Reduce begin

text \<open>
  What the protocol needs of the vote of \<^verbatim>\<open>EIGTree::reduce\<close>, as the locale
  \<open>quorum_vote\<close>, and what the protocol gets from it: agreement and validity of the
  recursive resolution of an information-gathering tree. The locale is interpreted on the
  model of the code's vote (\<open>tree_vote\<close>), and the reduction of the arrays is shown to
  refine the recursive resolution (\<open>reduce_resolves\<close>).
\<close>

section \<open>The contract of a vote\<close>

text \<open>The index \<open>i\<close> stands for whatever the vote may depend on besides its input (in the
  code the iteration order of the hash table); \<open>separated\<close> says that the values of a set
  can be told apart.\<close>

locale quorum_vote =
  fixes vote :: "'i \<Rightarrow> u32 \<Rightarrow> 'v list \<Rightarrow> 'v"
    and fair :: "'i \<Rightarrow> bool"
    and separated :: "'v set \<Rightarrow> bool"
    and zero :: 'v
  assumes quorum: "fair i \<Longrightarrow> separated V \<Longrightarrow> set xs \<subseteq> V \<Longrightarrow> length xs < 2 ^ 32 \<Longrightarrow>
      length xs \<le> 2 * unat thr + 1 \<Longrightarrow> unat thr < count_list xs v \<Longrightarrow> vote i thr xs = v"
    and no_quorum: "fair i \<Longrightarrow> separated V \<Longrightarrow> set xs \<subseteq> V \<Longrightarrow> xs \<noteq> [] \<Longrightarrow> length xs < 2 ^ 32 \<Longrightarrow>
      (\<And>v. count_list xs v \<le> unat thr) \<Longrightarrow> vote i thr xs = zero"
begin

lemma votes_agree:
  assumes "fair i" "fair j" "separated V" "set xs \<subseteq> V" "xs \<noteq> []"
    and "length xs < 2 ^ 32" "length xs \<le> 2 * unat thr + 1"
  shows "vote i thr xs = vote j thr xs"
proof (cases "\<exists>v. unat thr < count_list xs v")
  case True
  then obtain v where "unat thr < count_list xs v" by blast
  then show ?thesis using assms quorum [of i V xs thr v] quorum [of j V xs thr v] by simp
next
  case False
  then have "count_list xs v \<le> unat thr" for v by (simp add: not_less)
  then show ?thesis using assms no_quorum [of i V xs thr] no_quorum [of j V xs thr] by simp
qed

lemma vote_in:
  assumes "fair i" "separated V" "set xs \<subseteq> V" "xs \<noteq> []" "zero \<in> V"
    and "length xs < 2 ^ 32" "length xs \<le> 2 * unat thr + 1"
  shows "vote i thr xs \<in> V"
proof (cases "\<exists>v. unat thr < count_list xs v")
  case True
  then obtain v where v: "unat thr < count_list xs v" by blast
  then have "v \<in> set xs" using count_list_pos [of xs v] by simp
  with v show ?thesis using assms quorum [of i V xs thr v] by auto
next
  case False
  then have "count_list xs v \<le> unat thr" for v by (simp add: not_less)
  then show ?thesis using assms no_quorum [of i V xs thr] by simp
qed

end

section \<open>Resolution of a tree\<close>

text \<open>\<open>resolve vote d val k ps\<close> is the value of the node \<open>ps\<close> with \<open>k\<close> levels below it,
  when the leaves hold \<open>val\<close>.\<close>

fun resolve :: "(nat list \<Rightarrow> 'v list \<Rightarrow> 'v) \<Rightarrow> nat \<Rightarrow> (nat list \<Rightarrow> 'v) \<Rightarrow> nat \<Rightarrow> nat list \<Rightarrow> 'v" where
  "resolve vote d val 0 ps = val ps"
| "resolve vote d val (Suc k) ps =
     vote ps (map (\<lambda>q. resolve vote d val k (ps @ [q])) (relays d ps))"

text \<open>The assignments that a round of relays leaves at the correct processes: a correct
  relay \<open>q\<close> tells everybody what it holds for \<open>ps\<close>.\<close>

definition relayed :: "nat \<Rightarrow> nat \<Rightarrow> nat set \<Rightarrow> (nat \<Rightarrow> nat list \<Rightarrow> 'v) \<Rightarrow> bool" where
  "relayed d h C val \<longleftrightarrow>
     (\<forall>i \<in> C. \<forall>q \<in> C. \<forall>ps. node_path d (ps @ [q]) \<longrightarrow> length ps < h \<longrightarrow> val i (ps @ [q]) = val q ps)"

text \<open>The resilience of the tree: \<open>C\<close> are the correct processes.\<close>

definition resilient :: "nat \<Rightarrow> nat \<Rightarrow> nat set \<Rightarrow> (nat \<Rightarrow> u32) \<Rightarrow> bool" where
  "resilient d h C thr \<longleftrightarrow>
     C \<subseteq> {..<d} \<and> card ({..<d} - C) < h \<and> 3 * (h - 1) < d \<and> d < 2 ^ 32 \<and>
     (\<forall>l<h. unat (thr l) = d - h - l)"

lemma relays_resilient:
  assumes "resilient d h C thr" "node_path d ps" "length ps < h"
  shows "length (relays d ps) \<le> 2 * unat (thr (length ps)) + 1"
    and "length (relays d ps) < 2 ^ 32" "relays d ps \<noteq> []"
    and "unat (thr (length ps)) < length (filter (\<lambda>q. q \<in> C) (relays d ps))"
proof -
  have h: "3 * (h - 1) < d" "d < 2 ^ 32" "unat (thr (length ps)) = d - h - length ps"
    using assms by (auto simp: resilient_def)
  note len = length_relays [OF assms(2)]
  show "length (relays d ps) \<le> 2 * unat (thr (length ps)) + 1" "length (relays d ps) < 2 ^ 32"
    unfolding len h(3) using h(1,2) assms(3) by arith+
  show "relays d ps \<noteq> []"
    using len h(1) assms(3) by (auto simp flip: length_0_conv)
  let ?F = "{..<d} - C"
  have "length (relays d ps) = length (filter (\<lambda>q. q \<in> C) (relays d ps))
      + length (filter (\<lambda>q. q \<notin> C) (relays d ps))"
    by (rule sum_length_filter_compl [symmetric])
  moreover have F: "set (filter (\<lambda>q. q \<notin> C) (relays d ps)) \<subseteq> ?F"
    by (auto simp: set_relays)
  have "length (filter (\<lambda>q. q \<notin> C) (relays d ps)) \<le> card ?F"
    using distinct_card [of "filter (\<lambda>q. q \<notin> C) (relays d ps)"]
    by (metis F card_mono distinct_filter distinct_relays finite_Diff finite_lessThan)
  moreover have "card ?F < h" using assms(1) by (simp add: resilient_def)
  ultimately show "unat (thr (length ps)) < length (filter (\<lambda>q. q \<in> C) (relays d ps))"
    unfolding h(3) len using assms(3) h(1) by arith
qed

context quorum_vote
begin

abbreviation resolved :: "(nat list \<Rightarrow> 'i) \<Rightarrow> (nat \<Rightarrow> u32) \<Rightarrow> nat \<Rightarrow> (nat list \<Rightarrow> 'v) \<Rightarrow> nat \<Rightarrow> nat list \<Rightarrow> 'v" where
  "resolved ord thr d val \<equiv> resolve (\<lambda>ps. vote (ord ps) (thr (length ps))) d val"

lemma resolved_in:
  assumes "resilient d h C thr" "separated V" "zero \<in> V" "\<forall>ps. fair (ord ps)"
    and "\<forall>ps. node_path d ps \<longrightarrow> length ps = h \<longrightarrow> val ps \<in> V"
    and "node_path d ps" "length ps + k = h"
  shows "resolved ord thr d val k ps \<in> V"
  using assms(6,7)
proof (induction k arbitrary: ps)
  case (Suc k)
  then have "resolved ord thr d val k (ps @ [q]) \<in> V" if "q \<in> set (relays d ps)" for q
    using that by (intro Suc.IH) (auto simp: node_path_snoc set_relays)
  then show ?case
    using Suc.prems relays_resilient [OF assms(1) Suc.prems(1)] assms
    by (auto intro!: vote_in)
qed (use assms in auto)

lemma resolved_children_in:
  assumes "resilient d h C thr" "separated V" "zero \<in> V" "\<forall>ps. fair (ord ps)"
    and "\<forall>ps. node_path d ps \<longrightarrow> length ps = h \<longrightarrow> val ps \<in> V"
    and "node_path d ps" "length ps + Suc k = h"
  shows "set (map (\<lambda>r. resolved ord thr d val k (ps @ [r])) (relays d ps)) \<subseteq> V"
  using assms(6,7)
  by (auto intro!: resolved_in [OF assms(1-5)] simp: node_path_snoc set_relays)

text \<open>Every correct process resolves a node that a correct process relayed to what it
  relayed.\<close>

lemma correct_relay:
  assumes "resilient d h C thr" "separated V" "zero \<in> V" "\<forall>i ps. fair (ord i ps)"
    and "\<forall>i ps. node_path d ps \<longrightarrow> length ps = h \<longrightarrow> val i ps \<in> V" "relayed d h C val"
    and "i \<in> C" "q \<in> C" "node_path d (ps @ [q])" "Suc (length ps) + k = h"
  shows "resolved (ord i) thr d (val i) k (ps @ [q]) = val q ps"
  using assms(8-10)
proof (induction k arbitrary: q ps)
  case 0
  then show ?case using assms(6,7) by (simp add: relayed_def)
next
  case (Suc k)
  let ?ps = "ps @ [q]"
  let ?xs = "map (\<lambda>r. resolved (ord i) thr d (val i) k (?ps @ [r])) (relays d ?ps)"
  note quo = relays_resilient [OF assms(1) Suc.prems(2)]
  have child: "resolved (ord i) thr d (val i) k (?ps @ [r]) = val q ps"
    if "r \<in> set (relays d ?ps)" "r \<in> C" for r
  proof -
    have np: "node_path d (?ps @ [r])"
      using that Suc.prems(2) by (subst node_path_snoc) (auto simp: set_relays)
    have "resolved (ord i) thr d (val i) k (?ps @ [r]) = val r ?ps"
      using that np Suc.prems by (intro Suc.IH) auto
    also have "\<dots> = val q ps"
      using assms(6) [unfolded relayed_def, rule_format, OF that(2) Suc.prems(1), of ps] Suc.prems(2,3)
      by simp
    finally show ?thesis .
  qed
  have "length (filter (\<lambda>r. r \<in> C) (relays d ?ps))
      \<le> length (filter (\<lambda>r. resolved (ord i) thr d (val i) k (?ps @ [r]) = val q ps) (relays d ?ps))"
    using child by (intro length_filter_mono) auto
  then have "unat (thr (length ?ps)) < count_list ?xs (val q ps)"
    using quo(4) Suc.prems by (simp add: count_list_filter filter_map o_def eq_commute)
  moreover have "set ?xs \<subseteq> V"
    using assms(4,5) Suc.prems by (intro resolved_children_in [OF assms(1-3)]) auto
  ultimately show ?case
    using quo Suc.prems assms(2,4) by (auto intro!: quorum)
qed

text \<open>All correct processes resolve every node to the same value, whoever relayed it.\<close>

lemma common_value:
  assumes "resilient d h C thr" "separated V" "zero \<in> V" "\<forall>i ps. fair (ord i ps)"
    and "\<forall>i ps. node_path d ps \<longrightarrow> length ps = h \<longrightarrow> val i ps \<in> V" "relayed d h C val"
    and "i \<in> C" "j \<in> C" "node_path d ps" "set ps \<inter> C = {}" "length ps + k = h"
  shows "resolved (ord i) thr d (val i) k ps = resolved (ord j) thr d (val j) k ps"
  using assms(9-11)
proof (induction k arbitrary: ps)
  case 0
  have "card (set ps) \<le> card ({..<d} - C)"
    using 0 by (intro card_mono) (auto simp: node_path_def)
  then show ?case
    using 0 assms(1) by (simp add: resilient_def node_path_def distinct_card)
next
  case (Suc k)
  note quo = relays_resilient [OF assms(1) Suc.prems(1)]
  have child: "resolved (ord i) thr d (val i) k (ps @ [r]) = resolved (ord j) thr d (val j) k (ps @ [r])"
    if "r \<in> set (relays d ps)" for r
  proof (cases "r \<in> C")
    case True
    then show ?thesis
      using that Suc.prems assms(7,8)
        correct_relay [OF assms(1-6) assms(7) True, of ps k] correct_relay [OF assms(1-6) assms(8) True, of ps k]
      by (auto simp: node_path_snoc set_relays)
  next
    case False
    then show ?thesis
      using that Suc.prems by (intro Suc.IH) (auto simp: node_path_snoc set_relays)
  qed
  then have same: "map (\<lambda>r. resolved (ord i) thr d (val i) k (ps @ [r])) (relays d ps) =
      map (\<lambda>r. resolved (ord j) thr d (val j) k (ps @ [r])) (relays d ps)"
    by (intro map_cong) auto
  have "set (map (\<lambda>r. resolved (ord i) thr d (val i) k (ps @ [r])) (relays d ps)) \<subseteq> V"
    using assms(4,5) Suc.prems by (intro resolved_children_in [OF assms(1-3)]) auto
  then have "vote (ord i ps) (thr (length ps)) (map (\<lambda>r. resolved (ord i) thr d (val i) k (ps @ [r])) (relays d ps))
      = vote (ord j ps) (thr (length ps)) (map (\<lambda>r. resolved (ord i) thr d (val i) k (ps @ [r])) (relays d ps))"
    using quo Suc.prems assms(2,4) by (intro votes_agree) auto
  then show ?case by (simp only: resolve.simps same)
qed

text \<open>Together, at the level of the originators.\<close>

lemma interactive_consistency:
  assumes "resilient d h C thr" "separated V" "zero \<in> V" "\<forall>i ps. fair (ord i ps)"
    and "\<forall>i ps. node_path d ps \<longrightarrow> length ps = h \<longrightarrow> val i ps \<in> V" "relayed d h C val"
    and "i \<in> C" "j \<in> C" "p < d"
  shows "resolved (ord i) thr d (val i) (h - 1) [p] = resolved (ord j) thr d (val j) (h - 1) [p]"
    and "p \<in> C \<Longrightarrow> resolved (ord i) thr d (val i) (h - 1) [p] = val p []"
proof -
  have h: "0 < h" using assms(1) by (auto simp: resilient_def)
  have np: "node_path d [p]" using assms(9) by (simp add: node_path_def)
  show valid: "resolved (ord i) thr d (val i) (h - 1) [p] = val p []" if "p \<in> C"
    using correct_relay [OF assms(1-7) that, of "[]" "h - 1"] np h by simp
  show "resolved (ord i) thr d (val i) (h - 1) [p] = resolved (ord j) thr d (val j) (h - 1) [p]"
  proof (cases "p \<in> C")
    case True
    then show ?thesis
      using valid correct_relay [OF assms(1-6) assms(8) True, of "[]" "h - 1"] np h by simp
  next
    case False
    then show ?thesis using common_value [OF assms(1-8) np, of "h - 1"] h by simp
  qed
qed

end

section \<open>The vote of the code\<close>

text \<open>The value that one node gets from the values \<open>xs\<close> of its children.\<close>

definition tree_vote :: "('v \<Rightarrow> u32) \<Rightarrow> 'v \<Rightarrow> ((u32 \<times> int) list \<Rightarrow> (u32 \<times> int) list) \<Rightarrow> u32
    \<Rightarrow> 'v list \<Rightarrow> 'v" where
  "tree_vote hash zero iter thr xs =
     (case elect hash iter thr (zip [0..<length xs] xs) of None \<Rightarrow> zero | Some m \<Rightarrow> xs ! nat m)"

lemma tree_vote_spec:
  assumes "xs \<noteq> []" "length xs < 2 ^ 32" "iteration_order iter" "inj_on hash (set xs)"
  shows "(\<forall>v. count_list xs v \<le> unat thr) \<and> tree_vote hash zero iter thr xs = zero \<or>
     unat thr < count_list xs (tree_vote hash zero iter thr xs) \<and>
     (\<forall>v. count_list xs v \<le> count_list xs (tree_vote hash zero iter thr xs))"
proof -
  have val: "xs ! c = v" if "(c, v) \<in> set (zip [0..<length xs] xs)" for c v
    using that by (auto simp: in_set_zip)
  show ?thesis
    using elect_value [OF assms, of "[0..<length xs]" thr]
    by (fastforce simp: tree_vote_def dest: val split: option.splits)
qed

interpretation hash_vote: quorum_vote "tree_vote hash zero" iteration_order "inj_on hash" zero
  for hash :: "'v \<Rightarrow> u32" and zero :: 'v
proof
  fix i :: "(u32 \<times> int) list \<Rightarrow> (u32 \<times> int) list" and V xs and thr :: u32 and v :: 'v
  assume *: "iteration_order i" "inj_on hash V" "set xs \<subseteq> V" "length xs < 2 ^ 32"
    "length xs \<le> 2 * unat thr + 1" "unat thr < count_list xs v"
  let ?w = "tree_vote hash zero i thr xs"
  have "xs \<noteq> []" using *(6) by auto
  from tree_vote_spec [OF this *(4,1) inj_on_subset [OF *(2,3)], of thr zero] *(6)
  have "unat thr < count_list xs ?w" by (auto simp: not_le [symmetric])
  then show "?w = v"
    using *(5,6) count_list_two [of "?w" v xs] by (cases "?w = v") auto
next
  fix i :: "(u32 \<times> int) list \<Rightarrow> (u32 \<times> int) list" and V and xs :: "'v list" and thr :: u32
  assume *: "iteration_order i" "inj_on hash V" "set xs \<subseteq> V" "xs \<noteq> []" "length xs < 2 ^ 32"
    "\<And>v. count_list xs v \<le> unat thr"
  from tree_vote_spec [OF *(4,5,1) inj_on_subset [OF *(2,3)], of thr zero] *(6)
  show "tree_vote hash zero i thr xs = zero" by (auto simp: not_le [symmetric])
qed

section \<open>The reduction refines the resolution\<close>

text \<open>Renumbering the children renumbers the elected one.\<close>

lemma um_put_relabel:
  "um_put k (f v) (map (apsnd f) m) = map (apsnd f) (um_put k v m)"
  unfolding um_put_def by (induction m) auto

lemma map_of_relabel: "map_of (map (apsnd f) m) k = map_option f (map_of m k)"
  by (induction m) auto

lemma tally_loop_relabel:
  "tally_loop hash (map (apfst f) cvs) (freq, map (apsnd f) index) =
   apsnd (map (apsnd f)) (tally_loop hash cvs (freq, index))"
  by (induction hash cvs "(freq, index)" arbitrary: freq index rule: tally_loop.induct)
     (auto simp: um_put_relabel)

lemma scan_majority_relabel:
  assumes "fst ` set ps \<subseteq> dom (map_of index)"
  shows "scan_majority ps (map (apsnd f) index) mf (if maj < 0 then maj else int (f (nat maj))) =
   apsnd (\<lambda>m. if m < 0 then m else int (f (nat m))) (scan_majority ps index mf maj)"
  using assms
proof (induction ps index mf maj rule: scan_majority.induct)
  case (2 h k ps index mf maj)
  then obtain c where c: "map_of index h = Some c" by auto
  then show ?case
    using "2.IH" "2.prems" by (cases "mf < k") (auto simp: map_of_relabel)
qed simp

lemma tally_loop_index_dom:
  "dom (map_of (snd (tally_loop hash cvs ([], [])))) = dom (map_of (fst (tally_loop hash cvs ([], []))))"
proof -
  have "dom (map_of (fst (tally_loop hash cvs (freq, index)))) = dom (map_of freq) \<union> hash ` snd ` set cvs"
    "dom (map_of (snd (tally_loop hash cvs (freq, index)))) = dom (map_of index) \<union> hash ` snd ` set cvs"
    for freq index
    by (induction hash cvs "(freq, index)" arbitrary: freq index rule: tally_loop.induct)
       (auto simp: map_simps)
  then show ?thesis by simp
qed

lemma elect_relabel:
  assumes "iteration_order iter"
  shows "elect hash iter thr (map (apfst f) cvs) =
    map_option (\<lambda>m. if m < 0 then m else int (f (nat m))) (elect hash iter thr cvs)"
proof -
  obtain freq index where tally: "tally_loop hash cvs ([], []) = (freq, index)"
    by (cases "tally_loop hash cvs ([], [])")
  have "fst ` set (iter freq) \<subseteq> dom (map_of index)"
    using tally_loop_index_dom [of hash cvs]
    by (simp add: tally iteration_order_set [OF assms] dom_map_of_conv_image_fst)
  from scan_majority_relabel [OF this, of f "-1" "-1"] tally_loop_relabel [of hash f cvs "[]" "[]"]
  show ?thesis
    by (auto simp: elect_def tally split: prod.splits)
qed

text \<open>The vote that the code takes at the node of a path.\<close>

definition path_vote :: "('v \<Rightarrow> u32) \<Rightarrow> 'v \<Rightarrow> order_at \<Rightarrow> 'v eig_tree \<Rightarrow> nat list \<Rightarrow> 'v list \<Rightarrow> 'v" where
  "path_vote hash zero iter t ps =
     tree_vote hash zero (iter (length ps) (idx (deg t) ps)) (threshold t (length ps))"

lemma reduce_node_vote:
  assumes "eig_wf t" "node_path (deg t) ps" "length ps < hgt t" "orders_ok iter"
  shows "reduce_node hash iter zero (length ps) (idx (deg t) ps) t =
    Some (path_vote hash zero iter t ps (child_values t ps))"
proof -
  let ?xs = "child_values t ps" and ?cs = "children t ! length ps ! idx (deg t) ps"
  let ?zip = "zip [0..<length ?xs] ?xs" and ?i = "iter (length ps) (idx (deg t) ps)"
  note ch = elect_children [OF assms(1-3)]
  have ok: "iteration_order ?i" using assms(4) by (simp add: orders_ok_def)
  have relabel: "zip ?cs ?xs = map (apfst ((!) ?cs)) ?zip"
    using ch(2) by (intro nth_equalityI) auto
  have "?zip \<noteq> []" "length ?zip < 2 ^ 32" using child_values_nonempty [OF assms(1-3)] by auto
  note spec = elect_spec [OF this ok, of hash "threshold t (length ps)"]
  show ?thesis
  proof (cases "elect hash ?i (threshold t (length ps)) ?zip")
    case None
    then show ?thesis
      by (simp add: reduce_node_def Let_def ch(1) relabel elect_relabel [OF ok] path_vote_def tree_vote_def)
  next
    case (Some m)
    then obtain c v where cv: "(c, v) \<in> set ?zip" "m = int c" using spec by auto
    then have c: "c < length ?xs" "?xs ! c = v" by (auto simp: in_set_zip)
    then have "(?cs ! c, v) \<in> set (zip ?cs ?xs)" using ch(2) by (auto simp: in_set_zip)
    from ch(3) [OF this] Some cv(2) c show ?thesis
      by (simp add: reduce_node_def Let_def ch(1) relabel elect_relabel [OF ok] path_vote_def tree_vote_def)
  qed
qed

lemma reduce_slots:
  assumes "eig_wf t" "orders_ok iter"
  shows "\<exists>t'. reduce hash iter zero t = Some t' \<and> eig_wf t' \<and> degree t' = degree t \<and> height t' = height t \<and>
    (\<forall>ps k. node_path (deg t) ps \<longrightarrow> length ps + k = hgt t \<longrightarrow>
       slot t' ps = resolve (path_vote hash zero iter t) (deg t) (slot t) k ps)"
proof -
  from reduce_levels_spec [OF assms(1) order_refl assms(2), of hash zero]
  obtain t' where t': "reduce hash iter zero t = Some t'" "eig_wf t'" "degree t' = degree t"
    "height t' = height t" "children t' = children t" "levels t' ! hgt t = levels t ! hgt t"
    and node: "\<And>ps. node_path (deg t) ps \<Longrightarrow> length ps < hgt t \<Longrightarrow>
         reduce_node hash iter zero (length ps) (idx (deg t) ps) t' = Some (slot t' ps)"
    unfolding reduce_def by blast
  have "slot t' ps = resolve (path_vote hash zero iter t) (deg t) (slot t) k ps"
    if "node_path (deg t) ps" "length ps + k = hgt t" for ps k
    using that
  proof (induction k arbitrary: ps)
    case 0
    then show ?case using t'(3,6) by (simp add: slot_def)
  next
    case (Suc k)
    have "slot t' (ps @ [q]) = resolve (path_vote hash zero iter t) (deg t) (slot t) k (ps @ [q])"
      if "q \<in> set (relays (deg t) ps)" for q
      using that Suc.prems by (intro Suc.IH) (auto simp: node_path_snoc set_relays)
    then have kids: "child_values t' ps =
        map (\<lambda>q. resolve (path_vote hash zero iter t) (deg t) (slot t) k (ps @ [q])) (relays (deg t) ps)"
      by (simp add: child_values_def t'(3))
    have "Some (slot t' ps) = Some (path_vote hash zero iter t' ps (child_values t' ps))"
      using node [OF Suc.prems(1)] reduce_node_vote [OF t'(2) _ _ assms(2), of ps hash zero] Suc.prems t'(3,4)
      by simp
    moreover have "path_vote hash zero iter t' = path_vote hash zero iter t"
      using t'(3,4) by (simp add: fun_eq_iff path_vote_def threshold_def)
    ultimately show ?case by (simp add: kids)
  qed
  with t' show ?thesis by blast
qed

end
