(* ===== verification/Bft_Rounds.thy ===== *)
theory Bft_Rounds imports Eig_Vote begin

text \<open>
  The exchange of \<^verbatim>\<open>BFTKVS::job\<close> (\<^verbatim>\<open>src/achal/bft_kvs.h\<close>): the loop over the rounds,
  seen from one process (\<open>outgoing\<close>, \<open>round_receive\<close>) and for a cluster of processes that
  run it in lock step (\<open>cluster_round\<close>, \<open>cluster_rounds\<close>).

  What the network does is a parameter. \<open>chan l p i\<close> turns the payload that \<open>p\<close> hands to
  its socket for \<open>i\<close> in round \<open>l\<close> into the one that \<open>i\<close> reads before its timer fires; a
  lost or cut payload is a shorter list. \<open>arrive l i\<close> is the order in which the reads of
  \<open>i\<close> complete. The theorems ask of the correct processes only: that what they tell each
  other arrives in time and unchanged.
\<close>

section \<open>One process\<close>

text \<open>A \<^verbatim>\<open>lie_function_t\<close> returns the bytes to send instead of the real ones, or \<open>NULL\<close>.
  It is told the length of the payload in bytes; its answer is read as slots.\<close>

type_synonym 'a lie_function = "nat \<Rightarrow> u64 \<Rightarrow> nat \<Rightarrow> 'a list option"

definition outgoing :: "nat \<Rightarrow> 'a lie_function option \<Rightarrow> u64 \<Rightarrow> nat \<Rightarrow> nat \<Rightarrow> nat \<Rightarrow> 'a eig_tree \<Rightarrow> 'a list" where
  "outgoing size_T lie num_jobs l me pid t =
     (let len = buffer_length_optimized size_T l pid t;
          faulty_data = (case lie of None \<Rightarrow> None | Some f \<Rightarrow> f me num_jobs len)
      in case faulty_data of
           Some bytes \<Rightarrow> bytes
         | None \<Rightarrow> send_buffer_optimized l me t)"

fun round_receive :: "nat \<Rightarrow> (nat \<Rightarrow> 'a list) \<Rightarrow> nat list \<Rightarrow> 'a eig_tree \<Rightarrow> 'a eig_tree" where
  "round_receive l inbox [] t = t"
| "round_receive l inbox (p # ps) t = round_receive l inbox ps (deliver l p (inbox p) t)"

section \<open>The cluster\<close>

definition cluster_round :: "nat \<Rightarrow> (nat \<Rightarrow> 'a lie_function option) \<Rightarrow> u64
    \<Rightarrow> (nat \<Rightarrow> nat \<Rightarrow> nat \<Rightarrow> 'a list \<Rightarrow> 'a list) \<Rightarrow> (nat \<Rightarrow> nat \<Rightarrow> nat list)
    \<Rightarrow> nat \<Rightarrow> (nat \<Rightarrow> 'a eig_tree) \<Rightarrow> nat \<Rightarrow> 'a eig_tree" where
  "cluster_round size_T lie num_jobs chan arrive l trees i =
     (let copied = (\<lambda>p. copy_current_level l p (trees p))
      in round_receive l
           (\<lambda>p. chan l p i (outgoing size_T (lie p) num_jobs l p i (copied p)))
           (arrive l i) (copied i))"

fun cluster_rounds :: "nat \<Rightarrow> (nat \<Rightarrow> 'a lie_function option) \<Rightarrow> u64
    \<Rightarrow> (nat \<Rightarrow> nat \<Rightarrow> nat \<Rightarrow> 'a list \<Rightarrow> 'a list) \<Rightarrow> (nat \<Rightarrow> nat \<Rightarrow> nat list)
    \<Rightarrow> nat \<Rightarrow> (nat \<Rightarrow> 'a eig_tree) \<Rightarrow> nat \<Rightarrow> 'a eig_tree" where
  "cluster_rounds size_T lie num_jobs chan arrive 0 trees = trees"
| "cluster_rounds size_T lie num_jobs chan arrive (Suc l) trees =
     cluster_round size_T lie num_jobs chan arrive l
       (cluster_rounds size_T lie num_jobs chan arrive l trees)"

text \<open>What makes the processes of \<open>C\<close> correct: they do not lie, they hear each other
  unchanged, and every read completes at most once.\<close>

definition correct_processes :: "nat \<Rightarrow> nat set \<Rightarrow> (nat \<Rightarrow> 'a lie_function option)
    \<Rightarrow> (nat \<Rightarrow> nat \<Rightarrow> nat \<Rightarrow> 'a list \<Rightarrow> 'a list) \<Rightarrow> (nat \<Rightarrow> nat \<Rightarrow> nat list) \<Rightarrow> bool" where
  "correct_processes d C lie chan arrive \<longleftrightarrow>
     C \<subseteq> {..<d} \<and>
     (\<forall>p \<in> C. lie p = None) \<and>
     (\<forall>p \<in> C. \<forall>i \<in> C. \<forall>l m. chan l p i m = m) \<and>
     (\<forall>i \<in> C. \<forall>l. distinct (arrive l i) \<and> set (arrive l i) \<subseteq> {..<d} - {i} \<and> C - {i} \<subseteq> set (arrive l i))"

text \<open>The trees at hand: built by one constructor call each.\<close>

definition same_shape :: "u32 \<Rightarrow> u32 \<Rightarrow> 'a eig_tree \<Rightarrow> bool" where
  "same_shape d h t \<longleftrightarrow> eig_wf t \<and> degree t = d \<and> height t = h"

lemma same_shape_new: "eig_new zero d h = Some t \<Longrightarrow> same_shape d h t"
  by (simp add: same_shape_def eig_new_wf eig_new_shape)

lemma same_shape_ops [inv_intros]:
  "same_shape d h t \<Longrightarrow> same_shape d h (clear zero t)"
  "same_shape d h t \<Longrightarrow> same_shape d h (set_root v t)"
  "same_shape d h t \<Longrightarrow> l < unat h \<Longrightarrow> same_shape d h (deliver l pid xs t)"
  "same_shape d h t \<Longrightarrow> l < unat h \<Longrightarrow> pid < unat d \<Longrightarrow> same_shape d h (copy_current_level l pid t)"
  by (auto simp: same_shape_def intro: inv_intros)

lemma same_shape_receive [inv_intros]:
  "same_shape d h t \<Longrightarrow> l < unat h \<Longrightarrow> same_shape d h (round_receive l inbox ps t)"
  by (induction l inbox ps t rule: round_receive.induct) (auto intro: inv_intros)

text \<open>Copying a level out of range (a process id beyond the cluster) is not part of the
  runs: only the trees of the \<open>d\<close> processes are followed.\<close>

lemma same_shape_round:
  assumes "\<And>i. i < unat d \<Longrightarrow> same_shape d h (trees i)" "l < unat h" "i < unat d"
  shows "same_shape d h (cluster_round size_T lie num_jobs chan arrive l trees i)"
  using assms by (auto simp: cluster_round_def Let_def intro!: inv_intros)

lemma same_shape_rounds:
  assumes "\<And>i. i < unat d \<Longrightarrow> same_shape d h (trees i)" "l \<le> unat h" "i < unat d"
  shows "same_shape d h (cluster_rounds size_T lie num_jobs chan arrive l trees i)"
  using assms(2,3)
proof (induction l arbitrary: i)
  case 0
  then show ?case using assms by simp
next
  case (Suc l)
  then show ?case by (auto intro!: same_shape_round)
qed

section \<open>What one round writes\<close>

lemma slot_receive_other_level:
  assumes "same_shape d h t" "l < unat h" "length qs \<noteq> Suc l"
  shows "slot (round_receive l inbox ps t) qs = slot t qs"
  using assms
proof (induction ps arbitrary: t)
  case (Cons p ps)
  have "same_shape d h (deliver l p (inbox p) t)" using Cons.prems by (auto intro: inv_intros)
  moreover have "slot (deliver l p (inbox p) t) qs = slot t qs"
    using Cons.prems by (intro slot_deliver_other_level) (auto simp: same_shape_def)
  ultimately show ?case using Cons by simp
qed simp

lemma slot_round_other_level:
  assumes "same_shape d h (trees i)" "l < unat h" "i < unat d" "length qs \<noteq> Suc l"
  shows "slot (cluster_round size_T lie num_jobs chan arrive l trees i) qs = slot (trees i) qs"
proof -
  have "same_shape d h (copy_current_level l i (trees i))" using assms by (auto intro: inv_intros)
  moreover have "slot (copy_current_level l i (trees i)) qs = slot (trees i) qs"
    using assms by (intro slot_copy_other_level) (auto simp: same_shape_def)
  ultimately show ?thesis
    using assms by (simp add: cluster_round_def Let_def slot_receive_other_level)
qed

lemma slot_receive_others:
  assumes "same_shape d h t" "length ps < unat h" "node_path (unat d) (ps @ [q])"
    and "set rs \<subseteq> {..<unat d}" "q \<notin> set rs"
  shows "slot (round_receive (length ps) inbox rs t) (ps @ [q]) = slot t (ps @ [q])"
  using assms
proof (induction rs arbitrary: t)
  case (Cons r rs)
  have "same_shape d h (deliver (length ps) r (inbox r) t)" using Cons.prems by (auto intro: inv_intros)
  moreover have "slot (deliver (length ps) r (inbox r) t) (ps @ [q]) = slot t (ps @ [q])"
    using Cons.prems by (intro slot_deliver_others) (auto simp: same_shape_def node_path_def)
  ultimately show ?case using Cons by simp
qed simp

lemma slot_receive_intact:
  assumes "same_shape d h t" "same_shape d h s" "length ps < unat h" "node_path (unat d) (ps @ [q])"
    and "set rs \<subseteq> {..<unat d}" "distinct rs" "q \<in> set rs"
    and "inbox q = send_buffer_optimized (length ps) q s"
  shows "slot (round_receive (length ps) inbox rs t) (ps @ [q]) = slot s ps"
  using assms
proof (induction rs arbitrary: t)
  case (Cons r rs)
  have shape: "same_shape d h (deliver (length ps) r (inbox r) t)"
    using Cons.prems by (auto intro: inv_intros)
  show ?case
  proof (cases "r = q")
    case True
    have "slot (deliver (length ps) q (inbox q) t) (ps @ [q]) = slot s ps"
      unfolding Cons.prems(8)
      using Cons.prems by (intro slot_deliver_intact) (auto simp: same_shape_def)
    then show ?thesis
      using True Cons.prems shape by (simp add: slot_receive_others)
  next
    case False
    then show ?thesis using Cons.prems shape by (simp add: Cons.IH)
  qed
qed simp

lemma slot_round_relayed:
  assumes "\<And>i. i < unat d \<Longrightarrow> same_shape d h (trees i)" "length ps < unat h"
    and "correct_processes (unat d) C lie chan arrive" "i \<in> C" "q \<in> C" "node_path (unat d) (ps @ [q])"
  shows "slot (cluster_round size_T lie num_jobs chan arrive (length ps) trees i) (ps @ [q]) = slot (trees q) ps"
proof -
  let ?l = "length ps"
  have lt: "i < unat d" "q < unat d" using assms(3-5) by (auto simp: correct_processes_def)
  have arrive: "distinct (arrive ?l i)" "set (arrive ?l i) \<subseteq> {..<unat d} - {i}"
      "C - {i} \<subseteq> set (arrive ?l i)" "\<And>m. chan ?l q i m = m" "lie q = None"
    using assms(3-5) by (auto simp: correct_processes_def)
  have shape: "same_shape d h (copy_current_level ?l p (trees p))" if "p < unat d" for p
    using assms that by (auto intro: inv_intros)
  have wf: "eig_wf (trees q)" "degree (trees q) = d" "height (trees q) = h"
    using assms(1) [OF lt(2)] by (auto simp: same_shape_def)
  show ?thesis
  proof (cases "q = i")
    case True
    have "slot (copy_current_level ?l i (trees i)) (ps @ [i]) = slot (trees i) ps"
      using assms(2,6) lt wf True by (intro slot_copy_own) (auto simp: node_path_def)
    moreover have "i \<notin> set (arrive ?l i)" "set (arrive ?l i) \<subseteq> {..<unat d}" using arrive by auto
    ultimately show ?thesis
      using True assms(2,6) shape [OF lt(1)]
      by (simp add: cluster_round_def Let_def slot_receive_others)
  next
    case False
    let ?s = "copy_current_level ?l q (trees q)"
    have "slot (cluster_round size_T lie num_jobs chan arrive ?l trees i) (ps @ [q]) = slot ?s ps"
      unfolding cluster_round_def Let_def
      using False assms(2,5,6) arrive
      by (intro slot_receive_intact [OF shape [OF lt(1)] shape [OF lt(2)]]) (auto simp: outgoing_def)
    also have "\<dots> = slot (trees q) ps"
      using assms(2) wf by (intro slot_copy_other_level) auto
    finally show ?thesis .
  qed
qed

text \<open>Later rounds leave the levels that are complete alone.\<close>

lemma slot_rounds_stable:
  assumes "\<And>i. i < unat d \<Longrightarrow> same_shape d h (trees i)" "n + k \<le> unat h" "i < unat d" "length ps \<le> n"
  shows "slot (cluster_rounds size_T lie num_jobs chan arrive (n + k) trees i) ps =
    slot (cluster_rounds size_T lie num_jobs chan arrive n trees i) ps"
  using assms(2)
proof (induction k)
  case (Suc k)
  let ?T = "cluster_rounds size_T lie num_jobs chan arrive (n + k) trees"
  have "same_shape d h (?T i)" using assms Suc.prems by (auto intro!: same_shape_rounds)
  then have "slot (cluster_round size_T lie num_jobs chan arrive (n + k) ?T i) ps = slot (?T i) ps"
    using assms Suc.prems by (intro slot_round_other_level) auto
  then show ?case using Suc by simp
qed simp

lemma rounds_relayed:
  assumes "\<And>i. i < unat d \<Longrightarrow> same_shape d h (trees i)"
    and "correct_processes (unat d) C lie chan arrive"
  shows "relayed (unat d) (unat h) C
    (\<lambda>i. slot (cluster_rounds size_T lie num_jobs chan arrive (unat h) trees i))"
  unfolding relayed_def
proof (intro ballI allI impI)
  fix i q ps assume *: "i \<in> C" "q \<in> C" "node_path (unat d) (ps @ [q])" "length ps < unat h"
  let ?R = "\<lambda>n. cluster_rounds size_T lie num_jobs chan arrive n trees"
  have lt: "i < unat d" "q < unat d" using assms(2) * by (auto simp: correct_processes_def)
  have "slot (?R (unat h) i) (ps @ [q]) = slot (?R (Suc (length ps)) i) (ps @ [q])"
    using slot_rounds_stable [OF assms(1), where n = "Suc (length ps)" and k = "unat h - Suc (length ps)"
        and i = i and ps = "ps @ [q]"]
      lt * by simp
  also have "\<dots> = slot (?R (length ps) q) ps"
    unfolding cluster_rounds.simps
    using * same_shape_rounds [where trees = trees and d = d and h = h, OF assms(1)]
    by (intro slot_round_relayed [OF _ _ assms(2)]) auto
  also have "\<dots> = slot (?R (unat h) q) ps"
    using slot_rounds_stable [OF assms(1), where n = "length ps" and k = "unat h - length ps"
        and i = q and ps = ps] lt * by simp
  finally show "slot (?R (unat h) i) (ps @ [q]) = slot (?R (unat h) q) ps" .
qed

end
