(* ===== verification/Eig_Properties.thy ===== *)
theory Eig_Properties imports Bft_Rounds begin

text \<open>
  The contract of \<^verbatim>\<open>src/achal/eig_tree.h\<close> as its client, the job of \<^verbatim>\<open>BFTKVS\<close>, relies on it:
  what the constructor builds, that sender and receiver agree on the payload of every round,
  that a round stores what was sent, and that the in-place reduction computes the recursive
  vote on the tree of paths.
\<close>

definition fresh_tree :: "nat eig_tree" where
  "fresh_tree = the (eig_new 0 4 2)"

text \<open>C28 (eig_constructor): the constructor fails exactly when the tree would be higher than
  wide. Otherwise the node of path \<open>ps\<close> is valid iff no process repeats in \<open>ps\<close>, a valid node's
  children are its one-step extensions by a new process, invalid nodes have none, and every
  slot is zero.\<close>

theorem eig_constructor:
  "case eig_new zero d h of
     None \<Rightarrow> d < h
   | Some t \<Rightarrow> h \<le> d \<and> degree t = d \<and> height t = h \<and> eig_wf t \<and>
       (\<forall>ps. set ps \<subseteq> {..<unat d} \<and> length ps \<le> unat h \<longrightarrow>
          slot t ps = zero \<and> valid t ! length ps ! idx (unat d) ps = distinct ps \<and>
          children t ! length ps ! idx (unat d) ps =
            (if distinct ps then map (\<lambda>q. idx (unat d) (ps @ [q])) (filter (\<lambda>q. q \<notin> set ps) [0..<unat d]) else []))"
proof (cases "eig_new zero d h")
  case None
  then show ?thesis by (auto simp: eig_new_def Let_def split: if_splits)
next
  case (Some t)
  note sh = eig_new_shape [OF Some]
  have wf: "eig_wf t" using Some by (rule eig_new_wf)
  have "slot t ps = zero \<and> valid t ! length ps ! idx (unat d) ps = distinct ps \<and>
      children t ! length ps ! idx (unat d) ps =
        (if distinct ps then map (\<lambda>q. idx (unat d) (ps @ [q])) (filter (\<lambda>q. q \<notin> set ps) [0..<unat d]) else [])"
    if ps: "set ps \<subseteq> {..<unat d}" "length ps \<le> unat h" for ps
  proof -
    have i: "idx (unat d) ps < unat d ^ length ps" using ps(1) by (rule idx_lt)
    moreover have "path (unat d) (length ps) (idx (unat d) ps) = ps" using ps(1) by (rule path_idx)
    ultimately show ?thesis
      using slot_eig_new [OF Some ps(2,1)] eig_wf_valid [OF wf, of "length ps"] eig_wf_children [OF wf, of "length ps"]
        eig_wf_no_children [OF wf, of "length ps"] ps(2) sh(2,3)
      by (simp add: idx_append)
  qed
  then show ?thesis using Some sh wf by auto
qed

text \<open>Lemma (payloads_match): in round \<open>l\<close> the length that the sender computes for the receiver
  \<open>q\<close>, the data that the sender \<open>p\<close> gathers and the slots that the receiver fills from \<open>p\<close>
  have the same size: \<open>(d - 1) (d - 2) \<dots> (d - l)\<close> slots.\<close>

theorem payloads_match:
  assumes "eig_wf t" "eig_wf u" "degree u = degree t" "height u = height t" "l < hgt t" "p < deg t" "q < deg t"
  shows "length (send_buffer_optimized l p t) = (\<Prod>k<l. deg t - 1 - k) \<and>
    length (receive_buffer_optimized l p u) = length (send_buffer_optimized l p t) \<and>
    buffer_length_optimized size_T l q t = size_T * length (send_buffer_optimized l p t)"
  using assms
  by (simp add: receive_slots_eq send_buffer_optimized_def send_slots_eq buffer_length_optimized_eq length_relay_nodes)

text \<open>C15 (round_stores_payload): when the payload that \<open>p\<close> gathers in round \<open>l\<close> arrives intact,
  the receiver's slot for \<open>ps @ [p]\<close> holds what \<open>p\<close> holds for \<open>ps\<close>, and no slot of another
  sender or another round changes; the process's own copy does the same for itself.\<close>

theorem round_stores_payload:
  assumes "eig_wf t" "eig_wf s" "degree s = degree t" "height s = height t" "length ps < hgt t"
    and "node_path (deg t) (ps @ [p])"
  shows "slot (deliver (length ps) p (send_buffer_optimized (length ps) p s) t) (ps @ [p]) = slot s ps \<and>
    slot (copy_current_level (length ps) p t) (ps @ [p]) = slot t ps \<and>
    (\<forall>qs. set qs \<subseteq> {..<deg t} \<and> qs \<noteq> [] \<and> (length qs \<noteq> Suc (length ps) \<or> last qs \<noteq> p) \<longrightarrow>
      slot (deliver (length ps) p (send_buffer_optimized (length ps) p s) t) qs = slot t qs)"
proof -
  have p: "p < deg t" "set ps \<subseteq> {..<deg t}" using assms(6) by (auto simp: node_path_def)
  have "slot (deliver (length ps) p payload t) qs = slot t qs"
    if qs: "set qs \<subseteq> {..<deg t}" "qs \<noteq> []" "length qs \<noteq> Suc (length ps) \<or> last qs \<noteq> p" for payload qs
  proof (cases "length qs = Suc (length ps)")
    case True
    then obtain rs r where snoc: "qs = rs @ [r]" using qs(2) by (cases qs rule: rev_cases) auto
    then have "length rs = length ps" "r \<noteq> p" using True qs(3) by auto
    then show ?thesis using slot_deliver_others [OF assms(1), of rs p r] assms(5) p(1) qs(1) snoc by simp
  next
    case False
    then show ?thesis using slot_deliver_other_level [OF assms(1,5)] by simp
  qed
  then show ?thesis
    using slot_deliver_intact [OF assms] slot_copy_own [OF assms(1,5) p] by blast
qed

text \<open>C12 (reduce_is_recursive_vote): the reduction never leaves the arrays, keeps the tree well
  formed, and the value it leaves in the slot of a path is that of the recursive vote over the
  path's extensions, down to the leaves.\<close>

theorem reduce_is_recursive_vote:
  assumes "eig_wf t" "orders_ok iter"
  shows "\<exists>t'. reduce hash iter zero t = Some t' \<and> eig_wf t' \<and> degree t' = degree t \<and> height t' = height t \<and>
    (\<forall>ps k. node_path (deg t) ps \<longrightarrow> length ps + k = hgt t \<longrightarrow>
       slot t' ps = resolve (path_vote hash zero iter t) (deg t) (slot t) k ps)"
  using assms by (rule reduce_slots)

lemma fresh_tree_new: "eig_new 0 4 2 = Some fresh_tree"
  by (simp add: fresh_tree_def eig_new_def Let_def)

lemma fresh_tree_facts: "eig_wf fresh_tree" "degree fresh_tree = 4" "height fresh_tree = 2"
  using eig_new_wf [OF fresh_tree_new] eig_new_shape [OF fresh_tree_new] by simp_all

theorem eig_constructor_witness:
  "slot fresh_tree [1, 3] = 0 \<and> \<not> valid fresh_tree ! 2 ! idx 4 [3, 3] \<and>
   children fresh_tree ! 1 ! idx 4 [2] = [idx 4 [2, 0], idx 4 [2, 1], idx 4 [2, 3]]"
proof -
  have all: "\<forall>ps. set ps \<subseteq> {..<4} \<and> length ps \<le> 2 \<longrightarrow> slot fresh_tree ps = 0 \<and>
      valid fresh_tree ! length ps ! idx 4 ps = distinct ps \<and>
      children fresh_tree ! length ps ! idx 4 ps =
        (if distinct ps then map (\<lambda>q. idx 4 (ps @ [q])) (filter (\<lambda>q. q \<notin> set ps) [0..<4]) else [])"
    using eig_constructor [where zero = "0 :: nat" and d = 4 and h = 2] unfolding fresh_tree_new by simp
  show ?thesis
    using all [rule_format, of "[1, 3]"] all [rule_format, of "[3, 3]"] all [rule_format, of "[2]"]
    by (simp add: upt_rec numeral_2_eq_2)
qed

theorem payloads_match_witness:
  "length (send_buffer_optimized 1 2 fresh_tree) = 3 \<and> buffer_length_optimized 8 1 0 fresh_tree = 24"
  using payloads_match [OF fresh_tree_facts(1,1), where l = 1 and p = 2 and q = 0 and size_T = 8] by (simp add: fresh_tree_facts)

theorem round_stores_payload_witness:
  "slot (deliver 1 2 (send_buffer_optimized 1 2 (set_root 7 fresh_tree)) fresh_tree) [0, 2] = slot (set_root 7 fresh_tree) [0]"
  using round_stores_payload [OF fresh_tree_facts(1) set_root_wf [OF fresh_tree_facts(1), of 7], where ps = "[0]" and p = 2]
  by (simp add: fresh_tree_facts node_path_def)

theorem reduce_is_recursive_vote_witness:
  "\<exists>t'. reduce (\<lambda>_. 0) (\<lambda>_ _ l. l) 0 fresh_tree = Some t' \<and> eig_wf t'"
  using reduce_is_recursive_vote [OF fresh_tree_facts(1), where iter = "\<lambda>_ _ l. l" and hash = "\<lambda>_. 0" and zero = 0]
  by (auto simp: orders_ok_def iteration_order_def)

end
