(* ===== verification/Bft_Store.thy ===== *)
theory Bft_Store imports Std_Containers begin

text \<open>
  The data of \<^verbatim>\<open>src/achal/bft_kvs.h\<close>: C strings in fixed character arrays, the tuple
  and \<^verbatim>\<open>eig_node\<close> structs, and the store, a map from keys to buckets that keep the values
  of the \<open>20\<close> latest publish times. The default fuse, the two fuse functions of the file,
  and the theorems that say what a fuse commits and that it does not depend on the
  iteration orders of the unordered maps it goes through.
\<close>

section \<open>C strings\<close>

abbreviation NUL :: char where "NUL \<equiv> CHR 0x00"

text \<open>\<^verbatim>\<open>std::string(p)\<close>, \<^verbatim>\<open>s.c_str()\<close> and \<^verbatim>\<open>strcpy\<close>: a C string ends at its first
  terminator.\<close>

definition cstr :: "string \<Rightarrow> string" where
  "cstr s = takeWhile (\<lambda>c. c \<noteq> NUL) s"

definition strcpy :: "string \<Rightarrow> string \<Rightarrow> string" where
  "strcpy dst s = splice dst 0 (cstr s @ [NUL])"

lemma cstr_no_NUL: "NUL \<notin> set s \<Longrightarrow> cstr s = s"
  by (induction s) (auto simp: cstr_def)

lemma cstr_append_NUL: "cstr (cstr s @ NUL # r) = cstr s"
  by (induction s) (auto simp: cstr_def)

lemma length_cstr: "length (cstr s) \<le> length s"
  by (simp add: cstr_def length_takeWhile_le)

lemma strcpy_cstr: "length s < length dst \<Longrightarrow> cstr (strcpy dst s) = cstr s"
  by (simp add: strcpy_def splice_def cstr_append_NUL)

lemma length_strcpy [shape_simps]: "length s < length dst \<Longrightarrow> length (strcpy dst s) = length dst"
  using length_cstr [of s] by (simp add: strcpy_def)

section \<open>Tuples, nodes and the store\<close>

text \<open>The structs with their padding: nodes are hashed, sent and copied as bytes, so the bytes before an aligned field are
  part of the value. A 64-bit field is aligned to eight bytes.\<close>

record tuple =
  tkey :: string
  tvalue :: string
  tpadding :: string
  ttime :: u64

record eig_node =
  nlength :: u32
  npadding :: string
  ntuples :: "tuple list"

definition tuple_padding :: "nat \<Rightarrow> nat \<Rightarrow> nat" where
  "tuple_padding KS VS = (8 - (Suc KS + Suc VS) mod 8) mod 8"

definition zero_tuple :: "nat \<Rightarrow> nat \<Rightarrow> tuple" where
  "zero_tuple KS VS = \<lparr>tkey = replicate (Suc KS) NUL, tvalue = replicate (Suc VS) NUL,
     tpadding = replicate (tuple_padding KS VS) NUL, ttime = 0\<rparr>"

text \<open>\<^verbatim>\<open>memset(&unpublished, 0, sizeof(...))\<close>\<close>

definition zero_node :: "nat \<Rightarrow> nat \<Rightarrow> nat \<Rightarrow> eig_node" where
  "zero_node NT KS VS = \<lparr>nlength = 0, npadding = replicate 4 NUL, ntuples = replicate NT (zero_tuple KS VS)\<rparr>"

text \<open>The type of the node as the C++ type fixes it.\<close>

definition node_ok :: "nat \<Rightarrow> nat \<Rightarrow> nat \<Rightarrow> eig_node \<Rightarrow> bool" where
  "node_ok NT KS VS nd \<longleftrightarrow> length (npadding nd) = 4 \<and> length (ntuples nd) = NT \<and>
     (\<forall>t \<in> set (ntuples nd). length (tkey t) = Suc KS \<and> length (tvalue t) = Suc VS \<and>
        length (tpadding t) = tuple_padding KS VS)"

lemma zero_node_ok: "node_ok NT KS VS (zero_node NT KS VS)"
  by (auto simp: node_ok_def zero_node_def zero_tuple_def)

text \<open>The key and value of a tuple after the write of the terminator, as strings:
  \<^verbatim>\<open>t.key[KS] = '\0'; std::string(t.key)\<close>.\<close>

definition key_of :: "nat \<Rightarrow> tuple \<Rightarrow> string" where
  "key_of KS t = cstr ((tkey t)[KS := NUL])"

definition value_of :: "nat \<Rightarrow> tuple \<Rightarrow> string" where
  "value_of VS t = cstr ((tvalue t)[VS := NUL])"

type_synonym bucket = "(u64 \<times> string) list"
type_synonym store = "string \<rightharpoonup> bucket"

definition keep_n_values :: nat where
  "keep_n_values = 20"

definition bucket_of :: "store \<Rightarrow> string \<Rightarrow> bucket" where
  "bucket_of store k = (case store k of None \<Rightarrow> [] | Some b \<Rightarrow> b)"

text \<open>Insert, then drop the oldest value when the bucket has grown beyond its limit.\<close>

definition bucket_put :: "u64 \<Rightarrow> string \<Rightarrow> bucket \<Rightarrow> bucket" where
  "bucket_put time v bucket =
     (let b = om_put newer time v bucket
      in if length b > keep_n_values then om_erase_last b else b)"

definition bucket_ok :: "bucket \<Rightarrow> bool" where
  "bucket_ok b \<longleftrightarrow> om_sorted newer b \<and> length b \<le> keep_n_values"

definition store_ok :: "store \<Rightarrow> bool" where
  "store_ok store \<longleftrightarrow> (\<forall>k b. store k = Some b \<longrightarrow> bucket_ok b)"

section \<open>The buckets\<close>

lemma bucket_put_sorted: "om_sorted newer b \<Longrightarrow> om_sorted newer (bucket_put time v b)"
  by (simp add: bucket_put_def Let_def newest_first.sorted_put newest_first.sorted_erase_last)

lemma bucket_put_ok [inv_intros]:
  assumes "bucket_ok b"
  shows "bucket_ok (bucket_put time v b)"
  using assms newest_first.length_put [of b time v] bucket_put_sorted [of b time v]
  by (auto simp: bucket_ok_def bucket_put_def Let_def om_erase_last_def)

lemma bucket_of_ok: "store_ok store \<Longrightarrow> bucket_ok (bucket_of store k)"
  by (auto simp: store_ok_def bucket_of_def bucket_ok_def newest_first.om_sorted_Nil split: option.splits)

text \<open>What a bucket is for: the latest values. Inserting into the kept part is keeping the
  latest part of the full history.\<close>

lemma om_put_take:
  assumes "om_sorted newer b"
  shows "take n (om_put newer t v (take n b)) = take n (om_put newer t v b)"
  using assms
proof (induction b arbitrary: n)
  case (Cons e b)
  obtain t' v' where e: "e = (t', v')" by (cases e)
  show ?case
  proof (cases n)
    case (Suc m)
    then show ?thesis
      using Cons e by (cases m) (auto simp: newest_first.om_sorted_Cons take_Cons')
  qed simp
qed simp

lemma bucket_put_take:
  assumes "om_sorted newer b"
  shows "bucket_put t v (take keep_n_values b) = take keep_n_values (om_put newer t v b)"
proof -
  let ?n = keep_n_values
  let ?m = "om_put newer t v (take ?n b)"
  have s: "om_sorted newer (take ?n b)"
    using assms by (simp add: om_sorted_def sorted_wrt_take take_map [symmetric])
  have "length ?m \<le> Suc ?n"
    using newest_first.length_put [OF s, of t v] by (simp add: min.coboundedI2)
  then have "bucket_put t v (take ?n b) = take ?n ?m"
  proof (cases "length ?m = Suc ?n")
    case True
    then show ?thesis by (simp add: bucket_put_def Let_def om_erase_last_def butlast_conv_take)
  next
    case False
    with \<open>length ?m \<le> Suc ?n\<close> have "length ?m \<le> ?n" by linarith
    then show ?thesis by (simp add: bucket_put_def Let_def)
  qed
  then show ?thesis using om_put_take [OF assms, of ?n t v] by simp
qed

lemma fold_bucket_put:
  assumes "om_sorted newer b"
  shows "fold (\<lambda>(t, v). bucket_put t v) tvs (take keep_n_values b) =
     take keep_n_values (fold (\<lambda>(t, v). om_put newer t v) tvs b)"
  using assms
  by (induction tvs arbitrary: b) (auto simp: bucket_put_take newest_first.sorted_put)

lemma sorted_fold_put: "om_sorted newer b \<Longrightarrow> om_sorted newer (fold (\<lambda>(t, v). om_put newer t v) tvs b)"
  by (induction tvs arbitrary: b) (auto simp: newest_first.sorted_put)

lemma map_of_fold_put:
  "map_of (fold (\<lambda>(t, v). om_put newer t v) tvs b) = map_of b ++ map_of (rev tvs)"
  by (induction tvs arbitrary: b)
     (auto simp: newest_first.map_of_put map_add_def fun_eq_iff split: option.splits)

text \<open>The bucket that keeps the latest of the old values and the new ones \<open>m\<close>, a later
  one replacing an earlier one of the same time.\<close>

definition latest :: "bucket \<Rightarrow> (u64 \<rightharpoonup> string) \<Rightarrow> bucket \<Rightarrow> bool" where
  "latest b m b' \<longleftrightarrow> (\<exists>full. om_sorted newer full \<and> map_of full = map_of b ++ m \<and> b' = take keep_n_values full)"

lemma latest_unique: "latest b m b1 \<Longrightarrow> latest b m b2 \<Longrightarrow> b1 = b2"
  unfolding latest_def using newest_first.sorted_eqI by metis

lemma latest_fold:
  assumes "bucket_ok b"
  shows "latest b (map_of (rev tvs)) (fold (\<lambda>(t, v). bucket_put t v) tvs b)"
proof -
  have "take keep_n_values b = b" using assms by (simp add: bucket_ok_def)
  then have "fold (\<lambda>(t, v). bucket_put t v) tvs b =
      take keep_n_values (fold (\<lambda>(t, v). om_put newer t v) tvs b)"
    using fold_bucket_put [of b tvs] assms by (simp add: bucket_ok_def)
  then show ?thesis
    using assms sorted_fold_put [of b tvs] map_of_fold_put [of tvs b]
    unfolding latest_def bucket_ok_def by blast
qed

lemma latest_ok: "latest b m b' \<Longrightarrow> bucket_ok b'"
  by (auto simp: latest_def bucket_ok_def om_sorted_def sorted_wrt_take take_map [symmetric])

text \<open>Every time above a kept one is kept: nothing newer is ever dropped for something
  older.\<close>

lemma latest_newest:
  assumes "latest b m b'" "t \<in> dom (map_of b ++ m)" "t' \<in> dom (map_of b')" "t' < t"
  shows "map_of b' t = (map_of b ++ m) t"
proof -
  from assms(1) obtain full where full: "om_sorted newer full" "map_of full = map_of b ++ m"
    "b' = take keep_n_values full" by (auto simp: latest_def)
  let ?r = "drop keep_n_values full"
  have split: "full = b' @ ?r" by (simp add: full(3))
  have "sorted_wrt newer (map fst b' @ map fst ?r)"
    using full(1) unfolding om_sorted_def by (metis split map_append)
  then have older: "r < t'" if "r \<in> fst ` set ?r" for r
    using that assms(3) by (auto simp: sorted_wrt_append newer_def dom_map_of_conv_image_fst)
  have "map_of ?r t = None"
    using older [of t] assms(4) by (metis map_of_eq_None_iff order_less_asym')
  then have "map_of full t = map_of b' t"
    by (subst split) (simp add: map_add_def split: option.splits)
  then show ?thesis using full(2) by simp
qed

end
