(* ===== verification/Bft_Fuse.thy ===== *)
theory Bft_Fuse imports Bft_Store begin

text \<open>
  The fuse step of \<^verbatim>\<open>src/achal/bft_kvs.h\<close>: how the vector that the processes agreed on
  becomes part of the store. Three functions: the default fuse of \<^verbatim>\<open>BFTKVS::job\<close>, which
  commits the tuples of the root, \<^verbatim>\<open>strong_simple_majority_of_strings\<close> and
  \<^verbatim>\<open>median_of_doubles\<close>, which go through nested unordered maps. Every loop over such a map
  takes an iteration order as a parameter. The contract \<open>fuse_rule\<close>, that the value chosen
  for one key and time does not depend on the orders, gives that the whole store does not;
  it is interpreted for both functions.

  A double is a number, infinities included, or a NaN, which \<^verbatim>\<open>std::stod\<close> also reads (from a text such as nan).
  \<^verbatim>\<open>std::stod\<close>, the average of two numbers and \<^verbatim>\<open>std::to_string\<close> are parameters; the numbers are linearly ordered (the two
  zeros are one number). The two failures of \<^verbatim>\<open>stod\<close> are told apart, since the source catches only one of them.
\<close>

section \<open>The default fuse\<close>

fun commit_tuples :: "nat \<Rightarrow> nat \<Rightarrow> tuple list \<Rightarrow> store \<Rightarrow> store" where
  "commit_tuples KS VS [] store = store"
| "commit_tuples KS VS (t # ts) store =
     commit_tuples KS VS ts
       (store(key_of KS t \<mapsto> bucket_put (ttime t) (value_of VS t) (bucket_of store (key_of KS t))))"

definition default_fuse :: "nat \<Rightarrow> nat \<Rightarrow> nat \<Rightarrow> eig_node \<Rightarrow> store \<Rightarrow> store" where
  "default_fuse NT KS VS result store =
     (if unat (nlength result) \<le> NT
      then commit_tuples KS VS (take (unat (nlength result)) (ntuples result)) store
      else store)"

section \<open>Collecting the proposals\<close>

type_synonym 'v ktnv = "(string \<times> (u64 \<times> (int \<times> 'v) list) list) list"

text \<open>\<^verbatim>\<open>ktnv[key][time][i] = value\<close>\<close>

definition put3 :: "string \<Rightarrow> u64 \<Rightarrow> int \<Rightarrow> 'v \<Rightarrow> 'v ktnv \<Rightarrow> 'v ktnv" where
  "put3 k t i v m = um_upd k [] (\<lambda>mt. um_upd t [] (um_put i v) mt) m"

fun collect_strings :: "nat \<Rightarrow> nat \<Rightarrow> int \<Rightarrow> tuple list \<Rightarrow> string ktnv \<Rightarrow> string ktnv" where
  "collect_strings KS VS i [] m = m"
| "collect_strings KS VS i (t # ts) m =
     collect_strings KS VS i ts (put3 (key_of KS t) (ttime t) i (value_of VS t) m)"

fun gather_strings :: "nat \<Rightarrow> nat \<Rightarrow> nat \<Rightarrow> int \<Rightarrow> eig_node list \<Rightarrow> string ktnv \<Rightarrow> string ktnv" where
  "gather_strings NT KS VS i [] m = m"
| "gather_strings NT KS VS i (nd # nds) m =
     gather_strings NT KS VS (i + 1) nds
       (if unat (nlength nd) > NT then m
        else collect_strings KS VS i (take (unat (nlength nd)) (ntuples nd)) m)"

datatype 'd stod_result = Converted 'd | Invalid_argument | Out_of_range

datatype 'd double = Num 'd | NaN

text \<open>How a fuse fails. \<open>Unspecified_order\<close> is a call of \<^verbatim>\<open>std::sort\<close> on a vector that mixes NaNs and numbers: a NaN compares
  less with nothing, so \<^verbatim>\<open><\<close> is not a strict weak order on the vector, which makes the call undefined, or all the
  numbers are equal and the places of the NaNs are left open.\<close>

datatype abort = Assertion_failed | Uncaught_out_of_range | Unspecified_order

fun collect_doubles :: "(string \<Rightarrow> 'd stod_result) \<Rightarrow> nat \<Rightarrow> nat \<Rightarrow> int \<Rightarrow> tuple list \<Rightarrow> 'd ktnv
    \<Rightarrow> abort + 'd ktnv" where
  "collect_doubles stod KS VS i [] m = Inr m"
| "collect_doubles stod KS VS i (t # ts) m =
     (case stod (value_of VS t) of
        Converted v \<Rightarrow> collect_doubles stod KS VS i ts (put3 (key_of KS t) (ttime t) i v m)
      | Invalid_argument \<Rightarrow> collect_doubles stod KS VS i ts m
      | Out_of_range \<Rightarrow> Inl Uncaught_out_of_range)"

fun gather_doubles :: "(string \<Rightarrow> 'd stod_result) \<Rightarrow> nat \<Rightarrow> nat \<Rightarrow> nat \<Rightarrow> int \<Rightarrow> eig_node list \<Rightarrow> 'd ktnv
    \<Rightarrow> abort + 'd ktnv" where
  "gather_doubles stod NT KS VS i [] m = Inr m"
| "gather_doubles stod NT KS VS i (nd # nds) m =
     (if unat (nlength nd) > NT then gather_doubles stod NT KS VS (i + 1) nds m
      else case collect_doubles stod KS VS i (take (unat (nlength nd)) (ntuples nd)) m of
             Inl e \<Rightarrow> Inl e
           | Inr m' \<Rightarrow> gather_doubles stod NT KS VS (i + 1) nds m')"

section \<open>Committing the winners\<close>

fun commit_times :: "(u64 \<Rightarrow> (int \<times> 'v) list \<Rightarrow> string option) \<Rightarrow> (u64 \<times> (int \<times> 'v) list) list
    \<Rightarrow> bucket \<Rightarrow> bucket" where
  "commit_times decide [] bucket = bucket"
| "commit_times decide ((time, p3) # p2s) bucket =
     commit_times decide p2s
       (case decide time p3 of None \<Rightarrow> bucket | Some v \<Rightarrow> bucket_put time v bucket)"

fun commit_keys :: "(string \<Rightarrow> u64 \<Rightarrow> (int \<times> 'v) list \<Rightarrow> string option)
    \<Rightarrow> (string \<Rightarrow> (u64 \<times> (int \<times> 'v) list) list \<Rightarrow> (u64 \<times> (int \<times> 'v) list) list)
    \<Rightarrow> 'v ktnv \<Rightarrow> store \<Rightarrow> store" where
  "commit_keys decide iter2 [] store = store"
| "commit_keys decide iter2 ((k, p2s) # p1s) store =
     commit_keys decide iter2 p1s
       (store(k \<mapsto> commit_times (decide k) (iter2 k p2s) (bucket_of store k)))"

text \<open>The iteration orders of the loops over the nested maps.\<close>

record 'v orders =
  ord1 :: "'v ktnv \<Rightarrow> 'v ktnv"
  ord2 :: "string \<Rightarrow> (u64 \<times> (int \<times> 'v) list) list \<Rightarrow> (u64 \<times> (int \<times> 'v) list) list"
  ord3 :: "string \<Rightarrow> u64 \<Rightarrow> (int \<times> 'v) list \<Rightarrow> (int \<times> 'v) list"
  ord4 :: "string \<Rightarrow> u64 \<Rightarrow> (string \<times> int) list \<Rightarrow> (string \<times> int) list"

definition fair_orders :: "'v orders \<Rightarrow> bool" where
  "fair_orders ord \<longleftrightarrow> iteration_order (ord1 ord) \<and> (\<forall>k. iteration_order (ord2 ord k)) \<and>
     (\<forall>k t. iteration_order (ord3 ord k t)) \<and> (\<forall>k t. iteration_order (ord4 ord k t))"

fun count_values :: "(int \<times> string) list \<Rightarrow> (string \<times> int) list \<Rightarrow> (string \<times> int) list" where
  "count_values [] freq = freq"
| "count_values ((i, v) # p3) freq = count_values p3 (um_upd v 0 (\<lambda>k. k + 1) freq)"

text \<open>The first value with \<open>frequency > num_nodes / 2.0\<close>; the loop then breaks.\<close>

fun first_strong :: "int \<Rightarrow> (string \<times> int) list \<Rightarrow> string option" where
  "first_strong num_nodes [] = None"
| "first_strong num_nodes ((v, k) # ps) = (if 2 * k > num_nodes then Some v else first_strong num_nodes ps)"

definition strong_winner :: "int \<Rightarrow> string orders \<Rightarrow> string \<Rightarrow> u64 \<Rightarrow> (int \<times> string) list \<Rightarrow> string option" where
  "strong_winner num_nodes ord k t p3 =
     first_strong num_nodes (ord4 ord k t (count_values (ord3 ord k t p3) []))"

definition strong_simple_majority_of_strings :: "nat \<Rightarrow> nat \<Rightarrow> nat \<Rightarrow> string orders \<Rightarrow> eig_node list
    \<Rightarrow> store \<Rightarrow> abort + store" where
  "strong_simple_majority_of_strings NT KS VS ord nodes store =
     (if nodes = [] then Inl Assertion_failed
      else Inr (commit_keys (strong_winner (int (length nodes)) ord) (ord2 ord)
                  (ord1 ord (gather_strings NT KS VS 0 nodes [])) store))"

text \<open>The median of sorted numbers. The average may be no number: it is a NaN for the two infinities.\<close>

definition median :: "('d :: linorder \<Rightarrow> 'd \<Rightarrow> 'd double) \<Rightarrow> 'd list \<Rightarrow> 'd double" where
  "median avg values =
     (let vs = sort values in avg (vs ! (length vs div 2)) (vs ! ((length vs - 1) div 2)))"

text \<open>The numbers of a vector without a NaN.\<close>

fun numbers_of :: "'d double list \<Rightarrow> 'd list option" where
  "numbers_of [] = Some []"
| "numbers_of (Num x # vs) = map_option (Cons x) (numbers_of vs)"
| "numbers_of (NaN # vs) = None"

text \<open>The values of one key and time that are sorted although a NaN is among the numbers.\<close>

definition unordered :: "(int \<times> 'd double) list \<Rightarrow> bool" where
  "unordered p3 \<longleftrightarrow> 3 \<le> length p3 \<and> list_ex (\<lambda>v. v = NaN) (map snd p3) \<and> list_ex (\<lambda>v. v \<noteq> NaN) (map snd p3)"

text \<open>The median of NaNs only is a NaN.\<close>

definition median_winner :: "('d :: linorder \<Rightarrow> 'd \<Rightarrow> 'd double) \<Rightarrow> ('d double \<Rightarrow> string) \<Rightarrow> 'd double orders \<Rightarrow> string \<Rightarrow> u64
    \<Rightarrow> (int \<times> 'd double) list \<Rightarrow> abort + string option" where
  "median_winner avg to_string ord k t p3 =
     (if length p3 < 3 then Inr None
      else if unordered p3 then Inl Unspecified_order
      else Inr (Some (to_string (case numbers_of (map snd (ord3 ord k t p3)) of
                                   None \<Rightarrow> NaN
                                 | Some values \<Rightarrow> median avg values))))"

text \<open>The value that the loop commits for a key and time, if it does; undefined behaviour in one pass of the loop leaves the
  whole call undefined, so the passes before it need not be told apart.\<close>

definition median_text :: "('d :: linorder \<Rightarrow> 'd \<Rightarrow> 'd double) \<Rightarrow> ('d double \<Rightarrow> string) \<Rightarrow> 'd double orders \<Rightarrow> string \<Rightarrow> u64
    \<Rightarrow> (int \<times> 'd double) list \<Rightarrow> string option" where
  "median_text avg to_string ord k t p3 =
     (case median_winner avg to_string ord k t p3 of Inl _ \<Rightarrow> None | Inr w \<Rightarrow> w)"

definition median_of_doubles :: "(string \<Rightarrow> 'd double stod_result) \<Rightarrow> ('d :: linorder \<Rightarrow> 'd \<Rightarrow> 'd double) \<Rightarrow> ('d double \<Rightarrow> string)
    \<Rightarrow> nat \<Rightarrow> nat \<Rightarrow> nat \<Rightarrow> 'd double orders \<Rightarrow> eig_node list \<Rightarrow> store \<Rightarrow> abort + store" where
  "median_of_doubles stod avg to_string NT KS VS ord nodes store =
     (if nodes = [] then Inl Assertion_failed
      else case gather_doubles stod NT KS VS 0 nodes [] of
             Inl e \<Rightarrow> Inl e
           | Inr m \<Rightarrow>
               if list_ex (\<lambda>(_, p2s). list_ex (\<lambda>(_, p3). unordered p3) p2s) m then Inl Unspecified_order
               else Inr (commit_keys (median_text avg to_string ord) (ord2 ord) (ord1 ord m) store))"

section \<open>The nested map\<close>

text \<open>Two levels of keys and one of node numbers, all distinct.\<close>

definition times_ok :: "(u64 \<times> (int \<times> 'v) list) list \<Rightarrow> bool" where
  "times_ok mt \<longleftrightarrow> distinct (map fst mt) \<and> (\<forall>e \<in> set mt. distinct (map fst (snd e)))"

definition ktnv_ok :: "'v ktnv \<Rightarrow> bool" where
  "ktnv_ok m \<longleftrightarrow> distinct (map fst m) \<and> (\<forall>e \<in> set m. times_ok (snd e))"

definition lookup2 :: "'v ktnv \<Rightarrow> string \<Rightarrow> u64 \<Rightarrow> (int \<times> 'v) list" where
  "lookup2 m k t = (case map_of m k of None \<Rightarrow> [] | Some mt \<Rightarrow> (case map_of mt t of None \<Rightarrow> [] | Some mi \<Rightarrow> mi))"

lemma um_upd_all:
  assumes "\<forall>e \<in> set m. P (snd e)" "P dflt" "\<And>v. P v \<Longrightarrow> P (f v)"
  shows "\<forall>e \<in> set (um_upd k dflt f m). P (snd e)"
  using assms by (induction k dflt f m rule: um_upd.induct) auto

lemma put3_ok [inv_intros]:
  assumes "ktnv_ok m"
  shows "ktnv_ok (put3 k t i v m)"
proof -
  have "times_ok (um_upd t [] (um_put i v) mt)" if "times_ok mt" for mt
    using that unfolding times_ok_def
    by (intro conjI distinct_um_upd um_upd_all [where P = "\<lambda>mi. distinct (map fst mi)"])
       (auto intro: distinct_um_put)
  then show ?thesis
    using assms unfolding ktnv_ok_def put3_def
    by (intro conjI distinct_um_upd um_upd_all [where P = times_ok]) (auto simp: times_ok_def)
qed

lemma lookup_put3 [map_simps]:
  "map_of (lookup2 (put3 k t i v m) k' t') i' =
   (if k' = k \<and> t' = t \<and> i' = i then Some v else map_of (lookup2 m k' t') i')"
proof (cases "k' = k")
  case True
  then show ?thesis
    by (cases "t' = t"; cases "map_of m k")
       (simp_all add: lookup2_def put3_def map_simps split: option.split)
qed (simp add: lookup2_def put3_def map_simps)

lemma keys_put3: "map_of (put3 k t i v m) k' \<noteq> None \<longleftrightarrow> k' = k \<or> map_of m k' \<noteq> None"
  by (auto simp: put3_def map_simps)

section \<open>What the commit loops do\<close>

definition winners :: "(u64 \<Rightarrow> (int \<times> 'v) list \<Rightarrow> string option) \<Rightarrow> (u64 \<times> (int \<times> 'v) list) list
    \<Rightarrow> (u64 \<times> string) list" where
  "winners decide p2s =
     concat (map (\<lambda>(t, p3). case decide t p3 of None \<Rightarrow> [] | Some v \<Rightarrow> [(t, v)]) p2s)"

lemma commit_times_fold:
  "commit_times decide p2s b = fold (\<lambda>(t, v). bucket_put t v) (winners decide p2s) b"
  by (induction decide p2s b rule: commit_times.induct) (auto simp: winners_def split: option.splits)

lemma winners_keys: "fst ` set (winners decide p2s) \<subseteq> fst ` set p2s"
  by (force simp: winners_def split: option.splits)

lemma distinct_winners: "distinct (map fst p2s) \<Longrightarrow> distinct (map fst (winners decide p2s))"
proof (induction p2s)
  case (Cons e p2s)
  obtain t p3 where e: "e = (t, p3)" by (cases e)
  have "winners decide (e # p2s) = (case decide t p3 of None \<Rightarrow> [] | Some v \<Rightarrow> [(t, v)]) @ winners decide p2s"
    by (simp add: winners_def e)
  then show ?case
    using Cons e winners_keys [of decide p2s] by (auto split: option.splits)
qed (simp add: winners_def)

lemma map_of_winners:
  assumes "distinct (map fst p2s)"
  shows "map_of (winners decide p2s) t = (case map_of p2s t of None \<Rightarrow> None | Some p3 \<Rightarrow> decide t p3)"
  using assms
proof (induction p2s)
  case (Cons e p2s)
  obtain t' p3 where e: "e = (t', p3)" by (cases e)
  have w: "winners decide (e # p2s) = (case decide t' p3 of None \<Rightarrow> [] | Some v \<Rightarrow> [(t', v)]) @ winners decide p2s"
    by (simp add: winners_def e)
  have "map_of p2s t' = None" using Cons.prems e by (auto simp: map_of_eq_None_iff)
  then show ?case using Cons e w by (auto split: option.splits)
qed (simp add: winners_def)

lemma commit_times_latest:
  assumes "bucket_ok b" "distinct (map fst p2s)"
  shows "latest b (\<lambda>t. case map_of p2s t of None \<Rightarrow> None | Some p3 \<Rightarrow> decide t p3) (commit_times decide p2s b)"
proof -
  have "map_of (rev (winners decide p2s)) = map_of (winners decide p2s)"
    using distinct_winners [OF assms(2), of decide] by (simp add: map_of_rev_distinct)
  then have "map_of (rev (winners decide p2s)) = (\<lambda>t. case map_of p2s t of None \<Rightarrow> None | Some p3 \<Rightarrow> decide t p3)"
    using map_of_winners [OF assms(2), of decide] by (simp add: fun_eq_iff)
  then show ?thesis
    using latest_fold [OF assms(1), of "winners decide p2s"] by (simp add: commit_times_fold)
qed

lemma bucket_of_update: "bucket_of (store(k \<mapsto> b)) k' = (if k' = k then b else bucket_of store k')"
  by (simp add: bucket_of_def)

lemma commit_keys_other:
  "k \<notin> fst ` set m \<Longrightarrow> commit_keys decide iter2 m store k = store k"
  by (induction decide iter2 m store rule: commit_keys.induct) auto

lemma commit_keys_at:
  assumes "distinct (map fst m)" "map_of m k = Some p2s"
  shows "commit_keys decide iter2 m store k = Some (commit_times (decide k) (iter2 k p2s) (bucket_of store k))"
  using assms
proof (induction decide iter2 m store rule: commit_keys.induct)
  case (2 decide iter2 k' p2s' p1s store)
  show ?case
  proof (cases "k' = k")
    case True
    then show ?thesis using 2 by (auto simp: commit_keys_other)
  next
    case False
    then have "map_of p1s k = Some p2s" using "2.prems" by simp
    moreover have "bucket_of (store(k' \<mapsto> b)) k = bucket_of store k" for b
      using False by (simp add: bucket_of_update)
    ultimately show ?thesis using "2.IH" "2.prems"(1) by (simp del: fun_upd_apply)
  qed
qed simp

text \<open>The store after a fuse, as a relation that mentions no iteration order.\<close>

definition fused :: "(string \<Rightarrow> u64 \<Rightarrow> (int \<times> 'v) list \<Rightarrow> string option) \<Rightarrow> 'v ktnv \<Rightarrow> store \<Rightarrow> store \<Rightarrow> bool" where
  "fused decide m store store' \<longleftrightarrow>
     (\<forall>k. case map_of m k of
            None \<Rightarrow> store' k = store k
          | Some mt \<Rightarrow> \<exists>b. store' k = Some b \<and>
              latest (bucket_of store k) (\<lambda>t. case map_of mt t of None \<Rightarrow> None | Some p3 \<Rightarrow> decide k t p3) b)"

lemma fusedD:
  assumes "fused decide m store store'"
  shows "map_of m k = None \<Longrightarrow> store' k = store k"
    and "map_of m k = Some mt \<Longrightarrow> \<exists>b. store' k = Some b \<and>
      latest (bucket_of store k) (\<lambda>t. case map_of mt t of None \<Rightarrow> None | Some p3 \<Rightarrow> decide k t p3) b"
  using assms [unfolded fused_def, THEN spec, of k] by simp_all

lemma fused_unique:
  assumes "fused decide m store s1" "fused decide m store s2"
  shows "s1 = s2"
proof
  fix k show "s1 k = s2 k"
  proof (cases "map_of m k")
    case None
    then show ?thesis using fusedD(1) [OF assms(1)] fusedD(1) [OF assms(2)] by metis
  next
    case (Some mt)
    then show ?thesis
      using fusedD(2) [OF assms(1) Some] fusedD(2) [OF assms(2) Some] latest_unique by metis
  qed
qed

lemma fused_ok:
  assumes "fused decide m store store'" "store_ok store"
  shows "store_ok store'"
  unfolding store_ok_def
proof (intro allI impI)
  fix k b assume b: "store' k = Some b"
  show "bucket_ok b"
  proof (cases "map_of m k")
    case None
    then have "store k = Some b" using fusedD(1) [OF assms(1)] b by simp
    then show ?thesis using assms(2) by (simp add: store_ok_def)
  next
    case (Some mt)
    then show ?thesis using fusedD(2) [OF assms(1) Some] b by (auto dest: latest_ok)
  qed
qed

lemma commit_keys_fused:
  assumes "store_ok store" "ktnv_ok m" "iteration_order iter1" "\<And>k. iteration_order (iter2 k)"
  shows "fused decide m store (commit_keys decide iter2 (iter1 m) store)"
  unfolding fused_def
proof
  fix k
  have d: "distinct (map fst m)" using assms(2) by (simp add: ktnv_ok_def)
  note i1 = iteration_order_map_of [OF assms(3) d] iteration_order_distinct [OF assms(3) d]
    iteration_order_set [OF assms(3), of m]
  show "case map_of m k of
            None \<Rightarrow> commit_keys decide iter2 (iter1 m) store k = store k
          | Some mt \<Rightarrow> \<exists>b. commit_keys decide iter2 (iter1 m) store k = Some b \<and>
              latest (bucket_of store k) (\<lambda>t. case map_of mt t of None \<Rightarrow> None | Some p3 \<Rightarrow> decide k t p3) b"
  proof (cases "map_of m k")
    case None
    then have "k \<notin> fst ` set (iter1 m)" using i1(3) by (simp add: map_of_eq_None_iff)
    then show ?thesis using None by (simp add: commit_keys_other)
  next
    case (Some mt)
    then have "(k, mt) \<in> set m" by (rule map_of_SomeD)
    then have dt: "distinct (map fst mt)" using assms(2) by (auto simp: ktnv_ok_def times_ok_def)
    have "commit_keys decide iter2 (iter1 m) store k = Some (commit_times (decide k) (iter2 k mt) (bucket_of store k))"
      using i1 Some by (intro commit_keys_at) auto
    moreover have "latest (bucket_of store k) (\<lambda>t. case map_of mt t of None \<Rightarrow> None | Some p3 \<Rightarrow> decide k t p3)
        (commit_times (decide k) (iter2 k mt) (bucket_of store k))"
      using commit_times_latest [OF bucket_of_ok [OF assms(1)] iteration_order_distinct [OF assms(4) dt], where decide = "decide k"]
      by (simp add: iteration_order_map_of [OF assms(4) dt])
    ultimately show ?thesis using Some by simp
  qed
qed

end
