(* ===== verification/Bft_Fuse_Spec.thy ===== *)
theory Bft_Fuse_Spec imports Bft_Fuse begin

text \<open>
  What the fuse functions of Bft_Fuse commit, and that replicas which fuse the same vector
  into the same store end with the same store, whatever order their hash tables iterate in.
\<close>

section \<open>The contract of a fuse rule\<close>

locale fuse_rule =
  fixes decide :: "'v orders \<Rightarrow> string \<Rightarrow> u64 \<Rightarrow> (int \<times> 'v) list \<Rightarrow> string option"
    and adm :: "(int \<times> 'v) list \<Rightarrow> bool"
  assumes order_free: "fair_orders o1 \<Longrightarrow> fair_orders o2 \<Longrightarrow> adm p3 \<Longrightarrow> decide o1 k t p3 = decide o2 k t p3"
begin

lemma fused_order_free:
  assumes "fair_orders o1" "fair_orders o2" "ktnv_ok m" "\<And>k t. adm (lookup2 m k t)"
    and "fused (decide o1) m store store'"
  shows "fused (decide o2) m store store'"
proof -
  have "(case map_of mt t of None \<Rightarrow> None | Some p3 \<Rightarrow> decide o1 k t p3) =
      (case map_of mt t of None \<Rightarrow> None | Some p3 \<Rightarrow> decide o2 k t p3)"
    if "map_of m k = Some mt" for k mt t
    using assms(4) [of k t] that order_free [OF assms(1,2)] by (auto simp: lookup2_def split: option.splits)
  then show ?thesis
    using assms(5) by (simp add: fused_def cong: option.case_cong)
qed

lemma same_store:
  assumes "fair_orders o1" "fair_orders o2" "ktnv_ok m" "\<And>k t. adm (lookup2 m k t)" "store_ok store"
  shows "commit_keys (decide o1) (ord2 o1) (ord1 o1 m) store = commit_keys (decide o2) (ord2 o2) (ord1 o2 m) store"
proof -
  have "fused (decide ord) m store (commit_keys (decide ord) (ord2 ord) (ord1 ord m) store)"
    if "fair_orders ord" for ord
    using that assms(3,5) by (intro commit_keys_fused) (auto simp: fair_orders_def)
  then show ?thesis
    using fused_order_free [OF assms(1-4)] assms(1,2) by (metis fused_unique)
qed

end

section \<open>The strict majority\<close>

lemma count_values_map:
  "map_of (count_values p3 freq) v =
   (let k = count_list (map snd p3) v in
    case map_of freq v of None \<Rightarrow> if k = 0 then None else Some (int k) | Some j \<Rightarrow> Some (j + int k))"
  by (induction p3 freq rule: count_values.induct) (auto simp: map_simps Let_def split: option.splits)

lemma count_values_distinct: "distinct (map fst freq) \<Longrightarrow> distinct (map fst (count_values p3 freq))"
  by (induction p3 freq rule: count_values.induct) (auto intro: distinct_um_upd)

lemma first_strong_Some: "first_strong n l = Some v \<Longrightarrow> \<exists>k. (v, k) \<in> set l \<and> n < 2 * k"
  by (induction n l rule: first_strong.induct) (auto split: if_splits)

lemma first_strong_None: "first_strong n l = None \<Longrightarrow> (v, k) \<in> set l \<Longrightarrow> 2 * k \<le> n"
  by (induction n l rule: first_strong.induct) (auto split: if_splits)

lemma count_list_perm:
  assumes "iteration_order iter"
  shows "count_list (map f (iter m)) v = count_list (map f m) v" "length (iter m) = length m"
proof -
  have mset: "mset (iter m) = mset m" using assms by (simp add: iteration_order_def)
  then have "mset (map f (iter m)) = mset (map f m)" by (simp only: mset_map)
  then show "count_list (map f (iter m)) v = count_list (map f m) v" by (metis count_mset)
  show "length (iter m) = length m" using mset by (rule mset_eq_length)
qed

lemma strong_winner_iff:
  assumes "fair_orders ord" "int (length p3) \<le> n" "0 \<le> n"
  shows "strong_winner n ord k t p3 = Some v \<longleftrightarrow> n < 2 * int (count_list (map snd p3) v)"
proof -
  let ?q3 = "ord3 ord k t p3"
  let ?freq = "count_values ?q3 []"
  have i3: "iteration_order (ord3 ord k t)" and i4: "iteration_order (ord4 ord k t)"
    using assms(1) by (auto simp: fair_orders_def)
  note cnt = count_list_perm [OF i3, where m = p3]
  have entries: "(w, j) \<in> set (ord4 ord k t ?freq) \<longleftrightarrow>
      0 < count_list (map snd p3) w \<and> j = int (count_list (map snd p3) w)" for w j
  proof -
    have "distinct (map fst ?freq)" by (simp add: count_values_distinct)
    then have "(w, j) \<in> set (ord4 ord k t ?freq) \<longleftrightarrow> map_of ?freq w = Some j"
      by (simp add: map_of_eq_Some_iff iteration_order_set [OF i4])
    then show ?thesis by (auto simp: count_values_map cnt Let_def)
  qed
  show ?thesis
  proof
    assume "strong_winner n ord k t p3 = Some v"
    then obtain j where "(v, j) \<in> set (ord4 ord k t ?freq)" "n < 2 * j"
      unfolding strong_winner_def by (blast dest: first_strong_Some)
    then show "n < 2 * int (count_list (map snd p3) v)" by (simp add: entries)
  next
    assume maj: "n < 2 * int (count_list (map snd p3) v)"
    then have "(v, int (count_list (map snd p3) v)) \<in> set (ord4 ord k t ?freq)"
      using assms(3) by (auto simp: entries)
    with maj have "strong_winner n ord k t p3 \<noteq> None"
      unfolding strong_winner_def using first_strong_None by fastforce
    then obtain w where w: "strong_winner n ord k t p3 = Some w" by blast
    then obtain j where "(w, j) \<in> set (ord4 ord k t ?freq)" "n < 2 * j"
      unfolding strong_winner_def by (blast dest: first_strong_Some)
    then have "n < 2 * int (count_list (map snd p3) w)" by (simp add: entries)
    then have "w = v"
      using maj assms(2) count_list_two [of w v "map snd p3"] by (cases "w = v") auto
    with w show "strong_winner n ord k t p3 = Some v" by simp
  qed
qed

interpretation strong: fuse_rule "strong_winner n" "\<lambda>p3. int (length p3) \<le> n \<and> 0 \<le> n"
  for n
proof
  fix o1 o2 :: "string orders" and p3 :: "(int \<times> string) list" and k t
  assume "fair_orders o1" "fair_orders o2" "int (length p3) \<le> n \<and> 0 \<le> n"
  then have "strong_winner n o1 k t p3 = Some v \<longleftrightarrow> strong_winner n o2 k t p3 = Some v" for v
    by (simp add: strong_winner_iff)
  then show "strong_winner n o1 k t p3 = strong_winner n o2 k t p3"
    by (metis not_None_eq)
qed

section \<open>The median\<close>

lemma median_perm: "mset xs = mset ys \<Longrightarrow> median avg xs = median avg ys"
  using properties_for_sort [of "sort ys" xs] by (simp add: median_def)

lemma numbers_of_Some: "numbers_of vs = Some xs \<longleftrightarrow> vs = map Num xs"
  by (induction vs arbitrary: xs rule: numbers_of.induct) (auto simp: Cons_eq_map_conv)

lemma numbers_of_None: "numbers_of vs = None \<longleftrightarrow> NaN \<in> set vs"
  by (induction vs rule: numbers_of.induct) auto

text \<open>The value does not depend on the order in which the map was read.\<close>

lemma numbers_median_perm:
  assumes "mset vs = mset ws"
  shows "(case numbers_of vs of None \<Rightarrow> NaN | Some xs \<Rightarrow> median avg xs) =
    (case numbers_of ws of None \<Rightarrow> NaN | Some xs \<Rightarrow> median avg xs)"
proof (cases "numbers_of vs")
  case None
  then have "numbers_of ws = None" using mset_eq_setD [OF assms] by (simp add: numbers_of_None)
  with None show ?thesis by simp
next
  case (Some xs)
  then have "NaN \<notin> set ws" using mset_eq_setD [OF assms] by (metis numbers_of_None option.distinct(1))
  then obtain ys where ys: "numbers_of ws = Some ys" by (metis numbers_of_None option.exhaust)
  have "image_mset Num (mset xs) = image_mset Num (mset ys)"
    using assms Some ys by (simp add: numbers_of_Some)
  from arg_cong [OF this, of "image_mset (\<lambda>d. case d of Num x \<Rightarrow> x)"] have "mset xs = mset ys"
    by (simp add: multiset.map_comp o_def)
  then show ?thesis using Some ys median_perm [of xs ys avg] by simp
qed

interpretation doubles: fuse_rule "median_text avg to_string" "\<lambda>_. True"
  for avg :: "'d :: linorder \<Rightarrow> 'd \<Rightarrow> 'd double" and to_string
proof
  fix o1 o2 :: "'d double orders" and p3 k t
  assume "fair_orders o1" "fair_orders o2"
  then have "mset (ord3 o1 k t p3) = mset p3" "mset (ord3 o2 k t p3) = mset p3"
    by (auto simp: fair_orders_def iteration_order_def)
  then have "mset (map snd (ord3 o1 k t p3)) = mset (map snd (ord3 o2 k t p3))"
    by (simp only: mset_map)
  then show "median_text avg to_string o1 k t p3 = median_text avg to_string o2 k t p3"
    using numbers_median_perm [of "map snd (ord3 o1 k t p3)" "map snd (ord3 o2 k t p3)" avg]
    by (simp add: median_text_def median_winner_def)
qed

section \<open>What the nodes propose\<close>

text \<open>The value that a node proposes for a key and a time: its last accepted tuple.\<close>

definition accepted :: "nat \<Rightarrow> eig_node \<Rightarrow> tuple list" where
  "accepted NT nd = (if unat (nlength nd) > NT then [] else take (unat (nlength nd)) (ntuples nd))"

definition entries :: "nat \<Rightarrow> nat \<Rightarrow> tuple list \<Rightarrow> ((string \<times> u64) \<times> string) list" where
  "entries KS VS ts = map (\<lambda>t. ((key_of KS t, ttime t), value_of VS t)) ts"

definition proposal :: "nat \<Rightarrow> nat \<Rightarrow> nat \<Rightarrow> eig_node \<Rightarrow> string \<Rightarrow> u64 \<Rightarrow> string option" where
  "proposal NT KS VS nd k t = map_of (rev (entries KS VS (accepted NT nd))) (k, t)"

lemma collect_strings_ok: "ktnv_ok m \<Longrightarrow> ktnv_ok (collect_strings KS VS i ts m)"
  by (induction KS VS i ts m rule: collect_strings.induct) (auto intro: put3_ok)

lemma gather_strings_ok: "ktnv_ok m \<Longrightarrow> ktnv_ok (gather_strings NT KS VS i nds m)"
  by (induction NT KS VS i nds m rule: gather_strings.induct) (auto simp: collect_strings_ok)

lemma collect_strings_lookup:
  "map_of (lookup2 (collect_strings KS VS i ts m) k t) j =
   (case map_of (rev (entries KS VS ts)) (k, t) of
      Some v \<Rightarrow> if j = i then Some v else map_of (lookup2 m k t) j
    | None \<Rightarrow> map_of (lookup2 m k t) j)"
  by (induction KS VS i ts m rule: collect_strings.induct)
     (auto simp: lookup_put3 entries_def map_add_def split: option.splits)

lemma collect_strings_keys:
  "map_of (collect_strings KS VS i ts m) k \<noteq> None \<longleftrightarrow> map_of m k \<noteq> None \<or> k \<in> set (map (key_of KS) ts)"
  by (induction KS VS i ts m rule: collect_strings.induct) (auto simp: keys_put3 simp del: not_None_eq)

lemma gather_strings_step:
  "gather_strings NT KS VS i (nd # nds) m =
   gather_strings NT KS VS (i + 1) nds (collect_strings KS VS i (accepted NT nd) m)"
  by (simp add: accepted_def)

lemma gather_strings_lookup:
  "map_of (lookup2 (gather_strings NT KS VS i nds m) k t) j =
   (if i \<le> j \<and> j < i + int (length nds)
    then (case proposal NT KS VS (nds ! nat (j - i)) k t of
            Some v \<Rightarrow> Some v
          | None \<Rightarrow> map_of (lookup2 m k t) j)
    else map_of (lookup2 m k t) j)"
proof (induction nds arbitrary: i m)
  case (Cons nd nds)
  have nth: "nat (j - i) = Suc (nat (j - (i + 1)))" if "i < j"
    using that by simp
  consider "j < i" | "j = i" | "i < j" by linarith
  then show ?case
    unfolding gather_strings_step Cons.IH collect_strings_lookup
    by cases (auto simp: proposal_def nth split: option.splits)
qed auto

lemma gather_strings_keys:
  "map_of (gather_strings NT KS VS i nds m) k \<noteq> None \<longleftrightarrow>
   map_of m k \<noteq> None \<or> (\<exists>nd \<in> set nds. \<exists>t. proposal NT KS VS nd k t \<noteq> None)"
proof (induction nds arbitrary: i m)
  case (Cons nd nds)
  have "(k \<in> set (map (key_of KS) (accepted NT nd))) = (\<exists>t. proposal NT KS VS nd k t \<noteq> None)"
    by (auto simp: proposal_def map_of_eq_None_iff entries_def image_iff simp del: not_None_eq)
  then show ?case
    unfolding gather_strings_step Cons.IH by (auto simp: collect_strings_keys simp del: not_None_eq)
qed simp

lemma lookup2_distinct:
  assumes "ktnv_ok m"
  shows "distinct (map fst (lookup2 m k t))"
proof -
  have "distinct (map fst mi)" if "map_of m k = Some mt" "map_of mt t = Some mi" for mt mi
  proof -
    have "times_ok mt" using assms map_of_SomeD [OF that(1)] by (force simp: ktnv_ok_def)
    then show ?thesis using map_of_SomeD [OF that(2)] by (force simp: times_ok_def)
  qed
  then show ?thesis by (auto simp: lookup2_def split: option.splits)
qed

text \<open>The number of nodes that propose a value is its count in the collected map.\<close>

lemma votes_card:
  assumes "distinct (map fst p3)" "\<And>j. map_of p3 j = (if 0 \<le> j \<and> j < int n then g (nat j) else None)"
  shows "count_list (map snd p3) v = card {i. i < n \<and> g i = Some v}" "length p3 \<le> n"
proof -
  have mem: "(j, w) \<in> set p3 \<longleftrightarrow> 0 \<le> j \<and> j < int n \<and> g (nat j) = Some w" for j w
    using assms(2) [of j] map_of_eq_Some_iff [OF assms(1), of j w] by (auto split: if_splits)
  have "count_list (map snd p3) v = length (filter (\<lambda>e. snd e = v) p3)"
    by (simp add: count_list_filter filter_map o_def eq_commute)
  also have "\<dots> = card (set (filter (\<lambda>e. snd e = v) p3))"
    using assms(1) by (metis distinct_card distinct_filter distinct_map)
  also have "set (filter (\<lambda>e. snd e = v) p3) = (\<lambda>i. (int i, v)) ` {i. i < n \<and> g i = Some v}"
    using mem by (auto simp: image_iff) (metis int_nat_eq nat_less_iff of_nat_0_le_iff)
  also have "card \<dots> = card {i. i < n \<and> g i = Some v}"
    by (intro card_image) (auto simp: inj_on_def)
  finally show "count_list (map snd p3) v = card {i. i < n \<and> g i = Some v}" .
  have "fst ` set p3 \<subseteq> int ` {..<n}"
  proof
    fix j assume "j \<in> fst ` set p3"
    then have "0 \<le> j" "j < int n" using mem by auto
    then show "j \<in> int ` {..<n}" by (intro image_eqI [where x = "nat j"]) auto
  qed
  then have "card (fst ` set p3) \<le> card (int ` {..<n})" by (intro card_mono) auto
  then show "length p3 \<le> n"
    using distinct_card [OF assms(1)] by (simp add: card_image)
qed

section \<open>The strict majority fuse\<close>

definition supporters :: "nat \<Rightarrow> nat \<Rightarrow> nat \<Rightarrow> eig_node list \<Rightarrow> string \<Rightarrow> u64 \<Rightarrow> string \<Rightarrow> nat set" where
  "supporters NT KS VS nodes k t v = {i. i < length nodes \<and> proposal NT KS VS (nodes ! i) k t = Some v}"

lemma gathered_votes:
  defines "m \<equiv> \<lambda>NT KS VS nodes. gather_strings NT KS VS 0 nodes []"
  shows "ktnv_ok (m NT KS VS nodes)"
    and "length (lookup2 (m NT KS VS nodes) k t) \<le> length nodes"
    and "count_list (map snd (lookup2 (m NT KS VS nodes) k t)) v = card (supporters NT KS VS nodes k t v)"
proof -
  show ok: "ktnv_ok (m NT KS VS nodes)"
    unfolding m_def by (rule gather_strings_ok) (simp add: ktnv_ok_def)
  have "map_of (lookup2 (m NT KS VS nodes) k t) j =
      (if 0 \<le> j \<and> j < int (length nodes) then proposal NT KS VS (nodes ! nat j) k t else None)" for j
    unfolding m_def gather_strings_lookup by (auto simp: lookup2_def split: option.splits)
  note card = votes_card [OF lookup2_distinct [OF ok] this]
  show "length (lookup2 (m NT KS VS nodes) k t) \<le> length nodes" by (rule card(2))
  show "count_list (map snd (lookup2 (m NT KS VS nodes) k t)) v = card (supporters NT KS VS nodes k t v)"
    unfolding supporters_def by (rule card(1))
qed

lemma int_less_twice: "int n < 2 * int c \<longleftrightarrow> n < 2 * c"
  by presburger

lemma strong_winner_empty: "fair_orders ord \<Longrightarrow> 0 \<le> n \<Longrightarrow> strong_winner n ord k t [] = None"
  using strong_winner_iff [of ord "[]" n k t] by (cases "strong_winner n ord k t []") auto

lemma strong_fused:
  assumes "nodes \<noteq> []" "store_ok store" "fair_orders ord"
  shows "\<exists>store'. strong_simple_majority_of_strings NT KS VS ord nodes store = Inr store' \<and>
    fused (strong_winner (int (length nodes)) ord) (gather_strings NT KS VS 0 nodes []) store store'"
  using assms gathered_votes(1) [of NT KS VS nodes]
  by (auto simp: strong_simple_majority_of_strings_def fair_orders_def intro!: commit_keys_fused)

lemma strong_commits:
  assumes "nodes \<noteq> []" "store_ok store" "fair_orders ord"
  shows "\<exists>store'. strong_simple_majority_of_strings NT KS VS ord nodes store = Inr store' \<and> store_ok store' \<and>
    (\<forall>k. if \<exists>nd \<in> set nodes. \<exists>t. proposal NT KS VS nd k t \<noteq> None
         then \<exists>b maj. store' k = Some b \<and> latest (bucket_of store k) maj b \<and>
                (\<forall>t v. maj t = Some v \<longleftrightarrow> length nodes < 2 * card (supporters NT KS VS nodes k t v))
         else store' k = store k)"
proof -
  let ?m = "gather_strings NT KS VS 0 nodes []" and ?n = "int (length nodes)"
  from strong_fused [OF assms] obtain store' where store':
    "strong_simple_majority_of_strings NT KS VS ord nodes store = Inr store'"
    "fused (strong_winner ?n ord) ?m store store'" by blast
  have "if \<exists>nd \<in> set nodes. \<exists>t. proposal NT KS VS nd k t \<noteq> None
         then \<exists>b maj. store' k = Some b \<and> latest (bucket_of store k) maj b \<and>
                (\<forall>t v. maj t = Some v \<longleftrightarrow> length nodes < 2 * card (supporters NT KS VS nodes k t v))
         else store' k = store k" for k
  proof (cases "map_of ?m k")
    case None
    then show ?thesis
      using fusedD(1) [OF store'(2)] gather_strings_keys [of NT KS VS 0 nodes "[]" k] by simp
  next
    case (Some mt)
    let ?maj = "\<lambda>t. case map_of mt t of None \<Rightarrow> None | Some p3 \<Rightarrow> strong_winner ?n ord k t p3"
    have maj: "?maj t = strong_winner ?n ord k t (lookup2 ?m k t)" for t
      using Some strong_winner_empty [OF assms(3)] by (simp add: lookup2_def split: option.split)
    have "?maj t = Some v \<longleftrightarrow> length nodes < 2 * card (supporters NT KS VS nodes k t v)" for t v
      unfolding maj using strong_winner_iff [OF assms(3), of "lookup2 ?m k t" ?n k t v]
        gathered_votes(2,3) [of NT KS VS nodes k t] by (simp add: int_less_twice)
    then show ?thesis
      using fusedD(2) [OF store'(2) Some] Some gather_strings_keys [of NT KS VS 0 nodes "[]" k] by auto
  qed
  then show ?thesis using store' fused_ok [OF store'(2) assms(2)] by blast
qed

text \<open>C13 (strong_majority_commits): the strict-majority fuse commits exactly the majority
  values. It succeeds on any non-empty vector; a key that no accepted node proposes is
  left alone; for every other key the new bucket keeps the latest of the old values and
  the committed ones, and a value is committed for a time exactly when more than half of
  all the nodes propose it for that key and time.\<close>

theorem strong_majority_commits:
  assumes "nodes \<noteq> []" "store_ok store" "fair_orders ord"
  shows "\<exists>store'. strong_simple_majority_of_strings NT KS VS ord nodes store = Inr store' \<and> store_ok store' \<and>
    (\<forall>k. if \<exists>nd \<in> set nodes. \<exists>t. proposal NT KS VS nd k t \<noteq> None
         then \<exists>b maj. store' k = Some b \<and> latest (bucket_of store k) maj b \<and>
                (\<forall>t v. maj t = Some v \<longleftrightarrow> length nodes < 2 * card (supporters NT KS VS nodes k t v))
         else store' k = store k)"
  using assms by (rule strong_commits)

definition demo_orders :: "string orders" where
  "demo_orders = \<lparr>ord1 = \<lambda>m. m, ord2 = \<lambda>_. rev, ord3 = \<lambda>_ _ m. m, ord4 = \<lambda>_ _. rev\<rparr>"

lemma demo_orders_fair: "fair_orders demo_orders"
  by (simp add: fair_orders_def demo_orders_def iteration_order_id iteration_order_rev)

definition demo_node :: "string \<Rightarrow> string \<Rightarrow> u64 \<Rightarrow> eig_node" where
  "demo_node k v t = \<lparr>nlength = 1, npadding = replicate 4 NUL,
     ntuples = [\<lparr>tkey = k @ [NUL], tvalue = v @ [NUL], tpadding = replicate 4 NUL, ttime = t\<rparr>]\<rparr>"

theorem strong_majority_commits_witness:
  "\<exists>store'. strong_simple_majority_of_strings 1 1 1 demo_orders
      [demo_node ''k'' ''x'' 7, demo_node ''k'' ''y'' 7, demo_node ''k'' ''x'' 7] Map.empty = Inr store' \<and>
    store_ok store'"
  using strong_majority_commits [of
      "[demo_node ''k'' ''x'' 7, demo_node ''k'' ''y'' 7, demo_node ''k'' ''x'' 7]" Map.empty demo_orders 1 1 1]
    demo_orders_fair
  by (auto simp: store_ok_def)

lemma strong_same_store:
  assumes "store_ok store" "fair_orders o1" "fair_orders o2"
  shows "strong_simple_majority_of_strings NT KS VS o1 nodes store =
    strong_simple_majority_of_strings NT KS VS o2 nodes store"
  using strong.same_store [OF assms(2,3), of "gather_strings NT KS VS 0 nodes []" "int (length nodes)" store]
    gathered_votes(1,2) [of NT KS VS nodes] assms(1)
  by (simp add: strong_simple_majority_of_strings_def)

text \<open>Lemma (strong_majority_replicas_agree): two replicas that fuse the same vector into the
  same store end with the same store, however their hash tables iterate.\<close>

theorem strong_majority_replicas_agree:
  assumes "store_ok store" "fair_orders o1" "fair_orders o2"
  shows "strong_simple_majority_of_strings NT KS VS o1 nodes store =
    strong_simple_majority_of_strings NT KS VS o2 nodes store"
  using assms by (rule strong_same_store)

theorem strong_majority_replicas_agree_witness:
  "strong_simple_majority_of_strings 1 1 1 demo_orders [demo_node ''k'' ''x'' 7] Map.empty =
   strong_simple_majority_of_strings 1 1 1 (demo_orders\<lparr>ord1 := rev\<rparr>) [demo_node ''k'' ''x'' 7] Map.empty"
  by (rule strong_majority_replicas_agree)
     (simp_all add: store_ok_def fair_orders_def demo_orders_def iteration_order_id iteration_order_rev)

section \<open>The median fuse\<close>

lemma sorted_low_half:
  assumes "k < length vs" "sorted vs" "vs ! k < lo"
  shows "Suc k \<le> length (filter (\<lambda>v. v < lo) (vs :: 'd :: linorder list))"
proof -
  have "v < lo" if "v \<in> set (take (Suc k) vs)" for v
    using that assms by (auto simp: in_set_conv_nth) (meson le_less_trans less_Suc_eq_le sorted_nth_mono)
  then have "length (filter (\<lambda>v. v < lo) (take (Suc k) vs)) = length (take (Suc k) vs)"
    by (simp add: filter_True)
  moreover have "length (filter (\<lambda>v. v < lo) vs) =
      length (filter (\<lambda>v. v < lo) (take (Suc k) vs)) + length (filter (\<lambda>v. v < lo) (drop (Suc k) vs))"
    by (metis append_take_drop_id filter_append length_append)
  ultimately show ?thesis using assms(1) by simp
qed

lemma sorted_high_half:
  assumes "k < length vs" "sorted vs" "hi < vs ! k"
  shows "length vs - k \<le> length (filter (\<lambda>v. hi < v) (vs :: 'd :: linorder list))"
proof -
  have "hi < v" if "v \<in> set (drop k vs)" for v
  proof -
    from that obtain j where "v = vs ! (k + j)" "k + j < length vs"
      unfolding in_set_conv_nth by (metis add.commute length_drop less_diff_conv nth_drop order_less_imp_le assms(1))
    then show ?thesis using assms(2,3) sorted_nth_mono [of vs k "k + j"] by simp
  qed
  then have "length (filter (\<lambda>v. hi < v) (drop k vs)) = length (drop k vs)"
    by (simp add: filter_True)
  moreover have "length (filter (\<lambda>v. hi < v) vs) =
      length (filter (\<lambda>v. hi < v) (take k vs)) + length (filter (\<lambda>v. hi < v) (drop k vs))"
    by (metis append_take_drop_id filter_append length_append)
  ultimately show ?thesis by simp
qed

text \<open>When more than half of the values lie in a range, so do the two in the middle.\<close>

lemma middle_in_range:
  fixes xs :: "'d :: linorder list"
  assumes "length xs < 2 * length (filter (\<lambda>v. lo \<le> v \<and> v \<le> hi) xs)"
    and "k = length xs div 2 \<or> k = (length xs - 1) div 2"
  shows "lo \<le> sort xs ! k" "sort xs ! k \<le> hi"
proof -
  let ?vs = "sort xs"
  have len: "length (filter P ?vs) = length (filter P xs)" for P
    by (metis mset_filter mset_sort size_mset)
  have "xs \<noteq> []" using assms(1) by auto
  then have "0 < length xs" by simp
  then have k: "k < length ?vs" "length xs \<le> 2 * Suc k" "2 * k \<le> length xs"
    using assms(2) unfolding length_sort by presburger+
  have split: "length (filter P xs) + length (filter (\<lambda>v. lo \<le> v \<and> v \<le> hi) xs) \<le> length xs"
    if "\<And>v. P v \<Longrightarrow> \<not> (lo \<le> v \<and> v \<le> hi)" for P
  proof -
    have "length (filter P xs) \<le> length (filter (\<lambda>v. \<not> (lo \<le> v \<and> v \<le> hi)) xs)"
      using that by (intro length_filter_mono) auto
    then show ?thesis
      using sum_length_filter_compl [of "\<lambda>v. lo \<le> v \<and> v \<le> hi" xs] by linarith
  qed
  show "lo \<le> ?vs ! k"
  proof (rule ccontr)
    assume "\<not> lo \<le> ?vs ! k"
    then have "Suc k \<le> length (filter (\<lambda>v. v < lo) ?vs)"
      using k by (intro sorted_low_half) auto
    then show False
      using split [of "\<lambda>v. v < lo"] len k(2) assms(1) by fastforce
  qed
  show "?vs ! k \<le> hi"
  proof (rule ccontr)
    assume "\<not> ?vs ! k \<le> hi"
    then have "length ?vs - k \<le> length (filter (\<lambda>v. hi < v) ?vs)"
      using k by (intro sorted_high_half) auto
    then show False
      using split [of "\<lambda>v. hi < v"] len k(3) assms(1) by fastforce
  qed
qed

text \<open>The proposals that are numbers of a range.\<close>

fun num_between :: "'d :: linorder \<Rightarrow> 'd \<Rightarrow> 'd double \<Rightarrow> bool" where
  "num_between lo hi (Num x) \<longleftrightarrow> lo \<le> x \<and> x \<le> hi"
| "num_between lo hi NaN \<longleftrightarrow> False"

lemma median_between:
  assumes "length xs < 2 * length (filter (\<lambda>v. lo \<le> v \<and> v \<le> hi) xs)"
  obtains a b where "lo \<le> a" "a \<le> b" "b \<le> hi" "a \<in> set xs" "b \<in> set xs" "median avg xs = avg b a"
proof
  let ?a = "sort xs ! ((length xs - 1) div 2)" and ?b = "sort xs ! (length xs div 2)"
  show "lo \<le> ?a" "?b \<le> hi" using middle_in_range [OF assms] by simp_all
  have "0 < length xs" using assms by (cases xs) auto
  then have n: "length xs div 2 < length (sort xs)" "(length xs - 1) div 2 < length (sort xs)"
    unfolding length_sort by presburger+
  then show "?a \<in> set xs" "?b \<in> set xs" using nth_mem by (metis set_sort)+
  show "?a \<le> ?b" using n by (intro sorted_nth_mono) auto
  show "median avg xs = avg ?b ?a" by (simp add: median_def Let_def)
qed

text \<open>C17 (median_winner_in_range): what proposals outside the correct range can do to the median. Let more than half of the
  values proposed for a key and time be numbers between \<open>lo\<close> and \<open>hi\<close>. Fewer than three values commit nothing. A single NaN
  among them, which \<^verbatim>\<open>std::stod\<close> reads from a text such as nan, leaves the result to an unspecified sort. Otherwise
  the average of two proposals in the range is committed, printed; its value lies in the range as well when averaging does not
  leave the range, which is so for doubles unless the sum of two numbers between \<open>lo\<close> and \<open>hi\<close> overflows.\<close>

theorem median_winner_in_range:
  fixes lo hi :: "'d :: linorder"
  assumes "fair_orders ord" "length p3 < 2 * length (filter (num_between lo hi) (map snd p3))"
  shows "if length p3 < 3 then median_winner avg to_string ord k t p3 = Inr None
    else if NaN \<in> snd ` set p3 then median_winner avg to_string ord k t p3 = Inl Unspecified_order
    else \<exists>a b. lo \<le> a \<and> a \<le> b \<and> b \<le> hi \<and> Num a \<in> snd ` set p3 \<and> Num b \<in> snd ` set p3 \<and>
      median_winner avg to_string ord k t p3 = Inr (Some (to_string (avg b a))) \<and>
      ((\<forall>x y. lo \<le> x \<and> x \<le> y \<and> y \<le> hi \<longrightarrow> num_between lo hi (avg y x)) \<longrightarrow>
        (\<exists>v. avg b a = Num v \<and> lo \<le> v \<and> v \<le> hi))"
proof -
  let ?ws = "map snd (ord3 ord k t p3)"
  have mset: "mset ?ws = mset (map snd p3)"
    using assms(1) by (simp only: mset_map fair_orders_def iteration_order_def)
  have "0 < length (filter (num_between lo hi) (map snd p3))" using assms(2) by linarith
  then obtain v where "v \<in> set (map snd p3)" "num_between lo hi v" by (auto simp: filter_empty_conv)
  then have some_num: "list_ex (\<lambda>v. v \<noteq> NaN) (map snd p3)" unfolding list_ex_iff by (intro bexI [of _ v]) auto
  have short: "median_winner avg to_string ord k t p3 = Inr None" if "length p3 < 3"
    using that by (simp add: median_winner_def)
  have nan: "median_winner avg to_string ord k t p3 = Inl Unspecified_order" if "\<not> length p3 < 3" "NaN \<in> snd ` set p3"
    using that some_num by (auto simp: median_winner_def unordered_def list_ex_iff)
  have num: "\<exists>a b. lo \<le> a \<and> a \<le> b \<and> b \<le> hi \<and> Num a \<in> snd ` set p3 \<and> Num b \<in> snd ` set p3 \<and>
      median_winner avg to_string ord k t p3 = Inr (Some (to_string (avg b a)))"
    if "\<not> length p3 < 3" "NaN \<notin> snd ` set p3"
  proof -
    have "NaN \<notin> set ?ws" using that(2) mset_eq_setD [OF mset] by simp
    then obtain xs where xs: "numbers_of ?ws = Some xs" by (metis numbers_of_None option.exhaust)
    then have ws: "?ws = map Num xs" by (simp only: numbers_of_Some)
    have "length (filter (num_between lo hi) ?ws) = length (filter (num_between lo hi) (map snd p3))"
      using mset by (metis mset_filter size_mset)
    moreover have "length ?ws = length p3" using mset_eq_length [OF mset] by simp
    ultimately have "length xs < 2 * length (filter (\<lambda>v. lo \<le> v \<and> v \<le> hi) xs)"
      using assms(2) unfolding ws by (simp add: filter_map o_def)
    then obtain a b where ab: "lo \<le> a" "a \<le> b" "b \<le> hi" "a \<in> set xs" "b \<in> set xs" "median avg xs = avg b a"
      by (rule median_between)
    have "Num a \<in> set ?ws" "Num b \<in> set ?ws" using ab(4,5) unfolding ws by auto
    then have "Num a \<in> snd ` set p3" "Num b \<in> snd ` set p3" using mset_eq_setD [OF mset] by simp_all
    moreover have "median_winner avg to_string ord k t p3 = Inr (Some (to_string (avg b a)))"
      using that xs ab(6) by (auto simp: median_winner_def unordered_def list_ex_iff)
    ultimately show ?thesis using ab(1-3) by blast
  qed
  have between: "\<exists>v. d = Num v \<and> lo \<le> v \<and> v \<le> hi" if "num_between lo hi d" for d
    using that by (cases d) auto
  consider "length p3 < 3" | "\<not> length p3 < 3" "NaN \<in> snd ` set p3" | "\<not> length p3 < 3" "NaN \<notin> snd ` set p3" by blast
  then show ?thesis
  proof cases
    case 3
    then show ?thesis using num [OF 3] between by (simp only: if_False) blast
  qed (simp_all add: short nan)
qed

definition demo_int_orders :: "int double orders" where
  "demo_int_orders = \<lparr>ord1 = \<lambda>m. m, ord2 = \<lambda>_ m. m, ord3 = \<lambda>_ _. rev, ord4 = \<lambda>_ _ m. m\<rparr>"

definition demo_avg :: "int \<Rightarrow> int \<Rightarrow> int double" where
  "demo_avg a b = Num ((a + b) div 2)"

theorem median_winner_in_range_witness:
  "(\<exists>a b. 3 \<le> a \<and> a \<le> b \<and> b \<le> 5 \<and> Num a \<in> {Num 3, Num 99, Num 5, Num (4 :: int)} \<and> Num b \<in> {Num 3, Num 99, Num 5, Num 4} \<and>
      median_winner demo_avg (\<lambda>v. if v = Num 4 then ''4'' else '''') demo_int_orders ''k'' 1
        [(0, Num 3), (1, Num 99), (2, Num 5), (3, Num 4)] = Inr (Some (if demo_avg b a = Num 4 then ''4'' else '''')) \<and>
      ((\<forall>x y. 3 \<le> x \<and> x \<le> y \<and> y \<le> 5 \<longrightarrow> num_between 3 5 (demo_avg y x)) \<longrightarrow>
        (\<exists>v. demo_avg b a = Num v \<and> 3 \<le> v \<and> v \<le> 5))) \<and>
   median_winner demo_avg (\<lambda>_. '''') demo_int_orders ''k'' 1 [(0, Num 3), (1, NaN), (2, Num 5)] = Inl Unspecified_order"
proof -
  have fair: "fair_orders demo_int_orders"
    by (simp add: fair_orders_def demo_int_orders_def iteration_order_id iteration_order_rev)
  show ?thesis
    using median_winner_in_range [OF fair, of "[(0, Num 3), (1, Num 99), (2, Num 5), (3, Num 4)]" 3 5 demo_avg
        "\<lambda>v. if v = Num 4 then ''4'' else ''''" "''k''" 1]
      median_winner_in_range [OF fair, of "[(0, Num 3), (1, NaN), (2, Num 5)]" 3 5 demo_avg "\<lambda>_. ''''" "''k''" 1]
    by simp
qed

lemma collect_doubles_ok:
  "ktnv_ok m \<Longrightarrow> collect_doubles stod KS VS i ts m = Inr m' \<Longrightarrow> ktnv_ok m'"
  by (induction stod KS VS i ts m rule: collect_doubles.induct)
     (auto intro: put3_ok split: stod_result.splits)

lemma gather_doubles_ok:
  "ktnv_ok m \<Longrightarrow> gather_doubles stod NT KS VS i nds m = Inr m' \<Longrightarrow> ktnv_ok m'"
proof (induction stod NT KS VS i nds m rule: gather_doubles.induct)
  case (2 stod NT KS VS i nd nds m)
  then show ?case
    by (auto split: if_splits sum.splits dest: collect_doubles_ok)
qed simp

text \<open>One vector that cannot be sorted makes the whole fuse undefined.\<close>

lemma unordered_median:
  assumes "gather_doubles stod NT KS VS 0 nodes [] = Inr m" "nodes \<noteq> []" "unordered (lookup2 m k t)"
  shows "median_of_doubles stod avg to_string NT KS VS ord nodes store = Inl Unspecified_order"
proof -
  have "lookup2 m k t \<noteq> []" using assms(3) by (auto simp: unordered_def)
  then obtain p2s where "map_of m k = Some p2s" "map_of p2s t = Some (lookup2 m k t)"
    by (auto simp: lookup2_def split: option.splits)
  then have "(k, p2s) \<in> set m" "(t, lookup2 m k t) \<in> set p2s" by (auto dest: map_of_SomeD)
  then have "list_ex (\<lambda>(_, p2s). list_ex (\<lambda>(_, p3). unordered p3) p2s) m"
    using assms(3) by (force simp: list_ex_iff)
  then show ?thesis using assms(1,2) by (simp add: median_of_doubles_def)
qed

text \<open>Lemma (median_replicas_agree): the median fuse is independent of the iteration orders
  too, its failure included.\<close>

theorem median_replicas_agree:
  assumes "store_ok store" "fair_orders o1" "fair_orders o2"
  shows "median_of_doubles stod avg to_string NT KS VS o1 nodes store =
    median_of_doubles stod avg to_string NT KS VS o2 nodes store"
proof (cases "gather_doubles stod NT KS VS 0 nodes []")
  case (Inr m)
  then have "ktnv_ok m" by (rule gather_doubles_ok [rotated]) (simp add: ktnv_ok_def)
  then show ?thesis
    using doubles.same_store [OF assms(2,3) _ _ assms(1)] Inr by (simp add: median_of_doubles_def)
qed (simp add: median_of_doubles_def)

theorem median_replicas_agree_witness:
  "median_of_doubles (\<lambda>s. Converted (Num (length s))) (\<lambda>a b. Num (max a b)) (\<lambda>_. ''m'') 1 1 1
     \<lparr>ord1 = \<lambda>m. m, ord2 = \<lambda>_ m. m, ord3 = \<lambda>_ _ m. m, ord4 = \<lambda>_ _ m. m\<rparr> [demo_node ''k'' ''x'' 7] Map.empty =
   median_of_doubles (\<lambda>s. Converted (Num (length s))) (\<lambda>a b. Num (max a b)) (\<lambda>_. ''m'') 1 1 1
     \<lparr>ord1 = rev, ord2 = \<lambda>_. rev, ord3 = \<lambda>_ _. rev, ord4 = \<lambda>_ _. rev\<rparr> [demo_node ''k'' ''x'' 7] Map.empty"
  by (rule median_replicas_agree)
     (simp_all add: store_ok_def fair_orders_def iteration_order_id iteration_order_rev)

text \<open>The catch clause around \<^verbatim>\<open>std::stod\<close> covers \<^verbatim>\<open>std::invalid_argument\<close> only.\<close>

lemma collect_doubles_out_of_range:
  assumes "t \<in> set ts" "stod (value_of VS t) = Out_of_range"
  shows "collect_doubles stod KS VS i ts m = Inl Uncaught_out_of_range"
  using assms
  by (induction stod KS VS i ts m rule: collect_doubles.induct) (auto split: stod_result.splits)

lemma collect_doubles_abort:
  "collect_doubles stod KS VS i ts m = Inl e \<Longrightarrow> e = Uncaught_out_of_range"
  by (induction stod KS VS i ts m rule: collect_doubles.induct) (auto split: stod_result.splits)

lemma gather_doubles_out_of_range:
  assumes "nd \<in> set nds" "t \<in> set (accepted NT nd)" "stod (value_of VS t) = Out_of_range"
  shows "gather_doubles stod NT KS VS i nds m = Inl Uncaught_out_of_range"
  using assms
proof (induction nds arbitrary: i m)
  case (Cons nd' nds)
  show ?case
  proof (cases "nd' = nd")
    case True
    then have "\<not> unat (nlength nd) > NT" "t \<in> set (take (unat (nlength nd)) (ntuples nd))"
      using Cons.prems by (auto simp: accepted_def split: if_splits)
    then show ?thesis
      using True Cons.prems by (simp add: collect_doubles_out_of_range)
  next
    case False
    then show ?thesis
      using Cons by (auto split: sum.splits dest: collect_doubles_abort)
  qed
qed simp

text \<open>C29 (one_node_aborts_median): one accepted tuple whose text is a number outside the
  range of \<^verbatim>\<open>double\<close>, such as 1e999, makes the median fuse throw
  \<^verbatim>\<open>std::out_of_range\<close> at every replica, whatever the other nodes propose.\<close>

theorem one_node_aborts_median:
  assumes "nd \<in> set nodes" "t \<in> set (accepted NT nd)" "stod (value_of VS t) = Out_of_range"
  shows "median_of_doubles stod avg to_string NT KS VS ord nodes store = Inl Uncaught_out_of_range"
proof -
  have "nodes \<noteq> []" using assms(1) by auto
  then show ?thesis
    using gather_doubles_out_of_range [where stod = stod, OF assms] by (simp add: median_of_doubles_def)
qed

theorem one_node_aborts_median_witness:
  "\<forall>ord store. median_of_doubles (\<lambda>s. if s = ''1e999'' then Out_of_range else Converted (Num (length s))) (\<lambda>a b. Num (max a b)) (\<lambda>_. '''') 1 1 5
     ord [demo_node ''k'' ''1.000'' 7, demo_node ''k'' ''1e999'' 7] store = Inl Uncaught_out_of_range"
  by (intro allI one_node_aborts_median [where nd = "demo_node ''k'' ''1e999'' 7" and
        t = "\<lparr>tkey = ''k'' @ [NUL], tvalue = ''1e999'' @ [NUL], tpadding = replicate 4 NUL, ttime = 7\<rparr>"])
     (simp_all add: demo_node_def accepted_def value_of_def cstr_def)

section \<open>The default fuse\<close>

lemma commit_tuples_other:
  "k \<notin> key_of KS ` set ts \<Longrightarrow> commit_tuples KS VS ts store k = store k"
  by (induction KS VS ts store rule: commit_tuples.induct) auto

lemma commit_tuples_at:
  "bucket_of (commit_tuples KS VS ts store) k =
   fold (\<lambda>(t, v). bucket_put t v) (map (\<lambda>t. (ttime t, value_of VS t)) (filter (\<lambda>t. key_of KS t = k) ts))
     (bucket_of store k)"
  by (induction KS VS ts store rule: commit_tuples.induct) (auto simp: bucket_of_update simp del: fun_upd_apply)

lemma commit_tuples_dom: "dom (commit_tuples KS VS ts store) = dom store \<union> key_of KS ` set ts"
  by (induction KS VS ts store rule: commit_tuples.induct) (simp_all del: fun_upd_apply)

lemma commit_tuples_ok: "store_ok store \<Longrightarrow> store_ok (commit_tuples KS VS ts store)"
proof (induction KS VS ts store rule: commit_tuples.induct)
  case (2 KS VS t ts store)
  have "store_ok (store(key_of KS t \<mapsto> bucket_put (ttime t) (value_of VS t) (bucket_of store (key_of KS t))))"
    using 2(2) bucket_put_ok [OF bucket_of_ok [OF 2(2)]] by (auto simp: store_ok_def)
  then show ?case using 2(1) by (simp del: fun_upd_apply)
qed simp

lemma default_fuse_ok [inv_intros]: "store_ok store \<Longrightarrow> store_ok (default_fuse NT KS VS nd store)"
  by (simp add: default_fuse_def commit_tuples_ok)

text \<open>Lemma (default_fuse_commits): the default fuse commits the tuples of the agreed node. A
  node that claims more tuples than fit is ignored (it has no accepted tuple). The keys of
  its first \<open>length\<close> tuples get buckets that keep the latest of the old values and the
  tuples' values, a later tuple of the node replacing an earlier one of the same key and
  time; no other key changes.\<close>

theorem default_fuse_commits:
  assumes "store_ok store"
  shows "if k \<in> key_of KS ` set (accepted NT nd)
    then \<exists>b. default_fuse NT KS VS nd store k = Some b \<and>
           latest (bucket_of store k) (\<lambda>t. proposal NT KS VS nd k t) b
    else default_fuse NT KS VS nd store k = store k"
proof -
  have eq: "default_fuse NT KS VS nd store = commit_tuples KS VS (accepted NT nd) store"
    by (simp add: default_fuse_def accepted_def)
  let ?ts = "accepted NT nd"
  let ?tvs = "map (\<lambda>t. (ttime t, value_of VS t)) (filter (\<lambda>t. key_of KS t = k) ?ts)"
  have "map_of (rev (map (\<lambda>t. (ttime t, value_of VS t)) (filter (\<lambda>t. key_of KS t = k) ts))) t =
      map_of (rev (entries KS VS ts)) (k, t)" for ts t
    by (induction ts) (auto simp: entries_def map_add_def split: option.splits)
  then have m: "map_of (rev ?tvs) = (\<lambda>t. proposal NT KS VS nd k t)"
    by (simp add: fun_eq_iff proposal_def)
  show ?thesis
  proof (cases "k \<in> key_of KS ` set ?ts")
    case True
    then have "k \<in> dom (commit_tuples KS VS ?ts store)" by (simp add: commit_tuples_dom)
    then obtain b where b: "commit_tuples KS VS ?ts store k = Some b" by blast
    then have "b = fold (\<lambda>(t, v). bucket_put t v) ?tvs (bucket_of store k)"
      using commit_tuples_at [of KS VS ?ts store k] by (simp add: bucket_of_def)
    then have "latest (bucket_of store k) (map_of (rev ?tvs)) b"
      using latest_fold [OF bucket_of_ok [OF assms], of k ?tvs] by simp
    then show ?thesis using b m True by (simp add: eq)
  next
    case False
    then show ?thesis by (simp add: eq commit_tuples_other)
  qed
qed

theorem default_fuse_commits_witness:
  "\<exists>b. default_fuse 1 1 1 (demo_node ''k'' ''x'' 7) Map.empty ''k'' = Some b \<and>
     latest [] (\<lambda>t. proposal 1 1 1 (demo_node ''k'' ''x'' 7) ''k'' t) b"
  using default_fuse_commits [of Map.empty "''k''" 1 1 "demo_node ''k'' ''x'' 7" 1]
  by (simp add: store_ok_def demo_node_def accepted_def key_of_def cstr_def bucket_of_def)

end
