(* ===== verification/Bft_Consensus.thy ===== *)
theory Bft_Consensus imports Bft_Rounds begin

text \<open>
  What the processes of a cluster hold after the rounds and the reduction of one job:
  interactive consistency. Every correct process ends with the same vector, whose entry
  for a correct process is what that process proposed; and the default result, the root,
  is the common proposal when the correct processes have one.

  The hypotheses are those of the algorithm (\<open>n > 3 f\<close>, \<open>f + 1\<close> rounds, correct processes
  hear each other) and one that the code adds: the hash must separate the values that reach
  the leaves. \<open>hash_collision_breaks_majority\<close> shows that it is needed.
\<close>

section \<open>The vector of a tree\<close>

lemma icv_nth:
  assumes "eig_wf t" "0 < hgt t" "p < deg t"
  shows "interactive_consistency_vector t ! p = slot t [p]"
proof -
  have "idx (deg t) [p] = p" by simp
  then show ?thesis using assms by (simp add: interactive_consistency_vector_def slot_def)
qed

lemma icv_length:
  assumes "eig_wf t" "0 < hgt t"
  shows "length (interactive_consistency_vector t) = deg t"
  using eig_wf_level [OF assms(1), of 1] assms(2) by (simp add: interactive_consistency_vector_def)

lemma icv_relays:
  assumes "eig_wf t" "0 < hgt t"
  shows "map (\<lambda>q. slot t ([] @ [q])) (relays (deg t) []) = interactive_consistency_vector t"
  using assms by (intro nth_equalityI) (simp_all add: icv_length icv_nth relays_def)

section \<open>The cluster at the end of the rounds\<close>

definition proposed :: "(nat \<Rightarrow> 'v) \<Rightarrow> (nat \<Rightarrow> 'v eig_tree) \<Rightarrow> nat \<Rightarrow> 'v eig_tree" where
  "proposed own trees i = set_root (own i) (trees i)"

definition collected :: "nat \<Rightarrow> (nat \<Rightarrow> 'v lie_function option) \<Rightarrow> u64
    \<Rightarrow> (nat \<Rightarrow> nat \<Rightarrow> nat \<Rightarrow> 'v list \<Rightarrow> 'v list) \<Rightarrow> (nat \<Rightarrow> nat \<Rightarrow> nat list)
    \<Rightarrow> (nat \<Rightarrow> 'v) \<Rightarrow> u32 \<Rightarrow> (nat \<Rightarrow> 'v eig_tree) \<Rightarrow> nat \<Rightarrow> 'v eig_tree" where
  "collected size_T lie num_jobs chan arrive own h trees =
     cluster_rounds size_T lie num_jobs chan arrive (unat h) (proposed own trees)"

definition leaf_values :: "'v \<Rightarrow> nat set \<Rightarrow> (nat \<Rightarrow> 'v eig_tree) \<Rightarrow> 'v set" where
  "leaf_values zero C T = insert zero (\<Union>i \<in> C. set (levels (T i) ! unat (height (T i))))"

text \<open>The state of a cluster at the end of the rounds, with the algorithm's hypotheses.\<close>

definition cluster_end :: "u32 \<Rightarrow> u32 \<Rightarrow> nat set \<Rightarrow> ('v \<Rightarrow> u32) \<Rightarrow> 'v \<Rightarrow> (nat \<Rightarrow> order_at)
    \<Rightarrow> (nat \<Rightarrow> 'v eig_tree) \<Rightarrow> (nat \<Rightarrow> 'v) \<Rightarrow> bool" where
  "cluster_end d h C hash zero iter T own \<longleftrightarrow>
     C \<subseteq> {..<unat d} \<and> (\<forall>i < unat d. same_shape d h (T i)) \<and>
     card ({..<unat d} - C) < unat h \<and> 3 * (unat h - 1) < unat d \<and>
     (\<forall>i. orders_ok (iter i)) \<and> inj_on hash (leaf_values zero C T) \<and>
     relayed (unat d) (unat h) C (\<lambda>i. slot (T i)) \<and> (\<forall>i \<in> C. slot (T i) [] = own i)"

lemma cluster_endD:
  assumes "cluster_end d h C hash zero iter T own"
  shows "C \<subseteq> {..<unat d}" "i \<in> C \<Longrightarrow> i < unat d" "i < unat d \<Longrightarrow> same_shape d h (T i)"
    "i \<in> C \<Longrightarrow> eig_wf (T i)" "i \<in> C \<Longrightarrow> degree (T i) = d" "i \<in> C \<Longrightarrow> height (T i) = h"
    "card ({..<unat d} - C) < unat h" "3 * (unat h - 1) < unat d"
    "orders_ok (iter i)" "inj_on hash (leaf_values zero C T)"
    "relayed (unat d) (unat h) C (\<lambda>i. slot (T i))" "i \<in> C \<Longrightarrow> slot (T i) [] = own i" "0 < unat h"
  using assms by (auto simp: cluster_end_def same_shape_def)

definition leaf_val :: "'v \<Rightarrow> nat set \<Rightarrow> (nat \<Rightarrow> 'v eig_tree) \<Rightarrow> nat \<Rightarrow> nat list \<Rightarrow> 'v" where
  "leaf_val zero C T i ps = (if i \<in> C then slot (T i) ps else zero)"

definition order_of :: "(nat \<Rightarrow> order_at) \<Rightarrow> u32 \<Rightarrow> nat \<Rightarrow> nat list \<Rightarrow> (u32 \<times> int) list \<Rightarrow> (u32 \<times> int) list" where
  "order_of iter d i ps = iter i (length ps) (idx (unat d) ps)"

definition level_threshold :: "u32 \<Rightarrow> u32 \<Rightarrow> nat \<Rightarrow> u32" where
  "level_threshold d h l = d - h - word_of_nat l"

definition node_vote :: "('v \<Rightarrow> u32) \<Rightarrow> 'v \<Rightarrow> (nat \<Rightarrow> order_at) \<Rightarrow> u32 \<Rightarrow> u32 \<Rightarrow> nat \<Rightarrow> nat list \<Rightarrow> 'v list \<Rightarrow> 'v" where
  "node_vote hash zero iter d h i ps = tree_vote hash zero (order_of iter d i ps) (level_threshold d h (length ps))"

lemma unat_level_threshold:
  assumes "3 * (unat h - 1) < unat d" "l < unat h"
  shows "unat (level_threshold d h l) = unat d - unat h - l"
proof -
  have "h \<le> d" using assms by (simp add: word_le_nat_alt)
  then have dh: "unat (d - h) = unat d - unat h" by (simp add: unat_sub)
  have "l < 2 ^ 32" using assms(2) unat_lt_u32 [of h] by simp
  then have l: "unat (word_of_nat l :: u32) = l" by (rule unat_of_nat_u32)
  show ?thesis
  proof (cases "l \<le> unat d - unat h")
    case True
    then have "(word_of_nat l :: u32) \<le> d - h" by (simp add: word_le_nat_alt dh l)
    then show ?thesis by (simp add: level_threshold_def unat_sub dh l)
  next
    case False
    then show ?thesis using assms by arith
  qed
qed

lemma cluster_resilient:
  "cluster_end d h C hash zero iter T own \<Longrightarrow> resilient (unat d) (unat h) C (level_threshold d h)"
  using unat_lt_u32 [of d] by (simp add: resilient_def cluster_end_def unat_level_threshold)

lemma cluster_fair:
  "cluster_end d h C hash zero iter T own \<Longrightarrow> \<forall>i ps. iteration_order (order_of iter d i ps)"
  by (simp add: order_of_def cluster_end_def orders_ok_def)

lemma cluster_leaf_val:
  assumes "cluster_end d h C hash zero iter T own"
  shows "\<forall>i ps. node_path (unat d) ps \<longrightarrow> length ps = unat h \<longrightarrow> leaf_val zero C T i ps \<in> leaf_values zero C T"
proof (intro allI impI)
  fix i ps assume ps: "node_path (unat d) ps" "length ps = unat h"
  note cl = cluster_endD [OF assms]
  have "slot (T i) ps \<in> set (levels (T i) ! unat h)" if "i \<in> C"
  proof -
    have "idx (unat d) ps < length (levels (T i) ! unat h)"
      using idx_lt [of ps "unat d"] ps eig_wf_level [OF cl(4) [OF that], of "unat h"] cl(5,6) that
      by (simp add: node_path_def)
    then show ?thesis using cl(5) that ps by (simp add: slot_def)
  qed
  then show "leaf_val zero C T i ps \<in> leaf_values zero C T"
    using cl(6) by (auto simp: leaf_val_def leaf_values_def)
qed

lemma cluster_relayed:
  "cluster_end d h C hash zero iter T own \<Longrightarrow> relayed (unat d) (unat h) C (leaf_val zero C T)"
  by (simp add: cluster_end_def relayed_def leaf_val_def)

lemma cluster_reduce:
  assumes "cluster_end d h C hash zero iter T own" "i \<in> C"
  shows "\<exists>t. reduce hash (iter i) zero (T i) = Some t \<and> same_shape d h t \<and>
    (\<forall>ps k. node_path (unat d) ps \<longrightarrow> length ps + k = unat h \<longrightarrow>
       slot t ps = resolve (node_vote hash zero iter d h i) (unat d) (leaf_val zero C T i) k ps)"
proof -
  note cl = cluster_endD [OF assms(1)]
  have "path_vote hash zero (iter i) (T i) = node_vote hash zero iter d h i"
    using cl(5,6) [OF assms(2)]
    by (simp add: fun_eq_iff path_vote_def node_vote_def order_of_def level_threshold_def threshold_def)
  moreover have "slot (T i) = leaf_val zero C T i" using assms(2) by (simp add: fun_eq_iff leaf_val_def)
  ultimately show ?thesis
    using reduce_slots [OF cl(4) [OF assms(2)] cl(9) [of i], of hash zero] cl(5,6) [OF assms(2)]
    by (auto simp: same_shape_def)
qed

text \<open>The root of a reduced tree is the vote over its vector.\<close>

lemma root_vote:
  assumes "same_shape d h t" "unat h = Suc m"
    and "\<forall>ps k. node_path (unat d) ps \<longrightarrow> length ps + k = unat h \<longrightarrow> slot t ps = resolve vote (unat d) val k ps"
  shows "root t = vote [] (interactive_consistency_vector t)"
proof -
  have w: "eig_wf t" "deg t = unat d" "0 < hgt t" using assms(1,2) by (auto simp: same_shape_def)
  have "resolve vote (unat d) val m ([] @ [q]) = slot t ([] @ [q])" if "q \<in> set (relays (unat d) [])" for q
    using that assms(2,3) by (auto simp: set_relays node_path_def)
  then have "map (\<lambda>q. resolve vote (unat d) val m ([] @ [q])) (relays (unat d) []) = interactive_consistency_vector t"
    using icv_relays [OF w(1,3)] w(2) by (metis (no_types, lifting) map_cong)
  then show ?thesis using assms(2,3) by (simp add: slot_root)
qed

lemma cluster_agreement:
  assumes "cluster_end d h C hash zero iter T own" "i \<in> C" "j \<in> C" "p < unat d"
    and "same_shape d h ti" "same_shape d h tj"
    and "\<forall>ps k. node_path (unat d) ps \<longrightarrow> length ps + k = unat h \<longrightarrow>
       slot ti ps = resolve (node_vote hash zero iter d h i) (unat d) (leaf_val zero C T i) k ps"
    and "\<forall>ps k. node_path (unat d) ps \<longrightarrow> length ps + k = unat h \<longrightarrow>
       slot tj ps = resolve (node_vote hash zero iter d h j) (unat d) (leaf_val zero C T j) k ps"
  shows "slot ti [p] = slot tj [p]" "p \<in> C \<Longrightarrow> slot ti [p] = own p" "slot ti [p] \<in> leaf_values zero C T"
proof -
  note cl = cluster_endD [OF assms(1)]
  have np: "node_path (unat d) [p]" using assms(4) by (simp add: node_path_def)
  have zero: "zero \<in> leaf_values zero C T" by (simp add: leaf_values_def)
  have s: "slot ti [p] = resolve (node_vote hash zero iter d h i) (unat d) (leaf_val zero C T i) (unat h - 1) [p]"
    "slot tj [p] = resolve (node_vote hash zero iter d h j) (unat d) (leaf_val zero C T j) (unat h - 1) [p]"
    using assms(7,8) np cl(13) by auto
  note vote = node_vote_def [abs_def]
  note ic = hash_vote.interactive_consistency [OF cluster_resilient [OF assms(1)] cl(10) zero
      cluster_fair [OF assms(1)] cluster_leaf_val [OF assms(1)] cluster_relayed [OF assms(1)] assms(2-4)]
  show "slot ti [p] = slot tj [p]" using ic(1) by (simp add: s vote)
  show "slot ti [p] = own p" if "p \<in> C"
    using ic(2) [OF that] cl(12) [OF that] that by (simp add: s vote leaf_val_def)
  show "slot ti [p] \<in> leaf_values zero C T"
    using hash_vote.resolved_in [OF cluster_resilient [OF assms(1)] cl(10) zero _ _ np, of "order_of iter d i"
        "leaf_val zero C T i" "unat h - 1"] cluster_fair [OF assms(1)] cluster_leaf_val [OF assms(1)] cl(13)
    by (simp add: s vote)
qed

lemma cluster_reduced:
  assumes cl: "cluster_end d h C hash zero iter T own" and "i \<in> C" "j \<in> C"
  shows "\<exists>ti tj. reduce hash (iter i) zero (T i) = Some ti \<and> reduce hash (iter j) zero (T j) = Some tj \<and>
    interactive_consistency_vector ti = interactive_consistency_vector tj \<and>
    (\<forall>p \<in> C. interactive_consistency_vector ti ! p = own p) \<and> root ti = root tj \<and>
    (\<forall>v. (\<forall>p \<in> C. own p = v) \<longrightarrow> root ti = v)"
proof -
  note cd = cluster_endD [OF cl]
  from cluster_reduce [OF cl assms(2)] obtain ti where
    ti: "reduce hash (iter i) zero (T i) = Some ti" "same_shape d h ti"
      "\<forall>ps k. node_path (unat d) ps \<longrightarrow> length ps + k = unat h \<longrightarrow>
       slot ti ps = resolve (node_vote hash zero iter d h i) (unat d) (leaf_val zero C T i) k ps" by blast
  from cluster_reduce [OF cl assms(3)] obtain tj where
    tj: "reduce hash (iter j) zero (T j) = Some tj" "same_shape d h tj"
      "\<forall>ps k. node_path (unat d) ps \<longrightarrow> length ps + k = unat h \<longrightarrow>
       slot tj ps = resolve (node_vote hash zero iter d h j) (unat d) (leaf_val zero C T j) k ps" by blast
  note ag = cluster_agreement [OF cl assms(2,3) _ ti(2) tj(2) ti(3) tj(3)]
  let ?xs = "interactive_consistency_vector ti"
  have wf: "eig_wf ti" "deg ti = unat d" "0 < hgt ti" "eig_wf tj" "deg tj = unat d" "0 < hgt tj"
    using ti(2) tj(2) cd(13) by (auto simp: same_shape_def)
  have icv: "?xs = interactive_consistency_vector tj"
    using wf ag(1) by (intro nth_equalityI) (simp_all add: icv_length icv_nth)
  have entries: "\<forall>p \<in> C. ?xs ! p = own p"
    using wf ag(2) cd(2) by (auto simp: icv_nth)
  have sub: "set ?xs \<subseteq> leaf_values zero C T"
    using wf ag(3) by (auto simp: in_set_conv_nth icv_length icv_nth)
  note quo = relays_resilient [OF cluster_resilient [OF cl], of "[]"]
  let ?thr = "level_threshold d h 0"
  have len: "length ?xs = length (relays (unat d) [])" using wf by (simp add: icv_length relays_def)
  have lens: "length ?xs < 2 ^ 32" "length ?xs \<le> 2 * unat ?thr + 1" "?xs \<noteq> []"
    using quo(1-3) cd(13) len by auto
  obtain m where m: "unat h = Suc m" using cd(13) gr0_implies_Suc by blast
  have roots: "root ti = tree_vote hash zero (order_of iter d i []) ?thr ?xs"
    "root tj = tree_vote hash zero (order_of iter d j []) ?thr ?xs"
    using root_vote [OF ti(2) m ti(3)] root_vote [OF tj(2) m tj(3)] icv by (simp_all add: node_vote_def)
  have fair: "iteration_order (order_of iter d k [])" for k using cluster_fair [OF cl] by blast
  have "root ti = root tj"
    unfolding roots by (rule hash_vote.votes_agree [OF fair fair cd(10) sub lens(3,1,2)])
  moreover have "root ti = v" if v: "\<forall>p \<in> C. own p = v" for v
  proof -
    have "length (filter (\<lambda>q. q \<in> C) (relays (unat d) [])) \<le>
        length (filter (\<lambda>q. slot ti ([] @ [q]) = v) (relays (unat d) []))"
      using v ag(2) cd(2) by (intro length_filter_mono) auto
    also have "\<dots> = count_list ?xs v"
      using icv_relays [OF wf(1,3)] wf(2)
      by (simp add: count_list_filter filter_map o_def eq_commute flip: icv_relays [OF wf(1,3)])
    finally have "unat ?thr < count_list ?xs v" using quo(4) cd(13) by simp
    then show ?thesis
      unfolding roots by (rule hash_vote.quorum [OF fair cd(10) sub lens(1,2)])
  qed
  ultimately show ?thesis using ti(1) tj(1) icv entries by blast
qed

section \<open>The theorem about the rounds of the code\<close>

lemma same_shape_collected:
  assumes "\<And>i. i < unat d \<Longrightarrow> same_shape d h (trees i)" "i < unat d"
  shows "same_shape d h (collected size_T lie num_jobs chan arrive own h trees i)"
  unfolding collected_def using assms
  by (intro same_shape_rounds) (auto simp: proposed_def intro: inv_intros)

lemma collected_end:
  assumes "\<And>i. i < unat d \<Longrightarrow> same_shape d h (trees i)" "card ({..<unat d} - C) < unat h"
    and "3 * (unat h - 1) < unat d" "\<And>i. orders_ok (iter i)"
    and "correct_processes (unat d) C lie chan arrive"
    and "inj_on hash (leaf_values zero C (collected size_T lie num_jobs chan arrive own h trees))"
  shows "cluster_end d h C hash zero iter (collected size_T lie num_jobs chan arrive own h trees) own"
proof -
  have C: "C \<subseteq> {..<unat d}" using assms(5) by (simp add: correct_processes_def)
  have shape: "\<And>i. i < unat d \<Longrightarrow> same_shape d h (proposed own trees i)"
    using assms(1) by (auto simp: proposed_def intro: inv_intros)
  have "slot (collected size_T lie num_jobs chan arrive own h trees i) [] = own i" if "i \<in> C" for i
  proof -
    have i: "i < unat d" using that C by auto
    have "slot (collected size_T lie num_jobs chan arrive own h trees i) [] = slot (proposed own trees i) []"
      using slot_rounds_stable [where trees = "proposed own trees" and n = 0 and k = "unat h" and ps = "[]", OF shape] i
      by (simp add: collected_def)
    also have "\<dots> = own i"
      using assms(1) [OF i] by (simp add: proposed_def slot_set_root same_shape_def)
    finally show ?thesis .
  qed
  then show ?thesis
    using assms C same_shape_collected [where trees = trees and d = d and h = h, OF assms(1)]
      rounds_relayed [where trees = "proposed own trees" and d = d and h = h, OF shape assms(5)]
    by (simp add: cluster_end_def collected_def)
qed

text \<open>C4 (job_interactive_consistency): interactive consistency of the job loop. Take \<open>d\<close>
  processes with trees of \<open>h\<close> levels, fewer than \<open>h\<close> of them faulty and
  \<open>d > 3 (h - 1)\<close>. Faulty processes may send anything to anybody. After the rounds and the
  reduction, which never fails, any two correct processes hold the same vector and the same
  root, the entry of a correct process in it is what that process proposed, and if all
  correct processes proposed the same node the root is that node. The hash must separate
  the values that reached the leaves.\<close>

theorem job_interactive_consistency:
  assumes "\<forall>i < unat d. same_shape d h (trees i)"
    and "card ({..<unat d} - C) < unat h" "3 * (unat h - 1) < unat d"
    and "correct_processes (unat d) C lie chan arrive" "\<forall>i. orders_ok (iter i)"
    and "T = collected size_T lie num_jobs chan arrive own h trees"
    and "inj_on hash (leaf_values zero C T)" "i \<in> C" "j \<in> C"
  shows "\<exists>ti tj. reduce hash (iter i) zero (T i) = Some ti \<and> reduce hash (iter j) zero (T j) = Some tj \<and>
    interactive_consistency_vector ti = interactive_consistency_vector tj \<and>
    (\<forall>p \<in> C. interactive_consistency_vector ti ! p = own p) \<and> root ti = root tj \<and>
    (\<forall>v. (\<forall>p \<in> C. own p = v) \<longrightarrow> root ti = v)"
  using assms(7) unfolding assms(6)
  by (intro cluster_reduced [OF collected_end] assms(8,9)) (use assms in auto)

text \<open>The witness: four processes, two levels, process 3 tells everybody something else.\<close>

definition demo_tree :: "bool eig_tree" where
  "demo_tree = the (eig_new False 4 2)"

definition demo_chan :: "nat \<Rightarrow> nat \<Rightarrow> nat \<Rightarrow> bool list \<Rightarrow> bool list" where
  "demo_chan l p i m = (if p = 3 then map (\<lambda>_. even i) m else m)"

definition demo_hash :: "bool \<Rightarrow> u32" where
  "demo_hash b = (if b then 1 else 0)"

lemma demo_shape: "same_shape 4 2 demo_tree"
  by (rule same_shape_new [where zero = False]) (simp add: demo_tree_def eig_new_def Let_def)

lemma demo_correct:
  "correct_processes 4 {0, 1, 2} (\<lambda>_. None) demo_chan (\<lambda>l i. filter (\<lambda>p. p \<noteq> i) [0, 1, 2, 3])"
  by (auto simp: correct_processes_def demo_chan_def)

theorem job_interactive_consistency_witness:
  "\<exists>ti tj. reduce demo_hash (\<lambda>_ _ m. m) False
       (collected 1 (\<lambda>_. None) 0 demo_chan (\<lambda>l i. filter (\<lambda>p. p \<noteq> i) [0, 1, 2, 3]) (\<lambda>p. p < 2) 2 (\<lambda>_. demo_tree) 0) = Some ti \<and>
     reduce demo_hash (\<lambda>_ _ m. rev m) False
       (collected 1 (\<lambda>_. None) 0 demo_chan (\<lambda>l i. filter (\<lambda>p. p \<noteq> i) [0, 1, 2, 3]) (\<lambda>p. p < 2) 2 (\<lambda>_. demo_tree) 1) = Some tj \<and>
     interactive_consistency_vector ti = interactive_consistency_vector tj"
proof -
  have card: "card ({..<unat (4 :: u32)} - {0, 1, 2}) < unat (2 :: u32)"
  proof -
    have "{..<unat (4 :: u32)} - {0, 1, 2} = {3}" by auto
    then show ?thesis by simp
  qed
  have "inj_on demo_hash X" for X by (auto simp: inj_on_def demo_hash_def split: if_splits)
  moreover have "\<forall>i. orders_ok (\<lambda>_ _. if i = 0 then (\<lambda>m. m) else rev)"
    by (simp add: orders_ok_def iteration_order_id iteration_order_rev)
  ultimately show ?thesis
    using job_interactive_consistency [of 4 2 "\<lambda>_. demo_tree" "{0, 1, 2}" "\<lambda>_. None" demo_chan
        "\<lambda>l i. filter (\<lambda>p. p \<noteq> i) [0, 1, 2, 3]" "\<lambda>i _ _. if i = 0 then (\<lambda>m. m) else rev" _ 1 0
        "\<lambda>p. p < 2" demo_hash False 0 1, OF _ card _ _ _ refl]
      demo_shape demo_correct
    by (auto cong: if_cong)
qed

section \<open>Why the hash matters\<close>

text \<open>C30 (hash_collision_breaks_majority): the vote compares hashes and copies the last
  child with the winning hash. If the last of three relays answers with a value \<open>w\<close> whose
  hash collides with the value \<open>v\<close> of the two others, the node takes \<open>w\<close>, although two
  children carry \<open>v\<close> and the threshold is 1. With a 32-bit CRC such a \<open>w\<close> exists for any
  \<open>v\<close> as soon as a node has more than four bytes.\<close>

theorem hash_collision_breaks_majority:
  assumes "hash w = hash v" "iteration_order iter"
  shows "tree_vote hash zero iter 1 [v, v, w] = w"
proof -
  have "iter [x] = [x]" for x
    using assms(2) unfolding iteration_order_def by (metis mset_single_iff)
  then show ?thesis
    using assms(1) by (simp add: tree_vote_def elect_def um_put_def upt_rec)
qed

theorem hash_collision_breaks_majority_witness:
  "tree_vote (\<lambda>n :: nat. word_of_nat n :: u32) 0 rev 1 [5, 5, 2 ^ 32 + 5] = 2 ^ 32 + 5"
  by (rule hash_collision_breaks_majority) (simp_all add: iteration_order_rev)

end
