(* ===== verification/Kvs_Interface.thy ===== *)
theory Kvs_Interface imports Prelude begin

text \<open>
  \<^verbatim>\<open>src/achal/kvs_interface.h\<close>: the abstract key-value store. Its two virtual methods
  are the operations of the locale \<open>kvs\<close>, whose laws are what the tasks rely on: a read of
  the future and a write into the past are refused, a refused write changes nothing, and a
  write keeps the store's invariant. The batch operations of the class and the voting over
  redundant values (\<open>fuse_redundant_values\<close>) are generic and are modelled here.

  The clock is an argument. A read that fails leaves the caller's string alone, so a read
  returns an optional string. A failed \<^verbatim>\<open>assert\<close> is \<open>None\<close>.
\<close>

section \<open>Batches\<close>

type_synonym stat = "u64 \<times> u64"

text \<open>\<open>rd i\<close> is \<^verbatim>\<open>try_read\<close> at the clock reading of the \<open>i\<close>-th call.\<close>

fun try_read_batch :: "(nat \<Rightarrow> string \<Rightarrow> u64 \<Rightarrow> string option) \<Rightarrow> nat \<Rightarrow> string list \<Rightarrow> u64 \<Rightarrow> string list
    \<Rightarrow> stat \<Rightarrow> stat \<times> string list" where
  "try_read_batch rd i [] no_earlier_than vals result = (result, vals)"
| "try_read_batch rd i (k # ks) no_earlier_than vals (succ, fail) =
     (case rd i k no_earlier_than of
        Some v \<Rightarrow> try_read_batch rd (Suc i) ks no_earlier_than (vals[i := v]) (succ + 1, fail)
      | None \<Rightarrow> try_read_batch rd (Suc i) ks no_earlier_than vals (succ, fail + 1))"

fun try_write_batch :: "(nat \<Rightarrow> string \<Rightarrow> u64 \<Rightarrow> string \<Rightarrow> 's \<Rightarrow> (bool \<times> 's) option) \<Rightarrow> nat
    \<Rightarrow> (string \<times> string) list \<Rightarrow> u64 \<Rightarrow> 's \<Rightarrow> stat \<Rightarrow> (stat \<times> 's) option" where
  "try_write_batch wr i [] publish_time s result = Some (result, s)"
| "try_write_batch wr i ((k, v) # kvps) publish_time s (succ, fail) =
     (case wr i k publish_time v s of
        None \<Rightarrow> None
      | Some (ok, s') \<Rightarrow>
          try_write_batch wr (Suc i) kvps publish_time s'
            (if ok then (succ + 1, fail) else (succ, fail + 1)))"

text \<open>Every key is counted once.\<close>

lemma try_read_batch_counts:
  assumes "try_read_batch rd i ks nv vals (s, f) = ((s', f'), vals')"
  shows "s' + f' = s + f + word_of_nat (length ks)"
  using assms
proof (induction ks arbitrary: i vals s f)
  case (Cons k ks)
  then show ?case by (cases "rd i k nv") (auto dest!: Cons.IH simp: algebra_simps)
qed simp

lemma try_read_batch_values:
  assumes "try_read_batch rd i ks nv vals r = (r', vals')" "i + length ks \<le> length vals"
  shows "length vals' = length vals \<and>
    (\<forall>j < length vals. vals' ! j =
       (if i \<le> j \<and> j < i + length ks
        then (case rd j (ks ! (j - i)) nv of Some v \<Rightarrow> v | None \<Rightarrow> vals ! j) else vals ! j))"
  using assms
proof (induction rd i ks nv vals r rule: try_read_batch.induct)
  case (2 rd i k ks nv vals s f)
  define vs where "vs = (case rd i k nv of Some v \<Rightarrow> vals[i := v] | None \<Rightarrow> vals)"
  have IH: "length vals' = length vs \<and>
    (\<forall>j < length vs. vals' ! j =
       (if Suc i \<le> j \<and> j < Suc i + length ks
        then (case rd j (ks ! (j - Suc i)) nv of Some v \<Rightarrow> v | None \<Rightarrow> vs ! j) else vs ! j))"
  proof (cases "rd i k nv")
    case None
    then have v: "vs = vals" by (simp add: vs_def)
    show ?thesis unfolding v using 2 None by simp
  next
    case (Some v)
    then have v: "vs = vals[i := v]" by (simp add: vs_def)
    show ?thesis unfolding v using 2 Some by simp
  qed
  have len: "length vs = length vals" by (simp add: vs_def split: option.split)
  show ?case
  proof (intro conjI allI impI)
    show "length vals' = length vals" using IH len by simp
    fix j assume j: "j < length vals"
    consider "j = i" | "j < i" | "i < j" by linarith
    then show "vals' ! j = (if i \<le> j \<and> j < i + length (k # ks)
        then (case rd j ((k # ks) ! (j - i)) nv of Some v \<Rightarrow> v | None \<Rightarrow> vals ! j) else vals ! j)"
    proof cases
      case 1
      then show ?thesis using IH j len by (auto simp: vs_def split: option.splits)
    next
      case 2
      then show ?thesis using IH j len by (auto simp: vs_def split: option.splits)
    next
      case 3
      then have "(k # ks) ! (j - i) = ks ! (j - Suc i)" "vs ! j = vals ! j"
        by (auto simp: vs_def nth_Cons' split: option.split)
      then show ?thesis using IH j len 3 by (auto cong: option.case_cong)
    qed
  qed
qed auto

section \<open>Counters\<close>

text \<open>The counters of accesses and batches that the tasks of the applications keep.\<close>

record access_counts =
  succ_reads :: u64
  succ_writes :: u64
  succ_batch_reads :: u64
  succ_batch_writes :: u64
  fail_reads :: u64
  fail_writes :: u64
  fail_batch_reads :: u64
  fail_batch_writes :: u64

definition zero_counts :: access_counts where
  "zero_counts = \<lparr>succ_reads = 0, succ_writes = 0, succ_batch_reads = 0, succ_batch_writes = 0,
     fail_reads = 0, fail_writes = 0, fail_batch_reads = 0, fail_batch_writes = 0\<rparr>"

section \<open>The contract\<close>

locale kvs =
  fixes try_read :: "'s \<Rightarrow> u64 \<Rightarrow> string \<Rightarrow> u64 \<Rightarrow> string option"
    and try_write :: "u64 \<Rightarrow> string \<Rightarrow> u64 \<Rightarrow> string \<Rightarrow> 's \<Rightarrow> (bool \<times> 's) option"
    and inv :: "'s \<Rightarrow> bool"
  assumes future_read: "now < no_earlier_than \<Longrightarrow> try_read s now k no_earlier_than = None"
    and past_write: "publish_time \<le> now \<Longrightarrow> try_write now k publish_time v s = Some (False, s)"
    and inv_write: "inv s \<Longrightarrow> try_write now k publish_time v s = Some (ok, s') \<Longrightarrow> inv s'"
begin

lemma batch_inv:
  assumes "inv s" "try_write_batch (\<lambda>i. try_write (clock i)) i kvps publish_time s r = Some (r', s')"
  shows "inv s'"
  using assms
proof (induction "\<lambda>i. try_write (clock i)" i kvps publish_time s r rule: try_write_batch.induct)
  case (2 i k v kvps publish_time s succ fail)
  then obtain ok s1 where w: "try_write (clock i) k publish_time v s = Some (ok, s1)"
    by (auto split: option.splits)
  then have "inv s1" using inv_write "2.prems"(1) by blast
  then show ?case using "2.hyps" [OF w refl] "2.prems"(2) w by simp
qed simp

lemma late_batch:
  assumes "\<forall>j. publish_time \<le> clock j"
  shows "try_write_batch (\<lambda>i. try_write (clock i)) i kvps publish_time s (succ, fail) =
    Some ((succ, fail + word_of_nat (length kvps)), s)"
proof (induction kvps arbitrary: i succ fail)
  case (Cons kv kvps)
  obtain k v where kv: "kv = (k, v)" by (cases kv)
  have "try_write (clock i) k publish_time v s = Some (False, s)" using assms by (intro past_write) simp
  then show ?case using Cons by (simp add: kv algebra_simps)
qed simp

lemma early_batch:
  assumes "\<forall>j. clock j < no_earlier_than"
  shows "try_read_batch (\<lambda>i k nv. try_read s (clock i) k nv) i ks no_earlier_than vals (succ, fail) =
    ((succ, fail + word_of_nat (length ks)), vals)"
proof (induction ks arbitrary: i succ fail)
  case (Cons k ks)
  have "try_read s (clock i) k no_earlier_than = None" using assms by (intro future_read) simp
  then show ?case using Cons by (simp add: algebra_simps)
qed simp

end

text \<open>A provider with bounded keys and values takes everything that fits and returns only what fits.\<close>

locale bounded_kvs = kvs +
  fixes KS VS :: nat
  assumes accepts: "inv s \<Longrightarrow> length k \<le> KS \<Longrightarrow> length v \<le> VS \<Longrightarrow> \<exists>ok s'. try_write now k publish_time v s = Some (ok, s')"
    and read_fits: "inv s \<Longrightarrow> try_read s now k no_earlier_than = Some v \<Longrightarrow> length v \<le> VS"
begin

lemma write_batch_total:
  assumes "inv s" "\<forall>(k, v) \<in> set kvps. length k \<le> KS \<and> length v \<le> VS"
  shows "\<exists>r' s'. try_write_batch (\<lambda>i. try_write (clock i)) i kvps publish_time s r = Some (r', s') \<and> inv s'"
  using assms
proof (induction kvps arbitrary: i s r)
  case (Cons kv kvps)
  obtain k v su fa where kv: "kv = (k, v)" "r = (su, fa)" by (cases kv, cases r) auto
  obtain ok s1 where w: "try_write (clock i) k publish_time v s = Some (ok, s1)"
    using accepts [OF Cons.prems(1), of k v "clock i" publish_time] Cons.prems(2) kv by auto
  then have "inv s1" using inv_write Cons.prems(1) by blast
  then show ?case using Cons.IH [of s1] Cons.prems(2) w kv by simp
qed simp

lemma read_batch_fits:
  assumes "inv s" "\<forall>v \<in> set vals. length v \<le> VS"
    "try_read_batch (\<lambda>i. try_read s (clock i)) i ks no_earlier_than vals r = (r', vals')"
  shows "\<forall>v \<in> set vals'. length v \<le> VS"
  using assms(2,3)
proof (induction ks arbitrary: i vals r)
  case (Cons k ks)
  obtain su fa where r: "r = (su, fa)" by (cases r)
  show ?case
  proof (cases "try_read s (clock i) k no_earlier_than")
    case (Some v)
    then have "\<forall>w \<in> set (vals[i := v]). length w \<le> VS"
      using read_fits [OF assms(1) Some] Cons.prems(1) set_update_subset_insert [of vals i v] by auto
    then show ?thesis using Cons.IH [of "vals[i := v]"] Cons.prems(2) Some r by simp
  qed (use Cons r in simp)
qed simp

end

text \<open>A provider that keeps its data itself also leaves the state alone when it refuses.\<close>

locale transactional_kvs = kvs +
  assumes refused_write: "try_write now k publish_time v s = Some (False, s') \<Longrightarrow> s' = s"
begin

lemma batch_success_count:
  assumes "try_write_batch (\<lambda>i. try_write (clock i)) i kvps publish_time s (succ, fail) = Some ((succ', fail'), s')"
    and "unat succ + length kvps < 2 ^ 64"
  shows "unat succ \<le> unat succ' \<and> (succ' = succ \<longrightarrow> s' = s)"
  using assms
proof (induction kvps arbitrary: i s succ fail)
  case (Cons kv kvps)
  obtain k v where kv: "kv = (k, v)" by (cases kv)
  obtain ok s1 where w: "try_write (clock i) k publish_time v s = Some (ok, s1)"
    using Cons.prems(1) kv by (auto split: option.splits)
  show ?case
  proof (cases ok)
    case True
    have "Suc (unat succ) < 2 ^ 64" using Cons.prems(2) by simp
    then have n: "unat (succ + 1) = Suc (unat succ)" by (simp add: unat_word_ariths(1))
    have "unat (succ + 1) \<le> unat succ'"
      using Cons.IH [of "Suc i" s1 "succ + 1" fail] Cons.prems kv w True n by simp
    then show ?thesis using n by auto
  next
    case False
    then have "s1 = s" using w refused_write by simp
    then show ?thesis using Cons.IH [of "Suc i" s succ "fail + 1"] Cons.prems kv w False by simp
  qed
qed simp

text \<open>A batch without a success has changed nothing.\<close>

lemma failed_batch:
  assumes "try_write_batch (\<lambda>i. try_write (clock i)) i kvps publish_time s (0, 0) = Some ((0, fail), s')"
    and "length kvps < 2 ^ 64"
  shows "s' = s"
  using batch_success_count [OF assms(1)] assms(2) by simp

end

section \<open>Voting over redundant values\<close>

text \<open>\<^verbatim>\<open>fuse_redundant_values\<close>: with \<open>use_simple_median\<close> the median of at least three
  doubles, otherwise a majority of two, three or four strings. \<open>Inl ()\<close> is the
  \<^verbatim>\<open>assert(false)\<close> on more than four candidates, or an exception of \<^verbatim>\<open>std::stod\<close>, which
  nothing here catches. \<open>stod\<close>, the averaging and \<open>to_string\<close> are parameters. A text that is read as a NaN is a \<open>None\<close> of
  \<open>stod\<close>, too: sorting it among numbers is undefined.\<close>

fun vote_candidates :: "string list \<Rightarrow> unit + string option" where
  "vote_candidates [] = Inr None"
| "vote_candidates [a] = Inr None"
| "vote_candidates [a, b] = Inr (if a = b then Some a else None)"
| "vote_candidates [a, b, c] =
     Inr (if a = b then Some a else if b = c then Some b else if c = a then Some c else None)"
| "vote_candidates [a, b, c, d] =
     Inr (if a = b \<and> b = c then Some a
          else if a = b \<and> b = d then Some a
          else if a = c \<and> c = d then Some a
          else if b = c \<and> c = d then Some b
          else None)"
| "vote_candidates (a # b # c # d # e # es) = Inl ()"

definition fuse_redundant_values :: "(string \<Rightarrow> 'd :: linorder option) \<Rightarrow> ('d \<Rightarrow> 'd \<Rightarrow> 'd) \<Rightarrow> ('d \<Rightarrow> string)
    \<Rightarrow> bool \<Rightarrow> string list \<Rightarrow> unit + string option" where
  "fuse_redundant_values stod avg to_string use_simple_median cs =
     (if use_simple_median then
        (if length cs \<le> 2 then Inr None
         else if list_ex (\<lambda>c. stod c = None) cs then Inl ()
         else let vs = sort (map (the \<circ> stod) cs)
              in Inr (Some (to_string (avg (vs ! (length vs div 2)) (vs ! ((length vs - 1) div 2))))))
      else vote_candidates cs)"

lemma vote_majority:
  "(fuse_redundant_values stod avg to_string False cs = Inr (Some v) \<longleftrightarrow>
      2 \<le> length cs \<and> length cs \<le> 4 \<and> length cs < 2 * count_list cs v) \<and>
   (fuse_redundant_values stod avg to_string False cs = Inl () \<longleftrightarrow> 4 < length cs)"
  unfolding fuse_redundant_values_def
  apply (cases cs rule: vote_candidates.cases)
  apply simp
  apply simp
  apply (simp; fail)
  subgoal for a b c by (cases "a = v"; cases "b = v"; cases "c = v"; simp)
  subgoal for a b c d by (cases "a = v"; cases "b = v"; cases "c = v"; cases "d = v"; simp)
  apply simp
  done

text \<open>A value that more than half of two to four replicas hold wins the vote, also when some
  replicas have no candidate.\<close>

lemma replicas_vote:
  assumes "2 \<le> length rs" "length rs \<le> 4" "length rs < 2 * count_list (map f rs) (Some v)"
  shows "fuse_redundant_values stod avg to_string False (List.map_filter f rs) = Inr (Some v)"
proof -
  have len: "length (List.map_filter f rs) \<le> length rs"
    by (induction rs) (simp_all add: List.map_filter_simps split: option.split)
  have count: "count_list (List.map_filter f rs) v = count_list (map f rs) (Some v)"
    by (induction rs) (auto simp: List.map_filter_simps split: option.split)
  have "count_list (List.map_filter f rs) v \<le> length (List.map_filter f rs)" by (rule count_le_length)
  then show ?thesis
    using vote_majority [of stod avg to_string "List.map_filter f rs" v] len count assms by simp
qed

text \<open>Lemma (redundant_values_majority): without the median, the vote returns a value exactly
  when there are two to four candidates and more than half of them are that value; more than
  four candidates, and only they, hit the assertion.\<close>

theorem redundant_values_majority:
  "(fuse_redundant_values stod avg to_string False cs = Inr (Some v) \<longleftrightarrow>
      2 \<le> length cs \<and> length cs \<le> 4 \<and> length cs < 2 * count_list cs v) \<and>
   (fuse_redundant_values stod avg to_string False cs = Inl () \<longleftrightarrow> 4 < length cs)"
  by (rule vote_majority)

end
