(* ===== verification/Bft_Kvs.thy ===== *)
theory Bft_Kvs imports Bft_Consensus Bft_Fuse_Spec Kvs_Interface begin

text \<open>
  The task \<^verbatim>\<open>BFTKVS\<close> of \<^verbatim>\<open>src/achal/bft_kvs.h\<close>: its state, its constructor, reads,
  writes, the periodic job and its termination test. The template parameters \<open>NT\<close>, \<open>KS\<close>
  and \<open>VS\<close> are arguments. The clock readings, the payloads that arrive and the iteration
  orders are arguments of the operations; the job's failures are values. The sockets and
  the logger are not part of the state.

  The reads and writes satisfy the contract of the interface (\<open>bft: kvs\<close>), and the job
  refines the cluster rounds of Bft_Rounds, so that correct processes that start with equal
  stores end with equal stores.
\<close>

section \<open>The state\<close>

record bft_kvs =
  my_process_id :: nat
  max_rounds :: u32
  max_jobs :: u64
  num_jobs :: u64
  one_round_us :: u64
  total_run_time :: u64
  store :: store
  unpublished :: eig_node
  tree :: "eig_node eig_tree"

text \<open>The constructor. \<open>None\<close> is a failed assertion (more than 255 peers, more rounds than
  peers). The length of a round uses unsigned 64-bit arithmetic; \<^verbatim>\<open>max_rounds\<close> is a byte and
  a zero traps.\<close>

definition bft_new :: "nat \<Rightarrow> nat \<Rightarrow> nat \<Rightarrow> nat \<Rightarrow> nat \<Rightarrow> u8 \<Rightarrow> u64 \<Rightarrow> u64 \<Rightarrow> u64 \<Rightarrow> bft_kvs option" where
  "bft_new NT KS VS peers me rounds period_ns offset_ns jobs =
     (case eig_new (zero_node NT KS VS) (word_of_nat peers) (ucast rounds) of
        None \<Rightarrow> None
      | Some t \<Rightarrow>
          if peers \<le> 255 \<and> rounds \<noteq> 0 then
            Some \<lparr>my_process_id = me, max_rounds = ucast rounds, max_jobs = jobs, num_jobs = 0,
                  one_round_us = (period_ns - offset_ns) div 2 div ucast rounds div 1000,
                  total_run_time = 0, store = Map.empty, unpublished = zero_node NT KS VS, tree = t\<rparr>
          else None)"

definition terminate :: "bft_kvs \<Rightarrow> bool" where
  "terminate s \<longleftrightarrow> num_jobs s \<ge> max_jobs s"

section \<open>Reads and writes\<close>

fun scan_bucket :: "u64 \<Rightarrow> u64 \<Rightarrow> bucket \<Rightarrow> string option" where
  "scan_bucket now no_earlier_than [] = None"
| "scan_bucket now no_earlier_than ((time, v) # es) =
     (if time \<le> now \<and> no_earlier_than \<le> time then Some v
      else if no_earlier_than > time then None
      else scan_bucket now no_earlier_than es)"

definition try_read :: "bft_kvs \<Rightarrow> u64 \<Rightarrow> string \<Rightarrow> u64 \<Rightarrow> string option" where
  "try_read s now key no_earlier_than =
     (if no_earlier_than > now then None
      else case store s key of
        None \<Rightarrow> None
      | Some bucket \<Rightarrow> scan_bucket now no_earlier_than bucket)"

definition add_tuple :: "string \<Rightarrow> u64 \<Rightarrow> string \<Rightarrow> eig_node \<Rightarrow> eig_node" where
  "add_tuple key publish_time v nd =
     (let i = unat (nlength nd); t = ntuples nd ! i
      in nd\<lparr>nlength := nlength nd + 1,
            ntuples := (ntuples nd)[i := t\<lparr>tkey := strcpy (tkey t) key, tvalue := strcpy (tvalue t) v,
                                           ttime := publish_time\<rparr>]\<rparr>)"

definition try_write :: "nat \<Rightarrow> nat \<Rightarrow> nat \<Rightarrow> u64 \<Rightarrow> string \<Rightarrow> u64 \<Rightarrow> string \<Rightarrow> bft_kvs \<Rightarrow> (bool \<times> bft_kvs) option" where
  "try_write NT KS VS now key publish_time v s =
     (if publish_time \<le> now then Some (False, s)
      else if \<not> length key \<le> KS then None
      else if \<not> length v \<le> VS then None
      else if unat (nlength (unpublished s)) \<ge> NT then Some (False, s)
      else Some (True, s\<lparr>unpublished := add_tuple key publish_time v (unpublished s)\<rparr>))"

section \<open>The invariant\<close>

definition pending_ok :: "nat \<Rightarrow> nat \<Rightarrow> nat \<Rightarrow> eig_node \<Rightarrow> bool" where
  "pending_ok NT KS VS nd \<longleftrightarrow> node_ok NT KS VS nd \<and> unat (nlength nd) \<le> NT"

definition bft_ok :: "nat \<Rightarrow> nat \<Rightarrow> nat \<Rightarrow> bft_kvs \<Rightarrow> bool" where
  "bft_ok NT KS VS s \<longleftrightarrow> NT < 2 ^ 32 \<and> pending_ok NT KS VS (unpublished s) \<and> store_ok (store s) \<and>
     eig_wf (tree s) \<and> height (tree s) = max_rounds s"

lemma zero_node_pending: "pending_ok NT KS VS (zero_node NT KS VS)"
  by (simp add: pending_ok_def zero_node_ok) (simp add: zero_node_def)

lemma add_tuple_ok:
  assumes "pending_ok NT KS VS nd" "unat (nlength nd) < NT" "NT < 2 ^ 32" "length k \<le> KS" "length v \<le> VS"
  shows "pending_ok NT KS VS (add_tuple k t v nd)"
    and "unat (nlength (add_tuple k t v nd)) = Suc (unat (nlength nd))"
proof -
  show len: "unat (nlength (add_tuple k t v nd)) = Suc (unat (nlength nd))"
    using assms(2,3) by (simp add: add_tuple_def Let_def unat_word_ariths)
  have "ntuples nd ! unat (nlength nd) \<in> set (ntuples nd)"
    using assms(1,2) by (simp add: pending_ok_def node_ok_def)
  then have "length (tkey (ntuples nd ! unat (nlength nd))) = Suc KS"
    "length (tvalue (ntuples nd ! unat (nlength nd))) = Suc VS"
    "length (tpadding (ntuples nd ! unat (nlength nd))) = tuple_padding KS VS"
    using assms(1) by (auto simp: pending_ok_def node_ok_def)
  then have "node_ok NT KS VS (add_tuple k t v nd)"
    using assms by (auto simp: pending_ok_def node_ok_def add_tuple_def Let_def length_strcpy
        dest!: set_update_subset_insert [THEN subsetD])
  then show "pending_ok NT KS VS (add_tuple k t v nd)"
    using len assms(2) by (simp add: pending_ok_def)
qed

interpretation bft: transactional_kvs try_read "try_write NT KS VS" "bft_ok NT KS VS" for NT KS VS
proof
  fix s s' now k publish_time v ok
  assume "bft_ok NT KS VS s" "try_write NT KS VS now k publish_time v s = Some (ok, s')"
  then show "bft_ok NT KS VS s'"
    using add_tuple_ok [of NT KS VS "unpublished s" k v publish_time]
    by (auto simp: try_write_def bft_ok_def split: if_splits)
qed (auto simp: try_read_def try_write_def split: if_splits)

section \<open>What a read returns\<close>

lemma scan_bucket_spec:
  assumes "om_sorted newer b"
  shows "scan_bucket now nv b = Some v \<longleftrightarrow>
    (\<exists>t. map_of b t = Some v \<and> nv \<le> t \<and> t \<le> now \<and> (\<forall>t' \<in> dom (map_of b). t < t' \<longrightarrow> now < t'))"
  using assms
proof (induction b)
  case (Cons e b)
  obtain t0 v0 where e: "e = (t0, v0)" by (cases e)
  have older: "t' < t0" if "t' \<in> dom (map_of b)" for t'
  proof -
    have "\<forall>k' \<in> fst ` set b. newer t0 k'" using Cons.prems by (simp add: e newest_first.om_sorted_Cons)
    then show ?thesis using that by (auto simp: newer_def dom_map_of_conv_image_fst)
  qed
  have sorted: "om_sorted newer b" using Cons.prems e by (simp add: newest_first.om_sorted_Cons)
  have t0: "map_of b t0 = None" using older by fastforce
  show ?case
  proof (cases "t0 \<le> now \<and> nv \<le> t0")
    case True
    have "t = t0" if "map_of (e # b) t = Some v" "\<forall>t' \<in> dom (map_of (e # b)). t < t' \<longrightarrow> now < t'" for t
    proof (rule ccontr)
      assume "t \<noteq> t0"
      then have "t < t0" using that(1) older e by auto
      then show False using that(2) True e by auto
    qed
    note newest = this
    have scan: "scan_bucket now nv (e # b) = Some v \<longleftrightarrow> v = v0" using True e by auto
    have top: "\<forall>t' \<in> dom (map_of (e # b)). t0 < t' \<longrightarrow> now < t'"
      using older e by (metis domD domI map_of_Cons_code(2) not_less_iff_gr_or_eq option.distinct(1))
    show ?thesis
    proof
      assume "scan_bucket now nv (e # b) = Some v"
      then show "\<exists>t. map_of (e # b) t = Some v \<and> nv \<le> t \<and> t \<le> now \<and>
          (\<forall>t' \<in> dom (map_of (e # b)). t < t' \<longrightarrow> now < t')"
        using True top e by (intro exI [of _ t0]) (simp add: scan)
    next
      assume "\<exists>t. map_of (e # b) t = Some v \<and> nv \<le> t \<and> t \<le> now \<and>
          (\<forall>t' \<in> dom (map_of (e # b)). t < t' \<longrightarrow> now < t')"
      then have "map_of (e # b) t0 = Some v" using newest by blast
      then have "v = v0" using e by simp
      then show "scan_bucket now nv (e # b) = Some v" unfolding scan .
    qed
  next
    case False
    show ?thesis
    proof (cases "t0 < nv")
      case True
      then show ?thesis
        using older e False by (auto simp: domIff) (metis domI leD less_trans)
    next
      case False': False
      with False have "now < t0" by auto
      then have scan: "scan_bucket now nv (e # b) = scan_bucket now nv b" using e False' by auto
      have "dom (map_of (e # b)) = insert t0 (dom (map_of b))" using e by simp
      then have later: "(\<forall>t' \<in> dom (map_of (e # b)). t < t' \<longrightarrow> now < t') \<longleftrightarrow>
          (\<forall>t' \<in> dom (map_of b). t < t' \<longrightarrow> now < t')" for t
        using \<open>now < t0\<close> by simp
      have "map_of (e # b) t = map_of b t" if "t \<le> now" for t
        using that \<open>now < t0\<close> e by auto
      then show ?thesis unfolding scan later Cons.IH [OF sorted] by metis
    qed
  qed
qed simp

text \<open>C18 (try_read_newest): a read returns the newest committed value of the key that lies
  between the caller's bound and now, and nothing exactly when there is none; values
  published in the future are skipped, and so are requests about the future.\<close>

theorem try_read_newest:
  assumes "bft_ok NT KS VS s"
  shows "try_read s now k nv = Some v \<longleftrightarrow>
    (\<exists>t. map_of (bucket_of (store s) k) t = Some v \<and> nv \<le> t \<and> t \<le> now \<and>
       (\<forall>t' \<in> dom (map_of (bucket_of (store s) k)). t < t' \<longrightarrow> now < t'))"
proof (cases "store s k")
  case None
  then show ?thesis by (simp add: try_read_def bucket_of_def)
next
  case (Some b)
  then have "om_sorted newer b" using assms by (auto simp: bft_ok_def store_ok_def bucket_ok_def)
  from scan_bucket_spec [OF this] Some show ?thesis
    by (auto simp: try_read_def bucket_of_def dest: order_trans)
qed

lemma take_Suc_update: "i < length xs \<Longrightarrow> take (Suc i) (xs[i := x]) = take i xs @ [x]"
  by (simp add: take_Suc_conv_app_nth)

lemma accepted_add_tuple:
  assumes "pending_ok NT KS VS nd" "unat (nlength nd) < NT" "NT < 2 ^ 32" "length k \<le> KS" "length v \<le> VS"
  shows "accepted NT (add_tuple k t v nd) =
    accepted NT nd @ [(ntuples nd ! unat (nlength nd))\<lparr>tkey := strcpy (tkey (ntuples nd ! unat (nlength nd))) k,
                       tvalue := strcpy (tvalue (ntuples nd ! unat (nlength nd))) v, ttime := t\<rparr>]"
  using assms add_tuple_ok(2) [OF assms, of t]
  by (simp add: accepted_def pending_ok_def node_ok_def)
     (simp add: add_tuple_def Let_def take_Suc_update)

lemma key_of_strcpy:
  assumes "length dst = Suc n" "length k \<le> n" "NUL \<notin> set k"
  shows "cstr ((strcpy dst k)[n := NUL]) = k"
proof -
  have s: "strcpy dst k = k @ NUL # drop (Suc (length k)) dst"
    using assms by (simp add: strcpy_def splice_def cstr_no_NUL)
  have "\<exists>r'. (k @ NUL # r)[n := NUL] = k @ NUL # r'" for r
    using assms(2) by (cases "n - length k") (auto simp: list_update_append)
  then obtain r where "(strcpy dst k)[n := NUL] = k @ NUL # r" unfolding s by blast
  then show ?thesis
    using cstr_append_NUL [of k] cstr_no_NUL [OF assms(3)] by simp
qed

text \<open>C31 (try_write_appends): a write is refused without effect when its time is not in the
  future or \<open>NT\<close> tuples wait already, and aborts on a key or value that does not fit.
  Otherwise it is accepted, appends exactly one tuple to those the next job proposes, whose
  key, value and time read back as the caller's (for strings without a terminator inside),
  and changes nothing else.\<close>

theorem try_write_appends:
  assumes "bft_ok NT KS VS s" "NUL \<notin> set k" "NUL \<notin> set v"
  shows "case try_write NT KS VS now k t v s of
      None \<Rightarrow> now < t \<and> (length k > KS \<or> length v > VS)
    | Some (False, s') \<Rightarrow> s' = s \<and> (t \<le> now \<or> length (accepted NT (unpublished s)) = NT)
    | Some (True, s') \<Rightarrow> now < t \<and> (\<exists>nd tp. s' = s\<lparr>unpublished := nd\<rparr> \<and>
        accepted NT nd = accepted NT (unpublished s) @ [tp] \<and>
        key_of KS tp = k \<and> value_of VS tp = v \<and> ttime tp = t)"
proof -
  let ?nd = "unpublished s"
  have ok: "pending_ok NT KS VS ?nd" "NT < 2 ^ 32" using assms(1) by (auto simp: bft_ok_def)
  have full: "length (accepted NT ?nd) = NT" if "NT \<le> unat (nlength ?nd)"
    using that ok by (simp add: accepted_def pending_ok_def node_ok_def)
  have fresh: "length (tkey (ntuples ?nd ! unat (nlength ?nd))) = Suc KS"
    "length (tvalue (ntuples ?nd ! unat (nlength ?nd))) = Suc VS" if "unat (nlength ?nd) < NT"
    using that ok by (auto simp: pending_ok_def node_ok_def)
  show ?thesis
    using accepted_add_tuple [OF ok(1) _ ok(2), of k v t] full fresh assms(2,3)
    by (auto simp: try_write_def key_of_def value_of_def key_of_strcpy not_le)
qed

definition demo_kvs :: "bft_kvs" where
  "demo_kvs = the (bft_new 1 3 3 4 0 2 1000000 0 10)"

lemma demo_kvs_ok: "bft_ok 1 3 3 demo_kvs"
  and demo_kvs_unpublished: "accepted NT (unpublished demo_kvs) = []"
proof -
  obtain t where t: "eig_new (zero_node 1 3 3) 4 (2 :: u32) = Some t"
    by (simp add: eig_new_def Let_def)
  then have demo: "demo_kvs = \<lparr>my_process_id = 0, max_rounds = 2, max_jobs = 10, num_jobs = 0,
      one_round_us = 1000000 div 2 div 2 div 1000, total_run_time = 0, store = Map.empty,
      unpublished = zero_node 1 3 3, tree = t\<rparr>"
    by (simp add: demo_kvs_def bft_new_def)
  show "bft_ok 1 3 3 demo_kvs"
    unfolding demo bft_ok_def
    using eig_new_wf [OF t] eig_new_shape(3) [OF t] zero_node_pending [of 1 3 3]
    by (simp add: store_ok_def)
  show "accepted NT (unpublished demo_kvs) = []"
    unfolding demo by (simp add: accepted_def zero_node_def)
qed

theorem try_write_appends_witness:
  "\<exists>s'. try_write 1 3 3 5 ''k'' 9 ''v'' demo_kvs = Some (True, s') \<and>
     (\<exists>nd tp. s' = demo_kvs\<lparr>unpublished := nd\<rparr> \<and>
        accepted 1 nd = accepted 1 (unpublished demo_kvs) @ [tp] \<and>
        key_of 3 tp = ''k'' \<and> value_of 3 tp = ''v'' \<and> ttime tp = 9)"
  using try_write_appends [OF demo_kvs_ok, of "''k''" "''v''" 5 9]
  by (auto simp: demo_kvs_unpublished split: option.splits bool.splits)

theorem try_read_newest_witness:
  "try_read (demo_kvs\<lparr>store := [''k'' \<mapsto> [(9, ''new''), (7, ''now''), (2, ''old'')]]\<rparr>) 8 ''k'' 1 = Some ''now''"
proof (subst try_read_newest [where NT = 1 and KS = 3 and VS = 3])
  show "bft_ok 1 3 3 (demo_kvs\<lparr>store := [''k'' \<mapsto> [(9, ''new''), (7, ''now''), (2, ''old'')]]\<rparr>)"
    using demo_kvs_ok by (auto simp: bft_ok_def store_ok_def bucket_ok_def om_sorted_def newer_def keep_n_values_def)
qed (auto simp: bucket_of_def intro!: exI [of _ 7] split: if_splits)

end
