(* ===== verification/Bft_Job.thy ===== *)
theory Bft_Job imports Bft_Kvs begin

text \<open>
  The periodic job of \<^verbatim>\<open>BFTKVS\<close> (\<^verbatim>\<open>src/achal/bft_kvs.h\<close>): one process in \<open>node_rounds\<close> and
  \<open>job\<close>, and a cluster of processes in \<open>cluster_inbox\<close>. The theorems combine the
  interactive consistency of Bft_Consensus with the fuse rules of Bft_Fuse_Spec: replicas
  that are equal stay equal, and what a majority of correct processes proposes is committed
  at every correct process.
\<close>

section \<open>One process\<close>

fun node_rounds :: "nat \<Rightarrow> (nat \<Rightarrow> nat \<Rightarrow> 'a list) \<Rightarrow> (nat \<Rightarrow> nat list) \<Rightarrow> nat \<Rightarrow> 'a eig_tree \<Rightarrow> 'a eig_tree" where
  "node_rounds me inbox arrive 0 t = t"
| "node_rounds me inbox arrive (Suc l) t =
     round_receive l (inbox l) (arrive l) (copy_current_level l me (node_rounds me inbox arrive l t))"

type_synonym should_die_function = "nat \<Rightarrow> u64 \<Rightarrow> bool"
type_synonym fuse_function = "eig_node list \<Rightarrow> store \<Rightarrow> abort + store"

datatype job_abort = Bad_child_index | Fuse_failed abort

text \<open>The fuse step: the configured function on the vector, or the default one on the root.\<close>

definition fuse_step :: "nat \<Rightarrow> nat \<Rightarrow> nat \<Rightarrow> fuse_function option \<Rightarrow> eig_node eig_tree \<Rightarrow> store \<Rightarrow> abort + store" where
  "fuse_step NT KS VS fuse t st =
     (case fuse of
        Some f \<Rightarrow> f (interactive_consistency_vector t) st
      | None \<Rightarrow> Inr (default_fuse NT KS VS (root t) st))"

definition job :: "nat \<Rightarrow> nat \<Rightarrow> nat \<Rightarrow> (eig_node \<Rightarrow> u32) \<Rightarrow> order_at \<Rightarrow> should_die_function option
    \<Rightarrow> fuse_function option \<Rightarrow> (nat \<Rightarrow> nat \<Rightarrow> eig_node list) \<Rightarrow> (nat \<Rightarrow> nat list) \<Rightarrow> u64 \<Rightarrow> u64
    \<Rightarrow> bft_kvs \<Rightarrow> job_abort + bft_kvs" where
  "job NT KS VS hash iter should_die fuse inbox arrive start finish s =
     (if (case should_die of None \<Rightarrow> False | Some f \<Rightarrow> f (my_process_id s) (num_jobs s)) then
        Inr (s\<lparr>unpublished := zero_node NT KS VS, num_jobs := num_jobs s + 1\<rparr>)
      else
        let t1 = set_root (unpublished s) (tree s);
            t2 = node_rounds (my_process_id s) inbox arrive (unat (max_rounds s)) t1
        in case reduce hash iter (zero_node NT KS VS) t2 of
             None \<Rightarrow> Inl Bad_child_index
           | Some t3 \<Rightarrow>
               (case fuse_step NT KS VS fuse t3 (store s) of
                  Inl e \<Rightarrow> Inl (Fuse_failed e)
                | Inr st \<Rightarrow>
                    Inr (s\<lparr>unpublished := zero_node NT KS VS, store := st,
                           tree := clear (zero_node NT KS VS) t3, num_jobs := num_jobs s + 1,
                           total_run_time := total_run_time s + (finish - start)\<rparr>)))"

section \<open>The job keeps the invariant\<close>

lemma node_rounds_shape:
  assumes "same_shape d h t" "l \<le> unat h" "me < unat d"
  shows "same_shape d h (node_rounds me inbox arrive l t)"
  using assms(2)
proof (induction l)
  case (Suc l)
  then show ?case
    using assms(1,3) by (auto intro!: inv_intros)
qed (use assms in simp)

definition fuse_keeps :: "fuse_function option \<Rightarrow> bool" where
  "fuse_keeps fuse \<longleftrightarrow> (\<forall>f vec st st'. fuse = Some f \<longrightarrow> store_ok st \<longrightarrow> f vec st = Inr st' \<longrightarrow> store_ok st')"

lemma fuse_step_ok:
  "fuse_keeps fuse \<Longrightarrow> store_ok st \<Longrightarrow> fuse_step NT KS VS fuse t st = Inr st' \<Longrightarrow> store_ok st'"
  by (auto simp: fuse_step_def fuse_keeps_def default_fuse_ok split: option.splits)

lemma job_ok:
  assumes "bft_ok NT KS VS s" "my_process_id s < unat (degree (tree s))" "orders_ok iter" "fuse_keeps fuse"
    and "job NT KS VS hash iter die fuse inbox arrive start finish s = Inr s'"
  shows "bft_ok NT KS VS s'"
proof -
  let ?t1 = "set_root (unpublished s) (tree s)"
  let ?t2 = "node_rounds (my_process_id s) inbox arrive (unat (max_rounds s)) ?t1"
  have s: "pending_ok NT KS VS (zero_node NT KS VS)" "NT < 2 ^ 32" "store_ok (store s)"
    "same_shape (degree (tree s)) (max_rounds s) (tree s)"
    using assms(1) by (auto simp: bft_ok_def same_shape_def zero_node_pending)
  have "same_shape (degree (tree s)) (max_rounds s) ?t2"
    using s(4) assms(2) by (intro node_rounds_shape) (auto intro: inv_intros)
  then have wf2: "eig_wf ?t2" "height ?t2 = max_rounds s" by (auto simp: same_shape_def)
  show ?thesis
  proof (cases "case die of None \<Rightarrow> False | Some f \<Rightarrow> f (my_process_id s) (num_jobs s)")
    case True
    then show ?thesis using assms(1,5) s by (auto simp: job_def bft_ok_def)
  next
    case False
    from reduce_slots [OF wf2(1) assms(3), of hash "zero_node NT KS VS"] obtain t3 where
      t3: "reduce hash iter (zero_node NT KS VS) ?t2 = Some t3" "eig_wf t3" "height t3 = height ?t2" by blast
    with False assms(5) obtain st where
      st: "fuse_step NT KS VS fuse t3 (store s) = Inr st" and
      s': "s' = s\<lparr>unpublished := zero_node NT KS VS, store := st, tree := clear (zero_node NT KS VS) t3,
         num_jobs := num_jobs s + 1, total_run_time := total_run_time s + (finish - start)\<rparr>"
      by (auto simp: job_def Let_def split: sum.splits)
    show ?thesis
      using s t3 wf2 fuse_step_ok [OF assms(4) s(3) st] by (simp add: s' bft_ok_def clear_wf)
  qed
qed

lemma strong_fuse_keeps:
  assumes "fair_orders ord"
  shows "fuse_keeps (Some (strong_simple_majority_of_strings NT KS VS ord))"
proof -
  have "store_ok st'" if "store_ok st" "strong_simple_majority_of_strings NT KS VS ord vec st = Inr st'" for vec st st'
  proof (cases "vec = []")
    case True
    then show ?thesis using that by (simp add: strong_simple_majority_of_strings_def)
  next
    case False
    then show ?thesis using strong_commits [OF False that(1) assms, of NT KS VS] that(2) by auto
  qed
  then show ?thesis by (auto simp: fuse_keeps_def)
qed

lemma strict_commits:
  assumes "strong_simple_majority_of_strings NT KS VS ord vec st = Inr st'" "vec \<noteq> []" "store_ok st" "fair_orders ord"
  shows "\<exists>nd \<in> set vec. \<exists>t. proposal NT KS VS nd k t \<noteq> None \<Longrightarrow>
      \<exists>b maj. st' k = Some b \<and> latest (bucket_of st k) maj b \<and>
        (\<forall>t v. maj t = Some v \<longleftrightarrow> length vec < 2 * card (supporters NT KS VS vec k t v))"
    and "\<not> (\<exists>nd \<in> set vec. \<exists>t. proposal NT KS VS nd k t \<noteq> None) \<Longrightarrow> st' k = st k"
proof -
  from strong_commits [OF assms(2-4), of NT KS VS] assms(1)
  have k: "if \<exists>nd \<in> set vec. \<exists>t. proposal NT KS VS nd k t \<noteq> None
    then \<exists>b maj. st' k = Some b \<and> latest (bucket_of st k) maj b \<and>
      (\<forall>t v. maj t = Some v \<longleftrightarrow> length vec < 2 * card (supporters NT KS VS vec k t v))
    else st' k = st k"
    by (metis (no_types, lifting) sum.inject(2))
  show "\<exists>b maj. st' k = Some b \<and> latest (bucket_of st k) maj b \<and>
      (\<forall>t v. maj t = Some v \<longleftrightarrow> length vec < 2 * card (supporters NT KS VS vec k t v))"
    if "\<exists>nd \<in> set vec. \<exists>t. proposal NT KS VS nd k t \<noteq> None" using k that by (simp only: if_True)
  show "st' k = st k" if "\<not> (\<exists>nd \<in> set vec. \<exists>t. proposal NT KS VS nd k t \<noteq> None)" using k that by (simp only: if_False)
qed

section \<open>The cluster\<close>

text \<open>What process \<open>i\<close> reads from \<open>p\<close> in round \<open>l\<close> when all run the job together.\<close>

definition cluster_inbox :: "nat \<Rightarrow> (nat \<Rightarrow> 'a lie_function option) \<Rightarrow> u64
    \<Rightarrow> (nat \<Rightarrow> nat \<Rightarrow> nat \<Rightarrow> 'a list \<Rightarrow> 'a list) \<Rightarrow> (nat \<Rightarrow> nat \<Rightarrow> nat list) \<Rightarrow> (nat \<Rightarrow> 'a eig_tree)
    \<Rightarrow> nat \<Rightarrow> nat \<Rightarrow> nat \<Rightarrow> 'a list" where
  "cluster_inbox size_T lie jobs chan arrive trees i l p =
     chan l p i (outgoing size_T (lie p) jobs l p i
       (copy_current_level l p (cluster_rounds size_T lie jobs chan arrive l trees p)))"

lemma node_rounds_cluster:
  "node_rounds i (cluster_inbox size_T lie jobs chan arrive trees i) (\<lambda>l. arrive l i) l (trees i) =
   cluster_rounds size_T lie jobs chan arrive l trees i"
  by (induction l) (simp_all add: cluster_round_def Let_def cluster_inbox_def)

text \<open>The job of process \<open>i\<close> in the cluster.\<close>

definition cluster_job :: "nat \<Rightarrow> nat \<Rightarrow> nat \<Rightarrow> nat \<Rightarrow> (eig_node \<Rightarrow> u32) \<Rightarrow> (nat \<Rightarrow> order_at)
    \<Rightarrow> (nat \<Rightarrow> fuse_function option) \<Rightarrow> (nat \<Rightarrow> eig_node lie_function option) \<Rightarrow> u64
    \<Rightarrow> (nat \<Rightarrow> nat \<Rightarrow> nat \<Rightarrow> eig_node list \<Rightarrow> eig_node list) \<Rightarrow> (nat \<Rightarrow> nat \<Rightarrow> nat list)
    \<Rightarrow> (nat \<Rightarrow> u64) \<Rightarrow> (nat \<Rightarrow> u64) \<Rightarrow> (nat \<Rightarrow> bft_kvs) \<Rightarrow> nat \<Rightarrow> job_abort + bft_kvs" where
  "cluster_job size_T NT KS VS hash iter fuse lie jobs chan arrive start finish S i =
     job NT KS VS hash (iter i) None (fuse i)
       (cluster_inbox size_T lie jobs chan arrive (proposed (\<lambda>p. unpublished (S p)) (\<lambda>p. tree (S p))) i)
       (\<lambda>l. arrive l i) (start i) (finish i) (S i)"

definition cluster_ready :: "nat \<Rightarrow> nat \<Rightarrow> nat \<Rightarrow> u32 \<Rightarrow> u32 \<Rightarrow> (nat \<Rightarrow> bft_kvs) \<Rightarrow> bool" where
  "cluster_ready NT KS VS d h S \<longleftrightarrow>
     (\<forall>i < unat d. bft_ok NT KS VS (S i) \<and> degree (tree (S i)) = d \<and> max_rounds (S i) = h \<and> my_process_id (S i) = i)"

definition cluster_collected :: "nat \<Rightarrow> (nat \<Rightarrow> eig_node lie_function option) \<Rightarrow> u64
    \<Rightarrow> (nat \<Rightarrow> nat \<Rightarrow> nat \<Rightarrow> eig_node list \<Rightarrow> eig_node list) \<Rightarrow> (nat \<Rightarrow> nat \<Rightarrow> nat list)
    \<Rightarrow> u32 \<Rightarrow> (nat \<Rightarrow> bft_kvs) \<Rightarrow> nat \<Rightarrow> eig_node eig_tree" where
  "cluster_collected size_T lie jobs chan arrive h S =
     collected size_T lie jobs chan arrive (\<lambda>p. unpublished (S p)) h (\<lambda>p. tree (S p))"

text \<open>The hypotheses of a run: few enough faults, correct processes hear each other, the
  hash separates the values at the leaves.\<close>

definition good_run :: "nat \<Rightarrow> nat \<Rightarrow> nat \<Rightarrow> nat \<Rightarrow> (eig_node \<Rightarrow> u32) \<Rightarrow> (nat \<Rightarrow> order_at)
    \<Rightarrow> (nat \<Rightarrow> eig_node lie_function option) \<Rightarrow> u64
    \<Rightarrow> (nat \<Rightarrow> nat \<Rightarrow> nat \<Rightarrow> eig_node list \<Rightarrow> eig_node list) \<Rightarrow> (nat \<Rightarrow> nat \<Rightarrow> nat list)
    \<Rightarrow> u32 \<Rightarrow> u32 \<Rightarrow> nat set \<Rightarrow> (nat \<Rightarrow> bft_kvs) \<Rightarrow> bool" where
  "good_run size_T NT KS VS hash iter lie jobs chan arrive d h C S \<longleftrightarrow>
     cluster_ready NT KS VS d h S \<and> card ({..<unat d} - C) < unat h \<and> 3 * (unat h - 1) < unat d \<and>
     correct_processes (unat d) C lie chan arrive \<and> (\<forall>i. orders_ok (iter i)) \<and>
     inj_on hash (leaf_values (zero_node NT KS VS) C (cluster_collected size_T lie jobs chan arrive h S))"

lemma good_run_end:
  assumes "good_run size_T NT KS VS hash iter lie jobs chan arrive d h C S"
  shows "cluster_end d h C hash (zero_node NT KS VS) iter
    (cluster_collected size_T lie jobs chan arrive h S) (\<lambda>p. unpublished (S p))"
  unfolding cluster_collected_def
  using assms [unfolded good_run_def cluster_collected_def cluster_ready_def]
  by (intro collected_end) (auto simp: same_shape_def bft_ok_def)

lemma cluster_job_eq:
  assumes "good_run size_T NT KS VS hash iter lie jobs chan arrive d h C S" "i \<in> C"
    and "reduce hash (iter i) (zero_node NT KS VS) (cluster_collected size_T lie jobs chan arrive h S i) = Some t"
  shows "cluster_job size_T NT KS VS hash iter fuse lie jobs chan arrive start finish S i =
    (case fuse_step NT KS VS (fuse i) t (store (S i)) of
       Inl e \<Rightarrow> Inl (Fuse_failed e)
     | Inr st \<Rightarrow> Inr ((S i)\<lparr>unpublished := zero_node NT KS VS, store := st,
           tree := clear (zero_node NT KS VS) t, num_jobs := num_jobs (S i) + 1,
           total_run_time := total_run_time (S i) + (finish i - start i)\<rparr>))"
proof -
  have i: "i < unat d" using assms(1,2) by (auto simp: good_run_def correct_processes_def)
  then have S: "max_rounds (S i) = h" "my_process_id (S i) = i"
    using assms(1) by (auto simp: good_run_def cluster_ready_def)
  have "node_rounds i (cluster_inbox size_T lie jobs chan arrive (proposed (\<lambda>p. unpublished (S p)) (\<lambda>p. tree (S p))) i)
      (\<lambda>l. arrive l i) (unat h) (set_root (unpublished (S i)) (tree (S i))) =
    cluster_collected size_T lie jobs chan arrive h S i"
    unfolding cluster_collected_def collected_def
    by (subst node_rounds_cluster [symmetric]) (simp add: proposed_def)
  then show ?thesis
    using assms(3) by (simp add: cluster_job_def job_def S Let_def)
qed

definition same_fuse :: "fuse_function option \<Rightarrow> fuse_function option \<Rightarrow> bool" where
  "same_fuse f1 f2 \<longleftrightarrow> (f1 = None) = (f2 = None) \<and>
     (\<forall>g1 g2 vec st. f1 = Some g1 \<longrightarrow> f2 = Some g2 \<longrightarrow> store_ok st \<longrightarrow> g1 vec st = g2 vec st)"

lemma same_fuse_step:
  assumes "same_fuse f1 f2" "store_ok st" "interactive_consistency_vector t1 = interactive_consistency_vector t2"
    and "root t1 = root t2"
  shows "fuse_step NT KS VS f1 t1 st = fuse_step NT KS VS f2 t2 st"
  using assms by (auto simp: same_fuse_def fuse_step_def split: option.splits)

lemma accepted_zero: "accepted NT (zero_node NT KS VS) = []"
  by (simp add: accepted_def zero_node_def)

lemma replicas_step:
  assumes "good_run size_T NT KS VS hash iter lie jobs chan arrive d h C S" "i \<in> C" "j \<in> C"
    and "store (S i) = store (S j)" "same_fuse (fuse i) (fuse j)" "fuse_keeps (fuse i)"
  shows "case (cluster_job size_T NT KS VS hash iter fuse lie jobs chan arrive start finish S i,
               cluster_job size_T NT KS VS hash iter fuse lie jobs chan arrive start finish S j) of
      (Inr s, Inr s') \<Rightarrow> store s = store s' \<and> bft_ok NT KS VS s \<and> accepted NT (unpublished s) = []
    | (Inl e, Inl e') \<Rightarrow> e = e' \<and> (\<exists>a. e = Fuse_failed a)
    | _ \<Rightarrow> False"
proof -
  have lt: "i < unat d" "j < unat d" using assms(1-3) by (auto simp: good_run_def correct_processes_def)
  then have ok: "bft_ok NT KS VS (S i)" "degree (tree (S i)) = d" "my_process_id (S i) = i"
    using assms(1) by (auto simp: good_run_def cluster_ready_def)
  from cluster_reduced [OF good_run_end [OF assms(1)] assms(2,3)] obtain ti tj where
    t: "reduce hash (iter i) (zero_node NT KS VS) (cluster_collected size_T lie jobs chan arrive h S i) = Some ti"
      "reduce hash (iter j) (zero_node NT KS VS) (cluster_collected size_T lie jobs chan arrive h S j) = Some tj"
      "interactive_consistency_vector ti = interactive_consistency_vector tj" "root ti = root tj" by blast
  have same: "fuse_step NT KS VS (fuse i) ti (store (S i)) = fuse_step NT KS VS (fuse j) tj (store (S j))"
    using same_fuse_step [OF assms(5) _ t(3,4)] ok(1) assms(4) by (simp add: bft_ok_def)
  note eqs = cluster_job_eq [OF assms(1,2) t(1), of fuse start finish]
    cluster_job_eq [OF assms(1,3) t(2), of fuse start finish]
  show ?thesis
  proof (cases "fuse_step NT KS VS (fuse i) ti (store (S i))")
    case (Inl e)
    then show ?thesis unfolding eqs using same by simp
  next
    case (Inr st)
    have run: "cluster_job size_T NT KS VS hash iter fuse lie jobs chan arrive start finish S i =
        Inr ((S i)\<lparr>unpublished := zero_node NT KS VS, store := st,
           tree := clear (zero_node NT KS VS) ti, num_jobs := num_jobs (S i) + 1,
           total_run_time := total_run_time (S i) + (finish i - start i)\<rparr>)"
      unfolding eqs using Inr by simp
    have orders: "orders_ok (iter i)" using assms(1) by (simp add: good_run_def)
    have "bft_ok NT KS VS ((S i)\<lparr>unpublished := zero_node NT KS VS, store := st,
           tree := clear (zero_node NT KS VS) ti, num_jobs := num_jobs (S i) + 1,
           total_run_time := total_run_time (S i) + (finish i - start i)\<rparr>)"
      using ok lt(1) orders by (intro job_ok [OF ok(1) _ _ assms(6) run [unfolded cluster_job_def]]) simp_all
    then show ?thesis
      unfolding eqs Inr same [unfolded Inr, symmetric] by (simp add: accepted_zero)
  qed
qed

text \<open>C5 (replicas_stay_equal): one job of a cluster, whatever the faulty processes send.
  Two correct processes with equal stores, and with fuse functions that agree on equal
  inputs, either both finish, with equal stores, or both fail in the fuse in the same way.
  A process that finishes satisfies the invariant again and has an empty proposal.\<close>

theorem replicas_stay_equal:
  assumes "good_run size_T NT KS VS hash iter lie jobs chan arrive d h C S" "i \<in> C" "j \<in> C"
    and "store (S i) = store (S j)" "same_fuse (fuse i) (fuse j)" "fuse_keeps (fuse i)"
  shows "case (cluster_job size_T NT KS VS hash iter fuse lie jobs chan arrive start finish S i,
               cluster_job size_T NT KS VS hash iter fuse lie jobs chan arrive start finish S j) of
      (Inr s, Inr s') \<Rightarrow> store s = store s' \<and> bft_ok NT KS VS s \<and> accepted NT (unpublished s) = []
    | (Inl e, Inl e') \<Rightarrow> e = e' \<and> (\<exists>a. e = Fuse_failed a)
    | _ \<Rightarrow> False"
  using assms by (rule replicas_step)

text \<open>With the strict-majority fuse the job always returns, and its store is the fuse of a vector
  that holds the proposals of the correct processes.\<close>

lemma strict_job:
  assumes "good_run size_T NT KS VS hash iter lie jobs chan arrive d h C S" "i \<in> C" "fair_orders ord"
    and "fuse i = Some (strong_simple_majority_of_strings NT KS VS ord)"
  shows "\<exists>s vec. cluster_job size_T NT KS VS hash iter fuse lie jobs chan arrive start finish S i = Inr s \<and>
    length vec = unat d \<and> (\<forall>p \<in> C. vec ! p = unpublished (S p)) \<and>
    strong_simple_majority_of_strings NT KS VS ord vec (store (S i)) = Inr (store s) \<and>
    bft_ok NT KS VS s \<and> degree (tree s) = d \<and> max_rounds s = h \<and> my_process_id s = i \<and>
    unpublished s = zero_node NT KS VS \<and> num_jobs s = num_jobs (S i) + 1"
proof -
  have C: "C \<subseteq> {..<unat d}" "i < unat d" using assms(1,2) by (auto simp: good_run_def correct_processes_def)
  then have ok: "bft_ok NT KS VS (S i)" "degree (tree (S i)) = d" "my_process_id (S i) = i" "max_rounds (S i) = h"
    using assms(1) by (auto simp: good_run_def cluster_ready_def)
  note ce = good_run_end [OF assms(1)]
  from cluster_reduced [OF ce assms(2,2)] obtain ti where
    t: "reduce hash (iter i) (zero_node NT KS VS) (cluster_collected size_T lie jobs chan arrive h S i) = Some ti"
      "\<forall>p \<in> C. interactive_consistency_vector ti ! p = unpublished (S p)" by blast
  from cluster_reduce [OF ce assms(2)] t(1) have shape: "same_shape d h ti" by auto
  then have len: "length (interactive_consistency_vector ti) = unat d"
    using icv_length [of ti] cluster_endD(13) [OF ce] by (auto simp: same_shape_def)
  let ?vec = "interactive_consistency_vector ti"
  have "?vec \<noteq> []" using len C(2) by auto
  from strong_commits [OF this _ assms(3), of "store (S i)" NT KS VS] ok(1) obtain st where
    st: "strong_simple_majority_of_strings NT KS VS ord ?vec (store (S i)) = Inr st"
    unfolding bft_ok_def by blast
  let ?s = "(S i)\<lparr>unpublished := zero_node NT KS VS, store := st, tree := clear (zero_node NT KS VS) ti,
    num_jobs := num_jobs (S i) + 1, total_run_time := total_run_time (S i) + (finish i - start i)\<rparr>"
  have "fuse_step NT KS VS (fuse i) ti (store (S i)) = Inr st"
    using st by (simp add: fuse_step_def assms(4))
  then have run: "cluster_job size_T NT KS VS hash iter fuse lie jobs chan arrive start finish S i = Inr ?s"
    using cluster_job_eq [OF assms(1,2) t(1), of fuse start finish] by simp
  have keeps: "fuse_keeps (fuse i)"
    using strong_fuse_keeps [OF assms(3)] assms(4) by simp
  have "bft_ok NT KS VS ?s"
    using ok C(2) assms(1) by (intro job_ok [OF ok(1) _ _ keeps run [unfolded cluster_job_def]]) (simp_all add: good_run_def)
  moreover have "degree (tree ?s) = d" using same_shape_ops(1) [OF shape] by (simp add: same_shape_def)
  ultimately show ?thesis
    using run len t(2) st ok by (intro exI [of _ ?s] exI [of _ ?vec]) simp
qed

text \<open>C6 (majority_is_replicated): with the strict-majority fuse at process \<open>i\<close>, a value
  that more than half of all processes propose for a key and a time, all of them correct,
  is committed by the job of every correct process \<open>i\<close>: the job returns, and the new bucket
  of the key keeps the latest of the old values and a set of committed values that contains
  it.\<close>

theorem majority_is_replicated:
  assumes "good_run size_T NT KS VS hash iter lie jobs chan arrive d h C S" "i \<in> C" "fair_orders ord"
    and "fuse i = Some (strong_simple_majority_of_strings NT KS VS ord)"
    and "P \<subseteq> C" "unat d < 2 * card P" "\<forall>p \<in> P. proposal NT KS VS (unpublished (S p)) k t = Some v"
  shows "\<exists>s b maj. cluster_job size_T NT KS VS hash iter fuse lie jobs chan arrive start finish S i = Inr s \<and>
    store s k = Some b \<and> latest (bucket_of (store (S i)) k) maj b \<and> maj t = Some v"
proof -
  have C: "C \<subseteq> {..<unat d}" "i < unat d" using assms(1,2) by (auto simp: good_run_def correct_processes_def)
  then have ok: "store_ok (store (S i))" using assms(1) by (auto simp: good_run_def cluster_ready_def bft_ok_def)
  from strict_job [where fuse = fuse and start = start and finish = finish, OF assms(1-4)] obtain s vec where
    run: "cluster_job size_T NT KS VS hash iter fuse lie jobs chan arrive start finish S i = Inr s" and
    vec: "length vec = unat d" "\<forall>p \<in> C. vec ! p = unpublished (S p)" and
    st: "strong_simple_majority_of_strings NT KS VS ord vec (store (S i)) = Inr (store s)" by blast
  have sup: "P \<subseteq> supporters NT KS VS vec k t v"
    using assms(5,7) vec C(1) by (fastforce simp: supporters_def)
  have "card P \<le> card (supporters NT KS VS vec k t v)"
    using sup by (intro card_mono) (auto simp: supporters_def)
  then have maj: "length vec < 2 * card (supporters NT KS VS vec k t v)" using assms(6) vec(1) by simp
  have "P \<noteq> {}" using assms(6) by auto
  then obtain p where p: "p \<in> supporters NT KS VS vec k t v" using sup by blast
  then have someone: "\<exists>nd \<in> set vec. \<exists>t. proposal NT KS VS nd k t \<noteq> None"
    by (auto simp: supporters_def intro!: bexI [of _ "vec ! p"])
  have "vec \<noteq> []" using p by (auto simp: supporters_def)
  from strict_commits [OF st this ok assms(3)] someone maj run show ?thesis by blast
qed

section \<open>Values are never invented\<close>

text \<open>Every slot of every tree holds a value of \<open>V\<close>.\<close>

definition holds_in :: "'a set \<Rightarrow> 'a eig_tree \<Rightarrow> bool" where
  "holds_in V t \<longleftrightarrow> (\<forall>l \<le> hgt t. set (levels t ! l) \<subseteq> V)"

lemma set_fill_slots: "set (fill_slots is vs xs) \<subseteq> set xs \<union> set vs"
proof (induction "is" vs xs rule: fill_slots.induct)
  case (1 i "is" v vs xs)
  then show ?case using set_update_subset_insert [of xs i v] by auto
qed auto

lemma set_splice: "set (splice xs k ys) \<subseteq> set xs \<union> set ys"
  unfolding splice_def using set_take_subset [of k xs] set_drop_subset [of "k + length ys" xs] by auto

lemma holds_in_ops:
  assumes "same_shape d h t" "holds_in V t"
  shows "v \<in> V \<Longrightarrow> holds_in V (set_root v t)"
    and "l < unat h \<Longrightarrow> holds_in V (copy_current_level l pid t)"
    and "l < unat h \<Longrightarrow> set payload \<subseteq> V \<Longrightarrow> holds_in V (deliver l pid payload t)"
proof -
  have len: "length (levels t) = Suc (hgt t)" "hgt t = unat h"
    using assms(1) by (auto simp: same_shape_def eig_wf_levels)
  have upd: "set ((levels t)[l := ys] ! m) \<subseteq> V" if "m \<le> hgt t" "set ys \<subseteq> V" for l m ys
    using that assms(2) len by (cases "l = m") (auto simp: holds_in_def)
  show "holds_in V (set_root v t)" if "v \<in> V"
    using that assms(2) len set_update_subset_insert [of "levels t ! 0" 0 v] upd
    by (simp add: holds_in_def set_root_def) blast
  show "holds_in V (copy_current_level l pid t)" if l: "l < unat h"
  proof -
    have old: "set (levels t ! Suc l) \<subseteq> V" "set (levels t ! l) \<subseteq> V"
      using l assms(2) len by (simp_all add: holds_in_def)
    have "set (splice (levels t ! Suc l) (pid * num_nodes t ! l) (take (num_nodes t ! l) (levels t ! l))) \<subseteq> V"
      by (rule order_trans [OF set_splice Un_least [OF old(1) order_trans [OF set_take_subset old(2)]]])
    then show ?thesis using upd by (simp add: holds_in_def copy_current_level_def)
  qed
  show "holds_in V (deliver l pid payload t)" if l: "l < unat h" "set payload \<subseteq> V"
  proof -
    have "set (levels t ! Suc l) \<subseteq> V" using l assms(2) len by (simp add: holds_in_def)
    then have "set (fill_slots (receive_buffer_optimized l pid t) payload (levels t ! Suc l)) \<subseteq> V"
      by (intro order_trans [OF set_fill_slots Un_least] l(2))
    then show ?thesis using upd by (simp add: holds_in_def deliver_def)
  qed
qed

lemma holds_in_receive:
  assumes "same_shape d h t" "holds_in V t" "l < unat h" "\<And>p. p \<in> set ps \<Longrightarrow> set (inbox p) \<subseteq> V"
  shows "holds_in V (round_receive l inbox ps t)"
  using assms(1,2,4)
proof (induction ps arbitrary: t)
  case (Cons p ps)
  have "same_shape d h (deliver l p (inbox p) t)" using Cons.prems(1) assms(3) by (rule same_shape_ops)
  moreover have "holds_in V (deliver l p (inbox p) t)"
    using Cons.prems assms(3) by (intro holds_in_ops(3)) auto
  ultimately show ?case using Cons.IH Cons.prems(3) by simp
qed simp

lemma holds_in_payload:
  assumes "same_shape d h t" "holds_in V t" "l < unat h"
  shows "set (send_buffer_optimized l pid t) \<subseteq> V"
proof -
  have "length (levels t ! l) = num_nodes t ! l" "set (levels t ! l) \<subseteq> V"
    using assms by (auto simp: same_shape_def shape_simps holds_in_def)
  then show ?thesis by (auto simp: send_buffer_optimized_def send_slots_def)
qed

lemma holds_in_rounds:
  assumes "\<And>i. same_shape d h (trees i)" "\<And>i. holds_in V (trees i)" "n \<le> unat h"
    and "\<And>p. lie p = None" "\<And>l p i m. set m \<subseteq> V \<Longrightarrow> set (chan l p i m) \<subseteq> V"
    and "\<And>l i. set (arrive l i) \<subseteq> {..<unat d}" "i < unat d"
  shows "holds_in V (cluster_rounds size_T lie jobs chan arrive n trees i)"
  using assms(3,7)
proof (induction n arbitrary: i)
  case 0
  then show ?case using assms(2) by simp
next
  case (Suc l)
  let ?T = "cluster_rounds size_T lie jobs chan arrive l trees"
  have copied: "same_shape d h (copy_current_level l p (?T p))" "holds_in V (copy_current_level l p (?T p))"
    if p: "p < unat d" for p
  proof -
    have shape: "same_shape d h (?T p)" using p assms(1) Suc.prems by (intro same_shape_rounds) auto
    show "same_shape d h (copy_current_level l p (?T p))"
      using shape p Suc.prems by (intro same_shape_ops) auto
    show "holds_in V (copy_current_level l p (?T p))"
      using p Suc.prems by (intro holds_in_ops(2) [OF shape Suc.IH]) auto
  qed
  have "set (chan l p i (outgoing size_T (lie p) jobs l p i (copy_current_level l p (?T p)))) \<subseteq> V"
    if p: "p < unat d" for p
    using holds_in_payload [OF copied [OF p]] Suc.prems assms(4,5) by (simp add: outgoing_def)
  moreover have "set (arrive l i) \<subseteq> {..<unat d}" by (rule assms(6))
  ultimately show ?case
    using copied [OF Suc.prems(2)] Suc.prems(1)
    by (auto simp: cluster_round_def Let_def intro!: holds_in_receive)
qed

section \<open>A run with a crashed process\<close>

text \<open>Four processes, one of them silent, that propose \<open>x\<close> for the same key and time. The
  runs below are the concrete inputs of the witnesses.\<close>

definition demo_cluster :: "nat \<Rightarrow> bft_kvs" where
  "demo_cluster i = (the (bft_new 1 1 1 4 i 2 1000000 0 10))\<lparr>unpublished := demo_node ''k'' ''x'' 7\<rparr>"

definition crash_chan :: "nat \<Rightarrow> nat \<Rightarrow> nat \<Rightarrow> eig_node list \<Rightarrow> eig_node list" where
  "crash_chan l p i m = (if p = 3 then [] else m)"

definition crash_arrive :: "nat \<Rightarrow> nat \<Rightarrow> nat list" where
  "crash_arrive l i = filter (\<lambda>p. p \<noteq> i) [0, 1, 2, 3]"

definition zero_hash :: "eig_node \<Rightarrow> u32" where
  "zero_hash nd = (if nlength nd = 0 then 0 else 1)"

lemma demo_cluster_state:
  "unpublished (demo_cluster i) = demo_node ''k'' ''x'' 7" "store (demo_cluster i) = Map.empty"
  "my_process_id (demo_cluster i) = i" "max_rounds (demo_cluster i) = 2"
  "eig_new (zero_node 1 1 1) 4 2 = Some (tree (demo_cluster i))"
  by (simp_all add: demo_cluster_def bft_new_def eig_new_def Let_def)

lemma demo_cluster_ready: "cluster_ready 1 1 1 4 2 demo_cluster"
proof -
  have "pending_ok 1 1 1 (demo_node ''k'' ''x'' 7)"
    by (simp add: pending_ok_def node_ok_def demo_node_def tuple_padding_def)
  then show ?thesis
    using eig_new_wf [OF demo_cluster_state(5)] eig_new_shape(2,3) [OF demo_cluster_state(5)]
    by (simp add: cluster_ready_def bft_ok_def demo_cluster_state store_ok_def)
qed

lemma holds_in_new: "eig_new zero d h = Some t \<Longrightarrow> zero \<in> V \<Longrightarrow> holds_in V t"
  using eig_new_shape [of zero d h t]
  by (auto simp: holds_in_def nth_map_upto simp del: upt_Suc)

lemma demo_good_run:
  "good_run 1 1 1 1 zero_hash (\<lambda>_ _ _ m. m) (\<lambda>_. None) 0 crash_chan crash_arrive 4 2 {0, 1, 2} demo_cluster"
proof -
  let ?V = "{zero_node 1 1 1, demo_node ''k'' ''x'' 7}"
  let ?T = "cluster_collected 1 (\<lambda>_. None) 0 crash_chan crash_arrive 2 demo_cluster"
  have shape: "same_shape 4 2 (tree (demo_cluster i))" for i
    by (rule same_shape_new [OF demo_cluster_state(5)])
  have holds: "holds_in ?V (tree (demo_cluster i))" for i
    by (rule holds_in_new [OF demo_cluster_state(5)]) simp
  have "holds_in ?V (?T i)" if "i < unat (4 :: u32)" for i
    unfolding cluster_collected_def collected_def
    using shape holds that
    by (intro holds_in_rounds [where d = 4 and h = 2])
       (auto simp: proposed_def demo_cluster_state crash_chan_def crash_arrive_def
         intro: same_shape_ops holds_in_ops)
  moreover have "same_shape 4 2 (?T i)" if "i < unat (4 :: u32)" for i
    unfolding cluster_collected_def using shape that by (intro same_shape_collected)
  ultimately have "leaf_values (zero_node 1 1 1) {0, 1, 2} ?T \<subseteq> ?V"
    by (auto simp: leaf_values_def holds_in_def same_shape_def)
  moreover have "inj_on zero_hash ?V"
    by (simp add: zero_hash_def zero_node_def demo_node_def)
  ultimately have "inj_on zero_hash (leaf_values (zero_node 1 1 1) {0, 1, 2} ?T)"
    by (rule inj_on_subset [rotated])
  moreover have "{..<4} - {0, 1, 2 :: nat} = {3}" by auto
  moreover have "correct_processes 4 {0, 1, 2} (\<lambda>_. None) crash_chan crash_arrive"
    by (auto simp: correct_processes_def crash_chan_def crash_arrive_def)
  ultimately show ?thesis
    using demo_cluster_ready by (simp add: good_run_def orders_ok_def iteration_order_id)
qed

theorem replicas_stay_equal_witness:
  "case (cluster_job 1 1 1 1 zero_hash (\<lambda>_ _ _ m. m) (\<lambda>_. None) (\<lambda>_. None) 0 crash_chan crash_arrive (\<lambda>_. 0) (\<lambda>_. 5) demo_cluster 0,
         cluster_job 1 1 1 1 zero_hash (\<lambda>_ _ _ m. m) (\<lambda>_. None) (\<lambda>_. None) 0 crash_chan crash_arrive (\<lambda>_. 0) (\<lambda>_. 5) demo_cluster 2) of
      (Inr s, Inr s') \<Rightarrow> store s = store s' \<and> bft_ok 1 1 1 s \<and> accepted 1 (unpublished s) = []
    | (Inl e, Inl e') \<Rightarrow> e = e' \<and> (\<exists>a. e = Fuse_failed a)
    | _ \<Rightarrow> False"
  by (rule replicas_stay_equal [OF demo_good_run])
     (simp_all add: demo_cluster_state same_fuse_def fuse_keeps_def)

theorem majority_is_replicated_witness:
  "\<exists>s b maj. cluster_job 1 1 1 1 zero_hash (\<lambda>_ _ _ m. m)
       (\<lambda>_. Some (strong_simple_majority_of_strings 1 1 1 demo_orders)) (\<lambda>_. None) 0
       crash_chan crash_arrive (\<lambda>_. 0) (\<lambda>_. 5) demo_cluster 1 = Inr s \<and>
     store s ''k'' = Some b \<and> latest (bucket_of (store (demo_cluster 1)) ''k'') maj b \<and> maj 7 = Some ''x''"
  by (rule majority_is_replicated [OF demo_good_run, where P = "{0, 1, 2}"])
     (simp_all add: demo_orders_fair demo_cluster_state proposal_def accepted_def demo_node_def entries_def
       key_of_def value_of_def cstr_def)

end
