(* ===== verification/Bft_History.thy ===== *)
theory Bft_History imports Bft_Job begin

text \<open>
  The replicated store over many periods, the composition that the program is for: in each period the tasks of a node write
  through \<open>try_write\<close>, then the jobs of all nodes run together, and reads go to the store of the node at hand. A history is a
  sequence of such periods, in which the faulty processes may change their faults, their state and what they send from period to
  period. Shown for every history: the correct replicas never diverge and read alike, a period always completes, what a
  majority writes can be read at every correct node, and what can be read was written by correct processes.
\<close>

section \<open>The writes of a period\<close>

text \<open>A call of \<open>try_write\<close> with the clock reading at which it happens.\<close>

record write_call =
  wnow :: u64
  wkey :: string
  wtime :: u64
  wvalue :: string

fun run_writes :: "nat \<Rightarrow> nat \<Rightarrow> nat \<Rightarrow> write_call list \<Rightarrow> bft_kvs \<Rightarrow> bft_kvs option" where
  "run_writes NT KS VS [] s = Some s"
| "run_writes NT KS VS (w # ws) s =
     (case try_write NT KS VS (wnow w) (wkey w) (wtime w) (wvalue w) s of
        None \<Rightarrow> None
      | Some (ok, s') \<Rightarrow> run_writes NT KS VS ws s')"

text \<open>The writes that are not refused, when \<open>n\<close> tuples wait already.\<close>

fun effective :: "nat \<Rightarrow> nat \<Rightarrow> write_call list \<Rightarrow> write_call list" where
  "effective NT n [] = []"
| "effective NT n (w # ws) =
     (if wnow w < wtime w \<and> n < NT then w # effective NT (Suc n) ws else effective NT n ws)"

definition pending :: "nat \<Rightarrow> bft_kvs \<Rightarrow> nat" where
  "pending NT s = length (accepted NT (unpublished s))"

definition plain_writes :: "write_call list \<Rightarrow> bool" where
  "plain_writes ws \<longleftrightarrow> (\<forall>w \<in> set ws. NUL \<notin> set (wkey w) \<and> NUL \<notin> set (wvalue w))"

definition tuple_of :: "write_call \<Rightarrow> (string \<times> u64) \<times> string" where
  "tuple_of w = ((wkey w, wtime w), wvalue w)"

lemma set_effective: "set (effective NT n ws) \<subseteq> {w \<in> set ws. wnow w < wtime w}"
  by (induction ws arbitrary: n) (auto split: if_splits)

lemma pending_length: "bft_ok NT KS VS s \<Longrightarrow> pending NT s = unat (nlength (unpublished s)) \<and> pending NT s \<le> NT"
  by (auto simp: pending_def accepted_def bft_ok_def pending_ok_def node_ok_def)

text \<open>One write, as \<open>run_writes\<close> sees it.\<close>

lemma try_write_effect:
  assumes "bft_ok NT KS VS s" "NUL \<notin> set (wkey w)" "NUL \<notin> set (wvalue w)"
    and "try_write NT KS VS (wnow w) (wkey w) (wtime w) (wvalue w) s = Some (ok, s')"
  shows "bft_ok NT KS VS s' \<and> s' = s\<lparr>unpublished := unpublished s'\<rparr> \<and>
    (if wnow w < wtime w \<and> pending NT s < NT
     then entries KS VS (accepted NT (unpublished s')) = entries KS VS (accepted NT (unpublished s)) @ [tuple_of w] \<and>
          pending NT s' = Suc (pending NT s)
     else s' = s)"
proof -
  let ?n = "unpublished s"
  have ok: "pending_ok NT KS VS ?n" "NT < 2 ^ 32" "pending NT s = unat (nlength ?n)"
    using assms(1) pending_length [OF assms(1)] by (auto simp: bft_ok_def)
  have inv: "bft_ok NT KS VS s'" using assms(1,4) by (rule bft.inv_write)
  show ?thesis
  proof (cases "wnow w < wtime w \<and> pending NT s < NT")
    case True
    then have fits: "length (wkey w) \<le> KS" "length (wvalue w) \<le> VS" and room: "unat (nlength ?n) < NT"
      and s': "s' = s\<lparr>unpublished := add_tuple (wkey w) (wtime w) (wvalue w) ?n\<rparr>"
      using assms(4) ok(3) by (auto simp: try_write_def not_le split: if_splits)
    have fresh: "length (tkey (ntuples ?n ! unat (nlength ?n))) = Suc KS" "length (tvalue (ntuples ?n ! unat (nlength ?n))) = Suc VS"
      using ok(1) room by (auto simp: pending_ok_def node_ok_def)
    show ?thesis
      using True inv fits assms(2,3) fresh accepted_add_tuple [OF ok(1) room ok(2) fits]
      by (simp add: s' pending_def entries_def tuple_of_def key_of_def value_of_def key_of_strcpy)
  next
    case False
    then have "s' = s" using assms(4) ok(3) by (auto simp: try_write_def split: if_splits)
    then show ?thesis using False inv by auto
  qed
qed

lemma unpublished_only_trans:
  "s1 = s\<lparr>unpublished := unpublished s1\<rparr> \<Longrightarrow> s2 = s1\<lparr>unpublished := unpublished s2\<rparr> \<Longrightarrow> s2 = s\<lparr>unpublished := unpublished s2\<rparr>"
  by (cases s; cases s1; cases s2) simp

lemma run_writes_entries:
  assumes "bft_ok NT KS VS s" "plain_writes ws" "run_writes NT KS VS ws s = Some s'"
  shows "bft_ok NT KS VS s' \<and> s' = s\<lparr>unpublished := unpublished s'\<rparr> \<and>
    entries KS VS (accepted NT (unpublished s')) =
      entries KS VS (accepted NT (unpublished s)) @ map tuple_of (effective NT (pending NT s) ws)"
  using assms
proof (induction ws arbitrary: s)
  case Nil
  then show ?case by simp
next
  case (Cons w ws)
  then obtain ok s1 where s1: "try_write NT KS VS (wnow w) (wkey w) (wtime w) (wvalue w) s = Some (ok, s1)"
    "run_writes NT KS VS ws s1 = Some s'" by (auto split: option.splits)
  have w: "NUL \<notin> set (wkey w)" "NUL \<notin> set (wvalue w)" "plain_writes ws" using Cons.prems(2) by (auto simp: plain_writes_def)
  note e = try_write_effect [OF Cons.prems(1) w(1,2) s1(1)]
  have "s' = s\<lparr>unpublished := unpublished s'\<rparr>"
    using Cons.IH [OF _ w(3) s1(2)] e unpublished_only_trans [of s1 s s'] by simp
  then show ?case using Cons.IH [OF _ w(3) s1(2)] e by (auto split: if_splits)
qed

lemma run_writes_completes:
  assumes "bft_ok NT KS VS s" "plain_writes ws" "\<forall>w \<in> set ws. length (wkey w) \<le> KS \<and> length (wvalue w) \<le> VS"
  shows "\<exists>s'. run_writes NT KS VS ws s = Some s'"
  using assms
proof (induction ws arbitrary: s)
  case (Cons w ws)
  then have "try_write NT KS VS (wnow w) (wkey w) (wtime w) (wvalue w) s \<noteq> None"
    by (simp add: try_write_def del: not_None_eq)
  then obtain ok s1 where s1: "try_write NT KS VS (wnow w) (wkey w) (wtime w) (wvalue w) s = Some (ok, s1)" by auto
  have "plain_writes ws" "NUL \<notin> set (wkey w)" "NUL \<notin> set (wvalue w)" using Cons.prems(2) by (auto simp: plain_writes_def)
  then show ?case using Cons.IH [of s1] Cons.prems(3) try_write_effect [OF Cons.prems(1) _ _ s1] s1 by auto
qed simp

text \<open>What a process proposes after its writes is its last effective write for the key and the time.\<close>

lemma run_writes_proposal:
  assumes "bft_ok NT KS VS s" "plain_writes ws" "run_writes NT KS VS ws s = Some s'" "accepted NT (unpublished s) = []"
  shows "proposal NT KS VS (unpublished s') k t = map_of (rev (map tuple_of (effective NT 0 ws))) (k, t)"
  using run_writes_entries [OF assms(1-3)] assms(4) by (simp add: proposal_def pending_def entries_def)

section \<open>Periods and histories\<close>

text \<open>What does not change: the template parameters, the size of a node in bytes, the hash, the number of processes and of
  rounds, and the processes that are correct throughout.\<close>

record cluster_setting =
  nt :: nat
  ks :: nat
  vs :: nat
  node_size :: nat
  node_hash :: "eig_node \<Rightarrow> u32"
  processes :: u32
  rounds :: u32
  correct :: "nat set"

text \<open>What a period is given: the writes of the tasks of each process, and for the job the iteration orders, the fuse and lie
  functions, the network and the clock.\<close>

record period_input =
  calls :: "nat \<Rightarrow> write_call list"
  iters :: "nat \<Rightarrow> order_at"
  fuses :: "nat \<Rightarrow> fuse_function option"
  lies :: "nat \<Rightarrow> eig_node lie_function option"
  job_count :: u64
  channel :: "nat \<Rightarrow> nat \<Rightarrow> nat \<Rightarrow> eig_node list \<Rightarrow> eig_node list"
  arrivals :: "nat \<Rightarrow> nat \<Rightarrow> nat list"
  starts :: "nat \<Rightarrow> u64"
  finishes :: "nat \<Rightarrow> u64"

abbreviation job_in :: "cluster_setting \<Rightarrow> period_input \<Rightarrow> (nat \<Rightarrow> bft_kvs) \<Rightarrow> nat \<Rightarrow> job_abort + bft_kvs" where
  "job_in c e S i \<equiv> cluster_job (node_size c) (nt c) (ks c) (vs c) (node_hash c) (iters e) (fuses e) (lies e) (job_count e)
     (channel e) (arrivals e) (starts e) (finishes e) S i"

abbreviation good_in :: "cluster_setting \<Rightarrow> period_input \<Rightarrow> (nat \<Rightarrow> bft_kvs) \<Rightarrow> bool" where
  "good_in c e S \<equiv> good_run (node_size c) (nt c) (ks c) (vs c) (node_hash c) (iters e) (lies e) (job_count e)
     (channel e) (arrivals e) (processes c) (rounds c) (correct c) S"

abbreviation ready_in :: "cluster_setting \<Rightarrow> (nat \<Rightarrow> bft_kvs) \<Rightarrow> bool" where
  "ready_in c S \<equiv> cluster_ready (nt c) (ks c) (vs c) (processes c) (rounds c) S"

text \<open>A period: the correct processes write and run their jobs; the others end in any state of the right type.\<close>

inductive period :: "cluster_setting \<Rightarrow> period_input \<Rightarrow> (nat \<Rightarrow> bft_kvs) \<Rightarrow> (nat \<Rightarrow> bft_kvs) \<Rightarrow> bool" for c e where
  period: "(\<forall>i \<in> correct c. run_writes (nt c) (ks c) (vs c) (calls e i) (S i) = Some (W i)) \<Longrightarrow> good_in c e W \<Longrightarrow>
    (\<forall>i \<in> correct c. job_in c e W i = Inr (S' i)) \<Longrightarrow> ready_in c S' \<Longrightarrow> period c e S S'"

inductive history :: "cluster_setting \<Rightarrow> period_input list \<Rightarrow> (nat \<Rightarrow> bft_kvs) \<Rightarrow> bool" for c where
  constructed: "correct c \<subseteq> {..<unat (processes c)} \<Longrightarrow> ready_in c S \<Longrightarrow> (\<forall>i \<in> correct c. store (S i) = Map.empty \<and> accepted (nt c) (unpublished (S i)) = []) \<Longrightarrow> history c [] S"
| next_period: "history c es S \<Longrightarrow> period c e S S' \<Longrightarrow> history c (es @ [e]) S'"

inductive_cases periodE: "period c e S S'"
inductive_simps history_Nil: "history c [] S"

definition plain_period :: "cluster_setting \<Rightarrow> period_input \<Rightarrow> bool" where
  "plain_period c e \<longleftrightarrow> (\<forall>p \<in> correct c. plain_writes (calls e p))"

definition same_fuses :: "cluster_setting \<Rightarrow> period_input \<Rightarrow> bool" where
  "same_fuses c e \<longleftrightarrow> (\<forall>i \<in> correct c. fuse_keeps (fuses e i) \<and> (\<forall>j \<in> correct c. same_fuse (fuses e i) (fuses e j)))"

definition strict_fuses :: "cluster_setting \<Rightarrow> period_input \<Rightarrow> bool" where
  "strict_fuses c e \<longleftrightarrow> (\<forall>i \<in> correct c. \<exists>ord. fair_orders ord \<and>
     fuses e i = Some (strong_simple_majority_of_strings (nt c) (ks c) (vs c) ord))"

lemma strong_same_fuse:
  assumes "fair_orders o1" "fair_orders o2"
  shows "same_fuse (Some (strong_simple_majority_of_strings NT KS VS o1)) (Some (strong_simple_majority_of_strings NT KS VS o2))"
  using strong_same_store [OF _ assms] by (auto simp: same_fuse_def)

lemma strict_same: "strict_fuses c e \<Longrightarrow> same_fuses c e"
  unfolding strict_fuses_def same_fuses_def using strong_fuse_keeps strong_same_fuse by (metis (no_types, lifting))

section \<open>Agreement\<close>

text \<open>The state of the correct processes between the periods.\<close>

definition synchronised :: "cluster_setting \<Rightarrow> (nat \<Rightarrow> bft_kvs) \<Rightarrow> bool" where
  "synchronised c S \<longleftrightarrow> correct c \<subseteq> {..<unat (processes c)} \<and> ready_in c S \<and>
     (\<forall>i \<in> correct c. accepted (nt c) (unpublished (S i)) = [] \<and> (\<forall>j \<in> correct c. store (S i) = store (S j)))"

lemma synchronisedD:
  assumes "synchronised c S"
  shows "ready_in c S" "correct c \<subseteq> {..<unat (processes c)}" "i \<in> correct c \<Longrightarrow> accepted (nt c) (unpublished (S i)) = []"
    "i \<in> correct c \<Longrightarrow> bft_ok (nt c) (ks c) (vs c) (S i)"
  using assms unfolding synchronised_def cluster_ready_def by (simp_all add: subset_iff)

lemma run_writes_fields:
  assumes "bft_ok NT KS VS s" "plain_writes ws" "run_writes NT KS VS ws s = Some s'"
  shows "store s' = store s" "tree s' = tree s" "max_rounds s' = max_rounds s" "my_process_id s' = my_process_id s"
proof -
  have "s' = s\<lparr>unpublished := unpublished s'\<rparr>" using run_writes_entries [OF assms] by blast
  then show "store s' = store s" "tree s' = tree s" "max_rounds s' = max_rounds s" "my_process_id s' = my_process_id s"
    by (cases s; cases s'; simp)+
qed

lemma good_in_correct: "good_in c e W \<Longrightarrow> i \<in> correct c \<Longrightarrow> i < unat (processes c)"
  by (auto simp: good_run_def correct_processes_def)

lemma period_synchronised:
  assumes "period c e S S'" "synchronised c S" "plain_period c e" "same_fuses c e"
  shows "synchronised c S'"
  using assms(1)
proof (rule periodE)
  fix W
  assume W: "\<forall>i \<in> correct c. run_writes (nt c) (ks c) (vs c) (calls e i) (S i) = Some (W i)" "good_in c e W"
    "\<forall>i \<in> correct c. job_in c e W i = Inr (S' i)" "ready_in c S'"
  have stores: "store (W i) = store (S i)" if "i \<in> correct c" for i
    using that W(1) assms(2,3) good_in_correct [OF W(2) that]
    by (intro run_writes_fields(1) [where NT = "nt c" and KS = "ks c" and VS = "vs c" and ws = "calls e i"])
       (auto simp: synchronised_def cluster_ready_def plain_period_def)
  have eq: "store (S' i) = store (S' j) \<and> accepted (nt c) (unpublished (S' i)) = []" if ij: "i \<in> correct c" "j \<in> correct c" for i j
  proof -
    have stores_eq: "store (W i) = store (W j)"
      unfolding stores [OF ij(1)] stores [OF ij(2)] using ij assms(2) unfolding synchronised_def by blast
    have fuses: "same_fuse (fuses e i) (fuses e j)" "fuse_keeps (fuses e i)" using assms(4) ij by (auto simp: same_fuses_def)
    have jobs: "job_in c e W i = Inr (S' i)" "job_in c e W j = Inr (S' j)" using W(3) ij by auto
    show ?thesis
      using replicas_step [where fuse = "fuses e" and start = "starts e" and finish = "finishes e", OF W(2) ij stores_eq fuses]
      unfolding jobs by simp
  qed
  then show ?thesis using W(4) assms(2) unfolding synchronised_def by blast
qed

lemma history_synchronised:
  assumes "history c es S" "\<forall>e \<in> set es. plain_period c e \<and> same_fuses c e"
  shows "synchronised c S"
  using assms
proof (induction rule: history.induct)
  case (constructed S)
  then show ?case by (simp add: synchronised_def)
next
  case (next_period es S e S')
  then show ?case using period_synchronised [of c e S S'] by simp
qed

section \<open>What a period commits\<close>

definition last_write :: "cluster_setting \<Rightarrow> period_input \<Rightarrow> nat \<Rightarrow> string \<Rightarrow> u64 \<Rightarrow> string option" where
  "last_write c e p k t = map_of (rev (map tuple_of (effective (nt c) 0 (calls e p)))) (k, t)"

lemma last_write_called: "last_write c e p k t = Some v \<Longrightarrow>
    \<exists>w \<in> set (calls e p). wkey w = k \<and> wtime w = t \<and> wvalue w = v \<and> wnow w < wtime w"
  using set_effective [of "nt c" 0 "calls e p"] by (force simp: last_write_def tuple_of_def dest!: map_of_SomeD)

text \<open>After a period the store of a correct process is the strict-majority fuse of a vector that holds what the correct
  processes wrote.\<close>

lemma period_votes:
  assumes "period c e S S'" "synchronised c S" "plain_period c e" "strict_fuses c e" "i \<in> correct c"
  shows "\<exists>ord vec. fair_orders ord \<and> length vec = unat (processes c) \<and> vec \<noteq> [] \<and> correct c \<subseteq> {..<unat (processes c)} \<and>
    (\<forall>p \<in> correct c. \<forall>k t. proposal (nt c) (ks c) (vs c) (vec ! p) k t = last_write c e p k t) \<and> store_ok (store (S i)) \<and>
    strong_simple_majority_of_strings (nt c) (ks c) (vs c) ord vec (store (S i)) = Inr (store (S' i))"
  using assms(1)
proof (rule periodE)
  fix W
  assume W: "\<forall>i \<in> correct c. run_writes (nt c) (ks c) (vs c) (calls e i) (S i) = Some (W i)" "good_in c e W"
    "\<forall>i \<in> correct c. job_in c e W i = Inr (S' i)" "ready_in c S'"
  have writer: "bft_ok (nt c) (ks c) (vs c) (S p)" "accepted (nt c) (unpublished (S p)) = []" "plain_writes (calls e p)"
    if "p \<in> correct c" for p
    using that assms(2,3) good_in_correct [OF W(2) that] by (auto simp: synchronised_def cluster_ready_def plain_period_def)
  obtain ord where ord: "fair_orders ord" "fuses e i = Some (strong_simple_majority_of_strings (nt c) (ks c) (vs c) ord)"
    using assms(4,5) by (auto simp: strict_fuses_def)
  from strict_job [where fuse = "fuses e" and start = "starts e" and finish = "finishes e", OF W(2) assms(5) ord] W(3) assms(5)
  obtain vec where vec: "length vec = unat (processes c)" "\<forall>p \<in> correct c. vec ! p = unpublished (W p)"
    "strong_simple_majority_of_strings (nt c) (ks c) (vs c) ord vec (store (W i)) = Inr (store (S' i))" by auto
  have "store (W i) = store (S i)"
    using W(1) assms(5) by (intro run_writes_fields(1) [OF writer(1,3)]) auto
  moreover have "proposal (nt c) (ks c) (vs c) (vec ! p) k t = last_write c e p k t" if "p \<in> correct c" for p k t
    using run_writes_proposal [OF writer(1) [OF that] writer(3) [OF that] _ writer(2) [OF that], of "W p" k t] that W(1) vec(2) by (simp add: last_write_def)
  moreover have "correct c \<subseteq> {..<unat (processes c)}" using W(2) by (simp add: good_run_def correct_processes_def)
  moreover have "vec \<noteq> []" using good_in_correct [OF W(2) assms(5)] vec(1) by auto
  moreover have "store_ok (store (S i))" using writer(1) [OF assms(5)] by (simp add: bft_ok_def)
  ultimately show ?thesis using ord(1) vec by (intro exI [of _ ord] exI [of _ vec]) auto
qed

section \<open>Buckets\<close>

lemma latest_sound:
  assumes "latest b m b'" "map_of b' t = Some v"
  shows "(map_of b ++ m) t = Some v"
proof -
  obtain full where full: "map_of full = map_of b ++ m" "b' = take keep_n_values full"
    using assms(1) by (auto simp: latest_def)
  have "map_of (take keep_n_values full @ drop keep_n_values full) t = Some v"
    using assms(2) full(2) by (simp only: map_of_append map_add_find_right)
  then show ?thesis using full(1) by simp
qed

lemma latest_kept:
  assumes "latest b m b'" "(map_of b ++ m) t = Some v"
  shows "map_of b' t = Some v \<or> length b' = keep_n_values \<and> (\<forall>t' \<in> dom (map_of b'). t < t')"
proof -
  obtain full where full: "om_sorted newer full" "map_of full = map_of b ++ m" "b' = take keep_n_values full"
    using assms(1) by (auto simp: latest_def)
  let ?r = "drop keep_n_values full"
  have split: "map_of (b' @ ?r) t = Some v" using full assms(2) by simp
  show ?thesis
  proof (cases "map_of b' t")
    case (Some v')
    then show ?thesis using split by (simp only: map_of_append map_add_find_right) simp
  next
    case None
    then have "map_of ?r t = Some v" using split unfolding map_of_append map_add_Some_iff by auto
    then have t: "t \<in> fst ` set ?r" by (metis map_of_SomeD fst_conv image_eqI)
    have "sorted_wrt newer (map fst (b' @ ?r))" using full(1,3) by (simp add: om_sorted_def)
    then have "\<forall>t' \<in> fst ` set b'. t < t'" using t by (auto simp: sorted_wrt_append newer_def)
    moreover have "length b' = keep_n_values" using t full(3) by (cases "length full \<le> keep_n_values") auto
    ultimately show ?thesis by (simp add: dom_map_of_conv_image_fst)
  qed
qed

section \<open>Properties\<close>

text \<open>C1 (histories_agree): after any history whose periods meet the assumptions of the algorithm, with fuse functions that
  agree on equal inputs, all correct processes hold the same store, read the same for the same request, satisfy the invariant
  and have nothing pending, whatever the faulty processes did in each period.\<close>

theorem histories_agree:
  assumes "history c es S" "\<forall>e \<in> set es. plain_period c e \<and> same_fuses c e" "i \<in> correct c" "j \<in> correct c"
  shows "store (S i) = store (S j) \<and> try_read (S i) now k nv = try_read (S j) now k nv \<and>
    accepted (nt c) (unpublished (S i)) = [] \<and> bft_ok (nt c) (ks c) (vs c) (S i)"
proof -
  have sync: "synchronised c S" by (rule history_synchronised [OF assms(1,2)])
  then have "store (S i) = store (S j)" using assms(3,4) unfolding synchronised_def by blast
  moreover from this have "try_read (S i) now k nv = try_read (S j) now k nv" by (simp only: try_read_def)
  moreover note synchronisedD(3,4) [OF sync assms(3)]
  ultimately show ?thesis by blast
qed

definition after_writes :: "cluster_setting \<Rightarrow> period_input \<Rightarrow> (nat \<Rightarrow> bft_kvs) \<Rightarrow> nat \<Rightarrow> bft_kvs" where
  "after_writes c e S p =
     (if p \<in> correct c then the (run_writes (nt c) (ks c) (vs c) (calls e p) (S p)) else S p)"

lemma after_writes_ready:
  assumes "ready_in c S" "plain_period c e" "correct c \<subseteq> {..<unat (processes c)}"
    and "\<forall>p \<in> correct c. \<forall>w \<in> set (calls e p). length (wkey w) \<le> ks c \<and> length (wvalue w) \<le> vs c"
  shows "ready_in c (after_writes c e S) \<and>
    (\<forall>p \<in> correct c. run_writes (nt c) (ks c) (vs c) (calls e p) (S p) = Some (after_writes c e S p))"
proof -
  have "run_writes (nt c) (ks c) (vs c) (calls e p) (S p) = Some (after_writes c e S p) \<and>
      bft_ok (nt c) (ks c) (vs c) (after_writes c e S p) \<and> tree (after_writes c e S p) = tree (S p) \<and>
      max_rounds (after_writes c e S p) = max_rounds (S p) \<and> my_process_id (after_writes c e S p) = my_process_id (S p)"
    if p: "p \<in> correct c" for p
  proof -
    have w: "bft_ok (nt c) (ks c) (vs c) (S p)" "plain_writes (calls e p)"
      using assms p by (auto simp: cluster_ready_def plain_period_def)
    then obtain s where s: "run_writes (nt c) (ks c) (vs c) (calls e p) (S p) = Some s"
      using assms(4) p run_writes_completes by blast
    then have "after_writes c e S p = s" using p by (simp add: after_writes_def)
    then show ?thesis using s run_writes_entries [OF w s] run_writes_fields [OF w s] by simp
  qed
  moreover have "after_writes c e S p = S p" if "p \<notin> correct c" for p using that by (simp add: after_writes_def)
  ultimately show ?thesis using assms(1) unfolding cluster_ready_def by metis
qed

lemma period_goes_on:
  assumes "history c es S" "\<forall>e' \<in> set (e # es). plain_period c e' \<and> strict_fuses c e'"
    and "\<forall>p \<in> correct c. \<forall>w \<in> set (calls e p). length (wkey w) \<le> ks c \<and> length (wvalue w) \<le> vs c"
    and "good_in c e (after_writes c e S)"
  shows "\<exists>S'. period c e S S'"
proof -
  let ?W = "after_writes c e S"
  have sync: "synchronised c S" using assms(2) strict_same by (intro history_synchronised [OF assms(1)]) auto
  then have W: "ready_in c ?W" "\<forall>p \<in> correct c. run_writes (nt c) (ks c) (vs c) (calls e p) (S p) = Some (?W p)"
    using after_writes_ready [OF synchronisedD(1) [OF sync] _ synchronisedD(2) [OF sync] assms(3)] assms(2) by auto
  have "\<exists>s. job_in c e ?W p = Inr s \<and> bft_ok (nt c) (ks c) (vs c) s \<and> degree (tree s) = processes c \<and> max_rounds s = rounds c \<and>
      my_process_id s = p" if p: "p \<in> correct c" for p
  proof -
    obtain ord where ord: "fair_orders ord" "fuses e p = Some (strong_simple_majority_of_strings (nt c) (ks c) (vs c) ord)"
      using assms(2) p by (auto simp: strict_fuses_def)
    show ?thesis
      using strict_job [where fuse = "fuses e" and start = "starts e" and finish = "finishes e", OF assms(4) p ord] by blast
  qed
  then obtain J where J: "\<forall>p \<in> correct c. job_in c e ?W p = Inr (J p) \<and> bft_ok (nt c) (ks c) (vs c) (J p) \<and>
      degree (tree (J p)) = processes c \<and> max_rounds (J p) = rounds c \<and> my_process_id (J p) = p" by metis
  have "ready_in c (\<lambda>p. if p \<in> correct c then J p else ?W p)" using J W(1) by (simp add: cluster_ready_def)
  then have "period c e S (\<lambda>p. if p \<in> correct c then J p else ?W p)" using W(2) assms(4) J by (intro period.period [where W = ?W]) auto
  then show ?thesis by blast
qed

text \<open>C7 (period_completes): with the strict-majority fuse a period never fails: when every write fits the fields of a tuple,
  and the state after the writes meets the assumptions of the algorithm, all writes and all jobs of the correct processes
  return, and the history goes on.\<close>

theorem period_completes:
  assumes "history c es S" "\<forall>e' \<in> set (e # es). plain_period c e' \<and> strict_fuses c e'"
    and "\<forall>p \<in> correct c. \<forall>w \<in> set (calls e p). length (wkey w) \<le> ks c \<and> length (wvalue w) \<le> vs c"
    and "good_in c e (after_writes c e S)"
  shows "\<exists>S'. history c (es @ [e]) S'"
  using period_goes_on [OF assms] history.next_period [OF assms(1)] by blast

lemma majority_readable:
  assumes "history c es S" "period c e S S'" "\<forall>e' \<in> set (e # es). plain_period c e' \<and> strict_fuses c e'"
    and "i \<in> correct c" "P \<subseteq> correct c" "unat (processes c) < 2 * card P"
    and "\<forall>p \<in> P. last_write c e p k t = Some v" "nv \<le> t" "t \<le> now"
  shows "\<exists>b. store (S' i) k = Some b \<and>
    (try_read (S' i) now k nv = Some v \<or> (\<exists>t' \<in> dom (map_of b). t < t' \<and> t' \<le> now) \<or>
     length b = keep_n_values \<and> (\<forall>t' \<in> dom (map_of b). now < t'))"
proof -
  have sync: "synchronised c S" using assms(3) strict_same by (intro history_synchronised [OF assms(1)]) auto
  from period_votes [OF assms(2) sync _ _ assms(4)] assms(3) obtain ord vec where
    vec: "fair_orders ord" "length vec = unat (processes c)" "vec \<noteq> []" "correct c \<subseteq> {..<unat (processes c)}"
      "\<forall>p \<in> correct c. \<forall>k t. proposal (nt c) (ks c) (vs c) (vec ! p) k t = last_write c e p k t" "store_ok (store (S i))"
      "strong_simple_majority_of_strings (nt c) (ks c) (vs c) ord vec (store (S i)) = Inr (store (S' i))" by auto
  have "P \<subseteq> supporters (nt c) (ks c) (vs c) vec k t v"
    using assms(5,7) vec(2,4,5) by (fastforce simp: supporters_def)
  then have "card P \<le> card (supporters (nt c) (ks c) (vs c) vec k t v)"
    by (intro card_mono) (auto simp: supporters_def)
  then have votes: "length vec < 2 * card (supporters (nt c) (ks c) (vs c) vec k t v)" using assms(6) vec(2) by simp
  obtain p where p: "p \<in> P" using assms(6) by (cases "P = {}") auto
  then have p': "p < length vec" "proposal (nt c) (ks c) (vs c) (vec ! p) k t \<noteq> None" using assms(5,7) vec(2,4,5) by auto
  then have "\<exists>nd \<in> set vec. \<exists>t. proposal (nt c) (ks c) (vs c) nd k t \<noteq> None" by (meson nth_mem)
  from strict_commits(1) [OF vec(7,3,6,1) this] votes obtain b maj where
    b: "store (S' i) k = Some b" "latest (bucket_of (store (S i)) k) maj b" "maj t = Some v" by blast
  have kept: "map_of b t = Some v \<or> length b = keep_n_values \<and> (\<forall>t' \<in> dom (map_of b). t < t')"
    using latest_kept [OF b(2)] b(3) by simp
  have "bft_ok (nt c) (ks c) (vs c) (S' i)"
    using period_synchronised [OF assms(2) sync] assms(3) strict_same by (intro synchronisedD(4) [OF _ assms(4)]) auto
  from try_read_newest [OF this, of now k nv v] b(1)
  have read: "try_read (S' i) now k nv = Some v" if "map_of b t = Some v" "\<not> (\<exists>t' \<in> dom (map_of b). t < t' \<and> t' \<le> now)"
    using that assms(8,9) by (auto simp: bucket_of_def not_le)
  show ?thesis using kept read b(1) by (meson not_le order_trans)
qed

text \<open>C2 (majority_write_is_read): from a write to a read. If more than half of all processes, all of them correct, wrote
  \<open>v\<close> last for the key and the time \<open>t\<close> in a period, then after the period every correct process knows the key, and a read of a
  window that contains \<open>t\<close> returns \<open>v\<close>, unless a later value of the window has been committed, or
  the bucket is full of values that are not yet valid.\<close>

theorem majority_write_is_read:
  assumes "history c es S" "period c e S S'" "\<forall>e' \<in> set (e # es). plain_period c e' \<and> strict_fuses c e'"
    and "i \<in> correct c" "P \<subseteq> correct c" "unat (processes c) < 2 * card P"
    and "\<forall>p \<in> P. last_write c e p k t = Some v" "nv \<le> t" "t \<le> now"
  shows "\<exists>b. store (S' i) k = Some b \<and>
    (try_read (S' i) now k nv = Some v \<or> (\<exists>t' \<in> dom (map_of b). t < t' \<and> t' \<le> now) \<or>
     length b = keep_n_values \<and> (\<forall>t' \<in> dom (map_of b). now < t'))"
  using assms by (rule majority_readable)

section \<open>Integrity\<close>

text \<open>The correct processes that wrote a value last for a key and a time in a period, and when they are, with the faulty
  ones, more than half of all.\<close>

definition writers :: "cluster_setting \<Rightarrow> period_input \<Rightarrow> string \<Rightarrow> u64 \<Rightarrow> string \<Rightarrow> nat set" where
  "writers c e k t v = {p \<in> correct c. last_write c e p k t = Some v}"

definition faulty :: "cluster_setting \<Rightarrow> nat set" where
  "faulty c = {..<unat (processes c)} - correct c"

definition backed :: "cluster_setting \<Rightarrow> period_input \<Rightarrow> string \<Rightarrow> u64 \<Rightarrow> string \<Rightarrow> bool" where
  "backed c e k t v \<longleftrightarrow> unat (processes c) < 2 * (card (writers c e k t v) + card (faulty c)) \<and> writers c e k t v \<noteq> {}"

lemma period_committed:
  assumes "period c e S S'" "synchronised c S" "plain_period c e" "strict_fuses c e" "i \<in> correct c"
    and "map_of (bucket_of (store (S' i)) k) t = Some v"
  shows "map_of (bucket_of (store (S i)) k) t = Some v \<or> backed c e k t v"
proof -
  from period_votes [OF assms(1-5)] obtain ord vec where
    vec: "fair_orders ord" "length vec = unat (processes c)" "vec \<noteq> []"
      "\<forall>p \<in> correct c. \<forall>k t. proposal (nt c) (ks c) (vs c) (vec ! p) k t = last_write c e p k t" "store_ok (store (S i))"
      "strong_simple_majority_of_strings (nt c) (ks c) (vs c) ord vec (store (S i)) = Inr (store (S' i))" by blast
  show ?thesis
  proof (cases "\<exists>nd \<in> set vec. \<exists>t. proposal (nt c) (ks c) (vs c) nd k t \<noteq> None")
    case False
    then have "store (S' i) k = store (S i) k" by (rule strict_commits(2) [OF vec(6,3,5,1)])
    then show ?thesis using assms(6) by (simp add: bucket_of_def)
  next
    case True
    from strict_commits(1) [OF vec(6,3,5,1) this] obtain b maj where
      b: "store (S' i) k = Some b" "latest (bucket_of (store (S i)) k) maj b"
        "maj t = Some v \<Longrightarrow> length vec < 2 * card (supporters (nt c) (ks c) (vs c) vec k t v)" by blast
    have "(map_of (bucket_of (store (S i)) k) ++ maj) t = Some v"
      using latest_sound [OF b(2)] assms(6) b(1) by (simp add: bucket_of_def)
    then consider "maj t = Some v" | "map_of (bucket_of (store (S i)) k) t = Some v" by (auto simp: map_add_Some_iff)
    then show ?thesis
    proof cases
      case 1
      have "supporters (nt c) (ks c) (vs c) vec k t v \<subseteq> writers c e k t v \<union> faulty c"
        using vec(2,4) by (auto simp: supporters_def writers_def faulty_def)
      moreover have "writers c e k t v \<subseteq> {..<unat (processes c)}" using synchronisedD(2) [OF assms(2)] by (auto simp: writers_def)
      then have fin: "finite (writers c e k t v)" "finite (faulty c)" by (auto simp: faulty_def finite_subset)
      ultimately have "card (supporters (nt c) (ks c) (vs c) vec k t v) \<le> card (writers c e k t v) + card (faulty c)"
        by (meson card_Un_le card_mono finite_UnI order_trans)
      then have votes: "unat (processes c) < 2 * (card (writers c e k t v) + card (faulty c))" using b(3) [OF 1] vec(2) by simp
      have "card (faulty c) < unat (rounds c)" "3 * (unat (rounds c) - 1) < unat (processes c)"
        using assms(1) by (auto elim!: periodE simp: good_run_def faulty_def)
      then have "0 < card (writers c e k t v)" using votes by arith
      then show ?thesis using votes by (auto simp: backed_def)
    qed simp
  qed
qed

lemma history_committed:
  assumes "history c es S" "\<forall>e \<in> set es. plain_period c e \<and> strict_fuses c e" "i \<in> correct c"
    and "map_of (bucket_of (store (S i)) k) t = Some v"
  shows "\<exists>e \<in> set es. backed c e k t v"
  using assms
proof (induction rule: history.induct)
  case (constructed S)
  then show ?case by (simp add: bucket_of_def)
next
  case (next_period es S e S')
  have "synchronised c S" using next_period.hyps(1) next_period.prems(1) strict_same by (intro history_synchronised) auto
  from period_committed [OF next_period.hyps(2) this _ _ next_period.prems(2,3)] next_period show ?case by auto
qed

text \<open>C3 (reads_were_written): values are never invented. Whatever a correct process reads after a history with the
  strict-majority fuse was written, for a time inside the window asked for and still in the future when it was written, by
  correct processes in one period: by so many that with all the faulty ones they are more than half, and at least by one.\<close>

theorem reads_were_written:
  assumes "history c es S" "\<forall>e \<in> set es. plain_period c e \<and> strict_fuses c e" "i \<in> correct c"
    and "try_read (S i) now k nv = Some v"
  shows "\<exists>t Q. \<exists>e \<in> set es. nv \<le> t \<and> t \<le> now \<and> Q \<subseteq> correct c \<and> Q \<noteq> {} \<and> unat (processes c) < 2 * (card Q + card (faulty c)) \<and>
    (\<forall>p \<in> Q. \<exists>w \<in> set (calls e p). wkey w = k \<and> wtime w = t \<and> wvalue w = v \<and> wnow w < t)"
proof -
  have "synchronised c S" using assms(2) strict_same by (intro history_synchronised [OF assms(1)]) auto
  then have "bft_ok (nt c) (ks c) (vs c) (S i)" using assms(3) by (rule synchronisedD(4))
  from try_read_newest [OF this, of now k nv v] assms(4) obtain t where
    t: "map_of (bucket_of (store (S i)) k) t = Some v" "nv \<le> t" "t \<le> now" by blast
  from history_committed [OF assms(1-3) t(1)] obtain e where e: "e \<in> set es" "backed c e k t v" by blast
  have "\<exists>w \<in> set (calls e p). wkey w = k \<and> wtime w = t \<and> wvalue w = v \<and> wnow w < t" if "p \<in> writers c e k t v" for p
    using last_write_called [of c e p k t v] that by (auto simp: writers_def)
  then show ?thesis
    using e t by (intro exI [of _ t] exI [of _ "writers c e k t v"] bexI [OF _ e(1)]) (auto simp: backed_def writers_def)
qed

section \<open>A concrete history\<close>

text \<open>Four processes, the last of them silent. The others write the same value in their first period.\<close>

definition demo_setting :: cluster_setting where
  "demo_setting = \<lparr>nt = 1, ks = 1, vs = 1, node_size = 1, node_hash = zero_hash, processes = 4, rounds = 2, correct = {0, 1, 2}\<rparr>"

definition demo_period :: period_input where
  "demo_period = \<lparr>calls = \<lambda>_. [\<lparr>wnow = 5, wkey = ''k'', wtime = 7, wvalue = ''x''\<rparr>], iters = \<lambda>_ _ _ m. m,
     fuses = \<lambda>_. Some (strong_simple_majority_of_strings 1 1 1 demo_orders), lies = \<lambda>_. None, job_count = 0,
     channel = crash_chan, arrivals = crash_arrive, starts = \<lambda>_. 0, finishes = \<lambda>_. 5\<rparr>"

definition demo_start :: "nat \<Rightarrow> bft_kvs" where
  "demo_start i = (if i < 3 then (demo_cluster i)\<lparr>unpublished := zero_node 1 1 1\<rparr> else demo_cluster i)"

lemma demo_ready: "ready_in demo_setting demo_start"
  using demo_cluster_ready zero_node_pending [of 1 1 1]
  by (simp add: cluster_ready_def demo_setting_def demo_start_def bft_ok_def)

lemma demo_constructed: "history demo_setting [] demo_start"
  by (rule history.constructed [OF _ demo_ready])
     (auto simp: demo_setting_def demo_start_def demo_cluster_state accepted_def zero_node_def)

lemma demo_add: "add_tuple ''k'' 7 ''x'' (zero_node 1 1 1) = demo_node ''k'' ''x'' 7"
  by (simp add: add_tuple_def zero_node_def zero_tuple_def tuple_padding_def demo_node_def strcpy_def splice_def cstr_def)

lemma demo_run_writes:
  "i < 3 \<Longrightarrow> run_writes 1 1 1 (calls demo_period i) (demo_start i) = Some (demo_cluster i)"
  using demo_cluster_state(1) [of i] demo_add
  by (simp add: demo_period_def demo_start_def try_write_def) (simp add: zero_node_def demo_cluster_def)

lemma demo_after_writes: "after_writes demo_setting demo_period demo_start = demo_cluster"
proof
  fix i show "after_writes demo_setting demo_period demo_start i = demo_cluster i"
    using demo_run_writes [of i] by (auto simp: after_writes_def demo_setting_def demo_start_def)
qed

lemma demo_good: "good_in demo_setting demo_period (after_writes demo_setting demo_period demo_start)"
  unfolding demo_after_writes using demo_good_run by (simp add: demo_setting_def demo_period_def)

lemma demo_assumptions: "plain_period demo_setting demo_period" "strict_fuses demo_setting demo_period"
  "\<forall>p \<in> correct demo_setting. \<forall>w \<in> set (calls demo_period p). length (wkey w) \<le> ks demo_setting \<and> length (wvalue w) \<le> vs demo_setting"
  using demo_orders_fair by (auto simp: plain_period_def plain_writes_def strict_fuses_def demo_setting_def demo_period_def)

lemma demo_last_write: "last_write demo_setting demo_period p k t = (if (k, t) = (''k'', 7) then Some ''x'' else None)"
  by (simp add: last_write_def demo_setting_def demo_period_def tuple_of_def)

lemma demo_next: "\<exists>S. period demo_setting demo_period demo_start S \<and> try_read (S 0) 9 ''k'' 3 = Some ''x''"
proof -
  obtain S where S: "period demo_setting demo_period demo_start S"
    using period_goes_on [OF demo_constructed _ demo_assumptions(3) demo_good] demo_assumptions by auto
  have sync: "synchronised demo_setting demo_start"
    by (rule history_synchronised [OF demo_constructed]) simp
  have "\<exists>b. store (S 0) ''k'' = Some b \<and>
    (try_read (S 0) 9 ''k'' 3 = Some ''x'' \<or> (\<exists>t' \<in> dom (map_of b). 7 < t' \<and> t' \<le> 9) \<or>
     length b = keep_n_values \<and> (\<forall>t' \<in> dom (map_of b). 9 < t'))"
    by (rule majority_readable [OF demo_constructed S, where P = "{0, 1, 2}"])
       (use demo_assumptions in \<open>simp_all add: demo_last_write\<close>, simp_all add: demo_setting_def)
  then obtain b where b: "store (S 0) ''k'' = Some b"
    "try_read (S 0) 9 ''k'' 3 = Some ''x'' \<or> (\<exists>t' \<in> dom (map_of b). 7 < t' \<and> t' \<le> 9) \<or>
     length b = keep_n_values \<and> (\<forall>t' \<in> dom (map_of b). 9 < t')" by blast
  have only: "t' = 7" if "t' \<in> dom (map_of b)" for t'
  proof -
    have "bucket_of (store (S 0)) ''k'' = b" using b(1) by (simp add: bucket_of_def)
    then obtain v where v: "map_of (bucket_of (store (S 0)) ''k'') t' = Some v" using \<open>t' \<in> dom (map_of b)\<close> by blast
    have "map_of (bucket_of (store (demo_start 0)) ''k'') t' = Some v \<or> backed demo_setting demo_period ''k'' t' v"
      using demo_assumptions v by (intro period_committed [OF S sync]) (auto simp: demo_setting_def)
    then show ?thesis
      by (auto simp: demo_start_def demo_cluster_state bucket_of_def backed_def writers_def demo_last_write split: if_splits)
  qed
  have "\<not> (\<exists>t' \<in> dom (map_of b). 7 < t' \<and> t' \<le> 9)"
  proof
    assume "\<exists>t' \<in> dom (map_of b). 7 < t' \<and> t' \<le> 9"
    then obtain t' where "t' \<in> dom (map_of b)" "7 < t'" by blast
    then show False using only [of t'] by simp
  qed
  moreover have "\<not> (length b = keep_n_values \<and> (\<forall>t' \<in> dom (map_of b). 9 < t'))"
  proof
    assume full: "length b = keep_n_values \<and> (\<forall>t' \<in> dom (map_of b). 9 < t')"
    then have "dom (map_of b) \<noteq> {}" by (cases b) (auto simp: keep_n_values_def)
    then obtain t' where t': "t' \<in> dom (map_of b)" by blast
    then have "9 < t'" using full by blast
    then show False using only [OF t'] by simp
  qed
  ultimately show ?thesis using b(2) S by blast
qed

lemma demo_history: "\<exists>S. history demo_setting [demo_period] S \<and> try_read (S 0) 9 ''k'' 3 = Some ''x''"
  using demo_next history.next_period [OF demo_constructed] by fastforce

theorem histories_agree_witness:
  "\<exists>S. history demo_setting [demo_period] S \<and> try_read (S 2) 9 ''k'' 3 = Some ''x''"
proof -
  obtain S where S: "history demo_setting [demo_period] S" "try_read (S 0) 9 ''k'' 3 = Some ''x''" using demo_history by blast
  have "try_read (S 0) 9 ''k'' 3 = try_read (S 2) 9 ''k'' 3"
    using histories_agree [OF S(1), of 0 2 9 "''k''" 3] demo_assumptions(1,2) strict_same by (simp add: demo_setting_def)
  then show ?thesis using S by auto
qed

theorem period_completes_witness: "\<exists>S. history demo_setting [demo_period] S"
  using period_completes [OF demo_constructed _ demo_assumptions(3) demo_good] demo_assumptions(1,2) by auto

theorem majority_write_is_read_witness:
  "\<exists>S b. period demo_setting demo_period demo_start S \<and> store (S 1) ''k'' = Some b \<and>
    (try_read (S 1) 9 ''k'' 3 = Some ''x'' \<or> (\<exists>t' \<in> dom (map_of b). 7 < t' \<and> t' \<le> 9) \<or>
     length b = keep_n_values \<and> (\<forall>t' \<in> dom (map_of b). 9 < t'))"
proof -
  obtain S where S: "period demo_setting demo_period demo_start S" using demo_next by blast
  have "\<exists>b. store (S 1) ''k'' = Some b \<and>
    (try_read (S 1) 9 ''k'' 3 = Some ''x'' \<or> (\<exists>t' \<in> dom (map_of b). 7 < t' \<and> t' \<le> 9) \<or>
     length b = keep_n_values \<and> (\<forall>t' \<in> dom (map_of b). 9 < t'))"
    by (rule majority_write_is_read [OF demo_constructed S, where P = "{0, 1, 2}"])
       (use demo_assumptions in \<open>simp_all add: demo_last_write\<close>, simp_all add: demo_setting_def)
  then show ?thesis using S by blast
qed

theorem reads_were_written_witness:
  "\<exists>t. 3 \<le> t \<and> t \<le> 9 \<and> (\<exists>p \<in> {0, 1, 2 :: nat}. \<exists>w \<in> set (calls demo_period p). wkey w = ''k'' \<and> wtime w = t \<and> wvalue w = ''x'')"
proof -
  obtain S where S: "history demo_setting [demo_period] S" "try_read (S 0) 9 ''k'' 3 = Some ''x''" using demo_history by blast
  from reads_were_written [OF S(1) _ _ S(2)] demo_assumptions(1,2) obtain t Q where
    "3 \<le> t" "t \<le> 9" "Q \<subseteq> correct demo_setting" "Q \<noteq> {}"
    "\<forall>p \<in> Q. \<exists>w \<in> set (calls demo_period p). wkey w = ''k'' \<and> wtime w = t \<and> wvalue w = ''x'' \<and> wnow w < t"
    by (auto simp: demo_setting_def)
  then show ?thesis unfolding demo_setting_def by (intro exI [of _ t]) force
qed

end
