(* ===== verification/Bft_Event_Loop.thy ===== *)
theory Bft_Event_Loop imports Bft_Job begin

text \<open>
  The event loop of a round of \<^verbatim>\<open>BFTKVS::job\<close> (\<^verbatim>\<open>src/achal/bft_kvs.h\<close>): the asynchronous writes and reads
  of one round, their handlers, the timer, and the loop over \<^verbatim>\<open>io_context.run_one\<close> that cancels what is
  pending when the timer has fired. The writes and reads are composed operations: \<^verbatim>\<open>run_one\<close> also returns after each of
  their intermediate completions, which have moved some bytes and go on with the rest. A handler may run at any time after its operation was started,
  as the network decides; the loop is a step relation over these choices. Shown: the loop ends, it never waits for
  the network alone, each read completes exactly once, and the order of completion does not matter to the tree, which
  is what the lock-step model of \<open>Bft_Rounds\<close> assumes. The functions that a user of the store can set are at the end.
\<close>

section \<open>Operations and handlers\<close>

text \<open>The sets hold the peers with an outstanding operation: a write (\<open>sending\<close>), a read up to the delimiter (\<open>awaiting\<close>), a read
  of the payload (\<open>reading\<close>). \<open>send_pending\<close> and \<open>receive_pending\<close> are the sets of the code, and \<open>cancelled\<close> marks
  operations that were cancelled, so that their handlers are ready. \<open>completed\<close> are the payloads that were copied into the tree, in order.
  \<open>unsent\<close> and \<open>unread\<close> are the bytes to and from each peer that no intermediate completion has moved yet.\<close>

record loop_state =
  sending :: "nat set"
  awaiting :: "nat set"
  reading :: "nat set"
  send_pending :: "nat set"
  receive_pending :: "nat set"
  cancelled_sends :: "nat set"
  cancelled_reads :: "nat set"
  timer_armed :: bool
  timer_cancelled :: bool
  timeout :: bool
  completed :: "nat list"
  unsent :: "nat \<Rightarrow> nat"
  unread :: "nat \<Rightarrow> nat"

text \<open>\<open>Some_sent\<close> and \<open>Some_read\<close> are intermediate completions with the number of bytes moved, the others the last completions of
  their operations, which call the handlers of the code.\<close>

datatype event = Some_sent nat nat | Some_read nat nat | Sent nat | Delimiter_read nat | Payload_read nat | Timer

text \<open>The operations that the two loops over \<^verbatim>\<open>client\<close> and \<^verbatim>\<open>server\<close> start, and the timer. The bytes to each peer are those of its
  frame; those from each peer are what the network delivers during the round, any finite number.\<close>

definition round_start :: "nat set \<Rightarrow> nat set \<Rightarrow> (nat \<Rightarrow> nat) \<Rightarrow> (nat \<Rightarrow> nat) \<Rightarrow> loop_state" where
  "round_start clients servers out_bytes in_bytes =
     \<lparr>sending = clients, awaiting = servers, reading = {}, send_pending = clients, receive_pending = servers,
      cancelled_sends = {}, cancelled_reads = {}, timer_armed = True, timer_cancelled = False, timeout = False, completed = [],
      unsent = out_bytes, unread = in_bytes\<rparr>"

text \<open>The handlers. A composed operation goes on only if its completion has moved at least one byte, and what it starts then is
  not cancelled. The handler of the delimiter starts the read of the payload, a new operation that is not cancelled either; the
  one of the timer does not look at its error code, so it sets \<open>timeout\<close> also after a cancellation.\<close>

fun handler :: "event \<Rightarrow> loop_state \<Rightarrow> loop_state option" where
  "handler (Some_sent p n) s = (if p \<in> sending s \<and> 0 < n \<and> n \<le> unsent s p
     then Some (s\<lparr>unsent := (unsent s)(p := unsent s p - n), cancelled_sends := cancelled_sends s - {p}\<rparr>) else None)"
| "handler (Some_read p n) s = (if p \<in> awaiting s \<union> reading s \<and> 0 < n \<and> n \<le> unread s p
     then Some (s\<lparr>unread := (unread s)(p := unread s p - n), cancelled_reads := cancelled_reads s - {p}\<rparr>) else None)"
| "handler (Sent p) s = (if p \<in> sending s
     then Some (s\<lparr>sending := sending s - {p}, send_pending := send_pending s - {p}\<rparr>) else None)"
| "handler (Delimiter_read p) s = (if p \<in> awaiting s
     then Some (s\<lparr>awaiting := awaiting s - {p}, reading := insert p (reading s), cancelled_reads := cancelled_reads s - {p}\<rparr>) else None)"
| "handler (Payload_read p) s = (if p \<in> reading s
     then Some (s\<lparr>reading := reading s - {p}, receive_pending := receive_pending s - {p}, completed := completed s @ [p]\<rparr>) else None)"
| "handler Timer s = (if timer_armed s then Some (s\<lparr>timer_armed := False, timeout := True\<rparr>) else None)"

text \<open>The body of the loop after each handler.\<close>

definition after_handler :: "loop_state \<Rightarrow> loop_state" where
  "after_handler s =
     (if send_pending s = {} \<and> receive_pending s = {} then s\<lparr>timer_cancelled := True\<rparr>
      else if timeout s then s\<lparr>cancelled_sends := cancelled_sends s \<union> send_pending s, cancelled_reads := cancelled_reads s \<union> receive_pending s\<rparr>
      else s)"

definition run_one :: "event \<Rightarrow> loop_state \<Rightarrow> loop_state option" where
  "run_one e s = map_option after_handler (handler e s)"

text \<open>\<^verbatim>\<open>run_one\<close> returns zero, which ends the loop, when no operation is outstanding.\<close>

definition finished :: "loop_state \<Rightarrow> bool" where
  "finished s \<longleftrightarrow> sending s = {} \<and> awaiting s = {} \<and> reading s = {} \<and> \<not> timer_armed s"

text \<open>A handler is ready for certain when its operation was cancelled or, for the timer, when its time has come.\<close>

fun cancelled :: "event \<Rightarrow> loop_state \<Rightarrow> bool" where
  "cancelled (Some_sent p n) s \<longleftrightarrow> False"
| "cancelled (Some_read p n) s \<longleftrightarrow> False"
| "cancelled (Sent p) s \<longleftrightarrow> p \<in> cancelled_sends s"
| "cancelled (Delimiter_read p) s \<longleftrightarrow> p \<in> cancelled_reads s"
| "cancelled (Payload_read p) s \<longleftrightarrow> p \<in> cancelled_reads s"
| "cancelled Timer s \<longleftrightarrow> timer_cancelled s"

section \<open>Reachable states\<close>

inductive loop_step :: "loop_state \<Rightarrow> loop_state \<Rightarrow> bool" where
  a_handler: "run_one e s = Some s' \<Longrightarrow> loop_step s s'"

text \<open>The number counts the iterations of the loop.\<close>

inductive reached :: "nat set \<Rightarrow> nat set \<Rightarrow> (nat \<Rightarrow> nat) \<Rightarrow> (nat \<Rightarrow> nat) \<Rightarrow> nat \<Rightarrow> loop_state \<Rightarrow> bool"
  for clients servers out_bytes in_bytes where
  started: "reached clients servers out_bytes in_bytes 0 (round_start clients servers out_bytes in_bytes)"
| stepped: "reached clients servers out_bytes in_bytes n s \<Longrightarrow> loop_step s s' \<Longrightarrow> reached clients servers out_bytes in_bytes (Suc n) s'"

inductive_cases loop_stepE: "loop_step s s'"
inductive_simps loop_step_iff: "loop_step s s'"

lemma loop_step_cases:
  assumes "loop_step s s'"
  obtains (some_sent) p n where "p \<in> sending s" "0 < n" "n \<le> unsent s p"
      "s' = after_handler (s\<lparr>unsent := (unsent s)(p := unsent s p - n), cancelled_sends := cancelled_sends s - {p}\<rparr>)"
  | (some_read) p n where "p \<in> awaiting s \<union> reading s" "0 < n" "n \<le> unread s p"
      "s' = after_handler (s\<lparr>unread := (unread s)(p := unread s p - n), cancelled_reads := cancelled_reads s - {p}\<rparr>)"
  | (sent) p where "p \<in> sending s" "s' = after_handler (s\<lparr>sending := sending s - {p}, send_pending := send_pending s - {p}\<rparr>)"
  | (delimiter) p where "p \<in> awaiting s"
      "s' = after_handler (s\<lparr>awaiting := awaiting s - {p}, reading := insert p (reading s), cancelled_reads := cancelled_reads s - {p}\<rparr>)"
  | (payload) p where "p \<in> reading s"
      "s' = after_handler (s\<lparr>reading := reading s - {p}, receive_pending := receive_pending s - {p}, completed := completed s @ [p]\<rparr>)"
  | (timer) "timer_armed s" "s' = after_handler (s\<lparr>timer_armed := False, timeout := True\<rparr>)"
proof -
  obtain e where "run_one e s = Some s'" using assms by (auto elim: loop_stepE)
  then show ?thesis using that by (cases e) (auto simp: run_one_def split: if_splits)
qed

text \<open>What the body of the loop leaves alone.\<close>

lemma after_handler_simps [simp]:
  "sending (after_handler s) = sending s" "awaiting (after_handler s) = awaiting s" "reading (after_handler s) = reading s"
  "send_pending (after_handler s) = send_pending s" "receive_pending (after_handler s) = receive_pending s"
  "timer_armed (after_handler s) = timer_armed s" "timeout (after_handler s) = timeout s" "completed (after_handler s) = completed s"
  "unsent (after_handler s) = unsent s" "unread (after_handler s) = unread s"
  by (simp_all add: after_handler_def)

section \<open>The invariant\<close>

definition operations :: "loop_state \<Rightarrow> nat" where
  "operations s = card (sending s) + 2 * card (awaiting s) + card (reading s) + (if timer_armed s then 1 else 0)"

text \<open>The bytes that intermediate completions can still move.\<close>

definition bytes_left :: "nat set \<Rightarrow> nat set \<Rightarrow> loop_state \<Rightarrow> nat" where
  "bytes_left clients servers s = (\<Sum>p \<in> clients. unsent s p) + (\<Sum>p \<in> servers. unread s p)"

definition loop_ok :: "nat set \<Rightarrow> nat set \<Rightarrow> loop_state \<Rightarrow> bool" where
  "loop_ok clients servers s \<longleftrightarrow>
     send_pending s = sending s \<and> sending s \<subseteq> clients \<and>
     receive_pending s = awaiting s \<union> reading s \<and> awaiting s \<inter> reading s = {} \<and>
     distinct (completed s) \<and> set (completed s) \<union> (awaiting s \<union> reading s) = servers \<and>
     set (completed s) \<inter> (awaiting s \<union> reading s) = {}"

text \<open>Once the timer has fired, all that is outstanding is cancelled.\<close>

definition timer_ok :: "loop_state \<Rightarrow> bool" where
  "timer_ok s \<longleftrightarrow> (timer_armed s \<or> timeout s \<and> sending s \<subseteq> cancelled_sends s \<and> awaiting s \<union> reading s \<subseteq> cancelled_reads s)"

lemma after_handler_timer_ok:
  assumes "send_pending s = sending s" "receive_pending s = awaiting s \<union> reading s" "timer_armed s \<or> timeout s"
  shows "timer_ok (after_handler s)"
  using assms by (auto simp: timer_ok_def after_handler_def)

lemma loop_ok_after: "loop_ok clients servers (after_handler s) \<longleftrightarrow> loop_ok clients servers s"
  by (simp add: loop_ok_def)

lemma operations_after: "operations (after_handler s) = operations s" "bytes_left clients servers (after_handler s) = bytes_left clients servers s"
  by (simp_all add: operations_def bytes_left_def)

lemma sum_less_update: "finite P \<Longrightarrow> p \<in> P \<Longrightarrow> 0 < n \<Longrightarrow> n \<le> f p \<Longrightarrow> (\<Sum>q \<in> P. (f(p := f p - n)) q) < (\<Sum>q \<in> P. f q :: nat)"
  by (intro sum_strict_mono_ex1) auto

lemma loop_ok_finite:
  assumes "loop_ok clients servers s" "finite clients" "finite servers"
  shows "finite (sending s)" "finite (awaiting s)" "finite (reading s)"
  using assms finite_subset [of "sending s" clients] finite_subset [of "awaiting s" servers] finite_subset [of "reading s" servers]
  by (auto simp: loop_ok_def)

lemma step_invariant:
  assumes "loop_step s s'" "loop_ok clients servers s" "timer_ok s" "finite clients" "finite servers"
  shows "loop_ok clients servers s' \<and> timer_ok s' \<and>
    operations s' + bytes_left clients servers s' < operations s + bytes_left clients servers s"
proof -
  note fin = loop_ok_finite [OF assms(2,4,5)]
  have armed: "timer_armed s \<or> timeout s" using assms(3) by (auto simp: timer_ok_def)
  show ?thesis using assms(1)
  proof (cases rule: loop_step_cases)
    case (some_sent p n)
    have "p \<in> clients" using some_sent(1) assms(2) by (auto simp: loop_ok_def)
    from sum_less_update [of clients p n "unsent s", OF assms(4) this some_sent(2,3)] show ?thesis
      unfolding some_sent(4) loop_ok_after operations_after using assms(2) armed
      by (intro conjI after_handler_timer_ok) (auto simp: loop_ok_def operations_def bytes_left_def)
  next
    case (some_read p n)
    have "p \<in> servers" using some_read(1) assms(2) by (auto simp: loop_ok_def)
    from sum_less_update [of servers p n "unread s", OF assms(5) this some_read(2,3)] show ?thesis
      unfolding some_read(4) loop_ok_after operations_after using assms(2) armed
      by (intro conjI after_handler_timer_ok) (auto simp: loop_ok_def operations_def bytes_left_def)
  next
    case (sent p)
    have "Suc (card (sending s - {p})) = card (sending s)" using fin(1) sent(1) by (rule card_Suc_Diff1)
    then show ?thesis unfolding sent(2) loop_ok_after operations_after
      using assms(2) sent(1) armed by (intro conjI after_handler_timer_ok) (auto simp: loop_ok_def operations_def bytes_left_def)
  next
    case (delimiter p)
    have "p \<notin> reading s" using delimiter(1) assms(2) by (auto simp: loop_ok_def)
    moreover have "Suc (card (awaiting s - {p})) = card (awaiting s)" using fin(2) delimiter(1) by (rule card_Suc_Diff1)
    ultimately show ?thesis unfolding delimiter(2) loop_ok_after operations_after
      using assms(2) delimiter(1) armed fin by (intro conjI after_handler_timer_ok) (auto simp: loop_ok_def operations_def bytes_left_def)
  next
    case (payload p)
    have "p \<notin> awaiting s" "p \<notin> set (completed s)" using payload(1) assms(2) by (auto simp: loop_ok_def)
    moreover have "Suc (card (reading s - {p})) = card (reading s)" using fin(3) payload(1) by (rule card_Suc_Diff1)
    ultimately show ?thesis unfolding payload(2) loop_ok_after operations_after
      using assms(2) payload(1) armed by (intro conjI after_handler_timer_ok) (auto simp: loop_ok_def operations_def bytes_left_def)
  next
    case timer
    then show ?thesis unfolding timer(2) loop_ok_after operations_after
      using assms(2) by (intro conjI after_handler_timer_ok) (auto simp: loop_ok_def operations_def bytes_left_def)
  qed
qed

lemma start_ok: "loop_ok clients servers (round_start clients servers out_bytes in_bytes) \<and> timer_ok (round_start clients servers out_bytes in_bytes)"
  by (simp add: loop_ok_def timer_ok_def round_start_def)

lemma reached_invariant:
  assumes "reached clients servers out_bytes in_bytes n s" "finite clients" "finite servers"
  shows "loop_ok clients servers s \<and> timer_ok s \<and> n + (operations s + bytes_left clients servers s) \<le>
    card clients + 2 * card servers + 1 + (\<Sum>p \<in> clients. out_bytes p) + (\<Sum>p \<in> servers. in_bytes p)"
  using assms(1)
proof (induction rule: reached.induct)
  case started
  then show ?case using start_ok by (simp add: operations_def round_start_def bytes_left_def)
next
  case (stepped n s s')
  then show ?case using step_invariant [of s s' clients servers] assms(2,3) by auto
qed

lemma unfinished_ready:
  assumes "loop_ok clients servers s" "timer_ok s" "\<not> finished s"
  shows "timer_armed s \<or> (\<exists>e s'. cancelled e s \<and> run_one e s = Some s')"
proof (cases "timer_armed s")
  case False
  then have "sending s \<subseteq> cancelled_sends s" "awaiting s \<union> reading s \<subseteq> cancelled_reads s"
    using assms(2) by (auto simp: timer_ok_def)
  moreover obtain e where "(\<exists>p. e = Sent p \<and> p \<in> sending s) \<or> (\<exists>p. e = Delimiter_read p \<and> p \<in> awaiting s) \<or>
      (\<exists>p. e = Payload_read p \<and> p \<in> reading s)"
    using assms(3) False by (auto simp: finished_def)
  ultimately have "cancelled e s \<and> (\<exists>s'. run_one e s = Some s')" by (auto simp: run_one_def)
  then show ?thesis by blast
qed simp

lemma finished_completed: "loop_ok clients servers s \<Longrightarrow> finished s \<Longrightarrow> distinct (completed s) \<and> set (completed s) = servers \<and>
    send_pending s = {} \<and> receive_pending s = {}"
  by (auto simp: loop_ok_def finished_def)

section \<open>The loop ends\<close>

lemma finished_stops: "finished s \<Longrightarrow> \<not> loop_step s s'"
  by (auto simp: finished_def elim: loop_step_cases)

text \<open>C11 (round_loop_ends): the loop of a round iterates at most once per write, twice per read, once for the timer, and once per
  byte that is moved by an intermediate completion. As long as it has not ended it does not wait for the network alone: either
  the timer is still to fire, or some cancelled operation has its handler ready. It has ended exactly when no handler is left to
  run; then nothing is pending and each of the reads has completed exactly once.\<close>

theorem round_loop_ends:
  assumes "reached clients servers out_bytes in_bytes n s" "finite clients" "finite servers"
  shows "n \<le> card clients + 2 * card servers + 1 + (\<Sum>p \<in> clients. out_bytes p) + (\<Sum>p \<in> servers. in_bytes p) \<and>
    (finished s \<longleftrightarrow> (\<nexists>s'. loop_step s s')) \<and>
    (\<not> finished s \<longrightarrow> timer_armed s \<or> (\<exists>e s'. cancelled e s \<and> run_one e s = Some s')) \<and>
    (finished s \<longrightarrow> send_pending s = {} \<and> receive_pending s = {} \<and> distinct (completed s) \<and> set (completed s) = servers)"
proof -
  have inv: "loop_ok clients servers s" "timer_ok s" and bound: "n + (operations s + bytes_left clients servers s) \<le>
      card clients + 2 * card servers + 1 + (\<Sum>p \<in> clients. out_bytes p) + (\<Sum>p \<in> servers. in_bytes p)"
    using reached_invariant [OF assms] by auto
  have "\<exists>s'. loop_step s s'" if "\<not> finished s"
  proof (cases "timer_armed s")
    case True
    then have "\<exists>s'. run_one Timer s = Some s'" by (simp add: run_one_def)
    then show ?thesis using loop_step.a_handler by blast
  next
    case False
    then show ?thesis using unfinished_ready [OF inv that] loop_step.a_handler by blast
  qed
  then have "finished s \<longleftrightarrow> (\<nexists>s'. loop_step s s')" using finished_stops by blast
  then show ?thesis using inv bound unfinished_ready finished_completed by auto
qed


section \<open>The order of completion\<close>

fun run_events :: "event list \<Rightarrow> loop_state \<Rightarrow> loop_state option" where
  "run_events [] s = Some s"
| "run_events (e # es) s = (case run_one e s of None \<Rightarrow> None | Some s' \<Rightarrow> run_events es s')"

lemma run_events_snoc: "run_events (es @ [e]) s = (case run_events es s of None \<Rightarrow> None | Some s' \<Rightarrow> run_one e s')"
  by (induction es arbitrary: s) (auto split: option.splits)

lemma run_events_reached:
  "run_events es (round_start clients servers out_bytes in_bytes) = Some s \<Longrightarrow> reached clients servers out_bytes in_bytes (length es) s"
proof (induction es arbitrary: s rule: rev_induct)
  case (snoc e es)
  then obtain s1 where "run_events es (round_start clients servers out_bytes in_bytes) = Some s1" "run_one e s1 = Some s"
    by (auto simp: run_events_snoc split: option.splits)
  then show ?case using snoc.IH reached.stepped [of clients servers out_bytes in_bytes "length es" s1 s] loop_step.a_handler by simp
qed (simp add: reached.started)

text \<open>The slots of different processes are disjoint, so their payloads commute.\<close>

lemma fill_slots_update: "i \<notin> set is \<Longrightarrow> fill_slots is vs (xs[i := v]) = (fill_slots is vs xs)[i := v]"
  by (induction "is" vs xs rule: fill_slots.induct) (auto simp: list_update_swap)

lemma fill_slots_commute:
  "set is \<inter> set js = {} \<Longrightarrow> fill_slots is vs (fill_slots js ws xs) = fill_slots js ws (fill_slots is vs xs)"
  by (induction js ws xs rule: fill_slots.induct) (auto simp: fill_slots_update)

lemma receive_slots_disjoint:
  "p \<noteq> q \<Longrightarrow> set (receive_buffer_optimized l p t) \<inter> set (receive_buffer_optimized l q t) = {}"
proof -
  assume "p \<noteq> q"
  have "p = q" if "p * n \<le> i" "i < Suc p * n" "q * n \<le> i" "i < Suc q * n" for i n :: nat
  proof -
    have "i div n = r" if "r * n \<le> i" "i < Suc r * n" for r
      using that by (intro div_nat_eqI) (simp_all add: mult.commute)
    then show ?thesis using that by metis
  qed
  then show ?thesis using \<open>p \<noteq> q\<close> unfolding receive_buffer_optimized_def set_filter set_upt by fastforce
qed

lemma deliver_commute: "p \<noteq> q \<Longrightarrow> deliver l p xs (deliver l q ys t) = deliver l q ys (deliver l p xs t)"
proof -
  assume pq: "p \<noteq> q"
  have r: "receive_buffer_optimized l r (t\<lparr>levels := x\<rparr>) = receive_buffer_optimized l r t" for r x
    by (simp add: receive_buffer_optimized_def)
  show ?thesis
    using fill_slots_commute [OF receive_slots_disjoint [OF pq], of l t xs ys]
    by (cases "Suc l < length (levels t)") (simp_all add: deliver_def r list_update_beyond)
qed

lemma round_receive_fold: "round_receive l inbox ps t = fold (\<lambda>p. deliver l p (inbox p)) ps t"
  by (induction ps arbitrary: t) simp_all

lemma round_receive_perm: "mset ps = mset qs \<Longrightarrow> round_receive l inbox ps t = round_receive l inbox qs t"
  unfolding round_receive_fold
proof (rule fun_cong [of _ _ t], rule fold_multiset_equiv)
  fix p q
  show "deliver l p (inbox p) \<circ> deliver l q (inbox q) = deliver l q (inbox q) \<circ> deliver l p (inbox p)"
  proof (cases "p = q")
    case False
    show ?thesis by (simp only: fun_eq_iff o_apply deliver_commute [OF False, of l "inbox p" "inbox q"] simp_thms)
  qed (simp only:)
qed

lemma node_rounds_perm:
  "(\<And>l. l < n \<Longrightarrow> mset (arrive l) = mset (arrive' l)) \<Longrightarrow> node_rounds me inbox arrive n t = node_rounds me inbox arrive' n t"
proof (induction n)
  case (Suc n)
  then show ?case using round_receive_perm [of "arrive n" "arrive' n"] by simp
qed simp

text \<open>A possible order of arrival: that of the payloads in a run of the event loop to its end.\<close>

definition possible_order :: "nat set \<Rightarrow> nat set \<Rightarrow> nat list \<Rightarrow> bool" where
  "possible_order clients servers ps \<longleftrightarrow>
     (\<exists>out_bytes in_bytes es s. run_events es (round_start clients servers out_bytes in_bytes) = Some s \<and> finished s \<and> completed s = ps)"

lemma possible_order_mset:
  assumes "possible_order clients servers ps" "finite clients" "finite servers"
  shows "mset ps = mset (sorted_list_of_set servers)"
proof -
  obtain out_bytes in_bytes es s where "run_events es (round_start clients servers out_bytes in_bytes) = Some s" "finished s" "completed s = ps"
    using assms(1) by (auto simp: possible_order_def)
  then have "distinct ps" "set ps = servers"
    using reached_invariant [OF run_events_reached assms(2,3)] finished_completed by blast+
  then show ?thesis using assms(3) by (metis distinct_sorted_list_of_set set_eq_iff_mset_eq_distinct set_sorted_list_of_set)
qed

text \<open>C10 (job_ignores_order): whatever the order in which the handlers of each round run, a job has the result of one that
  reads its peers one after the other in ascending order: state, failures and all.\<close>

theorem job_ignores_order:
  assumes "\<forall>l < unat (max_rounds s). possible_order clients servers (arrive l)" "finite clients" "finite servers"
  shows "job NT KS VS hash iter should_die fuse inbox arrive start finish s =
    job NT KS VS hash iter should_die fuse inbox (\<lambda>_. sorted_list_of_set servers) start finish s"
proof -
  have "node_rounds (my_process_id s) inbox arrive (unat (max_rounds s)) t =
      node_rounds (my_process_id s) inbox (\<lambda>_. sorted_list_of_set servers) (unat (max_rounds s)) t" for t
    using assms possible_order_mset by (intro node_rounds_perm) blast
  then show ?thesis unfolding job_def by simp
qed


section \<open>Configured jobs\<close>

text \<open>The functions that a user of the store sets; none of them is set by the constructor.\<close>

record callbacks =
  fuse_function :: "fuse_function option"
  should_die :: "should_die_function option"
  lie :: "eig_node lie_function option"

definition no_callbacks :: callbacks where
  "no_callbacks = \<lparr>fuse_function = None, should_die = None, lie = None\<rparr>"

definition update_fuse_function :: "fuse_function \<Rightarrow> callbacks \<Rightarrow> callbacks" where
  "update_fuse_function ff cb = cb\<lparr>fuse_function := Some ff\<rparr>"

definition set_should_die :: "should_die_function \<Rightarrow> callbacks \<Rightarrow> callbacks" where
  "set_should_die sdf cb = cb\<lparr>should_die := Some sdf\<rparr>"

definition set_lie :: "eig_node lie_function \<Rightarrow> callbacks \<Rightarrow> callbacks" where
  "set_lie lf cb = cb\<lparr>lie := Some lf\<rparr>"

definition configured_job :: "nat \<Rightarrow> nat \<Rightarrow> nat \<Rightarrow> (eig_node \<Rightarrow> u32) \<Rightarrow> order_at \<Rightarrow> callbacks \<Rightarrow> (nat \<Rightarrow> nat \<Rightarrow> eig_node list)
    \<Rightarrow> (nat \<Rightarrow> nat list) \<Rightarrow> u64 \<Rightarrow> u64 \<Rightarrow> bft_kvs \<Rightarrow> job_abort + bft_kvs" where
  "configured_job NT KS VS hash iter cb inbox arrive start finish s =
     job NT KS VS hash iter (should_die cb) (fuse_function cb) inbox arrive start finish s"

text \<open>A process that is configured to be dead, as an injected fault of the experiments, proposes nothing, commits nothing and
  never fails, whatever it receives; it still counts its jobs.\<close>

lemma dead_process_idle:
  "configured_job NT KS VS hash iter (set_should_die (\<lambda>_ _. True) cb) inbox arrive start finish s =
     Inr (s\<lparr>unpublished := zero_node NT KS VS, num_jobs := num_jobs s + 1\<rparr>)"
  by (simp add: configured_job_def set_should_die_def job_def)

section \<open>A concrete round\<close>

text \<open>The frame of the peer arrives in two pieces, which takes one more iteration.\<close>

abbreviation demo_round_events :: "event list" where
  "demo_round_events \<equiv> [Sent 1, Delimiter_read 1, Some_read 1 20, Payload_read 1, Timer]"

lemma demo_events:
  "\<exists>s. run_events demo_round_events (round_start {1} {1} (\<lambda>_. 55) (\<lambda>_. 55)) = Some s \<and> finished s"
  by (simp add: run_one_def round_start_def after_handler_def finished_def)

theorem round_loop_ends_witness:
  "\<exists>s. reached {1} {1} (\<lambda>_. 55) (\<lambda>_. 55) 5 s \<and> finished s \<and> completed s = [1]"
proof -
  obtain s where s: "run_events demo_round_events (round_start {1} {1} (\<lambda>_. 55) (\<lambda>_. 55)) = Some s" "finished s"
    using demo_events by blast
  then have "reached {1} {1} (\<lambda>_. 55) (\<lambda>_. 55) (length demo_round_events) s" by (intro run_events_reached)
  moreover have "length demo_round_events = 5" by simp
  ultimately have r: "reached {1} {1} (\<lambda>_. 55) (\<lambda>_. 55) 5 s" by (simp only:)
  then have f: "finished s" "distinct (completed s)" "set (completed s) = {1}"
    using round_loop_ends [of "{1}" "{1}" "\<lambda>_. 55" "\<lambda>_. 55" 5 s] s(2) by simp_all
  then have "mset (completed s) = mset [1]" by (metis distinct_singleton empty_set list.simps(15) set_eq_iff_mset_eq_distinct)
  then have "completed s = [1]" by simp
  then show ?thesis using r f(1) by blast
qed

lemma demo_order: "possible_order {1, 2} {1, 2} [2, 1]"
proof -
  have "\<exists>s. run_events [Delimiter_read 2, Sent 1, Payload_read 2, Delimiter_read 1, Sent 2, Timer, Payload_read 1]
      (round_start {1, 2} {1, 2} (\<lambda>_. 0) (\<lambda>_. 0)) = Some s \<and> finished s \<and> completed s = [2, 1]"
    by (simp add: run_one_def round_start_def after_handler_def finished_def insert_Diff_if)
  then show ?thesis unfolding possible_order_def by blast
qed

theorem job_ignores_order_witness:
  "\<forall>hash iter inbox. job 1 3 3 hash iter None None inbox (\<lambda>_. [2, 1]) 0 0 demo_kvs = job 1 3 3 hash iter None None inbox (\<lambda>_. [1, 2]) 0 0 demo_kvs"
proof (intro allI)
  fix hash iter inbox
  have "sorted_list_of_set {1, 2 :: nat} = [1, 2]" by simp
  then show "job 1 3 3 hash iter None None inbox (\<lambda>_. [2, 1]) 0 0 demo_kvs = job 1 3 3 hash iter None None inbox (\<lambda>_. [1, 2]) 0 0 demo_kvs"
    using job_ignores_order [of demo_kvs "{1, 2}" "{1, 2}" "\<lambda>_. [2, 1]" 1 3 3 hash iter None None inbox 0 0] demo_order by simp
qed


end
