(* ===== verification/Bft_Framing.thy ===== *)
theory Bft_Framing imports Bft_Event_Loop begin

text \<open>
  The bytes under the rounds of \<^verbatim>\<open>BFTKVS::job\<close> (\<^verbatim>\<open>src/achal/bft_kvs.h\<close>): the memory image of the node struct, the frames that
  are written to a socket, and what a reader does with the stream of bytes of a peer: skip to the delimiter, wait for the rest of
  the payload, copy it into the slots. \<open>Bft_Rounds\<close> speaks of payloads as lists of nodes; here it is shown that every arrival of
  bytes is such a payload, that an intact frame is the payload that was sent, how a reader finds back into the stream after a
  lost frame, and that a frame that arrives early makes the reader wait for its timer.
\<close>

section \<open>Little-endian numbers\<close>

fun le_bytes :: "nat \<Rightarrow> nat \<Rightarrow> string" where
  "le_bytes 0 n = []"
| "le_bytes (Suc k) n = char_of (n mod 256) # le_bytes k (n div 256)"

fun le_nat :: "string \<Rightarrow> nat" where
  "le_nat [] = 0"
| "le_nat (c # cs) = of_char c + 256 * le_nat cs"

lemma length_le_bytes [simp]: "length (le_bytes k n) = k"
  by (induction k n rule: le_bytes.induct) auto

lemma le_nat_bytes: "n < 256 ^ k \<Longrightarrow> le_nat (le_bytes k n) = n"
  by (induction k n rule: le_bytes.induct) (auto simp: less_mult_imp_div_less mult.commute)

lemma le_nat_less: "le_nat bs < 256 ^ length bs"
proof (induction bs)
  case (Cons c cs)
  have "(of_char c :: nat) < 256" by (rule nat_of_char_less_256)
  moreover have "256 * Suc (le_nat cs) \<le> 256 * 256 ^ length cs" using Cons by (intro mult_le_mono2) simp
  moreover have "of_char c + 256 * le_nat cs < 256 * Suc (le_nat cs)" by simp
  ultimately show ?case by (simp only: le_nat.simps list.size power_Suc add_0_right add_Suc_right less_le_trans)
qed simp

lemma le_bytes_nat: "le_bytes (length bs) (le_nat bs) = bs"
proof (induction bs)
  case (Cons c cs)
  have "(of_char c :: nat) < 256" by (rule nat_of_char_less_256)
  then show ?case using Cons by simp
qed simp

section \<open>Chunks of equal length\<close>

fun chunks :: "nat \<Rightarrow> nat \<Rightarrow> 'a list \<Rightarrow> 'a list list" where
  "chunks n 0 xs = []"
| "chunks n (Suc k) xs = take n xs # chunks n k (drop n xs)"

lemma length_chunks [simp]: "length (chunks n k xs) = k"
  by (induction n k xs rule: chunks.induct) auto

lemma chunks_concat: "\<forall>ys \<in> set yss. length ys = n \<Longrightarrow> chunks n (length yss) (concat yss @ r) = yss"
  by (induction yss) auto

lemma concat_chunks: "concat (chunks n k xs) = take (n * k) xs"
proof (induction n k xs rule: chunks.induct)
  case (2 n k xs)
  then show ?case by (simp only: chunks.simps concat.simps mult_Suc_right take_add)
qed simp

lemma chunks_lengths:
  assumes "n * k \<le> length xs"
  shows "\<forall>ys \<in> set (chunks n k xs). length ys = n"
  using assms
proof (induction n k xs rule: chunks.induct)
  case (2 n k xs)
  have le: "n + n * k \<le> length xs" using "2.prems" by (simp only: mult_Suc_right)
  then have "n * k \<le> length (drop n xs)" unfolding length_drop by linarith
  then have "\<forall>ys \<in> set (chunks n k (drop n xs)). length ys = n" by (rule "2.IH")
  moreover have "length (take n xs) = n" using le by simp
  ultimately show ?case by (simp only: chunks.simps list.set ball_simps simp_thms)
qed simp

section \<open>The memory image of a node\<close>

text \<open>The layout of the packed integers and arrays of the two structs on the machines that the program is built for, little-endian
  and with the padding that aligns the integers. No code of the program converts between the two views; it copies memory. The functions
  \<open>node_bytes\<close> and \<open>node_of_bytes\<close> are the specification of that memory, by which the copying of bytes further below is stated.\<close>

definition tuple_size :: "nat \<Rightarrow> nat \<Rightarrow> nat" where
  "tuple_size KS VS = Suc KS + Suc VS + tuple_padding KS VS + 8"

definition sizeof_node :: "nat \<Rightarrow> nat \<Rightarrow> nat \<Rightarrow> nat" where
  "sizeof_node NT KS VS = 8 + tuple_size KS VS * NT"

definition tuple_bytes :: "tuple \<Rightarrow> string" where
  "tuple_bytes t = tkey t @ tvalue t @ tpadding t @ le_bytes 8 (unat (ttime t))"

definition node_bytes :: "eig_node \<Rightarrow> string" where
  "node_bytes nd = le_bytes 4 (unat (nlength nd)) @ npadding nd @ concat (map tuple_bytes (ntuples nd))"

definition tuple_of_bytes :: "nat \<Rightarrow> nat \<Rightarrow> string \<Rightarrow> tuple" where
  "tuple_of_bytes KS VS bs =
     (let vs = drop (Suc KS) bs; ps = drop (Suc VS) vs; ts = drop (tuple_padding KS VS) ps
      in \<lparr>tkey = take (Suc KS) bs, tvalue = take (Suc VS) vs, tpadding = take (tuple_padding KS VS) ps,
          ttime = word_of_nat (le_nat (take 8 ts))\<rparr>)"

definition node_of_bytes :: "nat \<Rightarrow> nat \<Rightarrow> nat \<Rightarrow> string \<Rightarrow> eig_node" where
  "node_of_bytes NT KS VS bs =
     \<lparr>nlength = word_of_nat (le_nat (take 4 bs)), npadding = take 4 (drop 4 bs),
      ntuples = map (tuple_of_bytes KS VS) (chunks (tuple_size KS VS) NT (drop 8 bs))\<rparr>"

definition tuple_ok :: "nat \<Rightarrow> nat \<Rightarrow> tuple \<Rightarrow> bool" where
  "tuple_ok KS VS t \<longleftrightarrow> length (tkey t) = Suc KS \<and> length (tvalue t) = Suc VS \<and> length (tpadding t) = tuple_padding KS VS"

lemma node_ok_tuples: "node_ok NT KS VS nd \<longleftrightarrow> length (npadding nd) = 4 \<and> length (ntuples nd) = NT \<and> (\<forall>t \<in> set (ntuples nd). tuple_ok KS VS t)"
  by (simp add: node_ok_def tuple_ok_def)

lemma tuple_roundtrip:
  assumes "tuple_ok KS VS t"
  shows "tuple_of_bytes KS VS (tuple_bytes t) = t" "length (tuple_bytes t) = tuple_size KS VS"
  using assms unat_lt_u64 [of "ttime t"]
  by (simp_all add: tuple_ok_def tuple_of_bytes_def tuple_bytes_def tuple_size_def Let_def le_nat_bytes)

lemma bytes_tuple_roundtrip:
  assumes "length bs = tuple_size KS VS"
  shows "tuple_bytes (tuple_of_bytes KS VS bs) = bs" "tuple_ok KS VS (tuple_of_bytes KS VS bs)"
proof -
  let ?ts = "drop (Suc KS + Suc VS + tuple_padding KS VS) bs"
  have len: "length ?ts = 8" using assms by (simp add: tuple_size_def)
  then have "le_nat ?ts < 256 ^ 8" using le_nat_less [of ?ts] by simp
  then have "unat (word_of_nat (le_nat ?ts) :: u64) = le_nat ?ts" by (intro unat_of_nat_u64) simp
  moreover have "le_bytes 8 (le_nat ?ts) = ?ts" using le_bytes_nat [of ?ts] len by simp
  moreover have "take 8 ?ts = ?ts" using len by simp
  ultimately have time: "le_bytes 8 (unat (word_of_nat (le_nat (take 8 ?ts)) :: u64)) = ?ts" by (simp only:)
  have split: "take (Suc KS) bs @ take (Suc VS) (drop (Suc KS) bs) @
      take (tuple_padding KS VS) (drop (Suc KS + Suc VS) bs) @ ?ts = bs"
    by (metis append_take_drop_id drop_drop add.commute)
  show "tuple_bytes (tuple_of_bytes KS VS bs) = bs"
    using time split by (simp add: tuple_bytes_def tuple_of_bytes_def Let_def add.commute add.left_commute)
  show "tuple_ok KS VS (tuple_of_bytes KS VS bs)"
    using assms by (simp add: tuple_ok_def tuple_of_bytes_def tuple_size_def Let_def)
qed

lemma tuple_size_pos: "0 < tuple_size KS VS"
  by (simp add: tuple_size_def)

lemma length_concat_same: "\<forall>ys \<in> set yss. length ys = n \<Longrightarrow> length (concat yss) = n * length yss"
  by (induction yss) auto

lemma node_decode:
  assumes "node_ok NT KS VS nd"
  shows "node_of_bytes NT KS VS (node_bytes nd) = nd" "length (node_bytes nd) = sizeof_node NT KS VS"
proof -
  have ok: "length (npadding nd) = 4" "length (ntuples nd) = NT" "\<forall>t \<in> set (ntuples nd). tuple_ok KS VS t"
    using assms by (auto simp: node_ok_tuples)
  let ?bs = "map tuple_bytes (ntuples nd)"
  have lens: "\<forall>b \<in> set ?bs. length b = tuple_size KS VS" using ok(3) tuple_roundtrip(2) by auto
  have "chunks (tuple_size KS VS) NT (concat ?bs) = ?bs"
    using chunks_concat [OF lens, of "[]"] ok(2) by simp
  moreover have "map (tuple_of_bytes KS VS) ?bs = ntuples nd"
    using ok(3) tuple_roundtrip(1) by (simp add: map_idI)
  moreover have "le_nat (le_bytes 4 (unat (nlength nd))) = unat (nlength nd)"
    using unat_lt_u32 [of "nlength nd"] by (intro le_nat_bytes) simp
  ultimately show "node_of_bytes NT KS VS (node_bytes nd) = nd"
    using ok(1) by (simp add: node_of_bytes_def node_bytes_def)
  show "length (node_bytes nd) = sizeof_node NT KS VS"
    using ok(1,2) length_concat_same [OF lens] by (simp add: node_bytes_def sizeof_node_def)
qed

lemma node_encode:
  assumes "length bs = sizeof_node NT KS VS"
  shows "node_bytes (node_of_bytes NT KS VS bs) = bs" "node_ok NT KS VS (node_of_bytes NT KS VS bs)"
proof -
  let ?n = "tuple_size KS VS" and ?r = "drop 8 bs"
  have len: "length (take 4 bs) = 4" "length ?r = ?n * NT" using assms by (simp_all add: sizeof_node_def)
  have lens: "\<forall>ys \<in> set (chunks ?n NT ?r). length ys = ?n" using len(2) by (intro chunks_lengths) simp
  then have "map (tuple_bytes \<circ> tuple_of_bytes KS VS) (chunks ?n NT ?r) = chunks ?n NT ?r"
    using bytes_tuple_roundtrip(1) by (intro map_idI) (simp add: o_def)
  then have tuples: "concat (map tuple_bytes (map (tuple_of_bytes KS VS) (chunks ?n NT ?r))) = ?r"
    using len(2) by (simp add: concat_chunks)
  have "le_nat (take 4 bs) < 2 ^ 32" using le_nat_less [of "take 4 bs"] len(1) by simp
  then have "le_bytes 4 (unat (word_of_nat (le_nat (take 4 bs)) :: u32)) = take 4 bs"
    using le_bytes_nat [of "take 4 bs"] len(1) by (simp only: unat_of_nat_u32)
  moreover have "take 4 bs @ take 4 (drop 4 bs) @ ?r = bs"
    by (metis append_take_drop_id drop_drop numeral_Bit0)
  ultimately show "node_bytes (node_of_bytes NT KS VS bs) = bs"
    using tuples by (simp add: node_bytes_def node_of_bytes_def)
  have "\<forall>t \<in> set (map (tuple_of_bytes KS VS) (chunks ?n NT ?r)). tuple_ok KS VS t"
    using lens bytes_tuple_roundtrip(2) by auto
  then show "node_ok NT KS VS (node_of_bytes NT KS VS bs)"
    using assms by (simp add: node_ok_tuples node_of_bytes_def sizeof_node_def)
qed

section \<open>Copying bytes into slots\<close>

text \<open>\<^verbatim>\<open>sgetn\<close> into the memory of one slot: as many bytes as there are, at most those of a node; the rest of the slot keeps
  what it holds.\<close>

definition sgetn :: "nat \<Rightarrow> nat \<Rightarrow> nat \<Rightarrow> string \<Rightarrow> eig_node \<Rightarrow> eig_node" where
  "sgetn NT KS VS buf nd =
     (let got = take (sizeof_node NT KS VS) buf
      in node_of_bytes NT KS VS (got @ drop (length got) (node_bytes nd)))"

fun copy_payload :: "nat \<Rightarrow> nat \<Rightarrow> nat \<Rightarrow> nat list \<Rightarrow> string \<Rightarrow> eig_node list \<Rightarrow> eig_node list" where
  "copy_payload NT KS VS [] buf xs = xs"
| "copy_payload NT KS VS (i # is) buf xs =
     copy_payload NT KS VS is (drop (sizeof_node NT KS VS) buf) (xs[i := sgetn NT KS VS buf (xs ! i)])"

definition deliver_bytes :: "nat \<Rightarrow> nat \<Rightarrow> nat \<Rightarrow> nat \<Rightarrow> nat \<Rightarrow> string \<Rightarrow> eig_node eig_tree \<Rightarrow> eig_node eig_tree" where
  "deliver_bytes NT KS VS l pid buf t =
     t\<lparr>levels := (levels t)[Suc l := copy_payload NT KS VS (receive_buffer_optimized l pid t) buf (levels t ! Suc l)]\<rparr>"

lemma sgetn_ok:
  assumes "node_ok NT KS VS nd"
  shows "node_ok NT KS VS (sgetn NT KS VS buf nd)"
proof -
  have "length (node_bytes nd) = sizeof_node NT KS VS" using node_decode(2) [OF assms] .
  then have "length (take (sizeof_node NT KS VS) buf @ drop (length (take (sizeof_node NT KS VS) buf)) (node_bytes nd)) = sizeof_node NT KS VS"
    by simp
  then show ?thesis unfolding sgetn_def Let_def by (rule node_encode(2))
qed

lemma sgetn_whole:
  assumes "node_ok NT KS VS new" "node_ok NT KS VS nd"
  shows "sgetn NT KS VS (node_bytes new @ rest) nd = new"
  using node_decode [OF assms(1)] node_decode(2) [OF assms(2)] by (simp add: sgetn_def Let_def)

text \<open>Bytes that arrive are a payload of nodes, in the sense of \<open>deliver\<close>.\<close>

lemma copy_is_fill:
  "distinct is \<Longrightarrow> \<exists>payload. length payload = length is \<and>
    copy_payload NT KS VS is buf xs = fill_slots is payload xs \<and>
    (set is \<subseteq> {..<length xs} \<longrightarrow> (\<forall>x \<in> set xs. node_ok NT KS VS x) \<longrightarrow> (\<forall>x \<in> set payload. node_ok NT KS VS x))"
proof (induction "is" arbitrary: buf xs)
  case (Cons i "is")
  let ?v = "sgetn NT KS VS buf (xs ! i)"
  obtain payload where p: "length payload = length is"
    "copy_payload NT KS VS is (drop (sizeof_node NT KS VS) buf) (xs[i := ?v]) = fill_slots is payload (xs[i := ?v])"
    "set is \<subseteq> {..<length xs} \<longrightarrow> (\<forall>x \<in> set (xs[i := ?v]). node_ok NT KS VS x) \<longrightarrow> (\<forall>x \<in> set payload. node_ok NT KS VS x)"
    using Cons.IH [of "drop (sizeof_node NT KS VS) buf" "xs[i := ?v]"] Cons.prems by auto
  have "\<forall>x \<in> set (?v # payload). node_ok NT KS VS x"
    if "set (i # is) \<subseteq> {..<length xs}" "\<forall>x \<in> set xs. node_ok NT KS VS x"
  proof -
    have "node_ok NT KS VS ?v" using that by (intro sgetn_ok) simp
    moreover from this have "\<forall>x \<in> set (xs[i := ?v]). node_ok NT KS VS x"
      using that(2) set_update_subset_insert [of xs i ?v] by auto
    ultimately show ?thesis using p(3) that(1) by simp
  qed
  then show ?case using p(1,2) by (intro exI [of _ "?v # payload"]) simp
qed simp

lemma copy_whole:
  assumes "\<forall>x \<in> set payload. node_ok NT KS VS x" "\<forall>x \<in> set xs. node_ok NT KS VS x" "set is \<subseteq> {..<length xs}"
    and "length payload = length is"
  shows "copy_payload NT KS VS is (concat (map node_bytes payload) @ rest) xs = fill_slots is payload xs"
  using assms
proof (induction "is" payload xs rule: fill_slots.induct)
  case (1 i "is" v vs xs)
  have slot: "node_ok NT KS VS (xs ! i)" "node_ok NT KS VS v" using "1.prems" by simp_all
  have v: "sgetn NT KS VS (node_bytes v @ concat (map node_bytes vs) @ rest) (xs ! i) = v" by (rule sgetn_whole [OF slot(2,1)])
  have "\<forall>x \<in> set (xs[i := v]). node_ok NT KS VS x"
    using "1.prems"(2) slot(2) set_update_subset_insert [of xs i v] by auto
  then show ?case using "1.IH" "1.prems" v node_decode(2) [OF slot(2)] by simp
qed auto

section \<open>Reading the stream of a peer\<close>

definition delim :: string where
  "delim = replicate 31 CHR ''=''"

text \<open>The position of the first occurrence of a text.\<close>

fun find_sub :: "string \<Rightarrow> string \<Rightarrow> nat option" where
  "find_sub d [] = (if d = [] then Some 0 else None)"
| "find_sub d (x # xs) = (if take (length d) (x # xs) = d then Some 0 else map_option Suc (find_sub d xs))"

text \<open>What goes to a socket: the delimiter and the nodes.\<close>

definition frame :: "eig_node list \<Rightarrow> string" where
  "frame payload = delim @ concat (map node_bytes payload)"

text \<open>The first handler consumes what was read, up to and including the delimiter. The bytes behind it stay in the buffer. A
  cancelled read has read nothing, and nothing is consumed.\<close>

definition skip_to_delimiter :: "string \<Rightarrow> string" where
  "skip_to_delimiter buf = (case find_sub delim buf of Some k \<Rightarrow> drop (k + length delim) buf | None \<Rightarrow> buf)"

text \<open>The length of the payload and the number of bytes that the second read asks for, an unsigned difference.\<close>

definition payload_size :: "nat \<Rightarrow> nat \<Rightarrow> nat \<Rightarrow> nat \<Rightarrow> nat \<Rightarrow> eig_node eig_tree \<Rightarrow> nat" where
  "payload_size NT KS VS l pid t = length (receive_buffer_optimized l pid t) * sizeof_node NT KS VS"

definition transfer_size :: "nat \<Rightarrow> string \<Rightarrow> u64" where
  "transfer_size len buf = word_of_nat len - word_of_nat (length buf)"

text \<open>One round with one peer: \<open>buf\<close> is the buffer, \<open>a1\<close> is what arrives until the first read is over and \<open>a2\<close> what arrives
  during the second. The second handler copies what there is, whether its read was completed or cancelled, and leaves the rest.\<close>

definition read_frame :: "nat \<Rightarrow> nat \<Rightarrow> nat \<Rightarrow> nat \<Rightarrow> nat \<Rightarrow> string \<Rightarrow> string \<Rightarrow> string \<Rightarrow> eig_node eig_tree
    \<Rightarrow> eig_node eig_tree \<times> string" where
  "read_frame NT KS VS l pid buf a1 a2 t =
     (let b = skip_to_delimiter (buf @ a1) @ a2
      in (deliver_bytes NT KS VS l pid b t, drop (payload_size NT KS VS l pid t) b))"

text \<open>Both reads end by themselves, not by cancellation.\<close>

definition read_completes :: "nat \<Rightarrow> string \<Rightarrow> string \<Rightarrow> string \<Rightarrow> bool" where
  "read_completes len buf a1 a2 \<longleftrightarrow> find_sub delim (buf @ a1) \<noteq> None \<and>
     length a2 = unat (transfer_size len (skip_to_delimiter (buf @ a1)))"

text \<open>Left-over bytes that do not hide the next delimiter.\<close>

definition harmless :: "string \<Rightarrow> bool" where
  "harmless buf \<longleftrightarrow> find_sub delim buf = None \<and> (buf = [] \<or> last buf \<noteq> CHR ''='')"

lemma find_sub_harmless:
  assumes "harmless buf"
  shows "find_sub delim (buf @ delim @ x) = Some (length buf)"
  using assms
proof (induction buf)
  case Nil
  have "delim @ x = CHR ''='' # replicate 30 CHR ''='' @ x" by (simp add: delim_def numeral_eq_Suc)
  moreover have "take (length delim) (delim @ x) = delim" by simp
  ultimately show ?case by (metis append_Nil find_sub.simps(2) list.size(3))
next
  case (Cons b buf)
  have none: "take (length delim) (b # buf) \<noteq> delim" "find_sub delim buf = None"
    using Cons.prems by (auto simp: harmless_def split: if_splits)
  have "take (length delim) (b # buf @ delim @ x) \<noteq> delim"
  proof
    assume eq: "take (length delim) (b # buf @ delim @ x) = delim"
    have short: "length (b # buf) < length delim"
    proof (rule ccontr)
      assume "\<not> length (b # buf) < length delim"
      then have "take (length delim) ((b # buf) @ delim @ x) = take (length delim) (b # buf)" by (simp del: append_Cons)
      then show False using eq none(1) by simp
    qed
    have "set (take (length delim) ((b # buf) @ delim @ x)) \<subseteq> {CHR ''=''}" using eq by (simp add: delim_def)
    moreover have "last (b # buf) \<in> set (take (length delim) ((b # buf) @ delim @ x))"
      using short last_in_set [of "b # buf"] by (auto simp: take_append simp del: append_Cons last.simps)
    ultimately show False using Cons.prems by (auto simp: harmless_def)
  qed
  moreover have "harmless buf" using Cons.prems none(2) by (auto simp: harmless_def split: if_splits)
  ultimately show ?case using Cons.IH by simp
qed

lemma skip_harmless: "harmless buf \<Longrightarrow> skip_to_delimiter (buf @ delim @ x) = x"
  using find_sub_harmless [of buf x] by (simp add: skip_to_delimiter_def)

section \<open>Frames and rounds\<close>

lemma deliver_bytes_is_deliver:
  "\<exists>payload. length payload = length (receive_buffer_optimized l pid t) \<and> deliver_bytes NT KS VS l pid buf t = deliver l pid payload t \<and>
    (set (receive_buffer_optimized l pid t) \<subseteq> {..<length (levels t ! Suc l)} \<longrightarrow>
      (\<forall>x \<in> set (levels t ! Suc l). node_ok NT KS VS x) \<longrightarrow> (\<forall>x \<in> set payload. node_ok NT KS VS x))"
proof -
  have "distinct (receive_buffer_optimized l pid t)" by (simp add: receive_buffer_optimized_def)
  from copy_is_fill [OF this, of NT KS VS buf "levels t ! Suc l"] show ?thesis
    by (auto simp: deliver_bytes_def deliver_def)
qed

lemma receive_slots_in_range:
  assumes "eig_wf t" "l < hgt t" "pid < deg t"
  shows "set (receive_buffer_optimized l pid t) \<subseteq> {..<length (levels t ! Suc l)}"
proof -
  have "length (levels t ! Suc l) = deg t ^ Suc l" using eig_wf_level [OF assms(1), of "Suc l"] assms(2) by simp
  moreover have "pid * deg t ^ l + n < deg t ^ Suc l" if "n < deg t ^ l" for n
    using that segment_bound [OF assms(3), of l] by linarith
  ultimately show ?thesis using assms by (auto simp: receive_slots_eq set_relay_nodes)
qed

definition tree_nodes_ok :: "nat \<Rightarrow> nat \<Rightarrow> nat \<Rightarrow> nat \<Rightarrow> eig_node eig_tree \<Rightarrow> bool" where
  "tree_nodes_ok NT KS VS l t \<longleftrightarrow> (\<forall>x \<in> set (levels t ! l). node_ok NT KS VS x)"

lemma length_payload_bytes:
  assumes "\<forall>x \<in> set payload. node_ok NT KS VS x"
  shows "length (concat (map node_bytes payload)) = length payload * sizeof_node NT KS VS"
proof -
  have "\<forall>bs \<in> set (map node_bytes payload). length bs = sizeof_node NT KS VS" using assms node_decode(2) by auto
  from length_concat_same [OF this] show ?thesis by (simp add: mult.commute)
qed

lemma deliver_whole:
  assumes "eig_wf t" "l < hgt t" "pid < deg t" "tree_nodes_ok NT KS VS (Suc l) t"
    and "\<forall>x \<in> set payload. node_ok NT KS VS x" "length payload = length (receive_buffer_optimized l pid t)"
  shows "deliver_bytes NT KS VS l pid (concat (map node_bytes payload) @ rest) t = deliver l pid payload t"
  using copy_whole [OF assms(5) _ receive_slots_in_range [OF assms(1-3)] assms(6)] assms(4)
  by (simp add: deliver_bytes_def deliver_def tree_nodes_ok_def)

lemma unat_minus_of_nat:
  assumes "0 < n" "n < 2 ^ 64"
  shows "unat (- word_of_nat n :: u64) = 2 ^ 64 - n"
proof -
  have "(word_of_nat (2 ^ 64 - n) :: u64) + word_of_nat n = word_of_nat (2 ^ 64)"
    using assms(2) by (simp only: of_nat_add [symmetric]) simp
  also have "\<dots> = 0" by simp
  finally have "- word_of_nat n = (word_of_nat (2 ^ 64 - n) :: u64)" by (simp add: eq_neg_iff_add_eq_0 [symmetric])
  then show ?thesis using assms by (simp only:) (rule unat_of_nat_u64, simp)
qed

lemma intact_frame:
  assumes "eig_wf t" "l < hgt t" "pid < deg t" "tree_nodes_ok NT KS VS (Suc l) t" "payload_size NT KS VS l pid t < 2 ^ 64"
    and "harmless buf" "length payload = length (receive_buffer_optimized l pid t)" "\<forall>x \<in> set payload. node_ok NT KS VS x"
    and "a1 @ a2 = frame payload" "length delim \<le> length a1"
  shows "read_completes (payload_size NT KS VS l pid t) buf a1 a2"
    and "read_frame NT KS VS l pid buf a1 a2 t = (deliver l pid payload t, [])"
proof -
  let ?bs = "concat (map node_bytes payload)" and ?b = "drop (length delim) a1"
  have a1: "a1 = delim @ ?b"
    using assms(9,10) by (metis append_eq_append_conv_if append_take_drop_id frame_def)
  then have rest: "?b @ a2 = ?bs" using assms(9) by (metis append_assoc frame_def same_append_eq)
  have skip: "skip_to_delimiter (buf @ a1) = ?b" using skip_harmless [OF assms(6), of ?b] a1 by metis
  have found: "find_sub delim (buf @ a1) \<noteq> None" using find_sub_harmless [OF assms(6), of ?b] a1 by (metis option.distinct(1))
  have size: "length ?bs = payload_size NT KS VS l pid t"
    using length_payload_bytes [OF assms(8)] assms(7) by (simp add: payload_size_def)
  then have "payload_size NT KS VS l pid t = length ?b + length a2" using rest by (metis length_append)
  then have "transfer_size (payload_size NT KS VS l pid t) ?b = word_of_nat (length a2)" by (simp add: transfer_size_def)
  moreover have "length a2 < 2 ^ 64" using assms(5) size rest by (metis le_add2 length_append le_less_trans)
  ultimately show "read_completes (payload_size NT KS VS l pid t) buf a1 a2"
    using found skip by (simp add: read_completes_def unat_of_nat_u64)
  show "read_frame NT KS VS l pid buf a1 a2 t = (deliver l pid payload t, [])"
    using deliver_whole [OF assms(1-4,8,7), of "[]"] skip rest size by (simp add: read_frame_def Let_def)
qed

text \<open>C8 (bytes_refine_payloads): the rounds over bytes refine the rounds over nodes. Whatever a peer sends and however much of
  it arrives before the timer, the reader ends with the tree of \<open>deliver\<close> for some payload of nodes of the right length. If
  the bytes left in the buffer do not hide the delimiter and an intact frame with the right number of nodes arrives, in any two pieces of which
  the first holds the delimiter, then both reads end by themselves, the payload is the one that was sent and nothing is left over.\<close>

theorem bytes_refine_payloads:
  assumes "eig_wf t" "l < hgt t" "pid < deg t" "tree_nodes_ok NT KS VS (Suc l) t" "payload_size NT KS VS l pid t < 2 ^ 64"
  shows "(\<exists>payload. length payload = length (receive_buffer_optimized l pid t) \<and> (\<forall>x \<in> set payload. node_ok NT KS VS x) \<and>
      fst (read_frame NT KS VS l pid buf a1 a2 t) = deliver l pid payload t) \<and>
    (\<forall>payload. harmless buf \<and> length payload = length (receive_buffer_optimized l pid t) \<and> (\<forall>x \<in> set payload. node_ok NT KS VS x) \<and>
       a1 @ a2 = frame payload \<and> length delim \<le> length a1 \<longrightarrow>
       read_completes (payload_size NT KS VS l pid t) buf a1 a2 \<and>
       read_frame NT KS VS l pid buf a1 a2 t = (deliver l pid payload t, []))"
proof -
  have "\<exists>payload. length payload = length (receive_buffer_optimized l pid t) \<and> (\<forall>x \<in> set payload. node_ok NT KS VS x) \<and>
      fst (read_frame NT KS VS l pid buf a1 a2 t) = deliver l pid payload t"
    using deliver_bytes_is_deliver [of l pid t NT KS VS "skip_to_delimiter (buf @ a1) @ a2"] receive_slots_in_range [OF assms(1-3)] assms(4)
    unfolding read_frame_def Let_def tree_nodes_ok_def fst_conv by blast
  then show ?thesis using intact_frame [OF assms] by blast
qed

text \<open>C38 (early_frame_stalls): if more than the payload has arrived behind the delimiter, because the peer is ahead and its next frame
  follows immediately, the size of the second read wraps around: fewer than \<open>2^64\<close> bytes less the surplus do not complete it,
  so that the reader waits until its timer fires. The payload is then taken from the front of the buffer, and the surplus stays
  for the next round.\<close>

theorem early_frame_stalls:
  assumes "eig_wf t" "l < hgt t" "pid < deg t" "tree_nodes_ok NT KS VS (Suc l) t"
    and "harmless buf" "length payload = length (receive_buffer_optimized l pid t)" "\<forall>x \<in> set payload. node_ok NT KS VS x"
    and "surplus \<noteq> []" "length surplus < 2 ^ 64" "a1 = frame payload @ surplus"
  shows "(read_completes (payload_size NT KS VS l pid t) buf a1 a2 \<longrightarrow> length a2 + length surplus = 2 ^ 64) \<and>
    read_frame NT KS VS l pid buf a1 a2 t = (deliver l pid payload t, surplus @ a2)"
proof -
  let ?bs = "concat (map node_bytes payload)"
  have skip: "skip_to_delimiter (buf @ a1) = ?bs @ surplus"
    using skip_harmless [OF assms(5), of "?bs @ surplus"] assms(10) by (simp add: frame_def)
  have size: "length ?bs = payload_size NT KS VS l pid t"
    using length_payload_bytes [OF assms(7)] assms(6) by (simp add: payload_size_def)
  have "transfer_size (payload_size NT KS VS l pid t) (?bs @ surplus) = - word_of_nat (length surplus)"
    by (simp add: transfer_size_def size)
  moreover have "unat (- word_of_nat (length surplus) :: u64) = 2 ^ 64 - length surplus"
    using assms(8,9) by (intro unat_minus_of_nat) simp_all
  ultimately have "read_completes (payload_size NT KS VS l pid t) buf a1 a2 \<longrightarrow> length a2 + length surplus = 2 ^ 64"
    using assms(9) skip by (simp add: read_completes_def)
  moreover have "read_frame NT KS VS l pid buf a1 a2 t = (deliver l pid payload t, surplus @ a2)"
    using deliver_whole [OF assms(1-4,7,6), of "surplus @ a2"] skip size by (simp add: read_frame_def Let_def)
  ultimately show ?thesis by blast
qed

section \<open>A concrete frame\<close>

lemma demo_tree_facts:
  defines "t \<equiv> tree (demo_cluster 0)"
  shows "eig_wf t" "0 < hgt t" "1 < deg t" "tree_nodes_ok 1 1 1 (Suc 0) t" "length (receive_buffer_optimized 0 1 t) = 1"
proof -
  note new = demo_cluster_state(5) [of 0]
  show wf: "eig_wf t" unfolding t_def by (rule eig_new_wf [OF new])
  show h: "0 < hgt t" "1 < deg t" using eig_new_shape(2,3) [OF new] by (simp_all add: t_def)
  have "holds_in {zero_node 1 1 1} t" unfolding t_def by (rule holds_in_new [OF new]) simp
  moreover have "Suc 0 \<le> hgt t" using h(1) by simp
  ultimately have "set (levels t ! Suc 0) \<subseteq> {zero_node 1 1 1}" unfolding holds_in_def by blast
  then show "tree_nodes_ok 1 1 1 (Suc 0) t" using zero_node_ok [of 1 1 1] by (auto simp: tree_nodes_ok_def)
  show "length (receive_buffer_optimized 0 1 t) = 1"
    using receive_slots_eq [OF wf h] length_relay_nodes [OF h(2), of 0] by simp
qed

lemma demo_node_ok: "node_ok 1 1 1 (demo_node ''k'' ''x'' 7)"
  by (simp add: node_ok_def demo_node_def tuple_padding_def)

theorem bytes_refine_payloads_witness:
  "read_frame 1 1 1 0 1 ''ab'' (delim @ take 5 (node_bytes (demo_node ''k'' ''x'' 7))) (drop 5 (node_bytes (demo_node ''k'' ''x'' 7)))
     (tree (demo_cluster 0)) = (deliver 0 1 [demo_node ''k'' ''x'' 7] (tree (demo_cluster 0)), [])"
proof -
  have "payload_size 1 1 1 0 1 (tree (demo_cluster 0)) < 2 ^ 64"
    using demo_tree_facts(5) by (simp add: payload_size_def sizeof_node_def tuple_size_def tuple_padding_def)
  moreover have "harmless ''ab''" by (simp add: harmless_def delim_def numeral_eq_Suc)
  ultimately show ?thesis
    using bytes_refine_payloads [OF demo_tree_facts(1-4), of "''ab''" "delim @ take 5 (node_bytes (demo_node ''k'' ''x'' 7))"
        "drop 5 (node_bytes (demo_node ''k'' ''x'' 7))", THEN conjunct2, rule_format, of "[demo_node ''k'' ''x'' 7]"]
      demo_tree_facts(5) demo_node_ok
    by (simp add: frame_def)
qed

theorem early_frame_stalls_witness:
  "\<not> read_completes (payload_size 1 1 1 0 1 (tree (demo_cluster 0))) [] (frame [demo_node ''k'' ''x'' 7] @ delim) []"
proof -
  have "harmless []" "delim \<noteq> []" "length delim < 2 ^ 64" by (simp_all add: harmless_def delim_def)
  then show ?thesis
    using early_frame_stalls [OF demo_tree_facts(1-4), of "[]" "[demo_node ''k'' ''x'' 7]" delim "frame [demo_node ''k'' ''x'' 7] @ delim" "[]"]
      demo_tree_facts(5) demo_node_ok by auto
qed

end
