(* ===== verification/Bft_Connect.thy ===== *)
theory Bft_Connect imports Bft_Kvs begin

text \<open>
  How a process of \<^verbatim>\<open>BFTKVS\<close> (\<^verbatim>\<open>src/achal/bft_kvs.h\<close>) connects to its peers: it connects to each of them as a client, until it
  succeeds, and accepts as many clients as it has peers. The network is a parameter: the results of the attempts to
  connect, and the clients that arrive with the identifiers that they send. \<open>None\<close> is a failed assertion, or an
  attempt or an accept that never returns. Sockets are values of any type.
\<close>

section \<open>Connecting\<close>

text \<open>\<^verbatim>\<open>std::map::insert\<close> keeps an entry that is present.\<close>

definition insert_socket :: "u8 \<Rightarrow> 's \<Rightarrow> (u8 \<rightharpoonup> 's) \<Rightarrow> (u8 \<rightharpoonup> 's)" where
  "insert_socket k s m = (if m k = None then m(k \<mapsto> s) else m)"

text \<open>The attempts end with the first success.\<close>

fun connect_attempts :: "'s option list \<Rightarrow> 's option" where
  "connect_attempts [] = None"
| "connect_attempts (None # rest) = connect_attempts rest"
| "connect_attempts (Some s # rest) = Some s"

fun connect_peers :: "u8 \<Rightarrow> (int \<Rightarrow> 's option list) \<Rightarrow> int list \<Rightarrow> (u8 \<rightharpoonup> 's) \<Rightarrow> (u8 \<rightharpoonup> 's) option" where
  "connect_peers me attempts [] client = Some client"
| "connect_peers me attempts (p # ps) client =
     (if p = uint me then connect_peers me attempts ps client
      else case connect_attempts (attempts p) of
             None \<Rightarrow> None
           | Some s \<Rightarrow> connect_peers me attempts ps (insert_socket (word_of_int p) s client))"

text \<open>The assertions at the end of both functions, in both of them on the client map.\<close>

definition verify_client :: "u8 \<Rightarrow> nat \<Rightarrow> (u8 \<rightharpoonup> 's) \<Rightarrow> bool" where
  "verify_client me n client \<longleftrightarrow>
     list_all (\<lambda>i. int i \<noteq> uint me \<longrightarrow> client (word_of_nat i) \<noteq> None) [0..<n] \<and> client me = None"

definition connect_to_servers :: "u8 \<Rightarrow> (int \<Rightarrow> 's option list) \<Rightarrow> int list \<Rightarrow> (u8 \<rightharpoonup> 's) \<Rightarrow> (u8 \<rightharpoonup> 's) option" where
  "connect_to_servers me attempts peers client =
     (case connect_peers me attempts peers client of
        None \<Rightarrow> None
      | Some client' \<Rightarrow> if verify_client me (length peers) client' then Some client' else None)"

fun accept_loop :: "nat \<Rightarrow> nat \<Rightarrow> (u8 \<times> 's) list \<Rightarrow> (u8 \<rightharpoonup> 's) \<Rightarrow> (u8 \<rightharpoonup> 's) option" where
  "accept_loop 0 n arriving server = Some server"
| "accept_loop (Suc k) n [] server = None"
| "accept_loop (Suc k) n ((q, s) # rest) server =
     (if unat q < n \<and> server q = None then accept_loop k n rest (server(q \<mapsto> s)) else None)"

text \<open>Without peers the number of clients wraps around.\<close>

definition accept_clients :: "u8 \<Rightarrow> nat \<Rightarrow> (u8 \<times> 's) list \<Rightarrow> (u8 \<rightharpoonup> 's) \<Rightarrow> (u8 \<rightharpoonup> 's) \<Rightarrow> (u8 \<rightharpoonup> 's) option" where
  "accept_clients me n arriving client server =
     (if n = 0 then None
      else case accept_loop (n - 1) n arriving server of
             None \<Rightarrow> None
           | Some server' \<Rightarrow> if verify_client me n client then Some server' else None)"

section \<open>Connections of a cluster\<close>

lemma connect_attempts_some: "Some s \<in> set xs \<Longrightarrow> \<exists>s. connect_attempts xs = Some s"
  by (induction xs rule: connect_attempts.induct) auto

lemma dom_insert_socket: "dom (insert_socket k s m) = insert k (dom m)"
  by (auto simp: insert_socket_def)

lemma connect_peers_dom:
  assumes "\<forall>p \<in> set ps. p \<noteq> uint me \<longrightarrow> (\<exists>s. Some s \<in> set (attempts p))"
  shows "\<exists>client'. connect_peers me attempts ps client = Some client' \<and>
    dom client' = dom client \<union> word_of_int ` (set ps - {uint me})"
  using assms
proof (induction ps arbitrary: client)
  case (Cons p ps)
  show ?case
  proof (cases "p = uint me")
    case True
    then show ?thesis using Cons.IH [of client] Cons.prems by auto
  next
    case False
    then obtain s where "connect_attempts (attempts p) = Some s" using Cons.prems connect_attempts_some by fastforce
    then show ?thesis
      using False Cons.IH [of "insert_socket (word_of_int p) s client"] Cons.prems by (auto simp: dom_insert_socket)
  qed
qed simp

lemma accept_loop_dom:
  assumes "accept_loop k n arriving server = Some server'" "finite (dom server)"
  shows "dom server' = dom server \<union> fst ` set (take k arriving) \<and> card (dom server') = card (dom server) + k \<and>
    (\<forall>q \<in> dom server'. q \<in> dom server \<or> unat q < n)"
  using assms
proof (induction k n arriving server rule: accept_loop.induct)
  case (3 k n q s rest server)
  then have q: "unat q < n \<and> server q = None" and rest: "accept_loop k n rest (server(q \<mapsto> s)) = Some server'"
    by (auto split: if_splits)
  have fin: "finite (dom (server(q \<mapsto> s)))" using 3(3) by (simp only: dom_fun_upd) simp
  have d: "dom (server(q \<mapsto> s)) = insert q (dom server)" "q \<notin> dom server" using q by auto
  note ih = 3(1) [OF q rest fin, unfolded d(1)]
  then have "\<forall>p \<in> dom server'. p \<in> dom server \<or> unat p < n" using q by (metis insertE)
  moreover have "card (insert q (dom server)) = Suc (card (dom server))" using d(2) 3(3) by simp
  ultimately show ?case using ih by auto
qed simp_all

lemma accept_loop_some:
  assumes "distinct (map fst arriving)" "fst ` set arriving \<inter> dom server = {}" "\<forall>q \<in> fst ` set arriving. unat q < n" "k \<le> length arriving"
  shows "\<exists>server'. accept_loop k n arriving server = Some server'"
  using assms
proof (induction k n arriving server rule: accept_loop.induct)
  case (3 k n q s rest server)
  have q: "unat q < n \<and> server q = None" using 3(2-5) by auto
  have "dom (server(q \<mapsto> s)) = insert q (dom server)" by simp
  moreover have "q \<notin> fst ` set rest" "fst ` set rest \<inter> dom server = {}" using 3(2,3) by auto
  ultimately have disj: "fst ` set rest \<inter> dom (server(q \<mapsto> s)) = {}" by (simp only: Int_insert_right if_False)
  have "\<exists>server'. accept_loop k n rest (server(q \<mapsto> s)) = Some server'"
    using 3(2,4,5) by (intro 3(1) [OF q _ disj]) simp_all
  then show ?case using q by simp
qed simp_all

text \<open>The identifiers below \<open>n\<close> as 8-bit words.\<close>

abbreviation ids :: "nat \<Rightarrow> u8 set" where
  "ids n \<equiv> {q. unat q < n}"

lemma unat_u8: "i \<le> 255 \<Longrightarrow> unat (word_of_nat i :: u8) = i"
  by (simp add: unsigned_of_nat take_bit_nat_eq_self)

lemma ids_image: "n \<le> 255 \<Longrightarrow> ids n = word_of_nat ` {..<n}"
proof (intro subset_antisym subsetI)
  fix q :: u8 assume "q \<in> ids n"
  moreover have "q = word_of_nat (unat q)" by simp
  ultimately show "q \<in> word_of_nat ` {..<n}" by blast
next
  fix q :: u8 assume "n \<le> 255" "q \<in> word_of_nat ` {..<n}"
  then show "q \<in> ids n" using unat_u8 by auto
qed

lemma card_ids: "n \<le> 255 \<Longrightarrow> card (ids n) = n"
proof -
  assume n: "n \<le> 255"
  have "inj_on (word_of_nat :: nat \<Rightarrow> u8) {..<n}"
    by (rule inj_on_inverseI [of _ unat]) (use n in \<open>simp add: unat_u8\<close>)
  then show ?thesis unfolding ids_image [OF n] by (simp add: card_image)
qed

lemma same_id: "i < n \<Longrightarrow> n \<le> 255 \<Longrightarrow> int i = uint (me :: u8) \<longleftrightarrow> word_of_nat i = me"
proof
  assume "int i = uint me"
  then have "(word_of_int (int i) :: u8) = word_of_int (uint me)" by (simp only:)
  then show "word_of_nat i = me" by simp
next
  assume *: "i < n" "n \<le> 255" "word_of_nat i = me"
  have "unat me = i" unfolding *(3) [symmetric] using *(1,2) by (intro unat_u8) simp
  then show "int i = uint me" by (simp only: uint_nat)
qed

lemma verify_client_iff:
  assumes "n \<le> 255"
  shows "verify_client me n client \<longleftrightarrow> ids n - {me} \<subseteq> dom client \<and> me \<notin> dom client"
proof -
  have "ids n - {me} \<subseteq> dom client \<longleftrightarrow> (\<forall>i < n. word_of_nat i \<noteq> me \<longrightarrow> client (word_of_nat i) \<noteq> None)"
    unfolding ids_image [OF assms] by auto
  moreover have "verify_client me n client \<longleftrightarrow> (\<forall>i < n. int i \<noteq> uint me \<longrightarrow> client (word_of_nat i) \<noteq> None) \<and> me \<notin> dom client"
    by (simp only: verify_client_def list_all_iff set_upt atLeastLessThan_iff le0 simp_thms domIff Ball_def)
  moreover have "(\<forall>i < n. int i \<noteq> uint me \<longrightarrow> Q i) \<longleftrightarrow> (\<forall>i < n. word_of_nat i \<noteq> me \<longrightarrow> Q i)" for Q
  proof -
    have "(int i \<noteq> uint me \<longrightarrow> Q i) \<longleftrightarrow> (word_of_nat i \<noteq> me \<longrightarrow> Q i)" if "i < n" for i
      by (simp only: same_id [OF that assms, of me])
    then show ?thesis by blast
  qed
  ultimately show ?thesis by (simp only:)
qed

lemma other_peers: "n \<le> 255 \<Longrightarrow> word_of_int ` (set (map int [0..<n]) - {uint me}) = ids n - {me}"
proof -
  assume n: "n \<le> 255"
  have "set (map int [0..<n]) - {uint me} = int ` {i. i < n \<and> int i \<noteq> uint me}" by auto
  then have "word_of_int ` (set (map int [0..<n]) - {uint me}) = word_of_nat ` {i. i < n \<and> int i \<noteq> uint me}"
    by (simp only: image_image of_int_of_nat_eq)
  also have "\<dots> = ids n - {me}" unfolding ids_image [OF n] using same_id [OF _ n] by auto
  finally show ?thesis .
qed

text \<open>C36 (cluster_connects): a process whose peers all answer sooner or later, and to which each of them connects once with its own
  identifier, in any order, passes all assertions and has a connection in each direction with every other process.\<close>

theorem cluster_connects:
  assumes n: "n \<le> 255" and answers: "\<forall>i < n. \<exists>s. Some s \<in> set (attempts (int i))"
    and me: "unat me < n" and arriving: "distinct (map fst arriving)" "fst ` set arriving = {q. unat q < n} - {me}"
  shows "\<exists>client server. connect_to_servers me attempts (map int [0..<n]) Map.empty = Some client \<and>
    accept_clients me n arriving client Map.empty = Some server \<and>
    dom client = {q. unat q < n} - {me} \<and> dom server = {q. unat q < n} - {me}"
proof -
  have "\<forall>p \<in> set (map int [0..<n]). p \<noteq> uint me \<longrightarrow> (\<exists>s. Some s \<in> set (attempts p))" using answers by auto
  then obtain client where c: "connect_peers me attempts (map int [0..<n]) Map.empty = Some client"
    and dom_c: "dom client = ids n - {me}"
    using connect_peers_dom [of "map int [0..<n]" me attempts Map.empty] unfolding other_peers [OF n] by auto
  have v: "verify_client me n client" using dom_c by (simp add: verify_client_iff [OF n])
  have "length arriving = card (ids n - {me})" using arriving distinct_card [OF arriving(1)] by simp
  then have len: "length arriving = n - 1" using me card_ids [OF n] by (simp add: card_Diff_singleton)
  have "\<exists>server. accept_loop (n - 1) n arriving Map.empty = Some server"
  proof (rule accept_loop_some [OF arriving(1)])
    show "\<forall>q \<in> fst ` set arriving. unat q < n" unfolding arriving(2) by simp
  qed (simp_all add: len)
  then obtain server where s: "accept_loop (n - 1) n arriving Map.empty = Some server" by blast
  have "take (n - 1) arriving = arriving" using len by (intro take_all) simp
  then have "dom server = dom Map.empty \<union> fst ` set arriving"
    using accept_loop_dom [OF s, THEN conjunct1] by (simp only: dom_empty finite.emptyI simp_thms)
  then have "dom server = ids n - {me}" unfolding arriving(2) by simp
  moreover have "connect_to_servers me attempts (map int [0..<n]) Map.empty = Some client"
    unfolding connect_to_servers_def c using v by simp
  moreover have "accept_clients me n arriving client Map.empty = Some server"
    unfolding accept_clients_def s using v me by simp
  ultimately show ?thesis using dom_c by blast
qed

text \<open>Lemma (impostor_accepted): the assertions of \<open>accept_clients\<close> look at the connections of the client role only. A client that sends the
  identifier of the accepting process is accepted, and then some other process has no connection, which no assertion notices.\<close>

theorem impostor_accepted:
  assumes acc: "accept_clients me n arriving client Map.empty = Some server" and n: "n \<le> 255"
    and fake: "me \<in> fst ` set (take (n - 1) arriving)"
  shows "server me \<noteq> None \<and> (\<exists>q. unat q < n \<and> q \<noteq> me \<and> server q = None)"
proof -
  have s: "accept_loop (n - 1) n arriving Map.empty = Some server" and pos: "0 < n"
    using acc by (auto simp: accept_clients_def split: if_splits option.splits)
  have d: "me \<in> dom server" "card (dom server) = n - 1" "dom server \<subseteq> ids n"
    using accept_loop_dom [OF s] fake by auto
  have "\<not> ids n \<subseteq> dom server"
  proof
    assume "ids n \<subseteq> dom server"
    then have "card (ids n) \<le> card (dom server)" by (intro card_mono) simp_all
    then show False using card_ids [OF n] d(2) pos by simp
  qed
  then show ?thesis using d(1) by auto
qed

section \<open>A concrete cluster\<close>

theorem cluster_connects_witness:
  "\<exists>client server. connect_to_servers 1 (\<lambda>_. [None, Some ()]) (map int [0..<3]) Map.empty = Some client \<and>
     accept_clients 1 3 [(2, ()), (0, ())] client Map.empty = Some server \<and> dom client = {q. unat q < 3} - {1}"
proof -
  have "q = 0 \<or> q = 1 \<or> q = 2" if "unat q < 3" for q :: u8
  proof -
    have "unat q = 0 \<or> unat q = 1 \<or> unat q = 2" using that by linarith
    then show ?thesis by (simp add: word_unat_eq_iff)
  qed
  then have "fst ` set [(2, ()), (0 :: u8, ())] = {q. unat q < 3} - {1}" by auto
  then show ?thesis
    using cluster_connects [of 3 "\<lambda>_. [None, Some ()]" 1 "[(2, ()), (0, ())]"] by auto
qed

theorem impostor_accepted_witness:
  "\<exists>server. accept_clients 1 3 [(2, ()), (1, ())] [2 \<mapsto> (), 0 \<mapsto> ()] Map.empty = Some server \<and> (\<exists>q. unat q < 3 \<and> q \<noteq> 1 \<and> server q = None)"
proof -
  have "accept_loop (Suc (Suc 0)) 3 [(2, ()), (1, ())] Map.empty = Some [2 \<mapsto> (), 1 \<mapsto> ()]" by simp
  moreover have "Suc (Suc 0) = 3 - 1" by simp
  ultimately have "accept_loop (3 - 1) 3 [(2, ()), (1, ())] Map.empty = Some [2 \<mapsto> (), 1 \<mapsto> ()]" by (simp only:)
  moreover have "verify_client 1 3 [2 \<mapsto> (), 0 \<mapsto> ()]" by (simp add: verify_client_def upt_rec)
  ultimately obtain server where s: "accept_clients 1 3 [(2, ()), (1, ())] [2 \<mapsto> (), 0 \<mapsto> ()] Map.empty = Some server"
    by (simp add: accept_clients_def del: accept_loop.simps)
  then show ?thesis using impostor_accepted [OF s] by simp
qed

end
