(* ===== verification/Decimal.thy ===== *)
theory Decimal imports Prelude begin

text \<open>
  Decimal texts of the C++ standard library that the sources rely on: \<^verbatim>\<open>std::to_string\<close> and
  stream output of integers, and \<^verbatim>\<open>std::stoull\<close>, which reads the longest prefix of digits
  and throws when there is none or when the number does not fit.
\<close>

definition digit_char :: "nat \<Rightarrow> char" where
  "digit_char n = char_of (48 + n)"

definition is_digit :: "char \<Rightarrow> bool" where
  "is_digit c \<longleftrightarrow> 48 \<le> (of_char c :: nat) \<and> (of_char c :: nat) \<le> 57"

definition digit_of :: "char \<Rightarrow> nat" where
  "digit_of c = of_char c - 48"

fun dec :: "nat \<Rightarrow> string" where
  "dec n = (if n < 10 then [digit_char n] else dec (n div 10) @ [digit_char (n mod 10)])"

declare dec.simps [simp del]

definition dec_int :: "int \<Rightarrow> string" where
  "dec_int i = (if i < 0 then ''-'' @ dec (nat (- i)) else dec (nat i))"

definition undec :: "string \<Rightarrow> nat" where
  "undec = foldl (\<lambda>n c. n * 10 + digit_of c) 0"

definition stoull :: "string \<Rightarrow> u64 option" where
  "stoull s =
     (let ds = takeWhile is_digit s
      in if ds = [] \<or> undec ds \<ge> 2 ^ 64 then None else Some (word_of_nat (undec ds)))"

lemma digit_chars:
  "digit_char 0 = CHR ''0''" "digit_char 1 = CHR ''1''" "digit_char 2 = CHR ''2''" "digit_char 3 = CHR ''3''"
  "digit_char 4 = CHR ''4''" "digit_char 5 = CHR ''5''" "digit_char 6 = CHR ''6''" "digit_char 7 = CHR ''7''"
  "digit_char 8 = CHR ''8''" "digit_char 9 = CHR ''9''"
  by code_simp+

lemma of_char_digit: "n < 10 \<Longrightarrow> (of_char (digit_char n) :: nat) = 48 + n"
  by (simp add: digit_char_def)

lemma is_digit_digit [simp]: "n < 10 \<Longrightarrow> is_digit (digit_char n)"
  by (simp add: is_digit_def of_char_digit)

lemma digit_of_digit [simp]: "n < 10 \<Longrightarrow> digit_of (digit_char n) = n"
  by (simp add: digit_of_def of_char_digit)

lemma dec_digits: "\<forall>c \<in> set (dec n). is_digit c"
  by (induction n rule: dec.induct) (subst dec.simps, auto)

lemma dec_not_empty [simp]: "dec n \<noteq> []"
  by (subst dec.simps) simp

lemma undec_snoc: "undec (s @ [c]) = undec s * 10 + digit_of c"
  by (simp add: undec_def)

lemma undec_dec [simp]: "undec (dec n) = n"
proof (induction n rule: dec.induct)
  case (1 n)
  show ?case
  proof (cases "n < 10")
    case True
    then show ?thesis by (subst dec.simps) (simp add: undec_def)
  next
    case False
    then show ?thesis using 1 by (subst dec.simps) (simp add: undec_snoc)
  qed
qed

lemma dec_inj: "dec m = dec n \<longleftrightarrow> m = n"
  by (metis undec_dec)

lemma stoull_dec: "stoull (dec (unat t)) = Some t"
proof -
  have tw: "takeWhile is_digit (dec (unat t)) = dec (unat t)"
    using dec_digits by (simp only: takeWhile_eq_all_conv)
  show ?thesis unfolding stoull_def Let_def tw using unat_lt_u64 [of t] by simp
qed

section \<open>The order of texts and the order of numbers\<close>

definition text_less :: "string \<Rightarrow> string \<Rightarrow> bool" where
  "text_less s t \<longleftrightarrow> (s, t) \<in> lexord {(a, b). (of_char a :: nat) < of_char b}"

lemma digit_of_le: "is_digit c \<Longrightarrow> digit_of c \<le> 9"
  unfolding is_digit_def digit_of_def by linarith

lemma undec_lt:
  assumes "\<forall>c \<in> set s. is_digit c"
  shows "undec s < 10 ^ length s"
  using assms
proof (induction s rule: rev_induct)
  case (snoc c s)
  then have "undec s < 10 ^ length s" "digit_of c \<le> 9" by (simp_all add: digit_of_le)
  then have "undec s * 10 + digit_of c < 10 ^ length s * 10" by linarith
  then show ?case by (simp add: undec_snoc mult.commute)
qed (simp add: undec_def)

lemma undec_append: "undec (s @ t) = undec s * 10 ^ length t + undec t"
proof (induction t rule: rev_induct)
  case (snoc c t)
  then show ?case by (simp flip: append_assoc add: undec_snoc algebra_simps)
qed (simp add: undec_def)

lemma undec_cons: "undec (c # s) = digit_of c * 10 ^ length s + undec s"
  using undec_append [of "[c]" s] by (simp add: undec_def)

text \<open>Texts of equal length compare like the numbers they denote.\<close>

lemma text_less_undec:
  assumes "length s = length t" "\<forall>c \<in> set s. is_digit c" "\<forall>c \<in> set t. is_digit c"
  shows "text_less s t \<longleftrightarrow> undec s < undec t"
  using assms
proof (induction s t rule: list_induct2)
  case (Cons a s b t)
  have ab: "of_char a = 48 + digit_of a" "of_char b = 48 + digit_of b"
    using Cons.prems by (simp_all add: digit_of_def is_digit_def)
  have lt: "undec s < 10 ^ length s" "undec t < 10 ^ length s"
    using undec_lt [of s] undec_lt [of t] Cons by simp_all
  have IH: "text_less s t \<longleftrightarrow> undec s < undec t" using Cons by simp
  have less: "digit_of x * 10 ^ length s + undec u < digit_of y * 10 ^ length s + undec v"
    if "digit_of x < digit_of y" "undec u < 10 ^ length s" for x y :: char and u v
  proof -
    have "Suc (digit_of x) * 10 ^ length s \<le> digit_of y * 10 ^ length s"
      using that(1) by (intro mult_le_mono1) simp
    then show ?thesis using that(2) by simp
  qed
  consider "digit_of a < digit_of b" | "digit_of b < digit_of a" | "digit_of a = digit_of b" by linarith
  then show ?case
  proof cases
    case 1
    then show ?thesis
      using less [OF 1 lt(1), of t] Cons.hyps ab by (simp add: text_less_def undec_cons)
  next
    case 2
    then have "a \<noteq> b" by auto
    then show ?thesis
      using less [OF 2 lt(2), of s] Cons.hyps ab 2 by (simp add: text_less_def undec_cons)
  next
    case 3
    then have "(of_char a :: nat) = of_char b" using ab by simp
    then have "a = b" by simp
    then show ?thesis using IH Cons.hyps by (simp add: text_less_def undec_cons)
  qed
qed (simp add: text_less_def)

lemma text_less_dec:
  assumes "length (dec m) = length (dec n)"
  shows "text_less (dec m) (dec n) \<longleftrightarrow> m < n"
  using text_less_undec [OF assms dec_digits dec_digits] by simp

lemma text_less_append: "text_less (p @ s) (p @ t) \<longleftrightarrow> text_less s t"
  by (induction p) (simp_all add: text_less_def)

end
