(* ===== verification/Etcd_Kvs.thy ===== *)
theory Etcd_Kvs imports Kvs_Interface Decimal begin

text \<open>
  The store on top of etcd, \<^verbatim>\<open>src/achal/etcd_kvs.cpp\<close>, and the addresses of
  \<^verbatim>\<open>src/achal/tcp/client.h\<close>. The etcd server is not part of the sources: its state is a type
  parameter and the two calls that are used, the listing of a directory and the creation of a
  key with a time to live, are the fields of \<open>etcd_api\<close>. An uncaught exception of
  \<^verbatim>\<open>std::stoull\<close> or \<^verbatim>\<open>substr\<close>, or a failed assertion, is \<open>Inl ()\<close>.
\<close>

section \<open>Nodes\<close>

record tcp_node =
  ip :: string
  port :: string

definition node_name :: "tcp_node \<Rightarrow> string" where
  "node_name n = ip n @ ''::'' @ port n"

definition get_uri :: "tcp_node \<Rightarrow> string" where
  "get_uri n = ''tcp://'' @ ip n @ '':'' @ port n"

definition get_url :: "tcp_node \<Rightarrow> string" where
  "get_url n = ''http://'' @ ip n @ '':'' @ port n"

section \<open>The store\<close>

record 'e etcd_api =
  ls :: "string \<Rightarrow> 'e \<Rightarrow> (string \<times> string) list"
  set_ttl :: "string \<Rightarrow> string \<Rightarrow> nat \<Rightarrow> 'e \<Rightarrow> bool \<times> 'e"

record 'e etcd_kvs =
  etcd_num_jobs :: u64
  etcd_max_jobs :: u64
  local_port :: string
  all_ports :: "string list"
  use_simple_median :: bool
  server :: 'e

definition etcd_port :: string where
  "etcd_port = ''2379''"

definition ttl_sec :: nat where
  "ttl_sec = 20"

text \<open>The constructor asserts that the connection to the local server succeeds.\<close>

definition etcd_new :: "(string \<Rightarrow> 'e option) \<Rightarrow> u64 \<Rightarrow> u32 \<Rightarrow> tcp_node list \<Rightarrow> 'e etcd_kvs option" where
  "etcd_new get_etcd_client max_jobs prt peers_minus_self =
     (case get_etcd_client (''http://127.0.0.1:'' @ etcd_port) of
        None \<Rightarrow> None
      | Some client \<Rightarrow>
          Some \<lparr>etcd_num_jobs = 0, etcd_max_jobs = max_jobs, local_port = dec (unat prt),
                all_ports = dec (unat prt) # map port peers_minus_self, use_simple_median = False,
                server = client\<rparr>)"

definition etcd_job :: "'e etcd_kvs \<Rightarrow> 'e etcd_kvs" where
  "etcd_job s = s\<lparr>etcd_num_jobs := etcd_num_jobs s + 1\<rparr>"

definition etcd_terminate :: "'e etcd_kvs \<Rightarrow> bool" where
  "etcd_terminate s \<longleftrightarrow> etcd_num_jobs s \<ge> etcd_max_jobs s"

definition etcd_update_fuse_function :: "'e etcd_kvs \<Rightarrow> 'e etcd_kvs" where
  "etcd_update_fuse_function s = s\<lparr>use_simple_median := True\<rparr>"

definition etcd_dir :: "string \<Rightarrow> string \<Rightarrow> string" where
  "etcd_dir prt key = ''/'' @ prt @ '':'' @ key @ ''/''"

text \<open>The loop over a listing. \<open>max_published_time\<close> is the lower bound and stays it.\<close>

fun scan_listing :: "u64 \<Rightarrow> u64 \<Rightarrow> u64 \<Rightarrow> nat \<Rightarrow> (string \<times> string) list \<Rightarrow> bool \<Rightarrow> string \<Rightarrow> unit + (bool \<times> string)" where
  "scan_listing no_earlier_than now max_published_time skip [] found max_published_value = Inr (found, max_published_value)"
| "scan_listing no_earlier_than now max_published_time skip ((k, v) # vs) found max_published_value =
     (if skip > length k then Inl () else
      case stoull (drop skip k) of
        None \<Rightarrow> Inl ()
      | Some time \<Rightarrow>
          if no_earlier_than \<le> time \<and> time \<le> now
          then scan_listing no_earlier_than now max_published_time skip vs True
                 (if time \<ge> max_published_time then v else max_published_value)
          else scan_listing no_earlier_than now max_published_time skip vs found max_published_value)"

fun etcd_candidates :: "'e etcd_api \<Rightarrow> 'e \<Rightarrow> u64 \<Rightarrow> string \<Rightarrow> u64 \<Rightarrow> string list \<Rightarrow> unit + string list" where
  "etcd_candidates api e now key no_earlier_than [] = Inr []"
| "etcd_candidates api e now key no_earlier_than (p # ps) =
     (case scan_listing no_earlier_than now no_earlier_than (length key + length p + 3) (ls api (etcd_dir p key) e) False '''' of
        Inl x \<Rightarrow> Inl x
      | Inr (found, v) \<Rightarrow>
          (case etcd_candidates api e now key no_earlier_than ps of
             Inl x \<Rightarrow> Inl x
           | Inr cs \<Rightarrow> Inr (if found then v # cs else cs)))"

definition etcd_try_read :: "'e etcd_api \<Rightarrow> (string \<Rightarrow> 'd :: linorder option) \<Rightarrow> ('d \<Rightarrow> 'd \<Rightarrow> 'd) \<Rightarrow> ('d \<Rightarrow> string)
    \<Rightarrow> 'e etcd_kvs \<Rightarrow> u64 \<Rightarrow> string \<Rightarrow> u64 \<Rightarrow> unit + string option" where
  "etcd_try_read api stod avg to_string s now key no_earlier_than =
     (if no_earlier_than > now then Inr None
      else case etcd_candidates api (server s) now key no_earlier_than (all_ports s) of
             Inl x \<Rightarrow> Inl x
           | Inr cs \<Rightarrow> fuse_redundant_values stod avg to_string (use_simple_median s) cs)"

definition etcd_try_write :: "'e etcd_api \<Rightarrow> u64 \<Rightarrow> string \<Rightarrow> u64 \<Rightarrow> string \<Rightarrow> 'e etcd_kvs \<Rightarrow> (bool \<times> 'e etcd_kvs) option" where
  "etcd_try_write api now key publish_time val s =
     (if publish_time \<le> now then Some (False, s)
      else let (ok, e) = set_ttl api (etcd_dir (local_port s) key @ dec (unat publish_time)) val ttl_sec (server s)
           in Some (ok, s\<lparr>server := e\<rparr>))"

text \<open>What a read returns when it returns at all.\<close>

definition returned :: "unit + string option \<Rightarrow> string option" where
  "returned r = (case r of Inl _ \<Rightarrow> None | Inr v \<Rightarrow> v)"

interpretation etcd: kvs "\<lambda>s now k nv. returned (etcd_try_read api stod avg to_string s now k nv)"
    "etcd_try_write api" "\<lambda>s. local_port s \<in> set (all_ports s)" for api stod avg to_string
  by unfold_locales (auto simp: etcd_try_read_def etcd_try_write_def returned_def split: if_splits prod.splits)

section \<open>What a listing yields\<close>

text \<open>Listings of a directory that \<^verbatim>\<open>try_write\<close> filled: publish times under the directory's
  name. etcd lists keys in the order of their texts.\<close>

definition listing :: "string \<Rightarrow> (u64 \<times> string) list \<Rightarrow> (string \<times> string) list" where
  "listing dir entries = map (\<lambda>(t, v). (dir @ dec (unat t), v)) entries"

definition in_window :: "u64 \<Rightarrow> u64 \<Rightarrow> (u64 \<times> string) list \<Rightarrow> (u64 \<times> string) list" where
  "in_window nv now entries = filter (\<lambda>(t, v). nv \<le> t \<and> t \<le> now) entries"

definition key_ordered :: "string \<Rightarrow> (u64 \<times> string) list \<Rightarrow> bool" where
  "key_ordered dir entries \<longleftrightarrow> sorted_wrt text_less (map fst (listing dir entries))"

definition newest_in :: "u64 \<Rightarrow> u64 \<Rightarrow> (u64 \<times> string) list \<Rightarrow> string option" where
  "newest_in nv now entries =
     (if in_window nv now entries = [] then None
      else map_of entries (Max (fst ` set (in_window nv now entries))))"

lemma scan_listing_last:
  assumes "length dir = skip"
  shows "scan_listing nv now nv skip (listing dir entries) found v =
    Inr (if in_window nv now entries = [] then (found, v) else (True, snd (last (in_window nv now entries))))"
proof (induction entries arbitrary: found v)
  case Nil
  then show ?case by (simp add: listing_def in_window_def)
next
  case (Cons e entries)
  obtain t w where e: "e = (t, w)" by (cases e)
  have "scan_listing nv now nv skip (listing dir (e # entries)) found v =
      (if nv \<le> t \<and> t \<le> now then scan_listing nv now nv skip (listing dir entries) True w
       else scan_listing nv now nv skip (listing dir entries) found v)"
    using assms by (simp add: listing_def e stoull_dec)
  then show ?case by (auto simp: Cons.IH e in_window_def)
qed

lemma key_ordered_times:
  assumes "key_ordered dir entries" "\<forall>(t, v) \<in> set entries. length (dec (unat t)) = n"
  shows "sorted_wrt (<) (map fst entries)"
  using assms
proof (induction entries)
  case (Cons e entries)
  obtain t v where e: "e = (t, v)" by (cases e)
  have "t < t'" if "(t', v') \<in> set entries" for t' v'
  proof -
    have "text_less (dir @ dec (unat t)) (dir @ dec (unat t'))"
      using Cons.prems(1) that e by (force simp: key_ordered_def listing_def)
    moreover have "length (dec (unat t)) = length (dec (unat t'))" using Cons.prems(2) that e by fastforce
    ultimately show ?thesis by (simp add: text_less_append text_less_dec word_less_nat_alt)
  qed
  then show ?case using Cons e by (auto simp: key_ordered_def listing_def)
qed simp

lemma last_is_newest:
  assumes "sorted_wrt (<) (map fst entries)" "in_window nv now entries \<noteq> []"
  shows "newest_in nv now entries = Some (snd (last (in_window nv now entries)))"
proof -
  let ?w = "in_window nv now entries"
  have w: "sorted_wrt (<) (map fst ?w)"
    using assms(1) by (simp add: in_window_def sorted_wrt_map sorted_wrt_filter)
  then have sorted: "sorted (map fst ?w)" by (rule sorted_wrt_mono_rel [rotated]) simp
  have last: "last ?w \<in> set ?w" using assms(2) by simp
  have "Max (fst ` set ?w) = fst (last ?w)"
  proof (rule Max_eqI)
    fix t assume "t \<in> fst ` set ?w"
    then have "t \<in> set (map fst ?w)" by simp
    then have "t \<le> last (map fst ?w)" using sorted assms(2)
      by (metis in_set_conv_nth last_conv_nth less_Suc_eq_le list.size(3) map_is_Nil_conv not_less_zero
          One_nat_def Suc_pred diff_less length_greater_0_conv lessI sorted_nth_mono zero_less_one)
    then show "t \<le> fst (last ?w)" using assms(2) by (simp add: last_map)
  qed (use last in auto)
  moreover have "distinct (map fst entries)" using assms(1) strict_sorted_iff by blast
  moreover have "last ?w \<in> set entries" using last by (simp add: in_window_def)
  ultimately show ?thesis
    using assms(2) by (simp add: newest_in_def)
qed

lemma etcd_candidates_listings:
  assumes "\<forall>p \<in> set ps. ls api (etcd_dir p key) e = listing (etcd_dir p key) (ents p)"
  shows "etcd_candidates api e now key nv ps = Inr (List.map_filter
    (\<lambda>p. if in_window nv now (ents p) = [] then None else Some (snd (last (in_window nv now (ents p))))) ps)"
  using assms
proof (induction ps)
  case (Cons p ps)
  have "length (etcd_dir p key) = length key + length p + 3" by (simp add: etcd_dir_def)
  then show ?case using Cons by (simp add: scan_listing_last List.map_filter_simps)
qed (simp add: List.map_filter_simps)

text \<open>C34 (etcd_read_majority): with two to four replicas whose directories list what was
  published under publish times of the same number of digits, a read without the median returns
  a value that is the newest in the window at more than half of the replicas.\<close>

theorem etcd_read_majority:
  assumes "\<forall>p \<in> set (all_ports s). ls api (etcd_dir p key) (server s) = listing (etcd_dir p key) (ents p) \<and>
      key_ordered (etcd_dir p key) (ents p) \<and> (\<forall>(t, v) \<in> set (ents p). length (dec (unat t)) = digits)"
    and "\<not> use_simple_median s" "nv \<le> now" "2 \<le> length (all_ports s)" "length (all_ports s) \<le> 4"
    and "length (all_ports s) < 2 * count_list (map (\<lambda>p. newest_in nv now (ents p)) (all_ports s)) (Some v)"
  shows "etcd_try_read api stod avg to_string s now key nv = Inr (Some v)"
proof -
  let ?f = "\<lambda>p. if in_window nv now (ents p) = [] then None else Some (snd (last (in_window nv now (ents p))))"
  have "newest_in nv now (ents p) = ?f p" if "p \<in> set (all_ports s)" for p
  proof (cases "in_window nv now (ents p) = []")
    case True
    then show ?thesis by (simp add: newest_in_def)
  next
    case False
    have "sorted_wrt (<) (map fst (ents p))" using assms(1) that key_ordered_times by blast
    then show ?thesis using False last_is_newest by simp
  qed
  then have eq: "map (\<lambda>p. newest_in nv now (ents p)) (all_ports s) = map ?f (all_ports s)" by simp
  then have "fuse_redundant_values stod avg to_string False (List.map_filter ?f (all_ports s)) = Inr (Some v)"
    using assms(4,5) assms(6) [unfolded eq] by (intro replicas_vote)
  moreover have "etcd_candidates api (server s) now key nv (all_ports s) = Inr (List.map_filter ?f (all_ports s))"
    using assms(1) by (intro etcd_candidates_listings) blast
  ultimately show ?thesis using assms(2,3) by (simp add: etcd_try_read_def)
qed

text \<open>Lemma (etcd_takes_last_listed): \<^verbatim>\<open>max_published_time\<close> is never raised, so a port's candidate is
  the last entry of the listing in the window. Since keys are ordered as texts, an older value
  wins as soon as the publish times differ in their number of digits.\<close>

theorem etcd_takes_last_listed:
  "key_ordered dir [(10, new), (9, old)] \<and>
   scan_listing 5 20 5 (length dir) (listing dir [(10, new), (9, old)]) False '''' = Inr (True, old) \<and>
   newest_in 5 20 [(10, new), (9, old)] = Some new"
proof -
  have d: "dec 10 = ''10''" "dec 9 = ''9''" by (simp_all add: dec.simps digit_chars [unfolded One_nat_def])
  have "text_less (dir @ ''10'') (dir @ ''9'')"
    unfolding text_less_append by (simp add: text_less_def of_char_def)
  then have "key_ordered dir [(10, new), (9, old)]" by (simp add: key_ordered_def listing_def d)
  moreover have "in_window 5 20 [(10, new), (9, old)] = [(10, new), (9, old)]" by (simp add: in_window_def)
  ultimately show ?thesis by (simp add: scan_listing_last newest_in_def)
qed

definition demo_etcd_api :: "(string \<Rightarrow> (u64 \<times> string) list) etcd_api" where
  "demo_etcd_api = \<lparr>ls = (\<lambda>dir e. listing dir (e dir)), set_ttl = (\<lambda>k v ttl e. (True, e))\<rparr>"

definition demo_etcd :: "(string \<Rightarrow> (u64 \<times> string) list) etcd_kvs" where
  "demo_etcd = \<lparr>etcd_num_jobs = 0, etcd_max_jobs = 9, local_port = ''1'', all_ports = [''1'', ''2'', ''3''],
     use_simple_median = False, server = (\<lambda>dir. if dir = etcd_dir ''3'' ''k'' then [(6, ''x'')] else [(5, ''u''), (7, ''v'')])\<rparr>"

theorem etcd_read_majority_witness:
  "etcd_try_read demo_etcd_api (\<lambda>_. None :: int option) (\<lambda>a b. a) (\<lambda>_. '''') demo_etcd 8 ''k'' 4 = Inr (Some ''v'')"
proof (rule etcd_read_majority)
  let ?ents = "\<lambda>p. if p = ''3'' then [(6 :: u64, ''x'')] else [(5, ''u''), (7, ''v'')]"
  have dir: "etcd_dir p k = etcd_dir p' k \<longleftrightarrow> p = p'" for p p' k by (simp add: etcd_dir_def)
  have d: "dec 5 = ''5''" "dec 6 = ''6''" "dec 7 = ''7''" by (simp_all add: dec.simps digit_chars)
  have t: "text_less ''5'' ''7''" by (simp add: text_less_def of_char_def)
  show "\<forall>p \<in> set (all_ports demo_etcd). ls demo_etcd_api (etcd_dir p ''k'') (server demo_etcd) = listing (etcd_dir p ''k'') (?ents p) \<and>
      key_ordered (etcd_dir p ''k'') (?ents p) \<and> (\<forall>(t, v) \<in> set (?ents p). length (dec (unat t)) = 1)"
    by (simp add: demo_etcd_def demo_etcd_api_def dir key_ordered_def listing_def d text_less_append t)
  show "length (all_ports demo_etcd) <
      2 * count_list (map (\<lambda>p. newest_in 4 8 (?ents p)) (all_ports demo_etcd)) (Some ''v'')"
    by (simp add: demo_etcd_def newest_in_def in_window_def)
qed (simp_all add: demo_etcd_def)

end
