(* ===== verification/Redis_Kvs.thy ===== *)
theory Redis_Kvs imports Etcd_Kvs Complex_Main begin

text \<open>
  The two stores on top of Redis, \<^verbatim>\<open>src/achal/redis_kvs.cpp\<close>: one local server, or a local and
  several remote servers whose answers are put to the vote. The servers are not part of the
  sources: their state is a type parameter, and the four sorted-set commands that are used are
  the fields of \<open>redis_api\<close>. What Redis documents of them is \<open>redis_laws\<close>: a key holds members
  with scores in ascending order of score, and a member occurs once, so that adding it again
  moves it. Scores are doubles: \<open>to_double\<close> is the rounding of a publish time.
\<close>

record 'r redis_api =
  zadd :: "string \<Rightarrow> string \<Rightarrow> rat \<Rightarrow> 'r \<Rightarrow> 'r"
  zcount :: "string \<Rightarrow> 'r \<Rightarrow> nat"
  zremrangebyrank :: "string \<Rightarrow> nat \<Rightarrow> nat \<Rightarrow> 'r \<Rightarrow> 'r"
  zrangebyscore :: "string \<Rightarrow> rat \<Rightarrow> rat \<Rightarrow> 'r \<Rightarrow> string list"

section \<open>One server\<close>

record 'r redis_kvs1 =
  r1_num_jobs :: u64
  r1_max_jobs :: u64
  r1_server :: 'r
  r1_keys :: "string set"

definition redis1_new :: "(string \<Rightarrow> 'r option) \<Rightarrow> u64 \<Rightarrow> u32 \<Rightarrow> 'r redis_kvs1 option" where
  "redis1_new get_redis_client max_jobs prt =
     (case get_redis_client (''tcp://127.0.0.1:'' @ dec (unat prt)) of
        None \<Rightarrow> None
      | Some r \<Rightarrow> Some \<lparr>r1_num_jobs = 0, r1_max_jobs = max_jobs, r1_server = r, r1_keys = {}\<rparr>)"

text \<open>The garbage collection of one key.\<close>

definition collect_key :: "'r redis_api \<Rightarrow> string \<Rightarrow> 'r \<Rightarrow> 'r" where
  "collect_key api key r =
     (let count = zcount api key r
      in if count > 10 then zremrangebyrank api key 0 (count - 10 - 1) r else r)"

text \<open>A job visits the key set, a \<^verbatim>\<open>std::set\<close>, in some order of its elements.\<close>

definition redis1_job :: "'r redis_api \<Rightarrow> string list \<Rightarrow> 'r redis_kvs1 \<Rightarrow> 'r redis_kvs1" where
  "redis1_job api key_order s =
     s\<lparr>r1_server := fold (collect_key api) key_order (r1_server s), r1_num_jobs := r1_num_jobs s + 1\<rparr>"

definition redis1_terminate :: "'r redis_kvs1 \<Rightarrow> bool" where
  "redis1_terminate s \<longleftrightarrow> r1_num_jobs s \<ge> r1_max_jobs s"

definition redis1_add_new_keys :: "string list \<Rightarrow> 'r redis_kvs1 \<Rightarrow> 'r redis_kvs1" where
  "redis1_add_new_keys new_keys s = s\<lparr>r1_keys := r1_keys s \<union> set new_keys\<rparr>"

definition redis1_try_read :: "'r redis_api \<Rightarrow> (u64 \<Rightarrow> rat) \<Rightarrow> 'r redis_kvs1 \<Rightarrow> u64 \<Rightarrow> string \<Rightarrow> u64 \<Rightarrow> string option" where
  "redis1_try_read api to_double s now key no_earlier_than =
     (if no_earlier_than > now then None
      else let without_score = zrangebyscore api key (to_double no_earlier_than) (to_double now) (r1_server s)
           in if without_score = [] then None else Some (last without_score))"

definition redis1_try_write :: "'r redis_api \<Rightarrow> (u64 \<Rightarrow> rat) \<Rightarrow> u64 \<Rightarrow> string \<Rightarrow> u64 \<Rightarrow> string \<Rightarrow> 'r redis_kvs1
    \<Rightarrow> (bool \<times> 'r redis_kvs1) option" where
  "redis1_try_write api to_double now key publish_time val s =
     (if publish_time \<le> now then Some (False, s)
      else Some (True, s\<lparr>r1_server := zadd api key val (to_double publish_time) (r1_server s)\<rparr>))"

interpretation redis1: transactional_kvs "redis1_try_read api to_double" "redis1_try_write api to_double" "\<lambda>_. True"
    for api to_double
  by unfold_locales (auto simp: redis1_try_read_def redis1_try_write_def split: if_splits)

section \<open>Replicated servers\<close>

text \<open>The constructor tests \<open>local_client\<close> again where it should test the remote client, so a
  remote server that cannot be reached stays in the list as a null pointer.\<close>

record 'r redis_kvs2 =
  r2_num_jobs :: u64
  r2_max_jobs :: u64
  r2_local_port :: string
  r2_local :: 'r
  r2_remotes :: "'r option list"
  r2_all_ports :: "string list"
  r2_keys :: "string set"
  r2_use_simple_median :: bool

definition redis2_new :: "(string \<Rightarrow> 'r option) \<Rightarrow> u64 \<Rightarrow> u32 \<Rightarrow> tcp_node list \<Rightarrow> 'r redis_kvs2 option" where
  "redis2_new get_redis_client max_jobs prt peers_minus_self =
     (case get_redis_client (''tcp://127.0.0.1:'' @ dec (unat prt)) of
        None \<Rightarrow> None
      | Some r \<Rightarrow>
          Some \<lparr>r2_num_jobs = 0, r2_max_jobs = max_jobs, r2_local_port = dec (unat prt), r2_local = r,
                r2_remotes = map (get_redis_client \<circ> get_uri) peers_minus_self,
                r2_all_ports = dec (unat prt) # map port peers_minus_self,
                r2_keys = {}, r2_use_simple_median = False\<rparr>)"

definition redis2_job :: "'r redis_api \<Rightarrow> string list \<Rightarrow> 'r redis_kvs2 \<Rightarrow> 'r redis_kvs2" where
  "redis2_job api key_order s =
     s\<lparr>r2_local := fold (collect_key api) key_order (r2_local s), r2_num_jobs := r2_num_jobs s + 1\<rparr>"

definition redis2_terminate :: "'r redis_kvs2 \<Rightarrow> bool" where
  "redis2_terminate s \<longleftrightarrow> r2_num_jobs s \<ge> r2_max_jobs s"

definition redis2_add_new_keys :: "string list \<Rightarrow> 'r redis_kvs2 \<Rightarrow> 'r redis_kvs2" where
  "redis2_add_new_keys new_keys s = s\<lparr>r2_keys := r2_keys s \<union> set new_keys\<rparr>"

definition redis2_update_fuse_function :: "'r redis_kvs2 \<Rightarrow> 'r redis_kvs2" where
  "redis2_update_fuse_function s = s\<lparr>r2_use_simple_median := True\<rparr>"

text \<open>Reading through a null pointer is \<open>Inl ()\<close>.\<close>

fun redis2_candidates :: "'r redis_api \<Rightarrow> string \<Rightarrow> rat \<Rightarrow> rat \<Rightarrow> 'r option list \<Rightarrow> unit + string list" where
  "redis2_candidates api key lo hi [] = Inr []"
| "redis2_candidates api key lo hi (None # cs) = Inl ()"
| "redis2_candidates api key lo hi (Some c # cs) =
     (let without_score = zrangebyscore api key lo hi c
      in case redis2_candidates api key lo hi cs of
           Inl x \<Rightarrow> Inl x
         | Inr vs \<Rightarrow> Inr (if without_score = [] then vs else last without_score # vs))"

definition redis2_try_read :: "'r redis_api \<Rightarrow> (u64 \<Rightarrow> rat) \<Rightarrow> (string \<Rightarrow> 'd :: linorder option) \<Rightarrow> ('d \<Rightarrow> 'd \<Rightarrow> 'd) \<Rightarrow> ('d \<Rightarrow> string)
    \<Rightarrow> 'r redis_kvs2 \<Rightarrow> u64 \<Rightarrow> string \<Rightarrow> u64 \<Rightarrow> unit + string option" where
  "redis2_try_read api to_double stod avg to_string s now key no_earlier_than =
     (if no_earlier_than > now then Inr None
      else case redis2_candidates api key (to_double no_earlier_than) (to_double now) (Some (r2_local s) # r2_remotes s) of
             Inl x \<Rightarrow> Inl x
           | Inr cs \<Rightarrow> fuse_redundant_values stod avg to_string (r2_use_simple_median s) cs)"

definition redis2_try_write :: "'r redis_api \<Rightarrow> (u64 \<Rightarrow> rat) \<Rightarrow> u64 \<Rightarrow> string \<Rightarrow> u64 \<Rightarrow> string \<Rightarrow> 'r redis_kvs2
    \<Rightarrow> (bool \<times> 'r redis_kvs2) option" where
  "redis2_try_write api to_double now key publish_time val s =
     (if publish_time \<le> now then Some (False, s)
      else Some (True, s\<lparr>r2_local := zadd api key val (to_double publish_time) (r2_local s),
                         r2_keys := insert key (r2_keys s)\<rparr>))"

interpretation redis2: transactional_kvs
    "\<lambda>s now k nv. returned (redis2_try_read api to_double stod avg to_string s now k nv)"
    "redis2_try_write api to_double" "\<lambda>s. finite (r2_keys s)" for api to_double stod avg to_string
  by unfold_locales (auto simp: redis2_try_read_def redis2_try_write_def returned_def split: if_splits)

section \<open>What Redis documents\<close>

type_synonym zset = "(string \<times> rat) list"

definition zset_before :: "string \<times> rat \<Rightarrow> string \<times> rat \<Rightarrow> bool" where
  "zset_before a b \<longleftrightarrow> snd a < snd b \<or> snd a = snd b \<and> text_less (fst a) (fst b)"

fun zset_insert :: "string \<times> rat \<Rightarrow> zset \<Rightarrow> zset" where
  "zset_insert e [] = [e]"
| "zset_insert e (x # xs) = (if zset_before x e then x # zset_insert e xs else e # x # xs)"

definition zset_add :: "string \<Rightarrow> rat \<Rightarrow> zset \<Rightarrow> zset" where
  "zset_add member sc z = zset_insert (member, sc) (filter (\<lambda>e. fst e \<noteq> member) z)"

definition zset_window :: "rat \<Rightarrow> rat \<Rightarrow> zset \<Rightarrow> zset" where
  "zset_window lo hi z = filter (\<lambda>e. lo \<le> snd e \<and> snd e \<le> hi) z"

definition redis_laws :: "'r redis_api \<Rightarrow> ('r \<Rightarrow> string \<Rightarrow> zset) \<Rightarrow> bool" where
  "redis_laws api view \<longleftrightarrow>
     (\<forall>k v sc r. view (zadd api k v sc r) = (view r)(k := zset_add v sc (view r k))) \<and>
     (\<forall>k r. zcount api k r = length (view r k)) \<and>
     (\<forall>k j r. view (zremrangebyrank api k 0 j r) = (view r)(k := drop (Suc j) (view r k))) \<and>
     (\<forall>k lo hi r. zrangebyscore api k lo hi r = map fst (zset_window lo hi (view r k)))"

definition zset_ok :: "zset \<Rightarrow> bool" where
  "zset_ok z \<longleftrightarrow> sorted (map snd z) \<and> distinct (map fst z)"

lemma set_zset_insert [simp]: "set (zset_insert e z) = insert e (set z)"
  by (induction z) auto

lemma zset_insert_ok:
  assumes "zset_ok z" "fst e \<notin> fst ` set z"
  shows "zset_ok (zset_insert e z)"
  using assms
proof (induction z)
  case (Cons x z)
  then show ?case by (cases "zset_before x e") (force simp: zset_ok_def zset_before_def image_iff)+
qed (simp add: zset_ok_def)

lemma zset_add_ok: "zset_ok z \<Longrightarrow> zset_ok (zset_add v sc z)"
  unfolding zset_add_def
  by (rule zset_insert_ok) (auto simp: zset_ok_def intro!: sorted_filter distinct_map_filter)

lemma last_zset_window:
  assumes "zset_ok z" "zset_window lo hi z \<noteq> []"
  shows "last (zset_window lo hi z) \<in> set z \<and> lo \<le> snd (last (zset_window lo hi z)) \<and> snd (last (zset_window lo hi z)) \<le> hi \<and>
    (\<forall>(m, sc) \<in> set z. lo \<le> sc \<and> sc \<le> hi \<longrightarrow> sc \<le> snd (last (zset_window lo hi z)))"
proof -
  let ?w = "zset_window lo hi z"
  have "last ?w \<in> set ?w" using assms(2) by simp
  then have l: "last ?w \<in> set z" "lo \<le> snd (last ?w)" "snd (last ?w) \<le> hi" by (simp_all add: zset_window_def)
  have s: "sorted (map snd ?w)" using assms(1) by (simp add: zset_ok_def zset_window_def sorted_filter)
  have w: "?w = butlast ?w @ [last ?w]" using assms(2) by simp
  have "sc \<le> snd (last ?w)" if "(m, sc) \<in> set ?w" for m sc
  proof -
    have "(m, sc) \<in> set (butlast ?w @ [last ?w])" using that w by simp
    moreover have "sorted (map snd (butlast ?w @ [last ?w]))" using s w by simp
    ultimately show ?thesis by (auto simp: sorted_append) (metis order_refl snd_conv)
  qed
  then show ?thesis using l by (auto simp: zset_window_def)
qed

section \<open>Properties\<close>

text \<open>Lemma (redis_read_newest): a read of the single-server store returns a member whose score is
  the highest in the window, and nothing exactly when no member is in the window.\<close>

theorem redis_read_newest:
  assumes "redis_laws api view" "zset_ok (view (r1_server s) key)" "nv \<le> now"
  shows "case redis1_try_read api to_double s now key nv of
      None \<Rightarrow> zset_window (to_double nv) (to_double now) (view (r1_server s) key) = []
    | Some v \<Rightarrow> \<exists>sc. (v, sc) \<in> set (zset_window (to_double nv) (to_double now) (view (r1_server s) key)) \<and>
        (\<forall>(m, sc') \<in> set (zset_window (to_double nv) (to_double now) (view (r1_server s) key)). sc' \<le> sc)"
proof -
  let ?z = "view (r1_server s) key"
  let ?w = "zset_window (to_double nv) (to_double now) ?z"
  have r: "redis1_try_read api to_double s now key nv = (if ?w = [] then None else Some (fst (last ?w)))"
    using assms(1,3) by (auto simp: redis1_try_read_def redis_laws_def Let_def last_map)
  show ?thesis
  proof (cases "?w = []")
    case False
    have "\<forall>(m, sc') \<in> set ?w. sc' \<le> snd (last ?w)"
      using last_zset_window [OF assms(2) False] by (auto simp: zset_window_def)
    moreover have "(fst (last ?w), snd (last ?w)) \<in> set ?w" using False by simp
    ultimately show ?thesis using r False by (simp del: prod.collapse) blast
  qed (simp add: r)
qed

text \<open>Lemma (redis_rewrite_hides_value): members of a sorted set are unique, so publishing a value
  for the future moves the same value away from its current publish time: a key whose only
  member in the window is \<open>v\<close> reads as \<open>v\<close> before the write and as nothing after it.\<close>

theorem redis_rewrite_hides_value:
  assumes "redis_laws api view" "zset_window (to_double nv) (to_double now) (view (r1_server s) key) = [(v, sc)]"
    and "nv \<le> now" "now < publish_time" "to_double now < to_double publish_time"
  shows "redis1_try_read api to_double s now key nv = Some v \<and>
    (\<exists>s'. redis1_try_write api to_double now key publish_time v s = Some (True, s') \<and>
       redis1_try_read api to_double s' now key nv = None)"
proof -
  let ?z = "view (r1_server s) key"
  have "e = (v, sc)" if "e \<in> set ?z" "to_double nv \<le> snd e" "snd e \<le> to_double now" for e
  proof -
    have "e \<in> set (zset_window (to_double nv) (to_double now) ?z)" using that by (simp add: zset_window_def)
    then show ?thesis using assms(2) by simp
  qed
  then have "zset_window (to_double nv) (to_double now) (zset_add v (to_double publish_time) ?z) = []"
    using assms(5) by (auto simp: zset_window_def zset_add_def filter_empty_conv)
  then show ?thesis
    using assms by (simp add: redis1_try_read_def redis1_try_write_def redis_laws_def Let_def not_le)
qed

lemma collect_key_view:
  assumes "redis_laws api view"
  shows "view (collect_key api key r) = (view r)(key := drop (length (view r key) - 10) (view r key))"
proof (cases "length (view r key) > 10")
  case True
  then have "Suc (length (view r key) - 10 - 1) = length (view r key) - 10" by simp
  then show ?thesis using True assms by (simp add: collect_key_def redis_laws_def Let_def)
next
  case False
  then show ?thesis using assms by (simp add: collect_key_def redis_laws_def Let_def)
qed

lemma collect_keys_view:
  assumes "redis_laws api view" "distinct ks"
  shows "view (fold (collect_key api) ks r) k =
    (if k \<in> set ks then drop (length (view r k) - 10) (view r k) else view r k)"
  using assms(2) by (induction ks arbitrary: r) (auto simp: collect_key_view [OF assms(1)])

text \<open>Lemma (redis_keeps_ten): after a job every key of the key set holds exactly the last ten
  members in the order of scores (all of them when there are fewer), in whatever order the keys
  are visited; other keys are untouched.\<close>

theorem redis_keeps_ten:
  assumes "redis_laws api view" "distinct key_order" "set key_order = r1_keys s"
  shows "\<forall>k. view (r1_server (redis1_job api key_order s)) k =
    (if k \<in> r1_keys s then drop (length (view (r1_server s) k) - 10) (view (r1_server s) k) else view (r1_server s) k)"
  using collect_keys_view [OF assms(1,2)] assms(3) by (simp add: redis1_job_def)




lemma redis2_candidates_null: "None \<in> set cs \<Longrightarrow> redis2_candidates api key lo hi cs = Inl ()"
proof (induction cs)
  case (Cons c cs)
  then show ?case by (cases c) (auto simp: Let_def)
qed simp

text \<open>Lemma (unreachable_peer_crashes_reads): the constructor accepts a peer that it cannot reach, and
  then every read of a window that is not in the future goes through a null pointer.\<close>

theorem unreachable_peer_crashes_reads:
  assumes "connect (''tcp://127.0.0.1:'' @ dec (unat prt)) = Some r" "peer \<in> set peers" "connect (get_uri peer) = None"
  shows "\<exists>s. redis2_new connect max_jobs prt peers = Some s \<and>
    (\<forall>now key nv. nv \<le> now \<longrightarrow> redis2_try_read api to_double stod avg to_string s now key nv = Inl ())"
proof -
  obtain s where s: "redis2_new connect max_jobs prt peers = Some s" "r2_remotes s = map (connect \<circ> get_uri) peers"
    using assms(1) by (simp add: redis2_new_def)
  have "None \<in> set (Some (r2_local s) # r2_remotes s)" using assms(2,3) s(2) by force
  then have "redis2_candidates api key lo hi (Some (r2_local s) # r2_remotes s) = Inl ()" for key lo hi
    by (rule redis2_candidates_null)
  then show ?thesis using s(1) by (auto simp: redis2_try_read_def)
qed

section \<open>A concrete server\<close>

text \<open>Sorted sets as such satisfy the laws.\<close>

definition zset_api :: "(string \<Rightarrow> zset) redis_api" where
  "zset_api = \<lparr>zadd = (\<lambda>k v sc r. r(k := zset_add v sc (r k))), zcount = (\<lambda>k r. length (r k)),
     zremrangebyrank = (\<lambda>k i j r. r(k := take i (r k) @ drop (Suc j) (r k))),
     zrangebyscore = (\<lambda>k lo hi r. map fst (zset_window lo hi (r k)))\<rparr>"

lemma zset_api_laws: "redis_laws zset_api (\<lambda>r. r)"
  by (simp add: redis_laws_def zset_api_def)

definition demo_redis :: "(string \<Rightarrow> zset) redis_kvs1" where
  "demo_redis = \<lparr>r1_num_jobs = 0, r1_max_jobs = 9, r1_server = (\<lambda>k. [(''u'', 3), (''v'', 7)]), r1_keys = {''k''}\<rparr>"


abbreviation as_rat :: "u64 \<Rightarrow> rat" where
  "as_rat t \<equiv> of_nat (unat t)"

theorem redis_read_newest_witness:
  "redis1_try_read zset_api as_rat demo_redis 8 ''k'' 2 \<noteq> None"
  using redis_read_newest [OF zset_api_laws, of demo_redis "''k''" 2 8 as_rat]
  by (auto simp: demo_redis_def zset_ok_def zset_window_def split: option.splits)

theorem redis_rewrite_hides_value_witness:
  "redis1_try_read zset_api as_rat demo_redis 8 ''k'' 5 = Some ''v'' \<and>
   (\<exists>s'. redis1_try_write zset_api as_rat 8 ''k'' 12 ''v'' demo_redis = Some (True, s') \<and>
      redis1_try_read zset_api as_rat s' 8 ''k'' 5 = None)"
  by (rule redis_rewrite_hides_value [OF zset_api_laws, where sc = 7]) (simp_all add: demo_redis_def zset_window_def)

theorem redis_keeps_ten_witness:
  "r1_server (redis1_job zset_api [''k''] demo_redis) ''k'' = [(''u'', 3), (''v'', 7)]"
  using redis_keeps_ten [OF zset_api_laws, of "[''k'']" demo_redis] by (simp add: demo_redis_def)


theorem unreachable_peer_crashes_reads_witness:
  "\<exists>s. redis2_new (\<lambda>uri. if uri = ''tcp://b:2'' then None else Some (\<lambda>_. [])) 9 1 [\<lparr>ip = ''b'', port = ''2''\<rparr>] = Some s \<and>
     (\<forall>now key nv. nv \<le> now \<longrightarrow>
        redis2_try_read zset_api as_rat (\<lambda>_. None :: int option) (\<lambda>a b. a) (\<lambda>_. '''') s now key nv = Inl ())"
  by (rule unreachable_peer_crashes_reads [where peer = "\<lparr>ip = ''b'', port = ''2''\<rparr>"]) (simp_all add: get_uri_def)

end
