(* ===== verification/Kvs_Clients.thy ===== *)
theory Kvs_Clients imports Redis_Kvs begin

text \<open>
  Opening and closing the stores that rest on a server: \<^verbatim>\<open>get_redis_client\<close>, \<^verbatim>\<open>get_etcd_client\<close> and the
  constructors and destructors of \<^verbatim>\<open>src/achal/redis_kvs.cpp\<close> and \<^verbatim>\<open>src/achal/etcd_kvs.cpp\<close>, with their calls to servers that
  all nodes share. The servers that can be reached are a map from addresses to states; the calls of the client libraries are the
  fields of \<open>redis_admin\<close> and \<open>etcd_admin\<close>, where \<open>None\<close> is an exception. What is documented of them is \<open>admin_laws\<close> and \<open>rmdir_law\<close>.
  A failed assertion, or an exception in a destructor, is \<open>Inl ()\<close>. Shown: the assertions on the test key hold, a store that connects or
  is destroyed erases what all others have published on every server it reaches, and the etcd destructor removes nothing.
\<close>

type_synonym 'r servers = "string \<rightharpoonup> 'r"

record 'r redis_admin =
  set_text :: "string \<Rightarrow> string \<Rightarrow> 'r \<Rightarrow> 'r option"
  get_text :: "string \<Rightarrow> 'r \<Rightarrow> string option option"
  flushall :: "'r \<Rightarrow> 'r option"

section \<open>Opening a client\<close>

text \<open>The result tells whether the client is a pointer other than null.\<close>

definition get_redis_client :: "'r redis_admin \<Rightarrow> string \<Rightarrow> 'r servers \<Rightarrow> unit + bool \<times> 'r servers" where
  "get_redis_client admin uri S =
     (case S uri of
        None \<Rightarrow> Inr (False, S)
      | Some r \<Rightarrow>
          (case set_text admin ''test_key'' ''test_val'' r of
             None \<Rightarrow> Inr (False, S)
           | Some r' \<Rightarrow>
               (case get_text admin ''test_key'' r' of
                  None \<Rightarrow> Inr (False, S(uri \<mapsto> r'))
                | Some val \<Rightarrow>
                    if val \<noteq> Some ''test_val'' then Inl ()
                    else (case flushall admin r' of
                            None \<Rightarrow> Inr (False, S(uri \<mapsto> r'))
                          | Some r'' \<Rightarrow> Inr (True, S(uri \<mapsto> r''))))))"

fun connect_all :: "'r redis_admin \<Rightarrow> string list \<Rightarrow> 'r servers \<Rightarrow> unit + bool list \<times> 'r servers" where
  "connect_all admin [] S = Inr ([], S)"
| "connect_all admin (u # us) S =
     (case get_redis_client admin u S of
        Inl x \<Rightarrow> Inl x
      | Inr (b, S') \<Rightarrow>
          (case connect_all admin us S' of
             Inl x \<Rightarrow> Inl x
           | Inr (bs, S'') \<Rightarrow> Inr (b # bs, S'')))"

section \<open>Constructors and destructors\<close>

definition local_uri :: "u32 \<Rightarrow> string" where
  "local_uri prt = ''tcp://127.0.0.1:'' @ dec (unat prt)"

text \<open>Both classes have the same method.\<close>

definition redis1_get_redis_client :: "'r redis_admin \<Rightarrow> string \<Rightarrow> 'r servers \<Rightarrow> unit + bool \<times> 'r servers" where
  "redis1_get_redis_client = get_redis_client"

definition redis1_connect :: "'r redis_admin \<Rightarrow> u32 \<Rightarrow> 'r servers \<Rightarrow> unit + 'r servers" where
  "redis1_connect admin prt S =
     (case redis1_get_redis_client admin (local_uri prt) S of
        Inl x \<Rightarrow> Inl x
      | Inr (b, S') \<Rightarrow> if b then Inr S' else Inl ())"

definition all_uris :: "u32 \<Rightarrow> tcp_node list \<Rightarrow> string list" where
  "all_uris prt peers_minus_self = local_uri prt # map get_uri peers_minus_self"

text \<open>The result is \<^verbatim>\<open>all_clients\<close>; the test after each peer looks at the local client again.\<close>

definition redis2_connect :: "'r redis_admin \<Rightarrow> u32 \<Rightarrow> tcp_node list \<Rightarrow> 'r servers \<Rightarrow> unit + bool list \<times> 'r servers" where
  "redis2_connect admin prt peers_minus_self S =
     (case get_redis_client admin (local_uri prt) S of
        Inl x \<Rightarrow> Inl x
      | Inr (local_client, S') \<Rightarrow>
          if \<not> local_client then Inl ()
          else (case connect_all admin (map get_uri peers_minus_self) S' of
                  Inl x \<Rightarrow> Inl x
                | Inr (remote_clients, S'') \<Rightarrow> Inr (local_client # remote_clients, S'')))"

definition flush_server :: "'r redis_admin \<Rightarrow> string \<Rightarrow> 'r servers \<Rightarrow> unit + 'r servers" where
  "flush_server admin uri S =
     (case S uri of
        None \<Rightarrow> Inl ()
      | Some r \<Rightarrow> (case flushall admin r of None \<Rightarrow> Inl () | Some r' \<Rightarrow> Inr (S(uri \<mapsto> r'))))"

definition redis1_destroy :: "'r redis_admin \<Rightarrow> u32 \<Rightarrow> 'r servers \<Rightarrow> unit + 'r servers" where
  "redis1_destroy admin prt S = flush_server admin (local_uri prt) S"

fun redis2_destroy :: "'r redis_admin \<Rightarrow> (string \<times> bool) list \<Rightarrow> 'r servers \<Rightarrow> unit + 'r servers" where
  "redis2_destroy admin [] S = Inr S"
| "redis2_destroy admin ((uri, c) # cs) S =
     (if c then (case flush_server admin uri S of Inl x \<Rightarrow> Inl x | Inr S' \<Rightarrow> redis2_destroy admin cs S')
      else redis2_destroy admin cs S)"

section \<open>etcd\<close>

record 'e etcd_admin =
  head_is_ok :: "'e \<Rightarrow> bool option"
  rmdir :: "string \<Rightarrow> 'e \<Rightarrow> 'e"

definition get_etcd_client :: "'e etcd_admin \<Rightarrow> string \<Rightarrow> 'e servers \<Rightarrow> unit + 'e option" where
  "get_etcd_client admin url S =
     (case S url of
        None \<Rightarrow> Inr None
      | Some e \<Rightarrow> (case head_is_ok admin e of
                    None \<Rightarrow> Inr None
                  | Some ok \<Rightarrow> if ok then Inr (Some e) else Inl ()))"

definition etcd_destroy :: "'e etcd_admin \<Rightarrow> 'e etcd_kvs \<Rightarrow> 'e" where
  "etcd_destroy admin s = rmdir admin ''/key'' (server s)"

section \<open>What is documented of the servers\<close>

text \<open>A text that was set is read back, and \<^verbatim>\<open>FLUSHALL\<close> deletes all keys.\<close>

definition admin_laws :: "'r redis_admin \<Rightarrow> ('r \<Rightarrow> string \<Rightarrow> zset) \<Rightarrow> bool" where
  "admin_laws admin view \<longleftrightarrow>
     (\<forall>k v r r' val. set_text admin k v r = Some r' \<and> get_text admin k r' = Some val \<longrightarrow> val = Some v) \<and>
     (\<forall>r r'. flushall admin r = Some r' \<longrightarrow> view r' = (\<lambda>_. []))"

text \<open>Removing a directory concerns the names that begin with its own.\<close>

definition rmdir_law :: "'e etcd_api \<Rightarrow> 'e etcd_admin \<Rightarrow> bool" where
  "rmdir_law api admin \<longleftrightarrow> (\<forall>d dir e. take (length d) dir \<noteq> d \<longrightarrow> ls api dir (rmdir admin d e) = ls api dir e)"

definition holds_nothing :: "('r \<Rightarrow> string \<Rightarrow> zset) \<Rightarrow> 'r option \<Rightarrow> bool" where
  "holds_nothing view srv \<longleftrightarrow> (\<exists>r. srv = Some r \<and> view r = (\<lambda>_. []))"

lemma get_redis_client_asserts: "admin_laws admin view \<Longrightarrow> get_redis_client admin uri S \<noteq> Inl ()"
  by (auto simp: get_redis_client_def admin_laws_def split: option.splits)

lemma get_redis_client_effect:
  assumes "admin_laws admin view" "get_redis_client admin uri S = Inr (b, S')"
  shows "(\<forall>u. u \<noteq> uri \<longrightarrow> S' u = S u) \<and> (b \<longrightarrow> holds_nothing view (S' uri))"
  using assms by (auto simp: get_redis_client_def admin_laws_def holds_nothing_def split: option.splits if_splits)

lemma connect_all_asserts: "admin_laws admin view \<Longrightarrow> connect_all admin us S \<noteq> Inl ()"
  by (induction us arbitrary: S) (use get_redis_client_asserts in \<open>force split: sum.splits\<close>)+

lemma connect_all_effect:
  assumes "admin_laws admin view" "distinct us" "connect_all admin us S = Inr (bs, S')"
  shows "length bs = length us \<and> (\<forall>u. u \<notin> set us \<longrightarrow> S' u = S u) \<and> (\<forall>(u, b) \<in> set (zip us bs). b \<longrightarrow> holds_nothing view (S' u))"
  using assms(2,3)
proof (induction us arbitrary: S bs)
  case (Cons u us)
  then obtain b S1 cs where c: "get_redis_client admin u S = Inr (b, S1)" "connect_all admin us S1 = Inr (cs, S')" "bs = b # cs"
    by (auto split: sum.splits)
  have "length cs = length us \<and> (\<forall>v. v \<notin> set us \<longrightarrow> S' v = S1 v) \<and> (\<forall>(v, b) \<in> set (zip us cs). b \<longrightarrow> holds_nothing view (S' v))"
    using Cons.prems(1) c(2) by (intro Cons.IH) simp_all
  then show ?case using get_redis_client_effect [OF assms(1) c(1)] Cons.prems(1) c(3) by auto
qed simp

lemma redis2_connect_all: "redis2_connect admin prt peers S = Inr (bs, S') \<Longrightarrow> connect_all admin (all_uris prt peers) S = Inr (bs, S')"
  by (auto simp: redis2_connect_def all_uris_def split: sum.splits if_splits)

lemma flush_server_effect:
  assumes "admin_laws admin view" "flush_server admin uri S = Inr S'"
  shows "(\<forall>u. u \<noteq> uri \<longrightarrow> S' u = S u) \<and> holds_nothing view (S' uri)"
  using assms by (auto simp: flush_server_def admin_laws_def holds_nothing_def split: option.splits)

lemma redis2_destroy_effect:
  assumes "admin_laws admin view" "distinct (map fst cs)" "redis2_destroy admin cs S = Inr S'"
  shows "(\<forall>u. u \<notin> fst ` set cs \<longrightarrow> S' u = S u) \<and> (\<forall>(u, b) \<in> set cs. b \<longrightarrow> holds_nothing view (S' u))"
  using assms(2,3)
proof (induction cs arbitrary: S)
  case (Cons c cs)
  obtain u b where c: "c = (u, b)" by (cases c)
  obtain S1 where s: "if b then flush_server admin u S = Inr S1 else S1 = S" "redis2_destroy admin cs S1 = Inr S'"
    using Cons.prems(2) by (auto simp: c split: sum.splits if_splits)
  have "(\<forall>v. v \<notin> fst ` set cs \<longrightarrow> S' v = S1 v) \<and> (\<forall>(v, b) \<in> set cs. b \<longrightarrow> holds_nothing view (S' v))"
    using Cons.prems(1) s(2) by (intro Cons.IH) simp_all
  then show ?case using flush_server_effect [OF assms(1), of u S S1] Cons.prems(1) s(1) by (cases b) (auto simp: c)
qed simp

lemma nothing_to_read:
  assumes "redis_laws api view" "holds_nothing view (Some r)"
  shows "zrangebyscore api key lo hi r = []"
  using assms by (simp add: redis_laws_def holds_nothing_def zset_window_def)

section \<open>Properties\<close>

text \<open>The handles that a connected store holds, as the constructor of Redis_Kvs takes them.\<close>

definition opened :: "string list \<Rightarrow> bool list \<Rightarrow> 'r servers \<Rightarrow> string \<Rightarrow> 'r option" where
  "opened uris bs S uri = (if map_of (zip uris bs) uri = Some True then S uri else None)"

lemma connected_store:
  assumes "admin_laws admin view" "distinct (all_uris prt peers)" "redis2_connect admin prt peers S = Inr (bs, S')"
  shows "\<exists>s. redis2_new (opened (all_uris prt peers) bs S') max_jobs prt peers = Some s \<and> view (r2_local s) = (\<lambda>_. [])"
proof -
  obtain cs where cs: "bs = True # cs" using assms(3) by (auto simp: redis2_connect_def split: sum.splits if_splits)
  have "holds_nothing view (S' (local_uri prt))"
    using connect_all_effect [OF assms(1,2) redis2_connect_all [OF assms(3)]] by (auto simp: cs all_uris_def)
  then obtain r where r: "S' (local_uri prt) = Some r" "view r = (\<lambda>_. [])" by (auto simp: holds_nothing_def)
  then have "opened (all_uris prt peers) bs S' (''tcp://127.0.0.1:'' @ dec (unat prt)) = Some r"
    by (simp add: opened_def all_uris_def cs local_uri_def)
  then show ?thesis using r(2) by (simp add: redis2_new_def)
qed

text \<open>C40 (connecting_erases_peers): the replicated Redis store calls \<open>FLUSHALL\<close> on the servers of its peers, when it is constructed
  and when it is destroyed. Whatever a peer had published on a server that is reached, a read there finds nothing in any window
  afterwards; servers that are not listed are left alone.\<close>

theorem connecting_erases_peers:
  assumes "redis_laws api view" "admin_laws admin view" "distinct (all_uris prt peers)"
    and "redis2_connect admin prt peers S = Inr (bs, S') \<or>
         length bs = length (all_uris prt peers) \<and> redis2_destroy admin (zip (all_uris prt peers) bs) S = Inr S'"
  shows "(\<forall>uri. uri \<notin> set (all_uris prt peers) \<longrightarrow> S' uri = S uri) \<and>
    (\<forall>(uri, c) \<in> set (zip (all_uris prt peers) bs). c \<longrightarrow>
       (\<exists>r. S' uri = Some r \<and> (\<forall>s now key nv. r1_server s = r \<longrightarrow> redis1_try_read api to_double s now key nv = None)))"
proof -
  let ?us = "all_uris prt peers"
  have e: "(\<forall>u. u \<notin> set ?us \<longrightarrow> S' u = S u) \<and> (\<forall>(u, c) \<in> set (zip ?us bs). c \<longrightarrow> holds_nothing view (S' u))"
    using assms(4)
  proof
    assume "redis2_connect admin prt peers S = Inr (bs, S')"
    then show ?thesis using connect_all_effect [OF assms(2,3) redis2_connect_all] by blast
  next
    assume d: "length bs = length ?us \<and> redis2_destroy admin (zip ?us bs) S = Inr S'"
    then have m: "map fst (zip ?us bs) = ?us" by simp
    then have "fst ` set (zip ?us bs) = set ?us" by (metis set_map)
    moreover have "distinct (map fst (zip ?us bs))" using m assms(3) by simp
    ultimately show ?thesis using redis2_destroy_effect [OF assms(2), of "zip ?us bs" S S'] d by auto
  qed
  have "redis1_try_read api to_double s now key nv = None" if "holds_nothing view (Some (r1_server s))" for s now key nv
    using nothing_to_read [OF assms(1) that] by (simp add: redis1_try_read_def)
  then show ?thesis using e by (fastforce simp: holds_nothing_def)
qed

text \<open>Lemma (etcd_destructor_removes_nothing): the destructor of the etcd store removes the directory \<open>/key\<close>, and no key that the store
  writes is in it: every listing that a read asks for is the same afterwards, so that another store on that server reads
  the same values.\<close>

theorem etcd_destructor_removes_nothing:
  assumes "rmdir_law api admin" "\<forall>p \<in> set (all_ports t). \<exists>n. p = dec n" "server t = server s"
  shows "etcd_try_read api stod avg to_string (t\<lparr>server := etcd_destroy admin s\<rparr>) now key nv =
    etcd_try_read api stod avg to_string t now key nv"
proof -
  have same: "ls api (etcd_dir (dec n) k) (etcd_destroy admin s) = ls api (etcd_dir (dec n) k) (server s)" for n k
  proof -
    obtain c r where c: "dec n = c # r" by (cases "dec n") (use dec_not_empty in auto)
    then have "is_digit c" using dec_digits [of n] by simp
    then have "c \<noteq> CHR ''k''" by (auto simp: is_digit_def)
    then have "take (length ''/key'') (etcd_dir (dec n) k) \<noteq> ''/key''" by (simp add: etcd_dir_def c)
    then show ?thesis using assms(1) unfolding rmdir_law_def etcd_destroy_def by blast
  qed
  have "etcd_candidates api (etcd_destroy admin s) now key nv ps = etcd_candidates api (server t) now key nv ps"
    if "\<forall>p \<in> set ps. \<exists>n. p = dec n" for ps
    using that by (induction ps) (use same assms(3) in \<open>auto split: sum.splits\<close>)
  then show ?thesis using assms(2) by (simp add: etcd_try_read_def split: sum.split)
qed

section \<open>Two nodes on concrete servers\<close>

text \<open>A server holds sorted sets and texts, and answers every call.\<close>

definition demo_admin :: "((string \<Rightarrow> zset) \<times> (string \<rightharpoonup> string)) redis_admin" where
  "demo_admin = \<lparr>set_text = (\<lambda>k v r. Some (fst r, (snd r)(k \<mapsto> v))), get_text = (\<lambda>k r. Some (snd r k)),
     flushall = (\<lambda>r. Some ((\<lambda>_. []), (\<lambda>_. None)))\<rparr>"

definition demo_commands :: "((string \<Rightarrow> zset) \<times> (string \<rightharpoonup> string)) redis_api" where
  "demo_commands = \<lparr>zadd = (\<lambda>k v sc r. (zadd zset_api k v sc (fst r), snd r)), zcount = (\<lambda>k r. zcount zset_api k (fst r)),
     zremrangebyrank = (\<lambda>k i j r. (zremrangebyrank zset_api k i j (fst r), snd r)),
     zrangebyscore = (\<lambda>k lo hi r. zrangebyscore zset_api k lo hi (fst r))\<rparr>"

definition demo_servers :: "((string \<Rightarrow> zset) \<times> (string \<rightharpoonup> string)) servers" where
  "demo_servers = [''tcp://127.0.0.1:1'' \<mapsto> ((\<lambda>_. []), (\<lambda>_. None)), ''tcp://127.0.0.1:2'' \<mapsto> ((\<lambda>_. [(''v'', 7)]), (\<lambda>_. None))]"

lemma demo_laws: "redis_laws demo_commands fst" "admin_laws demo_admin fst"
  by (auto simp: redis_laws_def demo_commands_def zset_api_def admin_laws_def demo_admin_def)

lemma dec_one: "dec (Suc 0) = ''1''"
  by code_simp

theorem connecting_erases_peers_witness:
  "redis1_try_read demo_commands as_rat \<lparr>r1_num_jobs = 0, r1_max_jobs = 9, r1_server = ((\<lambda>_. [(''v'', 7)]), (\<lambda>_. None)), r1_keys = {}\<rparr>
     8 ''k'' 5 = Some ''v'' \<and>
   (\<exists>bs S' r. redis2_connect demo_admin 1 [\<lparr>ip = ''127.0.0.1'', port = ''2''\<rparr>] demo_servers = Inr (bs, S') \<and>
      S' ''tcp://127.0.0.1:2'' = Some r \<and>
      (\<forall>s now key nv. r1_server s = r \<longrightarrow> redis1_try_read demo_commands as_rat s now key nv = None))"
  (is "?before \<and> ?after")
proof
  show ?before by (simp add: redis1_try_read_def demo_commands_def zset_api_def zset_window_def)
  let ?peers = "[\<lparr>ip = ''127.0.0.1'', port = ''2''\<rparr>]"
  have us: "all_uris 1 ?peers = [''tcp://127.0.0.1:1'', ''tcp://127.0.0.1:2'']"
    by (simp add: all_uris_def local_uri_def get_uri_def dec_one)
  obtain S' where c: "redis2_connect demo_admin 1 ?peers demo_servers = Inr ([True, True], S')"
    by (simp add: redis2_connect_def get_redis_client_def demo_admin_def demo_servers_def local_uri_def get_uri_def dec_one)
  have "\<exists>r. S' ''tcp://127.0.0.1:2'' = Some r \<and>
      (\<forall>s now key nv. r1_server s = r \<longrightarrow> redis1_try_read demo_commands as_rat s now key nv = None)"
    using connecting_erases_peers [OF demo_laws, of 1 ?peers demo_servers "[True, True]" S' as_rat] c by (simp add: us)
  then show ?after using c by blast
qed

theorem etcd_destructor_removes_nothing_witness:
  "etcd_try_read demo_etcd_api (\<lambda>_. None :: int option) (\<lambda>a b. a) (\<lambda>_. '''')
     (demo_etcd\<lparr>server := etcd_destroy \<lparr>head_is_ok = (\<lambda>_. Some True), rmdir = (\<lambda>d e dir. if take (length d) dir = d then [] else e dir)\<rparr>
        demo_etcd\<rparr>) 8 ''k'' 4 =
   etcd_try_read demo_etcd_api (\<lambda>_. None :: int option) (\<lambda>a b. a) (\<lambda>_. '''') demo_etcd 8 ''k'' 4"
proof (rule etcd_destructor_removes_nothing)
  show "\<forall>p \<in> set (all_ports demo_etcd). \<exists>n. p = dec n"
  proof -
    have "dec 1 = ''1''" "dec 2 = ''2''" "dec 3 = ''3''" by code_simp+
    then show ?thesis unfolding demo_etcd_def by (simp del: One_nat_def) metis
  qed
qed (simp_all add: rmdir_law_def demo_etcd_api_def)

end
