(* ===== verification/Periodic.thy ===== *)
theory Periodic imports Prelude Complex_Main "HOL-Library.Multiset" begin

text \<open>
  Time in the task runtime: \<^verbatim>\<open>src/utils/timespec.h\<close>, \<^verbatim>\<open>periodic_timer.cpp\<close>,
  \<^verbatim>\<open>periodic_task.cpp\<close> and the conversion macros of \<^verbatim>\<open>macros.h\<close>. The fields of a
  \<^verbatim>\<open>timespec\<close> are signed; where a macro brings in \<^verbatim>\<open>uint64_t\<close> the arithmetic is on
  64-bit words, as C++ converts it. Clock readings are arguments. The measured averages are
  computed with exact rationals in place of doubles.
\<close>

section \<open>Timespecs\<close>

record timespec =
  tv_sec :: int
  tv_nsec :: int

definition timespecclear :: timespec where
  "timespecclear = \<lparr>tv_sec = 0, tv_nsec = 0\<rparr>"

definition timespecisset :: "timespec \<Rightarrow> bool" where
  "timespecisset t \<longleftrightarrow> tv_sec t \<noteq> 0 \<or> tv_nsec t \<noteq> 0"

definition timespecisvalid :: "timespec \<Rightarrow> bool" where
  "timespecisvalid t \<longleftrightarrow> tv_nsec t \<ge> 0 \<and> tv_nsec t < 1000000000"

definition timespeccmp :: "timespec \<Rightarrow> timespec \<Rightarrow> (int \<Rightarrow> int \<Rightarrow> bool) \<Rightarrow> bool" where
  "timespeccmp t u cmp = (if tv_sec t = tv_sec u then cmp (tv_nsec t) (tv_nsec u)
     else cmp (tv_sec t) (tv_sec u))"

definition timespecadd :: "timespec \<Rightarrow> timespec \<Rightarrow> timespec" where
  "timespecadd t u =
     (let s = tv_sec t + tv_sec u; n = tv_nsec t + tv_nsec u
      in if n \<ge> 1000000000 then \<lparr>tv_sec = s + 1, tv_nsec = n - 1000000000\<rparr>
         else \<lparr>tv_sec = s, tv_nsec = n\<rparr>)"

definition timespecsub :: "timespec \<Rightarrow> timespec \<Rightarrow> timespec" where
  "timespecsub t u =
     (let s = tv_sec t - tv_sec u; n = tv_nsec t - tv_nsec u
      in if n < 0 then \<lparr>tv_sec = s - 1, tv_nsec = n + 1000000000\<rparr>
         else \<lparr>tv_sec = s, tv_nsec = n\<rparr>)"

text \<open>\<^verbatim>\<open>TS_TO_NS\<close> and \<^verbatim>\<open>SEC_TO_NS(diff.tv_sec) + diff.tv_nsec\<close>.\<close>

definition SEC_NS :: u64 where
  "SEC_NS = 1000000000"

definition TS_TO_NS :: "timespec \<Rightarrow> u64" where
  "TS_TO_NS t = word_of_int (tv_sec t) * SEC_NS + word_of_int (tv_nsec t)"

definition NS_TO_MS :: "u64 \<Rightarrow> rat" where
  "NS_TO_MS t = of_nat (unat t) / 1000000"

definition fix_ts :: "timespec \<Rightarrow> timespec" where
  "fix_ts t = \<lparr>tv_sec = sint (word_of_int (tv_sec t) + word_of_int (tv_nsec t) div SEC_NS),
               tv_nsec = sint (word_of_int (tv_nsec t) mod SEC_NS)\<rparr>"

text \<open>The abstraction: the time in nanoseconds.\<close>

definition ns :: "timespec \<Rightarrow> int" where
  "ns t = tv_sec t * 1000000000 + tv_nsec t"

definition in_range :: "timespec \<Rightarrow> bool" where
  "in_range t \<longleftrightarrow> timespecisvalid t \<and> 0 \<le> tv_sec t \<and> ns t < 2 ^ 63"

lemma uint_of_int_u64: "0 \<le> k \<Longrightarrow> k < 2 ^ 64 \<Longrightarrow> uint (word_of_int k :: u64) = k"
  by (simp add: uint_word_of_int)

lemma sint_uint_u64: "uint (w :: u64) < 2 ^ 63 \<Longrightarrow> sint w = uint w"
proof -
  assume "uint w < 2 ^ 63"
  moreover have "- (2 ^ 63) \<le> uint w" by (rule order_trans [OF _ uint_nonnegative]) simp
  ultimately show ?thesis by (simp add: sint_uint signed_take_bit_int_eq_self)
qed

lemma TS_TO_NS_ns:
  assumes "in_range t"
  shows "uint (TS_TO_NS t) = ns t"
proof -
  have t: "0 \<le> tv_sec t" "0 \<le> tv_nsec t" "ns t < 2 ^ 63" using assms by (auto simp: in_range_def timespecisvalid_def)
  have "TS_TO_NS t = word_of_int (ns t)"
    by (simp add: TS_TO_NS_def SEC_NS_def ns_def)
  moreover have "0 \<le> ns t" "ns t < 2 ^ 64" using t by (auto simp: ns_def)
  ultimately show ?thesis by (simp only: uint_of_int_u64)
qed

section \<open>Arithmetic on timespecs\<close>

lemma timespecadd_ns: "ns (timespecadd t u) = ns t + ns u"
  and timespecsub_ns: "ns (timespecsub t u) = ns t - ns u"
  by (auto simp: ns_def timespecadd_def timespecsub_def Let_def)

text \<open>Lemma (timespec_arithmetic): on normalised operands the sum and the difference are
  normalised again and are the sum and the difference of the times in nanoseconds, and the
  comparison macro orders timespecs as those times.\<close>

theorem timespec_arithmetic:
  assumes "timespecisvalid t" "timespecisvalid u"
  shows "timespecisvalid (timespecadd t u) \<and> ns (timespecadd t u) = ns t + ns u \<and>
    timespecisvalid (timespecsub t u) \<and> ns (timespecsub t u) = ns t - ns u \<and>
    (timespeccmp t u (<) \<longleftrightarrow> ns t < ns u) \<and> (timespeccmp t u (\<le>) \<longleftrightarrow> ns t \<le> ns u)"
  using assms timespecadd_ns [of t u] timespecsub_ns [of t u]
  by (auto simp: timespecisvalid_def timespecadd_def timespecsub_def timespeccmp_def ns_def Let_def)

theorem timespec_arithmetic_witness:
  "ns (timespecsub \<lparr>tv_sec = 5, tv_nsec = 1\<rparr> \<lparr>tv_sec = 3, tv_nsec = 2\<rparr>) = 1999999999"
  using timespec_arithmetic [of "\<lparr>tv_sec = 5, tv_nsec = 1\<rparr>" "\<lparr>tv_sec = 3, tv_nsec = 2\<rparr>"]
  by (simp add: timespecisvalid_def ns_def)

lemma fix_ts_fields:
  assumes "0 \<le> tv_sec t" "0 \<le> tv_nsec t" "ns t < 2 ^ 63"
  shows "tv_sec (fix_ts t) = tv_sec t + tv_nsec t div 1000000000" "tv_nsec (fix_ts t) = tv_nsec t mod 1000000000"
proof -
  have n: "tv_nsec t < 2 ^ 63" "tv_sec t * 1000000000 + tv_nsec t < 2 ^ 63" using assms by (auto simp: ns_def)
  have u: "uint (word_of_int (tv_nsec t) :: u64) = tv_nsec t" "uint SEC_NS = 1000000000"
    using assms n by (simp_all add: uint_of_int_u64 SEC_NS_def)
  have q: "uint (word_of_int (tv_nsec t) div SEC_NS) = tv_nsec t div 1000000000"
    "uint (word_of_int (tv_nsec t) mod SEC_NS) = tv_nsec t mod 1000000000"
    using u by (simp_all add: uint_div uint_mod)
  have small: "tv_sec t + tv_nsec t div 1000000000 < 2 ^ 63" using n assms by linarith
  have "word_of_int (tv_sec t) + word_of_int (tv_nsec t) div SEC_NS =
      (word_of_int (tv_sec t + tv_nsec t div 1000000000) :: u64)"
    using q(1) by (metis of_int_add word_of_int_uint)
  moreover have "0 \<le> tv_sec t + tv_nsec t div 1000000000" "tv_sec t + tv_nsec t div 1000000000 < 2 ^ 64"
    using small assms by (auto simp: pos_imp_zdiv_nonneg_iff)
  ultimately have "uint (word_of_int (tv_sec t) + word_of_int (tv_nsec t) div SEC_NS :: u64) =
      tv_sec t + tv_nsec t div 1000000000"
    by (simp only: uint_of_int_u64)
  then show "tv_sec (fix_ts t) = tv_sec t + tv_nsec t div 1000000000"
    using small by (simp add: fix_ts_def sint_uint_u64)
  have "tv_nsec t mod 1000000000 < 1000000000" by simp
  then have "tv_nsec t mod 1000000000 < 2 ^ 63" by (rule order_less_trans) simp
  then show "tv_nsec (fix_ts t) = tv_nsec t mod 1000000000"
    using q(2) by (simp add: fix_ts_def sint_uint_u64)
qed

text \<open>Lemma (fix_ts_normalises): \<^verbatim>\<open>fix_ts\<close> normalises a timespec whose nanoseconds have
  grown beyond a second and keeps the time.\<close>

theorem fix_ts_normalises:
  assumes "0 \<le> tv_sec t" "0 \<le> tv_nsec t" "ns t < 2 ^ 63"
  shows "timespecisvalid (fix_ts t) \<and> ns (fix_ts t) = ns t"
  using fix_ts_fields [OF assms] by (simp add: timespecisvalid_def ns_def)

theorem fix_ts_normalises_witness:
  "timespecisvalid (fix_ts \<lparr>tv_sec = 5, tv_nsec = 3000000001\<rparr>) \<and> ns (fix_ts \<lparr>tv_sec = 5, tv_nsec = 3000000001\<rparr>) = 8000000001"
  using fix_ts_normalises [of "\<lparr>tv_sec = 5, tv_nsec = 3000000001\<rparr>"] by (simp add: ns_def)

section \<open>The periodic timer\<close>

record periodic_timer =
  time_period_ns :: u64
  offset_ns :: u64
  last_inter_arrival_ns :: u64
  last_activation_ts :: timespec
  base_ts :: timespec

definition timer_new :: "u64 \<Rightarrow> u64 \<Rightarrow> timespec \<Rightarrow> periodic_timer" where
  "timer_new period offset now = \<lparr>time_period_ns = period, offset_ns = offset, last_inter_arrival_ns = 0,
     last_activation_ts = timespecclear, base_ts = now\<rparr>"

definition get_next_release :: "periodic_timer \<Rightarrow> timespec \<Rightarrow> timespec" where
  "get_next_release tm now =
     (let total_ns = (TS_TO_NS now div time_period_ns tm + 1) * time_period_ns tm + offset_ns tm
      in \<lparr>tv_sec = sint (total_ns div SEC_NS), tv_nsec = sint (total_ns mod SEC_NS)\<rparr>)"

definition update_stats :: "timespec \<Rightarrow> periodic_timer \<Rightarrow> periodic_timer" where
  "update_stats now tm =
     (if \<not> timespecisset (last_activation_ts tm) then tm\<lparr>last_activation_ts := now\<rparr>
      else let diff = timespecsub now (last_activation_ts tm)
           in tm\<lparr>last_activation_ts := now, last_inter_arrival_ns := TS_TO_NS diff\<rparr>)"

definition timer_reset :: "timespec \<Rightarrow> periodic_timer \<Rightarrow> periodic_timer" where
  "timer_reset now tm = tm\<lparr>last_inter_arrival_ns := 0, last_activation_ts := timespecclear, base_ts := now\<rparr>"

text \<open>\<^verbatim>\<open>wait_until_ts\<close>: sleep again as long as a signal interrupts the sleep. The results
  of the system call are given; \<open>None\<close> when they run out.\<close>

definition EINTR :: int where
  "EINTR = 4"

fun wait_until_ts :: "int list \<Rightarrow> int option" where
  "wait_until_ts [] = None"
| "wait_until_ts (err # errs) = (if err \<noteq> 0 \<and> err = EINTR then wait_until_ts errs else Some err)"

text \<open>\<^verbatim>\<open>wait\<close>: the release point computed at \<open>now\<close>, the statistics taken at \<open>woken\<close>.\<close>

definition wait :: "timespec \<Rightarrow> timespec \<Rightarrow> periodic_timer \<Rightarrow> timespec \<times> periodic_timer" where
  "wait now woken tm = (get_next_release tm now, update_stats woken tm)"

definition delayed_release :: "timespec \<Rightarrow> u64 \<Rightarrow> timespec" where
  "delayed_release now delay_ns = fix_ts (now\<lparr>tv_nsec := tv_nsec now + uint delay_ns\<rparr>)"

text \<open>The release after \<open>now\<close> as the code computes it, in nanoseconds.\<close>

lemma next_release_total:
  assumes "in_range now" "0 < time_period_ns tm"
    and "ns now + uint (time_period_ns tm) + uint (offset_ns tm) < 2 ^ 63"
  shows "ns (get_next_release tm now) =
      (ns now div uint (time_period_ns tm) + 1) * uint (time_period_ns tm) + uint (offset_ns tm)"
    and "timespecisvalid (get_next_release tm now)"
proof -
  let ?P = "uint (time_period_ns tm)" and ?O = "uint (offset_ns tm)" and ?n = "ns now"
  let ?T = "(?n div ?P + 1) * ?P + ?O"
  have P: "0 < ?P" "0 \<le> ?O" "0 \<le> ?n"
    using assms by (auto simp: word_less_def in_range_def timespecisvalid_def ns_def)
  have T: "?T \<le> ?n + ?P + ?O" "0 \<le> ?T"
  proof -
    have "?n div ?P * ?P + ?n mod ?P = ?n" by (rule div_mult_mod_eq)
    moreover have "0 \<le> ?n mod ?P" using P by simp
    ultimately have "?n div ?P * ?P \<le> ?n" by linarith
    then show "?T \<le> ?n + ?P + ?O" by (simp add: distrib_right)
    show "0 \<le> ?T" using P by (simp add: pos_imp_zdiv_nonneg_iff)
  qed
  have "(TS_TO_NS now div time_period_ns tm + 1) * time_period_ns tm + offset_ns tm = word_of_int ?T"
  proof -
    have "TS_TO_NS now div time_period_ns tm = word_of_int (?n div ?P)"
      using TS_TO_NS_ns [OF assms(1)] by (metis uint_div word_of_int_uint)
    then show ?thesis by (simp add: of_int_add of_int_mult)
  qed
  then have total: "uint ((TS_TO_NS now div time_period_ns tm + 1) * time_period_ns tm + offset_ns tm) = ?T"
  proof -
    have "?T < 2 ^ 63" using T(1) assms(3) by (rule order_le_less_trans)
    then have "?T < 2 ^ 64" by (rule order_less_trans) simp
    with T(2) show ?thesis
      unfolding \<open>(TS_TO_NS now div time_period_ns tm + 1) * time_period_ns tm + offset_ns tm = word_of_int ?T\<close>
      by (rule uint_of_int_u64)
  qed
  have S: "uint SEC_NS = 1000000000" by (simp add: SEC_NS_def)
  have "?T < 2 ^ 63" using T(1) assms(3) by (rule order_le_less_trans)
  moreover have "?T div 1000000000 \<le> ?T" "?T mod 1000000000 \<le> ?T"
    using T(2) zmod_le_nonneg_dividend by (linarith, blast)
  ultimately have dm: "?T div 1000000000 < 2 ^ 63" "?T mod 1000000000 < 2 ^ 63"
    by (auto elim: order_le_less_trans)
  have f: "tv_sec (get_next_release tm now) = ?T div 1000000000"
    "tv_nsec (get_next_release tm now) = ?T mod 1000000000"
    using total S dm by (simp_all add: get_next_release_def Let_def sint_uint_u64 uint_div uint_mod)
  show "ns (get_next_release tm now) = ?T" by (simp add: ns_def f)
  show "timespecisvalid (get_next_release tm now)" by (simp add: timespecisvalid_def f)
qed

text \<open>C37 (next_release_periodic): the release point the timer waits for is in the
  future, normalised, lies at the offset within a period (from the epoch), and two
  successive computations one period apart give release points one period apart. No
  overflow is assumed: times stay below \<open>2\<^sup>6\<^sup>3\<close> ns.\<close>

theorem next_release_periodic:
  assumes "in_range now" "0 < time_period_ns tm"
    and "ns now + 2 * uint (time_period_ns tm) + uint (offset_ns tm) < 2 ^ 63"
    and "in_range later" "ns later = ns now + uint (time_period_ns tm)"
  shows "timespecisvalid (get_next_release tm now) \<and>
    ns now < ns (get_next_release tm now) \<and>
    ns (get_next_release tm now) \<le> ns now + uint (time_period_ns tm) + uint (offset_ns tm) \<and>
    (ns (get_next_release tm now) - uint (offset_ns tm)) mod uint (time_period_ns tm) = 0 \<and>
    ns (get_next_release tm later) = ns (get_next_release tm now) + uint (time_period_ns tm)"
proof -
  let ?P = "uint (time_period_ns tm)" and ?O = "uint (offset_ns tm)" and ?n = "ns now"
  have P: "0 < ?P" "0 \<le> ?O" using assms(2) by (simp_all add: word_less_def)
  have b: "?n + ?P + ?O < 2 ^ 63" "ns later + ?P + ?O < 2 ^ 63" using assms(3,5) P by auto
  note r = next_release_total [OF assms(1,2) b(1)]
  have eq: "?n div ?P * ?P + ?n mod ?P = ?n" by (rule div_mult_mod_eq)
  have m: "0 \<le> ?n mod ?P" "?n mod ?P < ?P" using P by simp_all
  have "ns later div ?P = ?n div ?P + 1" using P by (simp add: assms(5))
  then have "ns (get_next_release tm later) = ns (get_next_release tm now) + ?P"
    using next_release_total(1) [OF assms(4,2) b(2)] r(1) by (simp add: distrib_right)
  moreover have "ns (get_next_release tm now) = ?n div ?P * ?P + ?P + ?O" using r(1) by (simp add: distrib_right)
  moreover have "(?n div ?P * ?P + ?P) mod ?P = 0" by simp
  moreover have "?n < ?n div ?P * ?P + ?P + ?O" "?n div ?P * ?P + ?P + ?O \<le> ?n + ?P + ?O"
    using eq m P by linarith+
  ultimately show ?thesis using r(2) by simp
qed

theorem next_release_periodic_witness:
  "ns (get_next_release (timer_new 50000000 10000000 timespecclear) \<lparr>tv_sec = 1, tv_nsec = 70000000\<rparr>) =
   ns (get_next_release (timer_new 50000000 10000000 timespecclear) \<lparr>tv_sec = 1, tv_nsec = 20000000\<rparr>) + 50000000"
  using next_release_periodic [of "\<lparr>tv_sec = 1, tv_nsec = 20000000\<rparr>" "timer_new 50000000 10000000 timespecclear"
      "\<lparr>tv_sec = 1, tv_nsec = 70000000\<rparr>"]
  by (simp add: timer_new_def in_range_def timespecisvalid_def ns_def word_less_def)

text \<open>Lemma (next_release_skips): the comment in the header says that the function returns
  the next release point after now. With an offset it does not: between the start of a
  period and the offset there is a release point in the future that is earlier than the one
  returned, which is one period later.\<close>

theorem next_release_skips:
  assumes "in_range now" "0 < time_period_ns tm"
    and "ns now + uint (time_period_ns tm) + uint (offset_ns tm) < 2 ^ 63"
    and "ns now mod uint (time_period_ns tm) < uint (offset_ns tm)"
  shows "\<exists>r. ns now < r \<and> (r - uint (offset_ns tm)) mod uint (time_period_ns tm) = 0 \<and>
    ns (get_next_release tm now) = r + uint (time_period_ns tm)"
proof -
  let ?P = "uint (time_period_ns tm)" and ?O = "uint (offset_ns tm)" and ?n = "ns now"
  have "?n div ?P * ?P + ?n mod ?P = ?n" by (rule div_mult_mod_eq)
  then have "?n < ?n div ?P * ?P + ?O" using assms(4) by linarith
  then show ?thesis
    using next_release_total(1) [OF assms(1-3)]
    by (intro exI [of _ "?n div ?P * ?P + ?O"]) (simp add: distrib_right)
qed

theorem next_release_skips_witness:
  "\<exists>r. 1000000001 < r \<and> (r - 10000000) mod 50000000 = 0 \<and>
    ns (get_next_release (timer_new 50000000 10000000 timespecclear) \<lparr>tv_sec = 1, tv_nsec = 1\<rparr>) = r + 50000000"
  using next_release_skips [of "\<lparr>tv_sec = 1, tv_nsec = 1\<rparr>" "timer_new 50000000 10000000 timespecclear"]
  by (simp add: timer_new_def in_range_def timespecisvalid_def ns_def word_less_def)

section \<open>Release times of a task\<close>

definition my_release_time :: "u64 \<Rightarrow> u64 \<Rightarrow> u64 \<Rightarrow> u64" where
  "my_release_time now period offset = offset + ((now - offset) div period) * period"

definition my_release_time_without_offset :: "u64 \<Rightarrow> u64 \<Rightarrow> u64" where
  "my_release_time_without_offset now period = (now div period) * period"

definition others_release_time_without_offset :: "u64 \<Rightarrow> u64 \<Rightarrow> u64" where
  "others_release_time_without_offset now others_period_ns = (now div others_period_ns) * others_period_ns"

lemma unat_div_mult: "unat ((a div b) * b :: u64) = unat a div unat b * unat b"
proof -
  have "unat a div unat b * unat b \<le> unat a" by (rule div_times_less_eq_dividend)
  then have "unat a div unat b * unat b < 2 ^ 64"
    using unat_lt_u64 [of a] by (rule order_le_less_trans)
  then show ?thesis by (subst unat_word_ariths(2)) (simp add: unat_div)
qed

text \<open>Lemma (release_time_current): the release time that a job computes for itself is not
  in the future, less than one period old, and at the offset within a period, as long as the
  clock is past the offset.\<close>

theorem release_time_current:
  assumes "0 < period" "offset \<le> now"
  shows "my_release_time now period offset \<le> now \<and>
    unat now - unat (my_release_time now period offset) < unat period \<and>
    (unat (my_release_time now period offset) - unat offset) mod unat period = 0 \<and>
    my_release_time_without_offset now period \<le> now"
proof -
  let ?P = "unat period" and ?d = "unat now - unat offset"
  have P: "0 < ?P" using assms(1) by (simp add: word_less_nat_alt)
  have d: "unat (now - offset) = ?d" using assms(2) by (simp add: unat_sub)
  have le: "?d div ?P * ?P \<le> ?d" by (rule div_times_less_eq_dividend)
  have o: "unat offset \<le> unat now" using assms(2) by (simp add: word_le_nat_alt)
  have "unat offset + ?d div ?P * ?P \<le> unat now" using le o by linarith
  moreover have "unat now < 2 ^ 64" by (rule unat_lt_u64)
  ultimately have r: "unat (my_release_time now period offset) = unat offset + ?d div ?P * ?P"
    unfolding my_release_time_def by (simp add: unat_word_ariths(1) unat_div_mult d)
  have "?d div ?P * ?P + ?d mod ?P = ?d" "?d mod ?P < ?P" using P by simp_all
  then have "unat offset + ?d div ?P * ?P \<le> unat now" "unat now - (unat offset + ?d div ?P * ?P) < ?P"
    using o by linarith+
  moreover have "unat now div ?P * ?P \<le> unat now" by (rule div_times_less_eq_dividend)
  ultimately show ?thesis
    by (simp add: word_le_nat_alt r my_release_time_without_offset_def unat_div_mult)
qed

theorem release_time_current_witness:
  "unat (my_release_time 1234 100 20) mod 100 = 20 \<and> my_release_time 1234 100 20 \<le> 1234"
  using release_time_current [of 100 20 1234] by (simp add: my_release_time_def word_le_nat_alt)

end
