(* ===== verification/Periodic_Task.thy ===== *)
theory Periodic_Task imports Periodic Decimal begin

text \<open>
  \<^verbatim>\<open>src/utils/periodic_task.cpp\<close>: the release loop of a periodic task with its measured
  execution times, the profiler and the execution time profile (which
  \<^verbatim>\<open>exec_time_profile.cpp\<close> repeats). The job and its termination test are parameters, as
  they are virtual methods; the clock readings around each job are given as a list, and the
  loop is \<open>None\<close> when they run out or when the assertion on the number of jobs fails.
\<close>

section \<open>Measured execution times\<close>

definition MAX_NUM_JOBS :: nat where
  "MAX_NUM_JOBS = 180000"

text \<open>\<^verbatim>\<open>std::numeric_limits<double>::max()\<close>\<close>

definition DBL_MAX :: rat where
  "DBL_MAX = (2 - 1 / 2 ^ 52) * 2 ^ 1023"

record exec_stats =
  bcet_measured_ms :: rat
  acet_measured_ms :: rat
  wcet_measured_ms :: rat
  ets_ms :: "nat \<rightharpoonup> rat"

definition exec_stats_init :: exec_stats where
  "exec_stats_init = \<lparr>bcet_measured_ms = DBL_MAX, acet_measured_ms = 0, wcet_measured_ms = 0, ets_ms = Map.empty\<rparr>"

definition record_job :: "bool \<Rightarrow> u64 \<Rightarrow> timespec \<Rightarrow> exec_stats \<Rightarrow> exec_stats" where
  "record_job collect_ets num_jobs diff st =
     (let ms = NS_TO_MS (TS_TO_NS diff); n = unat num_jobs
      in \<lparr>bcet_measured_ms = min (bcet_measured_ms st) ms,
          acet_measured_ms = (acet_measured_ms st * of_nat (unat (num_jobs - 1)) + ms) / of_nat n,
          wcet_measured_ms = max (wcet_measured_ms st) ms,
          ets_ms = (if collect_ets then (ets_ms st)(unat (num_jobs - 1) \<mapsto> ms) else ets_ms st)\<rparr>)"

fun release_loop :: "('s \<Rightarrow> bool) \<Rightarrow> ('s \<Rightarrow> 's) \<Rightarrow> ('s \<Rightarrow> u64) \<Rightarrow> bool \<Rightarrow> (timespec \<times> timespec) list
    \<Rightarrow> 's \<Rightarrow> exec_stats \<Rightarrow> ('s \<times> exec_stats) option" where
  "release_loop terminate job num_jobs collect [] s st = (if terminate s then Some (s, st) else None)"
| "release_loop terminate job num_jobs collect ((start_ts, finish_ts) # rest) s st =
     (if terminate s then Some (s, st)
      else let s' = job s;
               st' = record_job collect (num_jobs s') (timespecsub finish_ts start_ts) st
           in if unat (num_jobs s') \<le> MAX_NUM_JOBS
              then release_loop terminate job num_jobs collect rest s' st'
              else None)"

definition duration_ms :: "timespec \<times> timespec \<Rightarrow> rat" where
  "duration_ms r = NS_TO_MS (TS_TO_NS (timespecsub (snd r) (fst r)))"

definition summarises :: "rat list \<Rightarrow> exec_stats \<Rightarrow> bool" where
  "summarises ds st \<longleftrightarrow> bcet_measured_ms st = Min (set (DBL_MAX # ds)) \<and>
     wcet_measured_ms st = Max (set (0 # ds)) \<and>
     acet_measured_ms st * of_nat (length ds) = sum_list ds"

lemma record_job_summarises:
  assumes "summarises ds st" "unat num_jobs = Suc (length ds)" "duration_ms r = ms"
  shows "summarises (ds @ [ms]) (record_job collect num_jobs (timespecsub (snd r) (fst r)) st)"
proof -
  have "num_jobs \<noteq> 0" using assms(2) by auto
  then have "unat (num_jobs - 1) = length ds" using assms(2) by (simp add: unat_minus_one)
  moreover have "Min (insert DBL_MAX (insert ms (set ds))) = min (Min (insert DBL_MAX (set ds))) ms"
    by (subst insert_commute) (simp add: min.commute)
  moreover have "Max (insert 0 (insert ms (set ds))) = max (Max (insert 0 (set ds))) ms"
    by (subst insert_commute) (simp add: max.commute)
  ultimately show ?thesis
    using assms by (simp add: summarises_def record_job_def Let_def duration_ms_def)
qed

lemma release_loop_run:
  assumes "\<And>s. num_jobs (job s) = num_jobs s + 1" "\<And>s. terminate s \<longleftrightarrow> max_jobs \<le> num_jobs s"
    and "unat max_jobs \<le> MAX_NUM_JOBS" "unat (num_jobs s) = length ds" "length ds \<le> unat max_jobs"
    and "unat max_jobs \<le> length ds + length rs" "summarises ds st"
  shows "\<exists>s' st'. release_loop terminate job num_jobs collect rs s st = Some (s', st') \<and>
    num_jobs s' = max_jobs \<and> s' = (job ^^ (unat max_jobs - length ds)) s \<and>
    summarises (ds @ map duration_ms (take (unat max_jobs - length ds) rs)) st'"
  using assms(4-7)
proof (induction rs arbitrary: s st ds)
  case Nil
  then have "num_jobs s = max_jobs" by (simp add: word_unat_eq_iff)
  then show ?case using Nil assms(2) by simp
next
  case (Cons r rs)
  obtain a b where r: "r = (a, b)" by (cases r)
  show ?case
  proof (cases "length ds = unat max_jobs")
    case True
    then have "num_jobs s = max_jobs" using Cons.prems(1) by (simp add: word_unat_eq_iff)
    then show ?thesis using Cons.prems assms(2) True r by simp
  next
    case False
    then have lt: "length ds < unat max_jobs" using Cons.prems(2) by simp
    then have "\<not> terminate s" using assms(2) Cons.prems(1) by (simp add: word_le_nat_alt)
    have "Suc (length ds) < 2 ^ 64" using lt unat_lt_u64 [of max_jobs] by simp
    then have nj: "unat (num_jobs (job s)) = Suc (length ds)"
      using assms(1) Cons.prems(1) by (simp add: unat_word_ariths(1))
    let ?st = "record_job collect (num_jobs (job s)) (timespecsub b a) st"
    have sum: "summarises (ds @ [duration_ms r]) ?st"
      using record_job_summarises [OF Cons.prems(4) nj refl, of r collect] r by simp
    have "\<exists>s' st'. release_loop terminate job num_jobs collect rs (job s) ?st = Some (s', st') \<and>
      num_jobs s' = max_jobs \<and> s' = (job ^^ (unat max_jobs - length (ds @ [duration_ms r]))) (job s) \<and>
      summarises ((ds @ [duration_ms r]) @ map duration_ms (take (unat max_jobs - length (ds @ [duration_ms r])) rs)) st'"
      using nj lt Cons.prems(3) sum by (intro Cons.IH) simp_all
    moreover have "unat (num_jobs (job s)) \<le> MAX_NUM_JOBS" using nj lt assms(3) by simp
    moreover obtain k where k: "unat max_jobs - length ds = Suc k" "unat max_jobs - Suc (length ds) = k"
      using lt by (metis Suc_diff_Suc)
    ultimately show ?thesis
      using \<open>\<not> terminate s\<close> r by (simp add: Let_def funpow_swap1)
  qed
qed

text \<open>C32 (release_loop_measures): a task whose job counts itself and that stops after
  \<open>max_jobs\<close> jobs (at most 180000) runs its job exactly that often, and the measured best,
  worst and average times are the minimum, the maximum and the mean of the job durations.\<close>

theorem release_loop_measures:
  assumes "\<forall>s. num_jobs (job s) = num_jobs s + 1" "\<forall>s. terminate s \<longleftrightarrow> max_jobs \<le> num_jobs s"
    and "0 < unat max_jobs" "unat max_jobs \<le> MAX_NUM_JOBS" "num_jobs s = 0" "unat max_jobs \<le> length rs"
    and "ds = map duration_ms (take (unat max_jobs) rs)"
  shows "\<exists>st. release_loop terminate job num_jobs collect rs s exec_stats_init = Some ((job ^^ unat max_jobs) s, st) \<and>
    bcet_measured_ms st = Min (insert DBL_MAX (set ds)) \<and> wcet_measured_ms st = Max (insert 0 (set ds)) \<and>
    acet_measured_ms st = sum_list ds / of_nat (length ds)"
proof -
  have init: "summarises [] exec_stats_init" by (simp add: summarises_def exec_stats_init_def)
  have "unat (num_jobs s) = length ([] :: rat list)" using assms(5) by simp
  then obtain st where "release_loop terminate job num_jobs collect rs s exec_stats_init = Some ((job ^^ unat max_jobs) s, st)"
    "summarises ds st"
    using release_loop_run [where num_jobs = num_jobs and job = job and terminate = terminate and max_jobs = max_jobs
        and ds = "[]" and rs = rs and s = s and st = exec_stats_init and collect = collect] assms init
    by auto
  moreover have "0 < length ds" using assms(3,6,7) by simp
  ultimately show ?thesis
    by (auto simp: summarises_def eq_divide_eq)
qed

lemma demo_release:
  "map duration_ms (take 2 [(\<lparr>tv_sec = 0, tv_nsec = 0\<rparr>, \<lparr>tv_sec = 0, tv_nsec = 2000000\<rparr>),
      (\<lparr>tv_sec = 1, tv_nsec = 0\<rparr>, \<lparr>tv_sec = 1, tv_nsec = 4000000\<rparr>)]) = [2, 4]"
  by (simp add: duration_ms_def NS_TO_MS_def TS_TO_NS_def SEC_NS_def timespecsub_def)

lemma demo_release_jobs: "((\<lambda>s :: u64. s + 1) ^^ 2) 0 = 2"
  by (simp only: numeral_2_eq_2 funpow.simps o_apply id_apply) simp

theorem release_loop_measures_witness:
  "\<exists>st. release_loop (\<lambda>s :: u64. 2 \<le> s) (\<lambda>s. s + 1) (\<lambda>s. s) False
     [(\<lparr>tv_sec = 0, tv_nsec = 0\<rparr>, \<lparr>tv_sec = 0, tv_nsec = 2000000\<rparr>),
      (\<lparr>tv_sec = 1, tv_nsec = 0\<rparr>, \<lparr>tv_sec = 1, tv_nsec = 4000000\<rparr>)] 0 exec_stats_init = Some (2, st) \<and>
     acet_measured_ms st = 3"
  using release_loop_measures [where job = "\<lambda>s :: u64. s + 1" and num_jobs = "\<lambda>s. s" and terminate = "\<lambda>s. 2 \<le> s"
      and max_jobs = 2 and s = 0 and collect = False and rs = "[(\<lparr>tv_sec = 0, tv_nsec = 0\<rparr>, \<lparr>tv_sec = 0, tv_nsec = 2000000\<rparr>),
      (\<lparr>tv_sec = 1, tv_nsec = 0\<rparr>, \<lparr>tv_sec = 1, tv_nsec = 4000000\<rparr>)]" and ds = "[2, 4]"]
    demo_release demo_release_jobs
  by (auto simp: MAX_NUM_JOBS_def)

section \<open>Execution time profiles\<close>

record exec_time_profile =
  exec_time_observed_P00 :: u64
  exec_time_observed_P25 :: u64
  exec_time_observed_P50 :: u64
  exec_time_observed_P75 :: u64
  exec_time_observed_P90 :: u64
  exec_time_observed_P99 :: u64
  exec_time_observed_P100 :: u64
  wcet_estimated :: u64

text \<open>The constructor; \<open>None\<close> stands for the fields that it leaves uninitialised when there
  is no measurement. The products \<^verbatim>\<open>size() * 0.25\<close> and so on are truncated to an index.\<close>

definition exec_time_profile_new :: "u64 list \<Rightarrow> exec_time_profile option" where
  "exec_time_profile_new measurements =
     (if length measurements > 0 then
        let ms = sort measurements; n = length ms
        in Some \<lparr>exec_time_observed_P00 = hd ms,
                 exec_time_observed_P25 = ms ! (n * 25 div 100),
                 exec_time_observed_P50 = ms ! (n * 50 div 100),
                 exec_time_observed_P75 = ms ! (n * 75 div 100),
                 exec_time_observed_P90 = ms ! (n * 90 div 100),
                 exec_time_observed_P99 = ms ! (n * 99 div 100),
                 exec_time_observed_P100 = last ms,
                 wcet_estimated = last ms * 2\<rparr>
      else None)"

text \<open>The profiler runs the job between two clock readings, a given number of times.\<close>

definition profiler :: "nat \<Rightarrow> (timespec \<times> timespec) list \<Rightarrow> exec_time_profile option" where
  "profiler max_iterations readings =
     exec_time_profile_new (map (\<lambda>(a, b). TS_TO_NS (timespecsub b a)) (take max_iterations readings))"

text \<open>\<^verbatim>\<open>spin2\<close>: read the clock until the duration has passed; the readings are given.\<close>

fun spin2 :: "u64 \<Rightarrow> timespec \<Rightarrow> timespec list \<Rightarrow> timespec option" where
  "spin2 duration_ns start_ts [] = None"
| "spin2 duration_ns start_ts (curr_ts # rest) =
     (if TS_TO_NS (timespecsub curr_ts start_ts) \<ge> duration_ns then Some curr_ts
      else spin2 duration_ns start_ts rest)"

text \<open>Lemma (profile_percentiles): the percentiles of a non-empty profile are measured values
  in ascending order, from the minimum to the maximum.\<close>

theorem profile_percentiles:
  assumes "measurements \<noteq> []"
  shows "\<exists>p. exec_time_profile_new measurements = Some p \<and>
    exec_time_observed_P00 p = Min (set measurements) \<and> exec_time_observed_P100 p = Max (set measurements) \<and>
    sorted [exec_time_observed_P00 p, exec_time_observed_P25 p, exec_time_observed_P50 p,
      exec_time_observed_P75 p, exec_time_observed_P90 p, exec_time_observed_P99 p, exec_time_observed_P100 p] \<and>
    {exec_time_observed_P25 p, exec_time_observed_P50 p, exec_time_observed_P75 p,
      exec_time_observed_P90 p, exec_time_observed_P99 p} \<subseteq> set measurements"
proof -
  let ?ms = "sort measurements" and ?n = "length measurements"
  have n: "0 < ?n" using assms by simp
  have ends: "hd ?ms = ?ms ! 0" "last ?ms = ?ms ! (?n - 1)"
    using hd_conv_nth [of ?ms] last_conv_nth [of ?ms] assms by (metis length_sort length_0_conv)+
  have mono: "?ms ! i \<le> ?ms ! j" if "i \<le> j" "j < ?n" for i j
    using that by (intro sorted_nth_mono) auto
  have mem: "?ms ! i \<in> set measurements" if "i < ?n" for i
    using that nth_mem [of i ?ms] by simp
  have all: "?ms ! 0 \<le> x" "x \<le> ?ms ! (?n - 1)" if x: "x \<in> set measurements" for x
  proof -
    from x obtain i where "i < ?n" "x = ?ms ! i" by (metis in_set_conv_nth length_sort set_sort)
    then show "?ms ! 0 \<le> x" "x \<le> ?ms ! (?n - 1)" using mono by simp_all
  qed
  have idx: "?n * k div 100 < ?n" if "k < 100" for k
    using n that by (simp add: div_less_iff_less_mult)
  have le: "?n * k div 100 \<le> ?n * l div 100" if "k \<le> l" for k l
    using that by (intro div_le_mono) simp
  have "?ms ! (?n * k div 100) \<le> ?ms ! (?n * l div 100)" if "k \<le> l" "l < 100" for k l
    using mono le idx that by simp
  moreover have "?ms ! (?n * 99 div 100) \<le> ?ms ! (?n - 1)" "?ms ! 0 \<le> ?ms ! (?n * 25 div 100)"
    using mono idx [of 99] idx [of 25] n by simp_all
  ultimately have "sorted [?ms ! 0, ?ms ! (?n * 25 div 100), ?ms ! (?n * 50 div 100), ?ms ! (?n * 75 div 100),
      ?ms ! (?n * 90 div 100), ?ms ! (?n * 99 div 100), ?ms ! (?n - 1)]"
    by (simp only: sorted2_simps simp_thms)
  moreover have "{?ms ! (?n * 25 div 100), ?ms ! (?n * 50 div 100), ?ms ! (?n * 75 div 100),
      ?ms ! (?n * 90 div 100), ?ms ! (?n * 99 div 100)} \<subseteq> set measurements"
    using mem idx [of 25] idx [of 50] idx [of 75] idx [of 90] idx [of 99] by simp
  moreover have "Min (set measurements) = ?ms ! 0" "Max (set measurements) = ?ms ! (?n - 1)"
    using all mem n by (auto intro!: Min_eqI Max_eqI)
  ultimately show ?thesis
    using n ends by (simp only: exec_time_profile_new_def Let_def length_sort if_True option.inject
        exec_time_profile.simps ex_simps simp_thms)
qed

theorem profile_percentiles_witness:
  "\<exists>p. exec_time_profile_new [5, 3, 9, 1] = Some p \<and> exec_time_observed_P00 p = Min {5, 3, 9, 1}"
  using profile_percentiles [of "[5, 3, 9, 1]"] by auto

section \<open>The task object\<close>

text \<open>\<^verbatim>\<open>spin\<close> starts at its own first reading of the clock.\<close>

fun spin :: "u64 \<Rightarrow> timespec list \<Rightarrow> timespec option" where
  "spin duration_ns [] = None"
| "spin duration_ns (start_ts # rest) = spin2 duration_ns start_ts rest"

text \<open>What \<^verbatim>\<open>flush_cache\<close> returns, from its two readings.\<close>

definition flush_cache :: "timespec \<Rightarrow> timespec \<Rightarrow> u64" where
  "flush_cache start_ts end_ts = TS_TO_NS (timespecsub end_ts start_ts)"

record periodic_task =
  task_id :: u32
  task_id_str :: string
  task_period_ns :: u64
  task_offset_ns :: u64
  task_prio :: int
  task_cpu :: int
  task_timer :: periodic_timer
  task_stats :: exec_stats
  task_num_jobs :: u64
  task_collect_ets :: bool

definition periodic_task_new :: "u32 \<Rightarrow> u64 \<Rightarrow> u64 \<Rightarrow> int \<Rightarrow> int \<Rightarrow> timespec \<Rightarrow> periodic_task" where
  "periodic_task_new i period offset prio cpu now =
     \<lparr>task_id = i, task_id_str = dec (unat i) @ ''_'', task_period_ns = period, task_offset_ns = offset,
      task_prio = prio, task_cpu = cpu, task_timer = timer_new period offset now, task_stats = exec_stats_init,
      task_num_jobs = 0, task_collect_ets = False\<rparr>"

definition update_scheduling_preferences :: "int \<Rightarrow> int \<Rightarrow> periodic_task \<Rightarrow> periodic_task" where
  "update_scheduling_preferences prio cpu t = t\<lparr>task_prio := prio, task_cpu := cpu\<rparr>"

text \<open>The percentiles as a line of text; \<open>sd\<close> is the stream output of doubles.\<close>

definition get_percentiles :: "(rat \<Rightarrow> string) \<Rightarrow> string \<Rightarrow> exec_time_profile \<Rightarrow> string" where
  "get_percentiles sd label p = label @ '' profile '' @
     ''P00:'' @ dec (unat (exec_time_observed_P00 p)) @ ''ns, '' @
     ''P25:'' @ dec (unat (exec_time_observed_P25 p)) @ ''ns, '' @
     ''P50:'' @ dec (unat (exec_time_observed_P50 p)) @ ''ns, '' @
     ''P75:'' @ dec (unat (exec_time_observed_P75 p)) @ ''ns, '' @
     ''P90:'' @ dec (unat (exec_time_observed_P90 p)) @ ''ns, '' @
     ''P99:'' @ dec (unat (exec_time_observed_P99 p)) @ ''ns, '' @
     ''P100:'' @ dec (unat (exec_time_observed_P100 p)) @ ''ns, '' @
     ''WCET (estimated):'' @ dec (unat (wcet_estimated p)) @ ''ns = '' @
     sd (of_nat (unat (wcet_estimated p)) / 1000) @ ''us = '' @ sd (NS_TO_MS (wcet_estimated p)) @ ''ms''"


end
