(* ===== verification/Release_Schedule.thy ===== *)
theory Release_Schedule imports Periodic_Task begin

text \<open>
  The timer and the release loop of a task together, \<^verbatim>\<open>PeriodicTask::release\<close> (\<^verbatim>\<open>src/utils/periodic_task.cpp\<close>) with
  \<^verbatim>\<open>PeriodicTimer::trigger\<close> (\<^verbatim>\<open>src/utils/periodic_timer.cpp\<close>): the instants until which the task sleeps. The readings of the clock
  are arguments. Shown: a task whose jobs end in the period in which they were released is released once per period, for as
  many periods as it has jobs, and its jobs compute their own release point as their release time.
\<close>

section \<open>The operations\<close>

text \<open>The instants that are slept until: the time that is given, then the first release after the clock reading \<open>now\<close>.\<close>

definition trigger :: "timespec option \<Rightarrow> timespec \<Rightarrow> timespec \<Rightarrow> periodic_timer \<Rightarrow> timespec list \<times> periodic_timer" where
  "trigger ts now woken tm =
     (let (next_ts, tm') = wait now woken tm
      in ((case ts of None \<Rightarrow> [] | Some t \<Rightarrow> [t]) @ [next_ts], tm'))"

text \<open>The other two overloads: without an argument, and with a delay.\<close>

definition trigger_now :: "timespec \<Rightarrow> timespec \<Rightarrow> periodic_timer \<Rightarrow> timespec list \<times> periodic_timer" where
  "trigger_now now woken tm = (let (next_ts, tm') = wait now woken tm in ([next_ts], tm'))"

definition trigger_delayed :: "timespec \<Rightarrow> u64 \<Rightarrow> timespec \<Rightarrow> timespec \<Rightarrow> periodic_timer \<Rightarrow> timespec list \<times> periodic_timer" where
  "trigger_delayed now delay_ns later woken tm =
     (let (next_ts, tm') = wait later woken tm in ([delayed_release now delay_ns, next_ts], tm'))"

text \<open>The readings around a job and its wait: start and end of the job, the reading of the timer, and the one after waking up.\<close>

record tick =
  start_ts :: timespec
  finish_ts :: timespec
  now_ts :: timespec
  woken_ts :: timespec

fun timed_loop :: "('s \<Rightarrow> bool) \<Rightarrow> ('s \<Rightarrow> 's) \<Rightarrow> ('s \<Rightarrow> u64) \<Rightarrow> bool \<Rightarrow> tick list \<Rightarrow> 's \<Rightarrow> exec_stats \<Rightarrow> periodic_timer
    \<Rightarrow> (('s \<times> exec_stats) \<times> timespec list \<times> periodic_timer) option" where
  "timed_loop terminate job num_jobs collect [] s st tm = (if terminate s then Some ((s, st), [], tm) else None)"
| "timed_loop terminate job num_jobs collect (r # rest) s st tm =
     (if terminate s then Some ((s, st), [], tm)
      else let s' = job s;
               st' = record_job collect (num_jobs s') (timespecsub (finish_ts r) (start_ts r)) st
           in if unat (num_jobs s') \<le> MAX_NUM_JOBS
              then let (next_ts, tm') = wait (now_ts r) (woken_ts r) tm
                   in (case timed_loop terminate job num_jobs collect rest s' st' tm' of
                         None \<Rightarrow> None
                       | Some (res, sleeps, tm'') \<Rightarrow> Some (res, next_ts # sleeps, tm''))
              else None)"

definition release :: "('s \<Rightarrow> bool) \<Rightarrow> ('s \<Rightarrow> 's) \<Rightarrow> ('s \<Rightarrow> u64) \<Rightarrow> bool \<Rightarrow> timespec option \<Rightarrow> timespec \<Rightarrow> timespec \<Rightarrow> tick list
    \<Rightarrow> 's \<Rightarrow> periodic_timer \<Rightarrow> (('s \<times> exec_stats) \<times> timespec list \<times> periodic_timer) option" where
  "release terminate job num_jobs collect release_ts now woken ticks s tm =
     (let (first, tm') = trigger release_ts now woken tm
      in (case timed_loop terminate job num_jobs collect ticks s exec_stats_init tm' of
            None \<Rightarrow> None
          | Some (res, sleeps, tm'') \<Rightarrow> Some (res, first @ sleeps, tm'')))"

section \<open>The loop with and without the timer\<close>

definition job_readings :: "tick \<Rightarrow> timespec \<times> timespec" where
  "job_readings r = (start_ts r, finish_ts r)"

lemma wait_timer:
  "get_next_release (snd (wait now woken tm)) t = get_next_release tm t"
  "time_period_ns (snd (wait now woken tm)) = time_period_ns tm" "offset_ns (snd (wait now woken tm)) = offset_ns tm"
  by (simp_all add: wait_def update_stats_def get_next_release_def Let_def)

text \<open>The timer does not change what the loop computes; it sleeps once after each job.\<close>

lemma timed_loop_refines:
  "map_option fst (timed_loop terminate job num_jobs collect ticks s st tm) =
   release_loop terminate job num_jobs collect (map job_readings ticks) s st"
proof (induction ticks arbitrary: s st tm)
  case (Cons r ticks)
  show ?case
    using Cons.IH [of "job s" "record_job collect (num_jobs (job s)) (timespecsub (finish_ts r) (start_ts r)) st"
        "snd (wait (now_ts r) (woken_ts r) tm)"]
    by (auto simp: job_readings_def Let_def split: prod.splits option.splits)
qed simp

lemma timed_loop_sleeps:
  assumes "timed_loop terminate job num_jobs collect ticks s st tm = Some (res, sleeps, tm')"
  shows "\<exists>n \<le> length ticks. sleeps = map (get_next_release tm \<circ> now_ts) (take n ticks) \<and> fst res = (job ^^ n) s \<and> terminate (fst res) \<and>
    (\<forall>k < n. \<not> terminate ((job ^^ k) s))"
  using assms
proof (induction ticks arbitrary: s st tm sleeps)
  case (Cons r ticks)
  show ?case
  proof (cases "terminate s")
    case True
    then show ?thesis using Cons.prems by (intro exI [of _ 0]) auto
  next
    case False
    let ?st = "record_job collect (num_jobs (job s)) (timespecsub (finish_ts r) (start_ts r)) st"
    let ?tm = "snd (wait (now_ts r) (woken_ts r) tm)"
    obtain sl where sl: "timed_loop terminate job num_jobs collect ticks (job s) ?st ?tm = Some (res, sl, tm')"
      "sleeps = get_next_release tm (now_ts r) # sl"
      using Cons.prems False by (auto simp: Let_def wait_def split: prod.splits option.splits if_splits)
    from Cons.IH [OF sl(1)] obtain n where
      n: "n \<le> length ticks" "sl = map (get_next_release tm \<circ> now_ts) (take n ticks)" "fst res = (job ^^ n) (job s)" "terminate (fst res)"
        "\<forall>k < n. \<not> terminate ((job ^^ k) (job s))"
      by (auto simp: wait_timer o_def)
    have "\<not> terminate ((job ^^ k) s)" if "k < Suc n" for k
      using that n(5) False by (cases k) (simp_all add: funpow_swap1)
    then show ?thesis using n(1-4) sl(2) by (intro exI [of _ "Suc n"]) (simp add: funpow_swap1)
  qed
qed (auto split: if_splits)

section \<open>Releases once per period\<close>

text \<open>The release point number \<open>k\<close> of a task that is triggered when the clock reads \<open>now\<close>.\<close>

definition release_point :: "periodic_timer \<Rightarrow> timespec \<Rightarrow> nat \<Rightarrow> int" where
  "release_point tm now k =
     (ns now div uint (time_period_ns tm) + 1) * uint (time_period_ns tm) + uint (offset_ns tm) + int k * uint (time_period_ns tm)"

text \<open>Job number \<open>k\<close> comes to its wait after its release point and before the end of the period of that point.\<close>

definition runs_in_time :: "periodic_timer \<Rightarrow> timespec \<Rightarrow> nat \<Rightarrow> tick \<Rightarrow> bool" where
  "runs_in_time tm now k r \<longleftrightarrow> in_range (now_ts r) \<and> release_point tm now k \<le> ns (now_ts r) \<and>
     ns (now_ts r) < release_point tm now k - uint (offset_ns tm) + uint (time_period_ns tm)"

lemma release_point_Suc: "release_point tm now (Suc k) = release_point tm now k + uint (time_period_ns tm)"
  by (simp add: release_point_def algebra_simps)

lemma release_point_multiple:
  "release_point tm now k = (ns now div uint (time_period_ns tm) + 1 + int k) * uint (time_period_ns tm) + uint (offset_ns tm)"
  by (simp add: release_point_def algebra_simps)

lemma release_point_mono: "j \<le> k \<Longrightarrow> release_point tm now j \<le> release_point tm now k"
  by (simp add: release_point_def mult_right_mono)

lemma div_between: "(q :: int) * p \<le> x \<Longrightarrow> x < q * p + p \<Longrightarrow> x div p = q"
  by (rule int_div_pos_eq [where r = "x - q * p"]) (simp_all add: mult.commute)

lemma next_after_job:
  assumes "runs_in_time tm now k r" "0 < time_period_ns tm" "release_point tm now k + 2 * uint (time_period_ns tm) < 2 ^ 63"
  shows "ns (get_next_release tm (now_ts r)) = release_point tm now (Suc k)"
proof -
  let ?P = "uint (time_period_ns tm)" and ?O = "uint (offset_ns tm)" and ?q = "ns now div uint (time_period_ns tm) + 1 + int k"
  have b: "?q * ?P + ?O \<le> ns (now_ts r)" "ns (now_ts r) < ?q * ?P + ?P" "in_range (now_ts r)"
    using assms(1) by (auto simp: runs_in_time_def release_point_multiple)
  moreover have "0 \<le> ?O" by simp
  ultimately have "ns (now_ts r) div ?P = ?q" by (intro div_between) linarith+
  moreover have "ns (now_ts r) + ?P + ?O < 2 ^ 63" using b(2) assms(3) by (simp add: release_point_multiple)
  ultimately show ?thesis
    using next_release_total(1) [OF b(3) assms(2)] by (simp add: release_point_multiple algebra_simps)
qed

lemma first_release:
  assumes "in_range now" "0 < time_period_ns tm" "release_point tm now 0 + 2 * uint (time_period_ns tm) < 2 ^ 63"
  shows "ns (get_next_release tm now) = release_point tm now 0"
proof -
  let ?P = "uint (time_period_ns tm)"
  have P: "0 < ?P" using assms(2) by (simp add: word_less_def)
  have "ns now div ?P * ?P + ns now mod ?P = ns now" by (rule div_mult_mod_eq)
  moreover have "ns now mod ?P < ?P" using P by simp
  moreover have "ns now div ?P * ?P + ?P + uint (offset_ns tm) + 2 * ?P < 2 ^ 63"
    using assms(3) by (simp add: release_point_def distrib_right)
  ultimately have "ns now + ?P + uint (offset_ns tm) < 2 ^ 63" using P by linarith
  then show ?thesis using next_release_total(1) [OF assms(1,2)] by (simp add: release_point_def)
qed

lemma own_release_time:
  assumes "release_point tm now k \<le> uint t" "uint t < release_point tm now k - uint (offset_ns tm) + uint (time_period_ns tm)"
    and "0 < time_period_ns tm" "0 \<le> ns now"
  shows "uint (my_release_time t (time_period_ns tm) (offset_ns tm)) = release_point tm now k"
proof -
  let ?P = "uint (time_period_ns tm)" and ?O = "uint (offset_ns tm)" and ?q = "ns now div uint (time_period_ns tm) + 1 + int k"
  have P: "0 < ?P" "0 \<le> ?O" using assms(3) by (simp_all add: word_less_def)
  have q: "0 \<le> ?q" using assms(4) P by (simp add: pos_imp_zdiv_nonneg_iff)
  have b: "?q * ?P + ?O \<le> uint t" "uint t < ?q * ?P + ?P" using assms(1,2) by (simp_all add: release_point_multiple)
  have "0 \<le> ?q * ?P" using q P by simp
  then have "?O \<le> uint t" using b(1) by linarith
  then have d: "uint (t - offset_ns tm) = uint t - ?O" using uint_minus_simple_alt [of "offset_ns tm" t] by (simp add: word_le_def)
  have "(uint t - ?O) div ?P = ?q" using b P(2) by (intro div_between) linarith+
  then have div: "(t - offset_ns tm) div time_period_ns tm = word_of_int ?q" using d by (metis uint_div word_of_int_uint)
  have "my_release_time t (time_period_ns tm) (offset_ns tm) = word_of_int (?O + ?q * ?P)"
    unfolding my_release_time_def div by (simp add: of_int_add of_int_mult)
  moreover have "?O + ?q * ?P < 2 ^ 64" using b(1) uint_lt2p [of t] by simp
  moreover have "0 \<le> ?O + ?q * ?P" using P(2) \<open>0 \<le> ?q * ?P\<close> by linarith
  ultimately show ?thesis by (simp only: uint_of_int_u64 release_point_multiple add.commute)
qed

lemma jobs_counted: "\<forall>s. num_jobs (job s) = num_jobs s + 1 \<Longrightarrow> num_jobs s = (0 :: u64) \<Longrightarrow> num_jobs ((job ^^ k) s) = word_of_nat k"
  by (induction k) simp_all

lemma timed_loop_returns:
  assumes "\<forall>s. num_jobs (job s) = num_jobs s + 1" "\<forall>s. terminate s \<longleftrightarrow> max_jobs \<le> num_jobs s"
    and "unat max_jobs \<le> MAX_NUM_JOBS" "num_jobs s = 0" "length ticks = unat max_jobs"
  shows "\<exists>st tm'. timed_loop terminate job num_jobs collect ticks s exec_stats_init tm =
    Some (((job ^^ unat max_jobs) s, st), map (get_next_release tm \<circ> now_ts) ticks, tm')"
proof -
  have "summarises [] exec_stats_init" by (simp add: summarises_def exec_stats_init_def)
  then obtain st where "release_loop terminate job num_jobs collect (map job_readings ticks) s exec_stats_init =
      Some ((job ^^ unat max_jobs) s, st)"
    using release_loop_run [where num_jobs = num_jobs and job = job and terminate = terminate and max_jobs = max_jobs
        and ds = "[]" and rs = "map job_readings ticks" and s = s and st = exec_stats_init and collect = collect] assms by auto
  then have "map_option fst (timed_loop terminate job num_jobs collect ticks s exec_stats_init tm) = Some ((job ^^ unat max_jobs) s, st)"
    using timed_loop_refines by metis
  then obtain sleeps tm' where
    loop: "timed_loop terminate job num_jobs collect ticks s exec_stats_init tm = Some (((job ^^ unat max_jobs) s, st), sleeps, tm')"
    by auto
  from timed_loop_sleeps [OF this] obtain n where
    n: "n \<le> length ticks" "sleeps = map (get_next_release tm \<circ> now_ts) (take n ticks)" "terminate ((job ^^ n) s)" by auto
  have "n < 2 ^ 64" using n(1) assms(5) unat_lt_u64 [of max_jobs] by simp
  then have "unat (num_jobs ((job ^^ n) s)) = n" using jobs_counted [OF assms(1,4), of n] by (simp only: unat_of_nat_u64)
  then have "unat max_jobs \<le> n" using n(3) assms(2) by (simp add: word_le_nat_alt)
  then show ?thesis using loop n(1,2) assms(5) by simp
qed

text \<open>C19 (releases_on_time): a task of \<open>max_jobs\<close> jobs is triggered at some time, and each of its jobs comes to its wait in the
  period in which it was released. Then the task returns after all its jobs, it is released at successive release points, one
  per period and none skipped, starting with the first one whose period begins after the trigger; and a job that asks for its release time at any
  moment until its wait gets exactly the point at which it was released.\<close>

theorem releases_on_time:
  assumes "\<forall>s. num_jobs (job s) = num_jobs s + 1" "\<forall>s. terminate s \<longleftrightarrow> max_jobs \<le> num_jobs s"
    and "unat max_jobs \<le> MAX_NUM_JOBS" "num_jobs s = 0" "length ticks = unat max_jobs"
    and "in_range now" "0 < time_period_ns tm" "release_point tm now (length ticks) + 2 * uint (time_period_ns tm) < 2 ^ 63"
    and "\<forall>k < length ticks. runs_in_time tm now k (ticks ! k)"
  shows "(\<exists>st sleeps tm'. release terminate job num_jobs collect (Some ts) now woken ticks s tm =
        Some (((job ^^ unat max_jobs) s, st), ts # sleeps, tm') \<and>
      map ns sleeps = map (release_point tm now) [0..<Suc (unat max_jobs)]) \<and>
    (\<forall>k < length ticks. \<forall>t :: u64. release_point tm now k \<le> uint t \<and> uint t \<le> ns (now_ts (ticks ! k)) \<longrightarrow>
      uint (my_release_time t (time_period_ns tm) (offset_ns tm)) = release_point tm now k)"
proof (intro conjI allI impI)
  let ?tm = "snd (wait now woken tm)" and ?sleeps = "get_next_release tm now # map (get_next_release tm \<circ> now_ts) ticks"
  obtain st tm' where "timed_loop terminate job num_jobs collect ticks s exec_stats_init ?tm =
      Some (((job ^^ unat max_jobs) s, st), map (get_next_release ?tm \<circ> now_ts) ticks, tm')"
    using timed_loop_returns [OF assms(1-5)] by blast
  then have "release terminate job num_jobs collect (Some ts) now woken ticks s tm =
      Some (((job ^^ unat max_jobs) s, st), ts # ?sleeps, tm')"
    by (simp add: release_def trigger_def wait_timer o_def) (simp add: wait_def)
  moreover have "map ns ?sleeps = map (release_point tm now) [0..<Suc (unat max_jobs)]"
  proof (rule nth_equalityI)
    fix k assume "k < length (map ns ?sleeps)"
    then have k: "k < Suc (length ticks)" by simp
    have bound: "release_point tm now j + 2 * uint (time_period_ns tm) < 2 ^ 63" if "j \<le> length ticks" for j
      using release_point_mono [OF that, of tm now] assms(8) by linarith
    show "map ns ?sleeps ! k = map (release_point tm now) [0..<Suc (unat max_jobs)] ! k"
    proof (cases k)
      case 0
      then show ?thesis using first_release [OF assms(6,7) bound] by (simp add: nth_append upt_conv_Cons del: upt_Suc)
    next
      case (Suc j)
      then have "j < length ticks" using k by simp
      then show ?thesis using Suc next_after_job [of tm now j "ticks ! j"] assms(5,7,9) bound [of j] by (simp del: upt_Suc)
    qed
  qed (simp add: assms(5))
  ultimately show "\<exists>st sleeps tm'. release terminate job num_jobs collect (Some ts) now woken ticks s tm =
      Some (((job ^^ unat max_jobs) s, st), ts # sleeps, tm') \<and> map ns sleeps = map (release_point tm now) [0..<Suc (unat max_jobs)]" by blast
next
  fix k and t :: u64 assume k: "k < length ticks" and t: "release_point tm now k \<le> uint t \<and> uint t \<le> ns (now_ts (ticks ! k))"
  have "0 \<le> ns now" using assms(6) by (simp add: in_range_def timespecisvalid_def ns_def)
  then show "uint (my_release_time t (time_period_ns tm) (offset_ns tm)) = release_point tm now k"
    using own_release_time [of tm now k t] t assms(7,9) k by (auto simp: runs_in_time_def)
qed

section \<open>A concrete task\<close>

definition demo_tick :: "int \<Rightarrow> tick" where
  "demo_tick n = \<lparr>start_ts = \<lparr>tv_sec = 1, tv_nsec = n\<rparr>, finish_ts = \<lparr>tv_sec = 1, tv_nsec = n + 9\<rparr>, now_ts = \<lparr>tv_sec = 1, tv_nsec = n + 10\<rparr>,
     woken_ts = \<lparr>tv_sec = 1, tv_nsec = n + 100\<rparr>\<rparr>"

theorem releases_on_time_witness:
  "\<exists>st sleeps tm'. release (\<lambda>s :: u64. 2 \<le> s) (\<lambda>s. s + 1) (\<lambda>s. s) False (Some \<lparr>tv_sec = 1, tv_nsec = 0\<rparr>) \<lparr>tv_sec = 1, tv_nsec = 0\<rparr>
      \<lparr>tv_sec = 1, tv_nsec = 120\<rparr> [demo_tick 121, demo_tick 222] 0 (timer_new 100 20 timespecclear) = Some ((2, st), \<lparr>tv_sec = 1, tv_nsec = 0\<rparr> # sleeps, tm') \<and>
     map ns sleeps = [1000000120, 1000000220, 1000000320]"
proof -
  have intime: "\<forall>k < length [demo_tick 121, demo_tick 222].
      runs_in_time (timer_new 100 20 timespecclear) \<lparr>tv_sec = 1, tv_nsec = 0\<rparr> k ([demo_tick 121, demo_tick 222] ! k)"
    by (auto simp: runs_in_time_def release_point_def demo_tick_def timer_new_def in_range_def timespecisvalid_def ns_def less_Suc_eq)
  have r: "release_point (timer_new 100 20 timespecclear) \<lparr>tv_sec = 1, tv_nsec = 0\<rparr> (length [demo_tick 121, demo_tick 222]) +
      2 * uint (time_period_ns (timer_new 100 20 timespecclear)) < 2 ^ 63 \<and>
    map (release_point (timer_new 100 20 timespecclear) \<lparr>tv_sec = 1, tv_nsec = 0\<rparr>) [0..<Suc (unat (2 :: u64))] =
      [1000000120, 1000000220, 1000000320]"
    "in_range \<lparr>tv_sec = 1, tv_nsec = 0\<rparr>" "0 < time_period_ns (timer_new 100 20 timespecclear)"
    by (simp_all add: release_point_def timer_new_def ns_def in_range_def timespecisvalid_def upt_rec word_less_def)
  have two: "length [demo_tick 121, demo_tick 222] = unat (2 :: u64)" "unat (2 :: u64) \<le> MAX_NUM_JOBS" "unat (2 :: u64) = 2"
    by (simp_all add: MAX_NUM_JOBS_def)
  from releases_on_time [where job = "\<lambda>s :: u64. s + 1" and num_jobs = "\<lambda>s. s" and terminate = "\<lambda>s. 2 \<le> s" and max_jobs = 2 and s = 0
      and collect = False and ts = "\<lparr>tv_sec = 1, tv_nsec = 0\<rparr>" and woken = "\<lparr>tv_sec = 1, tv_nsec = 120\<rparr>",
      OF _ _ two(2) _ two(1) r(2,3) conjunct1 [OF r(1)] intime, THEN conjunct1]
  show ?thesis using conjunct2 [OF r(1)] demo_release_jobs by (simp only: two(3) simp_thms)
qed

end
