(* ===== verification/Bin_Pack.thy ===== *)
theory Bin_Pack imports Prelude Complex_Main "HOL-Library.Multiset" begin

text \<open>
  \<^verbatim>\<open>src/utils/binpack.cpp\<close>: four heuristics that assign weighted items to bins. The item
  map is an association list in ascending order of its keys, the order in which
  \<^verbatim>\<open>std::map\<close> iterates; weights, which are doubles in the code, are exact rationals. The order
  in which \<^verbatim>\<open>std::sort\<close> leaves bins of equal load is not specified by C++, so it is a
  parameter: \<open>std_sort tie cmp\<close> ranges over all results that the standard allows.
\<close>

section \<open>Sorting\<close>

fun insert_by :: "('a \<Rightarrow> 'a \<Rightarrow> bool) \<Rightarrow> 'a \<Rightarrow> 'a list \<Rightarrow> 'a list" where
  "insert_by cmp x [] = [x]"
| "insert_by cmp x (y # ys) = (if cmp y x then y # insert_by cmp x ys else x # y # ys)"

definition std_sort :: "('a list \<Rightarrow> 'a list) \<Rightarrow> ('a \<Rightarrow> 'a \<Rightarrow> bool) \<Rightarrow> 'a list \<Rightarrow> 'a list" where
  "std_sort tie cmp xs = foldr (insert_by cmp) (if mset (tie xs) = mset xs then tie xs else xs) []"

definition sorted_by :: "('a \<Rightarrow> 'a \<Rightarrow> bool) \<Rightarrow> 'a list \<Rightarrow> bool" where
  "sorted_by cmp xs \<longleftrightarrow> sorted_wrt (\<lambda>a b. \<not> cmp b a) xs"

lemma mset_insert_by [simp]: "mset (insert_by cmp x xs) = add_mset x (mset xs)"
  by (induction xs) auto

lemma mset_foldr_insert_by [simp]: "mset (foldr (insert_by cmp) xs []) = mset xs"
  by (induction xs) auto

lemma mset_std_sort [simp]: "mset (std_sort tie cmp xs) = mset xs"
  by (simp add: std_sort_def)

lemma set_insert_by [simp]: "set (insert_by cmp x xs) = insert x (set xs)"
  by (induction xs) auto

lemma insert_by_sorted:
  assumes "sorted_by cmp xs" "\<And>a b. cmp a b \<Longrightarrow> \<not> cmp b a" "\<And>a b c. \<not> cmp a b \<Longrightarrow> \<not> cmp b c \<Longrightarrow> \<not> cmp a c"
  shows "sorted_by cmp (insert_by cmp x xs)"
  using assms(1)
proof (induction xs)
  case Nil
  then show ?case by (simp add: sorted_by_def)
next
  case (Cons y ys)
  then have ys: "\<forall>z \<in> set ys. \<not> cmp z y" "sorted_by cmp ys" by (auto simp: sorted_by_def)
  show ?case
  proof (cases "cmp y x")
    case True
    then have "\<not> cmp x y" by (rule assms(2))
    then show ?thesis using True ys Cons.IH by (simp add: sorted_by_def)
  next
    case False
    then have "\<forall>z \<in> set ys. \<not> cmp z x" using ys(1) assms(3) by blast
    then show ?thesis using False ys by (simp add: sorted_by_def)
  qed
qed

lemma std_sort_sorted:
  assumes "\<And>a b. cmp a b \<Longrightarrow> \<not> cmp b a" "\<And>a b c. \<not> cmp a b \<Longrightarrow> \<not> cmp b c \<Longrightarrow> \<not> cmp a c"
  shows "sorted_by cmp (std_sort tie cmp xs)"
proof -
  have "sorted_by cmp (foldr (insert_by cmp) ys [])" for ys
  proof (induction ys)
    case Nil
    then show ?case by (simp add: sorted_by_def)
  next
    case (Cons y ys)
    have "sorted_by cmp (insert_by cmp y (foldr (insert_by cmp) ys []))"
      by (rule insert_by_sorted [OF Cons.IH]) (fact assms)+
    then show ?case by simp
  qed
  then show ?thesis by (simp add: std_sort_def)
qed

lemma insert_by_front: "\<forall>y \<in> set ys. \<not> cmp y x \<Longrightarrow> insert_by cmp x ys = x # ys"
  by (cases ys) auto

lemma sorted_by_fixed: "sorted_by cmp ys \<Longrightarrow> foldr (insert_by cmp) ys [] = ys"
  by (induction ys) (auto simp: sorted_by_def insert_by_front)

lemma std_sort_any:
  assumes "mset ys = mset xs" "sorted_by cmp ys"
  shows "std_sort (\<lambda>_. ys) cmp xs = ys"
  using assms by (simp add: std_sort_def sorted_by_fixed)

section \<open>The packing object\<close>

type_synonym bin_loads = "(u32 \<times> rat) list"

record bin_pack =
  items :: "(u32 \<times> rat) list"
  num_bins :: u32
  max_bin_capacity :: rat
  mapping :: "u32 \<rightharpoonup> u32"
  misfits :: "u32 set"

definition bin_pack_new :: "(u32 \<times> rat) list \<Rightarrow> u32 \<Rightarrow> rat \<Rightarrow> bin_pack" where
  "bin_pack_new its n cap =
     \<lparr>items = its, num_bins = n, max_bin_capacity = cap, mapping = Map.empty, misfits = {}\<rparr>"

definition cmp :: "u32 \<times> rat \<Rightarrow> u32 \<times> rat \<Rightarrow> bool" where
  "cmp a b \<longleftrightarrow> snd a < snd b"

definition cmp_opp :: "u32 \<times> rat \<Rightarrow> u32 \<times> rat \<Rightarrow> bool" where
  "cmp_opp a b \<longleftrightarrow> snd a > snd b"

text \<open>The inner \<^verbatim>\<open>while\<close> of \<^verbatim>\<open>next_fit\<close>: open bins until the item fits or none is left.\<close>

lemma unat_pred_less: "x \<noteq> 0 \<Longrightarrow> unat (x - 1) < unat (x :: u32)"
  by (simp add: unat_minus_one unat_gt_0)

function advance :: "u32 \<Rightarrow> rat \<Rightarrow> rat \<Rightarrow> u32 \<Rightarrow> rat \<Rightarrow> u32 \<times> rat" where
  "advance n cap w bid acc =
     (if acc + w > cap then
        (if bid + 1 = n then (bid + 1, 0) else advance n cap w (bid + 1) 0)
      else (bid, acc))"
  by pat_completeness auto
termination
proof (relation "measure (\<lambda>(n, cap, w, bid, acc). unat (n - (bid + 1)))", goal_cases)
  case (2 n cap w bid acc)
  then have "n - (bid + 1) \<noteq> 0" by simp
  from unat_pred_less [OF this] show ?case by (simp add: diff_diff_eq)
qed simp

declare advance.simps [simp del]

fun next_items :: "u32 \<Rightarrow> rat \<Rightarrow> (u32 \<times> rat) list \<Rightarrow> u32 \<Rightarrow> rat \<Rightarrow> (u32 \<rightharpoonup> u32) \<Rightarrow> u32 set
    \<Rightarrow> (u32 \<rightharpoonup> u32) \<times> u32 set" where
  "next_items n cap [] bid acc m mf = (m, mf)"
| "next_items n cap ((k, w) # rest) bid acc m mf =
     (let (bid', acc') = advance n cap w bid acc
      in if bid' = n then (m, insert k mf)
         else next_items n cap rest bid' (acc' + w) (m(k \<mapsto> bid')) mf)"

definition next_fit :: "bin_pack \<Rightarrow> bool \<times> bin_pack" where
  "next_fit bp =
     (let (m, mf) = next_items (num_bins bp) (max_bin_capacity bp) (items bp) 0 0 Map.empty {}
      in (mf = {}, bp\<lparr>mapping := m, misfits := mf\<rparr>))"

text \<open>The inner loop of the other three: put the item into the first bin that has room.\<close>

fun place :: "rat \<Rightarrow> rat \<Rightarrow> bin_loads \<Rightarrow> u32 option \<times> bin_loads" where
  "place cap w [] = (None, [])"
| "place cap w ((b, load) # bins) =
     (if w + load \<le> cap then (Some b, (b, load + w) # bins)
      else (let (r, bins') = place cap w bins in (r, (b, load) # bins')))"

fun fit_items :: "(bin_loads \<Rightarrow> bin_loads) \<Rightarrow> rat \<Rightarrow> (u32 \<times> rat) list \<Rightarrow> bin_loads \<Rightarrow> (u32 \<rightharpoonup> u32) \<Rightarrow> u32 set
    \<Rightarrow> (u32 \<rightharpoonup> u32) \<times> u32 set \<times> bin_loads" where
  "fit_items reorder cap [] bins m mf = (m, mf, bins)"
| "fit_items reorder cap ((k, w) # rest) bins m mf =
     (let (r, bins') = place cap w (reorder bins);
          m' = (case r of Some b \<Rightarrow> m(k \<mapsto> b) | None \<Rightarrow> m);
          mf' = (if m' k = None then insert k mf else mf)
      in fit_items reorder cap rest bins' m' mf')"

definition empty_bins :: "u32 \<Rightarrow> bin_loads" where
  "empty_bins n = map (\<lambda>i. (of_nat i, 0)) [0..<unat n]"

definition fit :: "(bin_loads \<Rightarrow> bin_loads) \<Rightarrow> bin_pack \<Rightarrow> bool \<times> bin_pack" where
  "fit reorder bp =
     (let (m, mf, _) = fit_items reorder (max_bin_capacity bp) (items bp) (empty_bins (num_bins bp)) Map.empty {}
      in (mf = {}, bp\<lparr>mapping := m, misfits := mf\<rparr>))"

definition first_fit :: "bin_pack \<Rightarrow> bool \<times> bin_pack" where
  "first_fit = fit (\<lambda>bins. bins)"

definition best_fit :: "(bin_loads \<Rightarrow> bin_loads) \<Rightarrow> bin_pack \<Rightarrow> bool \<times> bin_pack" where
  "best_fit tie = fit (std_sort tie cmp_opp)"

definition worst_fit :: "(bin_loads \<Rightarrow> bin_loads) \<Rightarrow> bin_pack \<Rightarrow> bool \<times> bin_pack" where
  "worst_fit tie = fit (std_sort tie cmp)"

definition any_fit :: "(bin_loads \<Rightarrow> bin_loads) \<Rightarrow> bin_pack \<Rightarrow> bool \<times> bin_pack" where
  "any_fit tie bp =
     (let (ok1, bp1) = next_fit bp in if ok1 then (True, bp1) else
      let (ok2, bp2) = first_fit bp1 in if ok2 then (True, bp2) else
      let (ok3, bp3) = best_fit tie bp2 in if ok3 then (True, bp3) else
      let (ok4, bp4) = worst_fit tie bp3 in if ok4 then (True, bp4) else (False, bp4))"

section \<open>What a packing is\<close>

definition keys :: "(u32 \<times> rat) list \<Rightarrow> u32 set" where
  "keys its = fst ` set its"

definition load_of :: "(u32 \<times> rat) list \<Rightarrow> (u32 \<rightharpoonup> u32) \<Rightarrow> u32 \<Rightarrow> rat" where
  "load_of its m b = (\<Sum>(k, w) \<leftarrow> its. if m k = Some b then w else 0)"

definition items_ok :: "(u32 \<times> rat) list \<Rightarrow> bool" where
  "items_ok its \<longleftrightarrow> distinct (map fst its) \<and> (\<forall>(k, w) \<in> set its. 0 \<le> w)"

text \<open>Every mapped item is an item, in an existing bin, and no bin is overloaded.\<close>

definition packs :: "bin_pack \<Rightarrow> (u32 \<rightharpoonup> u32) \<Rightarrow> bool" where
  "packs bp m \<longleftrightarrow> dom m \<subseteq> keys (items bp) \<and> (\<forall>b \<in> ran m. b < num_bins bp) \<and>
     (\<forall>b. load_of (items bp) m b \<le> max_bin_capacity bp)"

lemma load_of_simps [simp]:
  "load_of [] m b = 0"
  "load_of ((k, w) # its) m b = (if m k = Some b then w else 0) + load_of its m b"
  "load_of (xs @ ys) m b = load_of xs m b + load_of ys m b"
  by (simp_all add: load_of_def)

lemma keys_simps [simp]:
  "keys [] = {}" "keys ((k, w) # its) = insert k (keys its)" "keys (xs @ ys) = keys xs \<union> keys ys"
  by (auto simp: keys_def)

lemma load_of_other: "k \<notin> keys its \<Longrightarrow> load_of its (m(k \<mapsto> b)) c = load_of its m c"
  by (induction its) auto

lemma load_of_none: "(\<And>k. k \<in> keys its \<Longrightarrow> m k \<noteq> Some b) \<Longrightarrow> load_of its m b = 0"
  by (induction its) auto

lemma load_of_snoc:
  assumes "k \<notin> keys its"
  shows "load_of (its @ [(k, w)]) (m(k \<mapsto> b)) c = load_of its m c + (if c = b then w else 0)"
  using assms by (simp add: load_of_other)

lemma place_none:
  "place cap w bins = (None, bins') \<Longrightarrow> bins' = bins \<and> (\<forall>(b, l) \<in> set bins. cap < w + l)"
  by (induction bins arbitrary: bins') (auto split: if_splits prod.splits)

lemma place_some:
  "place cap w bins = (Some b, bins') \<Longrightarrow> \<exists>pre l post. bins = pre @ (b, l) # post \<and>
     bins' = pre @ (b, l + w) # post \<and> w + l \<le> cap \<and> (\<forall>(c, x) \<in> set pre. cap < w + x)"
proof (induction bins arbitrary: bins')
  case (Cons p bins)
  obtain c x where p: "p = (c, x)" by (cases p)
  show ?case
  proof (cases "w + x \<le> cap")
    case True
    then show ?thesis using Cons.prems p by fastforce
  next
    case False
    then obtain bs where bs: "place cap w bins = (Some b, bs)" "bins' = (c, x) # bs"
      using Cons.prems p by (auto split: prod.splits)
    from Cons.IH [OF bs(1)] obtain pre l post where
      "bins = pre @ (b, l) # post" "bs = pre @ (b, l + w) # post" "w + l \<le> cap" "\<forall>(c, x) \<in> set pre. cap < w + x"
      by auto
    then show ?thesis using False bs(2) p
      by (intro exI [of _ "(c, x) # pre"] exI [of _ l] exI [of _ post]) auto
  qed
qed simp

section \<open>The contract of the three fitting heuristics\<close>

text \<open>First, best and worst fit run the same loop and differ in how the bins are reordered
  before an item is placed. All the loop needs is that the reordering loses no bin.\<close>

text \<open>The loop's invariant, for the items handled so far: the bins record their loads, and
  an item is a misfit exactly when it was not placed, and then no bin has room for it.\<close>

definition fit_inv :: "u32 set \<Rightarrow> rat \<Rightarrow> (u32 \<times> rat) list \<Rightarrow> bin_loads \<Rightarrow> (u32 \<rightharpoonup> u32) \<Rightarrow> u32 set \<Rightarrow> bool" where
  "fit_inv bids cap done bins m mf \<longleftrightarrow>
     distinct (map fst bins) \<and> fst ` set bins = bids \<and>
     (\<forall>b l. (b, l) \<in> set bins \<longrightarrow> l = load_of done m b \<and> l \<le> cap) \<and>
     dom m \<subseteq> keys done \<and> ran m \<subseteq> bids \<and> mf = keys done - dom m \<and>
     (\<forall>k w. (k, w) \<in> set done \<longrightarrow> m k = None \<longrightarrow> (\<forall>b \<in> bids. cap < w + load_of done m b))"

lemma fit_inv_perm:
  assumes "mset bins' = mset bins" "fit_inv bids cap done bins m mf"
  shows "fit_inv bids cap done bins' m mf"
proof -
  have "set bins' = set bins" using assms(1) by (metis set_mset_mset)
  moreover have "distinct (map fst bins') = distinct (map fst bins)"
    using assms(1) by (metis mset_eq_imp_distinct_iff mset_map)
  ultimately show ?thesis using assms(2) by (simp add: fit_inv_def)
qed

lemma fit_inv_misfit:
  assumes "fit_inv bids cap done bins m mf" "k \<notin> keys done" "\<forall>(b, l) \<in> set bins. cap < w + l"
  shows "fit_inv bids cap (done @ [(k, w)]) bins m (insert k mf)" "m k = None"
proof -
  note inv = assms(1) [unfolded fit_inv_def]
  show k: "m k = None" using inv assms(2) by auto
  then have l: "load_of (done @ [(k, w)]) m b = load_of done m b" for b by simp
  have full: "cap < w + load_of done m b" if "b \<in> bids" for b
  proof -
    from that inv obtain x where "(b, x) \<in> set bins" by force
    then show ?thesis using inv assms(3) by auto
  qed
  have "insert k mf = keys (done @ [(k, w)]) - dom m" using inv assms(2) k by auto
  moreover have "dom m \<subseteq> keys (done @ [(k, w)])" using inv by auto
  moreover have "cap < v + load_of (done @ [(k, w)]) m b"
    if "(j, v) \<in> set (done @ [(k, w)])" "m j = None" "b \<in> bids" for j v b
  proof (cases "(j, v) \<in> set done")
    case True
    then show ?thesis using that inv unfolding l by blast
  next
    case False
    then show ?thesis using that full unfolding l by simp
  qed
  ultimately show "fit_inv bids cap (done @ [(k, w)]) bins m (insert k mf)"
    using inv unfolding fit_inv_def l by blast
qed

lemma fit_inv_placed:
  assumes "fit_inv bids cap done (pre @ (b, l) # post) m mf" "k \<notin> keys done" "w + l \<le> cap" "0 \<le> w"
  shows "fit_inv bids cap (done @ [(k, w)]) (pre @ (b, l + w) # post) (m(k \<mapsto> b)) mf"
proof -
  note inv = assms(1) [unfolded fit_inv_def]
  have b: "b \<in> bids" "l = load_of done m b" using inv by auto
  have loads: "load_of (done @ [(k, w)]) (m(k \<mapsto> b)) c = load_of done m c + (if c = b then w else 0)" for c
    using assms(2) by (rule load_of_snoc)
  have old: "x = load_of done m c \<and> x \<le> cap" if "(c, x) \<in> set pre \<union> set post" for c x
  proof -
    have "(c, x) \<in> set (pre @ (b, l) # post)" using that by auto
    then show ?thesis using inv by blast
  qed
  from inv have full: "\<forall>k w. (k, w) \<in> set done \<longrightarrow> m k = None \<longrightarrow> (\<forall>b \<in> bids. cap < w + load_of done m b)"
    by (elim conjE) assumption
  have other: "c \<noteq> b" if "(c, x) \<in> set pre \<union> set post" for c x
  proof -
    from inv have "distinct (map fst (pre @ (b, l) # post))" by (elim conjE) assumption
    then show ?thesis using that by force
  qed
  have "x = load_of (done @ [(k, w)]) (m(k \<mapsto> b)) c \<and> x \<le> cap"
    if "(c, x) \<in> set (pre @ (b, l + w) # post)" for c x
  proof (cases "(c, x) \<in> set pre \<union> set post")
    case True
    then show ?thesis using old [OF True] other [OF True] unfolding loads by simp
  next
    case False
    then have "c = b" "x = l + w" using that by auto
    then show ?thesis using b(2) assms(3) unfolding loads by (simp add: add.commute)
  qed
  moreover have "cap < v + load_of (done @ [(k, w)]) (m(k \<mapsto> b)) c"
    if "(j, v) \<in> set (done @ [(k, w)])" "(m(k \<mapsto> b)) j = None" "c \<in> bids" for j v c
  proof -
    have "(j, v) \<in> set done" "m j = None" using that by (auto split: if_splits)
    with full that(3) have "cap < v + load_of done m c" by blast
    then show ?thesis using assms(4) unfolding loads by (cases "c = b") simp_all
  qed
  moreover have "mf = keys (done @ [(k, w)]) - dom (m(k \<mapsto> b))" using inv assms(2) by auto
  moreover have "dom (m(k \<mapsto> b)) \<subseteq> keys (done @ [(k, w)])" "ran (m(k \<mapsto> b)) \<subseteq> bids"
    using inv b(1) by (auto simp: ran_def)
  moreover have "distinct (map fst (pre @ (b, l + w) # post))" "fst ` set (pre @ (b, l + w) # post) = bids"
    using inv by simp_all
  ultimately show ?thesis unfolding fit_inv_def by blast
qed

locale fit_rule =
  fixes reorder :: "bin_loads \<Rightarrow> bin_loads"
  assumes keeps_bins: "mset (reorder bins) = mset bins"
begin

lemma fit_items_inv:
  assumes "fit_inv bids cap done bins m mf" "items_ok (done @ its)" "fit_items reorder cap its bins m mf = (m', mf', bins')"
  shows "fit_inv bids cap (done @ its) bins' m' mf'"
  using assms
proof (induction its arbitrary: "done" bins m mf)
  case (Cons p its)
  obtain k w where p: "p = (k, w)" by (cases p)
  obtain r bs where r: "place cap w (reorder bins) = (r, bs)" by (cases "place cap w (reorder bins)")
  have inv: "fit_inv bids cap done (reorder bins) m mf" using fit_inv_perm [OF keeps_bins Cons.prems(1)] .
  have fresh: "k \<notin> keys done" "0 \<le> w" using Cons.prems(2) p by (auto simp: items_ok_def keys_def)
  have ok: "items_ok ((done @ [(k, w)]) @ its)" using Cons.prems(2) p by simp
  show ?case
  proof (cases r)
    case None
    then have n: "bs = reorder bins" "\<forall>(b, l) \<in> set (reorder bins). cap < w + l" using place_none r by blast+
    note inv' = fit_inv_misfit [OF inv fresh(1) n(2)]
    show ?thesis using Cons.IH [OF inv'(1) ok] Cons.prems(3) p r None n(1) inv'(2) by simp
  next
    case (Some b)
    then obtain pre l post where s: "reorder bins = pre @ (b, l) # post" "bs = pre @ (b, l + w) # post" "w + l \<le> cap"
      using place_some r by blast
    have "fit_inv bids cap (done @ [(k, w)]) bs (m(k \<mapsto> b)) mf"
      using fit_inv_placed [OF _ fresh(1) s(3) fresh(2)] inv s by simp
    from Cons.IH [OF this ok] show ?thesis 
      using Cons.prems(3) p r Some by (simp del: fun_upd_apply add: fun_upd_same Let_def)
  qed
qed simp

end

context fit_rule
begin

lemma fit_start:
  assumes "0 \<le> cap"
  shows "fit_inv {b. b < n} cap [] (empty_bins n) Map.empty {}"
proof -
  have less: "word_of_nat i < n" if "i < unat n" for i
    using that by (simp only: word_less_nat_alt unat_of_nat_u32 [OF less_trans [OF that unat_lt_u32]])
  have "inj_on (word_of_nat :: nat \<Rightarrow> u32) {..<unat n}"
    by (rule inj_onI) (metis lessThan_iff less_trans unat_lt_u32 unat_of_nat_u32)
  then have "distinct (map fst (empty_bins n))"
    by (simp add: empty_bins_def distinct_map o_def atLeast0LessThan)
  moreover have "fst ` set (empty_bins n) = {b. b < n}"
  proof
    show "fst ` set (empty_bins n) \<subseteq> {b. b < n}" using less by (auto simp: empty_bins_def)
    show "{b. b < n} \<subseteq> fst ` set (empty_bins n)"
    proof
      fix b assume "b \<in> {b. b < n}"
      then have "(word_of_nat (unat b), 0) \<in> set (empty_bins n)" by (force simp: empty_bins_def word_less_nat_alt image_iff)
      then show "b \<in> fst ` set (empty_bins n)" by force
    qed
  qed
  moreover have "\<forall>b l. (b, l) \<in> set (empty_bins n) \<longrightarrow> l = load_of [] Map.empty b \<and> l \<le> cap"
    using assms by (auto simp: empty_bins_def)
  ultimately show ?thesis by (simp add: fit_inv_def)
qed

text \<open>The heuristic packs; the misfits are the unmapped items, and no bin has room for one.\<close>

lemma fit_correct:
  assumes "items_ok (items bp)" "0 \<le> max_bin_capacity bp" "fit reorder bp = (ok, bp')"
  shows "packs bp (mapping bp')" "misfits bp' = keys (items bp) - dom (mapping bp')" "ok \<longleftrightarrow> misfits bp' = {}"
    "\<lbrakk>(k, w) \<in> set (items bp); k \<in> misfits bp'; b < num_bins bp\<rbrakk>
      \<Longrightarrow> max_bin_capacity bp < w + load_of (items bp) (mapping bp') b"
proof -
  obtain m mf bins where r: "fit_items reorder (max_bin_capacity bp) (items bp) (empty_bins (num_bins bp)) Map.empty {} = (m, mf, bins)"
    by (cases rule: prod_cases3)
  then have bp': "mapping bp' = m" "misfits bp' = mf" "ok \<longleftrightarrow> mf = {}"
    using assms(3) by (auto simp: fit_def)
  have "fit_inv {b. b < num_bins bp} (max_bin_capacity bp) ([] @ items bp) bins m mf"
    by (rule fit_items_inv [OF fit_start [OF assms(2)] _ r]) (simp add: assms(1))
  note inv = this [unfolded fit_inv_def append_Nil]
  have b: "load_of (items bp) m b \<le> max_bin_capacity bp" for b
  proof (cases "b \<in> ran m")
    case True
    moreover from inv have "fst ` set bins = {b. b < num_bins bp} \<and> ran m \<subseteq> {b. b < num_bins bp}"
      by (elim conjE) (intro conjI)
    ultimately have "b \<in> fst ` set bins" by blast
    then obtain l where "(b, l) \<in> set bins" by auto
    then show ?thesis using inv by blast
  next
    case False
    then show ?thesis using assms(2) by (subst load_of_none) (auto simp: ran_def)
  qed
  moreover from inv have "dom m \<subseteq> keys (items bp)" "ran m \<subseteq> {b. b < num_bins bp}" by blast+
  ultimately show "packs bp (mapping bp')" using bp' by (auto simp: packs_def)
  from inv have mf: "mf = keys (items bp) - dom m" by blast
  then show "misfits bp' = keys (items bp) - dom (mapping bp')" "ok \<longleftrightarrow> misfits bp' = {}" using bp' by simp_all
  from inv have full: "\<forall>k w. (k, w) \<in> set (items bp) \<longrightarrow> m k = None \<longrightarrow>
      (\<forall>b \<in> {b. b < num_bins bp}. max_bin_capacity bp < w + load_of (items bp) m b)"
    by (elim conjE) assumption
  assume "(k, w) \<in> set (items bp)" "k \<in> misfits bp'" "b < num_bins bp"
  then show "max_bin_capacity bp < w + load_of (items bp) (mapping bp') b" using full bp' mf by auto
qed

lemma fit_spec:
  assumes "items_ok (items bp)" "0 \<le> max_bin_capacity bp" "fit reorder bp = (ok, bp')"
  shows "packs bp (mapping bp') \<and> misfits bp' = keys (items bp) - dom (mapping bp') \<and>
    (ok \<longleftrightarrow> dom (mapping bp') = keys (items bp)) \<and>
    (\<forall>(k, w) \<in> set (items bp). \<forall>b. k \<in> misfits bp' \<and> b < num_bins bp \<longrightarrow>
      max_bin_capacity bp < w + load_of (items bp) (mapping bp') b)"
proof -
  note c = fit_correct [OF assms]
  have "ok \<longleftrightarrow> dom (mapping bp') = keys (items bp)" using c(1-3) by (auto simp: packs_def)
  moreover have "\<forall>(k, w) \<in> set (items bp). \<forall>b. k \<in> misfits bp' \<and> b < num_bins bp \<longrightarrow>
      max_bin_capacity bp < w + load_of (items bp) (mapping bp') b"
    using c(4) by blast
  ultimately show ?thesis using c(1,2) by blast
qed

end

interpretation first: fit_rule "\<lambda>bins. bins"
  by unfold_locales simp

interpretation best: fit_rule "std_sort tie cmp_opp" for tie
  by unfold_locales simp

interpretation worst: fit_rule "std_sort tie cmp" for tie
  by unfold_locales simp

text \<open>C33 (fitting_packs): first, best and worst fit report success exactly when every item is
  in a bin; the items they leave out are the misfits, no bin is overloaded, and no bin has room
  for a misfit.\<close>

theorem fitting_packs:
  assumes "items_ok (items bp)" "0 \<le> max_bin_capacity bp"
    and "(ok, bp') \<in> {first_fit bp, best_fit tie bp, worst_fit tie bp}"
  shows "packs bp (mapping bp') \<and> misfits bp' = keys (items bp) - dom (mapping bp') \<and>
    (ok \<longleftrightarrow> dom (mapping bp') = keys (items bp)) \<and>
    (\<forall>(k, w) \<in> set (items bp). \<forall>b. k \<in> misfits bp' \<and> b < num_bins bp \<longrightarrow>
      max_bin_capacity bp < w + load_of (items bp) (mapping bp') b)"
proof -
  from assms(3) consider "fit (\<lambda>bins. bins) bp = (ok, bp')" | "fit (std_sort tie cmp_opp) bp = (ok, bp')"
    | "fit (std_sort tie cmp) bp = (ok, bp')"
    by (auto simp: first_fit_def best_fit_def worst_fit_def)
  then show ?thesis
    by cases (rule first.fit_spec [OF assms(1,2)] best.fit_spec [OF assms(1,2)] worst.fit_spec [OF assms(1,2)], assumption)+
qed

section \<open>Next fit\<close>

lemma advance_full: "cap < w \<Longrightarrow> advance n cap w bid 0 = (n, 0)"
  by (induction n cap w bid "0 :: rat" rule: advance.induct) (auto simp: advance.simps)

lemma advance_cases:
  "advance n cap w bid acc =
     (if acc + w \<le> cap then (bid, acc) else if bid + 1 = n \<or> cap < w then (n, 0) else (bid + 1, 0))"
  by (auto simp: advance.simps [of n cap w bid acc] advance.simps [of n cap w "bid + 1" 0] advance_full not_le not_less)

lemma load_of_upd:
  assumes "distinct (map fst its)" "(k, w) \<in> set its" "m k = None"
  shows "load_of its (m(k \<mapsto> b)) c = load_of its m c + (if c = b then w else 0)"
  using assms
proof (induction its)
  case (Cons p its)
  obtain j v where p: "p = (j, v)" by (cases p)
  show ?case
  proof (cases "j = k")
    case True
    then have "k \<notin> keys its" "v = w" using Cons.prems p by (force simp: keys_def)+
    then show ?thesis using True p Cons.prems(3)
      by (simp add: load_of_other fun_upd_same del: fun_upd_apply)
  next
    case False
    then show ?thesis using Cons p by auto
  qed
qed simp

lemma next_bin: "bid < (n :: u32) \<Longrightarrow> bid + 1 \<noteq> n \<Longrightarrow> bid < bid + 1 \<and> bid + 1 < n"
  by unat_arith

lemma next_items_correct:
  assumes "next_items n cap rest bid acc m {} = (m', mf)" "distinct (map fst (done @ rest))"
    and "bid < n \<or> n = 0 \<and> bid = 0" "dom m = keys done" "\<forall>b \<in> ran m. b \<le> bid \<and> b < n"
    and "acc = load_of (done @ rest) m bid" "\<forall>b. load_of (done @ rest) m b \<le> cap"
  shows "(\<exists>j \<le> length rest. dom m' = keys (done @ take j rest) \<and> mf = (if j = length rest then {} else {fst (rest ! j)})) \<and>
    (\<forall>b \<in> ran m'. b < n) \<and> (\<forall>b. load_of (done @ rest) m' b \<le> cap)"
  using assms
proof (induction rest arbitrary: "done" bid acc m)
  case Nil
  then show ?case by simp
next
  case (Cons p rest)
  obtain k w where p: "p = (k, w)" by (cases p)
  obtain bid' acc' where adv: "advance n cap w bid acc = (bid', acc')" by (cases "advance n cap w bid acc")
  show ?case
  proof (cases "bid' = n")
    case True
    then have "m' = m" "mf = {k}" using Cons.prems(1) p adv by simp_all
    then show ?thesis using Cons.prems(4,5,7) p by (intro conjI exI [of _ 0]) auto
  next
    case False
    then have step: "next_items n cap rest bid' (acc' + w) (m(k \<mapsto> bid')) {} = (m', mf)"
      using Cons.prems(1) p adv by (simp del: fun_upd_apply)
    have adv': "bid' = bid \<and> acc' = acc \<and> acc + w \<le> cap \<or> bid' = bid + 1 \<and> acc' = 0 \<and> w \<le> cap \<and> bid + 1 \<noteq> n"
      using adv False by (auto simp: advance_cases split: if_splits)
    have "acc = 0" if "n = 0"
      using Cons.prems(5,6) that by (subst Cons.prems(6), intro load_of_none) (auto simp: ran_def)
    then have lt: "bid < n" using Cons.prems(3) adv' False adv by (auto simp: advance_cases split: if_splits)
    then have "bid + 1 \<noteq> n \<Longrightarrow> bid < bid + 1 \<and> bid + 1 < n"
      using next_bin by blast
    then have bid': "bid \<le> bid'" "bid' < n" "bid' \<noteq> bid \<longrightarrow> bid < bid'" using adv' lt by auto
    have k: "m k = None" using Cons.prems(2,4) p by (auto simp: keys_def)
    have new: "load_of (done @ p # rest) m bid' = acc'"
    proof (cases "bid' = bid")
      case True
      then show ?thesis using adv' Cons.prems(6) lt by auto
    next
      case False
      then have "bid' \<notin> ran m" using bid'(3) Cons.prems(5) by auto
      then show ?thesis using False adv' by (subst load_of_none) (auto simp: ran_def)
    qed
    have upd: "load_of (done @ p # rest) (m(k \<mapsto> bid')) c = load_of (done @ p # rest) m c + (if c = bid' then w else 0)" for c
      using Cons.prems(2) p k by (intro load_of_upd) auto
    have cap: "acc' + w \<le> cap" using adv' by auto
    have "(\<exists>j \<le> length rest. dom m' = keys ((done @ [p]) @ take j rest) \<and> mf = (if j = length rest then {} else {fst (rest ! j)})) \<and>
      (\<forall>b \<in> ran m'. b < n) \<and> (\<forall>b. load_of ((done @ [p]) @ rest) m' b \<le> cap)"
    proof (rule Cons.IH [OF step])
      show "distinct (map fst ((done @ [p]) @ rest))" using Cons.prems(2) by simp
      show "dom (m(k \<mapsto> bid')) = keys (done @ [p])" using Cons.prems(4) p by auto
      show "\<forall>b \<in> ran (m(k \<mapsto> bid')). b \<le> bid' \<and> b < n"
        using Cons.prems(5) bid' k by (auto simp: ran_map_upd intro: order_trans)
      show "acc' + w = load_of ((done @ [p]) @ rest) (m(k \<mapsto> bid')) bid'" using upd new by simp
      show "\<forall>b. load_of ((done @ [p]) @ rest) (m(k \<mapsto> bid')) b \<le> cap" using upd new Cons.prems(7) cap by simp
    qed (use bid' in simp)
    then obtain j where "j \<le> length rest" "dom m' = keys ((done @ [p]) @ take j rest)"
      "mf = (if j = length rest then {} else {fst (rest ! j)})"
      "\<forall>b \<in> ran m'. b < n" "\<forall>b. load_of ((done @ [p]) @ rest) m' b \<le> cap" by blast
    then show ?thesis by (intro conjI exI [of _ "Suc j"]) simp_all
  qed
qed

lemma next_fit_correct:
  assumes "items_ok (items bp)" "0 \<le> max_bin_capacity bp" "next_fit bp = (ok, bp')"
  shows "packs bp (mapping bp')" "\<exists>j \<le> length (items bp). dom (mapping bp') = keys (take j (items bp)) \<and>
      misfits bp' = (if j = length (items bp) then {} else {fst (items bp ! j)}) \<and> (ok \<longleftrightarrow> j = length (items bp))"
proof -
  obtain m mf where r: "next_items (num_bins bp) (max_bin_capacity bp) (items bp) 0 0 Map.empty {} = (m, mf)"
    by fastforce
  then have bp': "mapping bp' = m" "misfits bp' = mf" "ok \<longleftrightarrow> mf = {}" using assms(3) by (auto simp: next_fit_def)
  have z: "load_of its Map.empty b = 0" for its b by (rule load_of_none) simp
  have "(\<exists>j \<le> length (items bp). dom m = keys ([] @ take j (items bp)) \<and>
      mf = (if j = length (items bp) then {} else {fst (items bp ! j)})) \<and>
      (\<forall>b \<in> ran m. b < num_bins bp) \<and> (\<forall>b. load_of ([] @ items bp) m b \<le> max_bin_capacity bp)"
    using assms(1,2) by (intro next_items_correct [OF r]) (auto simp: items_ok_def z word_gt_0)
  then obtain j where j: "j \<le> length (items bp)" "dom m = keys (take j (items bp))"
      "mf = (if j = length (items bp) then {} else {fst (items bp ! j)})"
      "\<forall>b \<in> ran m. b < num_bins bp" "\<forall>b. load_of (items bp) m b \<le> max_bin_capacity bp" by auto
  moreover have "keys (take j (items bp)) \<subseteq> keys (items bp)" by (auto simp: keys_def dest: in_set_takeD)
  ultimately show "packs bp (mapping bp')" using bp' by (simp add: packs_def)
  show "\<exists>j \<le> length (items bp). dom (mapping bp') = keys (take j (items bp)) \<and>
      misfits bp' = (if j = length (items bp) then {} else {fst (items bp ! j)}) \<and> (ok \<longleftrightarrow> j = length (items bp))"
    using j bp' by (intro exI [of _ j]) auto
qed

text \<open>Lemma (next_fit_prefix): next fit maps exactly a prefix of the items, without overloading
  a bin, and succeeds when the prefix is everything. The item after the prefix is the only
  misfit: the items behind it are neither mapped nor reported.\<close>

theorem next_fit_prefix:
  assumes "items_ok (items bp)" "0 \<le> max_bin_capacity bp" "next_fit bp = (ok, bp')"
  shows "packs bp (mapping bp') \<and> (\<exists>j \<le> length (items bp). dom (mapping bp') = keys (take j (items bp)) \<and>
    misfits bp' = (if j = length (items bp) then {} else {fst (items bp ! j)}) \<and> (ok \<longleftrightarrow> j = length (items bp)))"
  using next_fit_correct [OF assms] by blast

text \<open>The object after a heuristic differs only in its two results.\<close>

lemma next_fit_keeps: "next_fit bp = (ok, bp') \<Longrightarrow> items bp' = items bp \<and> num_bins bp' = num_bins bp \<and> max_bin_capacity bp' = max_bin_capacity bp"
  by (auto simp: next_fit_def split: prod.splits)

lemma fit_keeps: "fit reorder bp = (ok, bp') \<Longrightarrow> items bp' = items bp \<and> num_bins bp' = num_bins bp \<and> max_bin_capacity bp' = max_bin_capacity bp"
  by (auto simp: fit_def split: prod.splits)

lemma packs_cong:
  "items bp' = items bp \<Longrightarrow> num_bins bp' = num_bins bp \<Longrightarrow> max_bin_capacity bp' = max_bin_capacity bp \<Longrightarrow> packs bp' m = packs bp m"
  by (simp add: packs_def)

definition complete :: "bin_pack \<Rightarrow> (u32 \<rightharpoonup> u32) \<Rightarrow> bool" where
  "complete bp m \<longleftrightarrow> packs bp m \<and> dom m = keys (items bp)"

lemma next_fit_complete:
  assumes "items_ok (items bp)" "0 \<le> max_bin_capacity bp" "next_fit bp = (True, bp')"
  shows "complete bp (mapping bp')"
  using next_fit_correct [OF assms] by (auto simp: complete_def)

text \<open>Lemma (any_fit_sound): when any_fit succeeds, the mapping it leaves puts every item into a
  bin and overloads none.\<close>

theorem any_fit_sound:
  assumes "items_ok (items bp)" "0 \<le> max_bin_capacity bp" "any_fit tie bp = (True, bp')"
  shows "packs bp (mapping bp') \<and> dom (mapping bp') = keys (items bp)"
proof -
  obtain ok1 bp1 where 1: "next_fit bp = (ok1, bp1)" by fastforce
  obtain ok2 bp2 where 2: "first_fit bp1 = (ok2, bp2)" by fastforce
  obtain ok3 bp3 where 3: "best_fit tie bp2 = (ok3, bp3)" by fastforce
  obtain ok4 bp4 where 4: "worst_fit tie bp3 = (ok4, bp4)" by fastforce
  note k1 = next_fit_keeps [OF 1]
  have k2: "items bp2 = items bp1 \<and> num_bins bp2 = num_bins bp1 \<and> max_bin_capacity bp2 = max_bin_capacity bp1"
    using fit_keeps 2 unfolding first_fit_def by blast
  have k3: "items bp3 = items bp2 \<and> num_bins bp3 = num_bins bp2 \<and> max_bin_capacity bp3 = max_bin_capacity bp2"
    using fit_keeps 3 unfolding best_fit_def by blast
  have fits: "complete bp (mapping b')" if "fit r b = (True, b')" "fit_rule r"
    "items b = items bp \<and> num_bins b = num_bins bp \<and> max_bin_capacity b = max_bin_capacity bp" for r b b'
  proof -
    have "packs b (mapping b') = packs bp (mapping b')" using packs_cong that(3) by blast
    then show ?thesis using fit_rule.fit_spec [OF that(2) _ _ that(1)] assms(1,2) that(3) by (simp add: complete_def)
  qed
  have "complete bp (mapping bp')"
  proof -
    consider "ok1" "bp' = bp1" | "ok2" "bp' = bp2" | "ok3" "bp' = bp3" | "ok4" "bp' = bp4"
      using assms(3) unfolding any_fit_def 1 2 3 4 Let_def split by (cases ok1; cases ok2; cases ok3; cases ok4) simp_all
    then show ?thesis
    proof cases
      case 1
      then show ?thesis using next_fit_complete assms(1,2) \<open>next_fit bp = (ok1, bp1)\<close> by simp
    next
      case 2
      then show ?thesis
        using fits [of "\<lambda>bins. bins" bp1 bp2] \<open>first_fit bp1 = (ok2, bp2)\<close> k1 first.fit_rule_axioms
        by (simp add: first_fit_def)
    next
      case 3
      then show ?thesis
        using fits [of "std_sort tie cmp_opp" bp2 bp3] \<open>best_fit tie bp2 = (ok3, bp3)\<close> k1 k2 best.fit_rule_axioms
        by (simp add: best_fit_def)
    next
      case 4
      then show ?thesis
        using fits [of "std_sort tie cmp" bp3 bp4] \<open>worst_fit tie bp3 = (ok4, bp4)\<close> k1 k2 k3 worst.fit_rule_axioms
        by (simp add: worst_fit_def)
    qed
  qed
  then show ?thesis by (simp add: complete_def)
qed

lemma best_placement:
  assumes "place cap w (std_sort tie cmp_opp bins) = (Some b, bins')"
  shows "\<exists>l. (b, l) \<in> set bins \<and> w + l \<le> cap \<and> (\<forall>(c, x) \<in> set bins. w + x \<le> cap \<longrightarrow> x \<le> l)"
proof -
  have s: "set (std_sort tie cmp_opp bins) = set bins" by (metis mset_std_sort set_mset_mset)
  have o: "sorted_by cmp_opp (std_sort tie cmp_opp bins)"
    by (rule std_sort_sorted) (auto simp: cmp_opp_def)
  obtain pre l post where p: "std_sort tie cmp_opp bins = pre @ (b, l) # post" "w + l \<le> cap"
      "\<forall>(c, x) \<in> set pre. cap < w + x" using place_some [OF assms] by blast
  moreover have "\<forall>(c, x) \<in> set post. x \<le> l" using o p(1) by (auto simp: sorted_by_def sorted_wrt_append cmp_opp_def)
  ultimately have "\<forall>(c, x) \<in> set (pre @ (b, l) # post). w + x \<le> cap \<longrightarrow> x \<le> l" by fastforce
  moreover have eq: "set (pre @ (b, l) # post) = set bins" using s p(1) by simp
  moreover have "(b, l) \<in> set (pre @ (b, l) # post)" by simp
  ultimately show ?thesis using p(2) by (intro exI [of _ l]) (simp only: simp_thms)
qed

lemma worst_placement:
  assumes "place cap w (std_sort tie cmp bins) = (Some b, bins')"
  shows "\<exists>l. (b, l) \<in> set bins \<and> w + l \<le> cap \<and> (\<forall>(c, x) \<in> set bins. l \<le> x)"
proof -
  have s: "set (std_sort tie cmp bins) = set bins" by (metis mset_std_sort set_mset_mset)
  have a: "sorted_by cmp (std_sort tie cmp bins)"
    by (rule std_sort_sorted) (auto simp: cmp_def)
  obtain pre l post where p: "std_sort tie cmp bins = pre @ (b, l) # post" "w + l \<le> cap"
      "\<forall>(c, x) \<in> set pre. cap < w + x" using place_some [OF assms] by blast
  moreover have "\<forall>(c, x) \<in> set post. l \<le> x" "\<forall>(c, x) \<in> set pre. x \<le> l"
    using a p(1) by (auto simp: sorted_by_def sorted_wrt_append cmp_def not_less)
  ultimately have "\<forall>(c, x) \<in> set (pre @ (b, l) # post). l \<le> x" by fastforce
  moreover have eq: "set (pre @ (b, l) # post) = set bins" using s p(1) by simp
  moreover have "(b, l) \<in> set (pre @ (b, l) # post)" by simp
  ultimately show ?thesis using p(2) by (intro exI [of _ l]) (simp only: simp_thms)
qed

text \<open>Lemma (sorted_placement): best fit puts an item into a fullest bin that has room for it,
  and worst fit into an emptiest one.\<close>

theorem sorted_placement:
  "(place cap w (std_sort tie cmp_opp bins) = (Some b, bins1) \<longrightarrow>
      (\<exists>l. (b, l) \<in> set bins \<and> w + l \<le> cap \<and> (\<forall>(c, x) \<in> set bins. w + x \<le> cap \<longrightarrow> x \<le> l))) \<and>
   (place cap w (std_sort tie cmp bins) = (Some b', bins2) \<longrightarrow>
      (\<exists>l. (b', l) \<in> set bins \<and> w + l \<le> cap \<and> (\<forall>(c, x) \<in> set bins. l \<le> x)))"
  using best_placement worst_placement by blast

definition demo_pack :: bin_pack where
  "demo_pack = bin_pack_new [(1, 6), (2, 5), (3, 4), (4, 5), (9, 3)] 2 10"

lemma demo_pack_ok: "items_ok (items demo_pack)" "0 \<le> max_bin_capacity demo_pack"
  by (simp_all add: demo_pack_def bin_pack_new_def items_ok_def)

lemma demo_bins: "empty_bins 2 = [(0, 0), (1, 0)]"
  by (simp add: empty_bins_def upt_rec)

lemma demo_first_fit:
  "first_fit demo_pack = (False, demo_pack\<lparr>mapping := [1 \<mapsto> 0, 2 \<mapsto> 1, 3 \<mapsto> 0, 4 \<mapsto> 1], misfits := {9}\<rparr>)"
  by (simp add: first_fit_def fit_def demo_pack_def bin_pack_new_def demo_bins)

lemma demo_next_fit:
  "next_fit demo_pack = (False, demo_pack\<lparr>mapping := [1 \<mapsto> 0, 2 \<mapsto> 1, 3 \<mapsto> 1], misfits := {4}\<rparr>)"
  by (simp add: next_fit_def demo_pack_def bin_pack_new_def advance_cases)

theorem fitting_packs_witness:
  "misfits (snd (first_fit demo_pack)) = keys (items demo_pack) - dom (mapping (snd (first_fit demo_pack)))"
  using fitting_packs [OF demo_pack_ok, of False "snd (first_fit demo_pack)" id] by (simp add: demo_first_fit)

theorem next_fit_prefix_witness:
  "9 \<notin> dom (mapping (snd (next_fit demo_pack))) \<union> misfits (snd (next_fit demo_pack)) \<and>
   packs demo_pack (mapping (snd (next_fit demo_pack)))"
  using next_fit_prefix [OF demo_pack_ok, of False "snd (next_fit demo_pack)"] by (simp add: demo_next_fit)

theorem any_fit_sound_witness:
  "\<exists>bp. any_fit id (bin_pack_new [(1, 6), (2, 5)] 2 10) = (True, bp) \<and> dom (mapping bp) = keys [(1, 6), (2, 5)]"
proof -
  have "any_fit id (bin_pack_new [(1, 6), (2, 5)] 2 10) =
      (True, bin_pack_new [(1, 6), (2, 5)] 2 10\<lparr>mapping := [1 \<mapsto> 0, 2 \<mapsto> 1]\<rparr>)"
    by (simp add: any_fit_def next_fit_def bin_pack_new_def advance_cases)
  from any_fit_sound [OF _ _ this] show ?thesis
    using \<open>any_fit id _ = _\<close> by (simp add: bin_pack_new_def items_ok_def)
qed

theorem sorted_placement_witness:
  "\<exists>l. (7 :: u32, l) \<in> set [(5, 2), (7, 4), (8, 9)] \<and> 3 + l \<le> (10 :: rat) \<and>
     (\<forall>(c, x) \<in> set [(5 :: u32, 2), (7, 4), (8, 9)]. 3 + x \<le> 10 \<longrightarrow> x \<le> l)"
proof -
  have "place 10 3 (std_sort id cmp_opp [(5, 2), (7, 4), (8, 9)]) = (Some 7, [(8, 9), (7, 7), (5, 2)])"
    by (simp add: std_sort_def cmp_opp_def)
  then show ?thesis by (rule sorted_placement [THEN conjunct1, rule_format])
qed

end
