(* ===== verification/Kzh15_Data.thy ===== *)
theory Kzh15_Data imports Decimal Std_Containers Complex_Main begin

text \<open>
  The data model of the benchmark generator, \<^verbatim>\<open>src/utils/kzh15_benchmark_generator.h\<close>: the
  enumerations with their output operators, ranges, runnables, tasks and labels, and the member
  functions of the last three. Objects point at each other; here a pointer to a runnable is its
  index in the vector \<open>runnables\<close> and a pointer to a label its index in \<open>labels\<close>, which is
  also the identifier that the generator gives them. Doubles are exact rationals, and their output is the parameter \<open>sd\<close>.
\<close>

section \<open>Enumerations\<close>

datatype label_type = kReadOnly | kWriteOnly | kReadWrite

datatype message_type = kIntraTaskFwd | kIntraTaskBwd | kInterTask

datatype message_volume_type = kNone | kI | kII | kIII | kIV | kV | kVI

fun show_label_type :: "label_type \<Rightarrow> string" where
  "show_label_type kReadOnly = ''R-''"
| "show_label_type kWriteOnly = ''-W''"
| "show_label_type kReadWrite = ''RW''"

fun show_message_type :: "message_type \<Rightarrow> string" where
  "show_message_type kIntraTaskFwd = ''IntraTaskFwd''"
| "show_message_type kIntraTaskBwd = ''IntraTaskBwd''"
| "show_message_type kInterTask = ''InterTask''"

fun show_message_volume_type :: "message_volume_type \<Rightarrow> string" where
  "show_message_volume_type kNone = ''-''"
| "show_message_volume_type kI = ''I''"
| "show_message_volume_type kII = ''II''"
| "show_message_volume_type kIII = ''III''"
| "show_message_volume_type kIV = ''IV''"
| "show_message_volume_type kV = ''V''"
| "show_message_volume_type kVI = ''VI''"

text \<open>The integer values, which order the keys of a \<^verbatim>\<open>std::map\<close>, and the casts from integers.
  A cast of another integer gives a value without a name, here \<open>None\<close>.\<close>

fun label_type_code :: "label_type \<Rightarrow> int" where
  "label_type_code kReadOnly = 0"
| "label_type_code kWriteOnly = 1"
| "label_type_code kReadWrite = 2"

fun message_type_code :: "message_type \<Rightarrow> int" where
  "message_type_code kIntraTaskFwd = 0"
| "message_type_code kIntraTaskBwd = 1"
| "message_type_code kInterTask = 2"

fun volume_type_code :: "message_volume_type \<Rightarrow> int" where
  "volume_type_code kNone = 0"
| "volume_type_code kI = 1"
| "volume_type_code kII = 2"
| "volume_type_code kIII = 3"
| "volume_type_code kIV = 4"
| "volume_type_code kV = 5"
| "volume_type_code kVI = 6"

definition volume_type_of_int :: "int \<Rightarrow> message_volume_type option" where
  "volume_type_of_int i = map_of [(0, kNone), (1, kI), (2, kII), (3, kIII), (4, kIV), (5, kV), (6, kVI)] i"

lemma volume_type_of_code [simp]: "volume_type_of_int (volume_type_code v) = Some v"
  by (cases v) (simp_all add: volume_type_of_int_def)

instantiation label_type :: linorder
begin

definition less_eq_label_type :: "label_type \<Rightarrow> label_type \<Rightarrow> bool" where
  "less_eq_label_type a b \<longleftrightarrow> label_type_code a \<le> label_type_code b"

definition less_label_type :: "label_type \<Rightarrow> label_type \<Rightarrow> bool" where
  "less_label_type a b \<longleftrightarrow> label_type_code a < label_type_code b"

instance
proof
  fix a b :: label_type
  show "a \<le> b \<Longrightarrow> b \<le> a \<Longrightarrow> a = b" by (cases a; cases b) (simp_all add: less_eq_label_type_def)
qed (auto simp: less_eq_label_type_def less_label_type_def)

end

instantiation message_type :: linorder
begin

definition less_eq_message_type :: "message_type \<Rightarrow> message_type \<Rightarrow> bool" where
  "less_eq_message_type a b \<longleftrightarrow> message_type_code a \<le> message_type_code b"

definition less_message_type :: "message_type \<Rightarrow> message_type \<Rightarrow> bool" where
  "less_message_type a b \<longleftrightarrow> message_type_code a < message_type_code b"

instance
proof
  fix a b :: message_type
  show "a \<le> b \<Longrightarrow> b \<le> a \<Longrightarrow> a = b" by (cases a; cases b) (simp_all add: less_eq_message_type_def)
qed (auto simp: less_eq_message_type_def less_message_type_def)

end

instantiation message_volume_type :: linorder
begin

definition less_eq_message_volume_type :: "message_volume_type \<Rightarrow> message_volume_type \<Rightarrow> bool" where
  "less_eq_message_volume_type a b \<longleftrightarrow> volume_type_code a \<le> volume_type_code b"

definition less_message_volume_type :: "message_volume_type \<Rightarrow> message_volume_type \<Rightarrow> bool" where
  "less_message_volume_type a b \<longleftrightarrow> volume_type_code a < volume_type_code b"

instance
proof
  fix a b :: message_volume_type
  show "a \<le> b \<Longrightarrow> b \<le> a \<Longrightarrow> a = b"
    by (metis less_eq_message_volume_type_def order_antisym volume_type_of_code option.inject)
qed (auto simp: less_eq_message_volume_type_def less_message_volume_type_def)

end

section \<open>Ranges\<close>

record 't range =
  rmin :: 't
  rmax :: 't

definition range_less :: "'t :: linorder range \<Rightarrow> 't range \<Rightarrow> bool" where
  "range_less l r \<longleftrightarrow> rmin l < rmin r \<or> (rmin l = rmin r \<and> rmax l < rmax r)"

interpretation range_order: ordered_keys "range_less :: int range \<Rightarrow> int range \<Rightarrow> bool"
proof
  show "range_less a b \<or> range_less b a" if "a \<noteq> b" for a b :: "int range"
    using that by (cases a; cases b) (auto simp: range_less_def)
qed (auto simp: range_less_def)

interpretation label_type_order: ordered_keys "(<) :: label_type \<Rightarrow> label_type \<Rightarrow> bool"
  by unfold_locales auto

interpretation message_type_order: ordered_keys "(<) :: message_type \<Rightarrow> message_type \<Rightarrow> bool"
  by unfold_locales auto

interpretation volume_type_order: ordered_keys "(<) :: message_volume_type \<Rightarrow> message_volume_type \<Rightarrow> bool"
  by unfold_locales auto

text \<open>\<^verbatim>\<open>m[k]\<close> on a \<^verbatim>\<open>std::map\<close>: a missing key is inserted with the default value.\<close>

definition om_at :: "('k \<Rightarrow> 'k \<Rightarrow> bool) \<Rightarrow> 'v \<Rightarrow> 'k \<Rightarrow> ('k \<times> 'v) list \<Rightarrow> 'v \<times> ('k \<times> 'v) list" where
  "om_at lt dflt k m = (case map_of m k of Some v \<Rightarrow> (v, m) | None \<Rightarrow> (dflt, om_put lt k dflt m))"

definition om_value :: "'v \<Rightarrow> ('k \<times> 'v) list \<Rightarrow> 'k \<Rightarrow> 'v" where
  "om_value dflt m k = (case map_of m k of Some v \<Rightarrow> v | None \<Rightarrow> dflt)"

lemma fst_om_at [simp]: "fst (om_at lt d k m) = om_value d m k"
  by (simp add: om_at_def om_value_def split: option.split)

section \<open>Runnables\<close>

record runnable =
  rid :: nat
  rperiod_ms :: int
  racet_us :: rat
  rbcet_us :: rat
  rwcet_us :: rat
  ro_labels_read :: "nat list"
  wo_labels_written :: "nat list"
  rw_intra_task_labels_read :: "nat list"
  rw_intra_task_labels_written :: "nat list"
  rw_inter_task_labels_read :: "nat list"
  rw_inter_task_labels_written :: "nat list"

definition runnable_new :: "nat \<Rightarrow> int \<Rightarrow> runnable" where
  "runnable_new i period =
     \<lparr>rid = i, rperiod_ms = period, racet_us = 0, rbcet_us = 0, rwcet_us = 0,
      ro_labels_read = [], wo_labels_written = [],
      rw_intra_task_labels_read = [], rw_intra_task_labels_written = [],
      rw_inter_task_labels_read = [], rw_inter_task_labels_written = []\<rparr>"

text \<open>\<^verbatim>\<open>get_angle_sync_period_range\<close>: two crankshaft turns in milliseconds, divided by the
  number of cylinders, for typical engine speeds. The other constants are not used.\<close>

definition get_angle_sync_period_range :: "int range" where
  "get_angle_sync_period_range =
     (let min_num_cylinders = 4; max_num_cylinders = 8; min_rpm = 750 :: int; max_rpm = 10000 :: int;
          typical_min_rpm = 2000; typical_max_rpm = 3000;
          max_period_ms = 120 * 1000 div (typical_min_rpm * min_num_cylinders);
          min_period_ms = 120 * 1000 div (typical_max_rpm * max_num_cylinders)
      in \<lparr>rmin = min_period_ms, rmax = max_period_ms\<rparr>)"

definition get_min_period_ms :: "int \<Rightarrow> int" where
  "get_min_period_ms period =
     (if period > 0 then period else let rg = get_angle_sync_period_range in rmin rg)"

lemma angle_sync_range: "get_angle_sync_period_range = \<lparr>rmin = 5, rmax = 15\<rparr>"
  by (simp add: get_angle_sync_period_range_def)

lemma get_min_period_pos: "0 < get_min_period_ms p"
  by (simp add: get_min_period_ms_def angle_sync_range)

section \<open>Tasks\<close>

definition US_TO_MS :: "rat \<Rightarrow> rat" where
  "US_TO_MS t = t / 1000"

definition kMaxUtilPerCPU :: rat where
  "kMaxUtilPerCPU = 1 / 2"

record task =
  tid :: nat
  tperiod_ms :: int
  tacet_us :: rat
  tbcet_us :: rat
  twcet_us :: rat
  trunnables :: "nat list"

definition task_new :: "nat \<Rightarrow> int \<Rightarrow> task" where
  "task_new i period = \<lparr>tid = i, tperiod_ms = period, tacet_us = 0, tbcet_us = 0, twcet_us = 0, trunnables = []\<rparr>"

definition get_utilization :: "task \<Rightarrow> rat" where
  "get_utilization t = US_TO_MS (twcet_us t) / of_int (get_min_period_ms (tperiod_ms t))"

definition does_runnable_fit :: "task \<Rightarrow> runnable \<Rightarrow> bool" where
  "does_runnable_fit t r =
     (if trunnables t = [] then True
      else US_TO_MS (twcet_us t + rwcet_us r) \<le> kMaxUtilPerCPU * of_int (get_min_period_ms (tperiod_ms t)))"

definition add_runnable :: "runnable \<Rightarrow> task \<Rightarrow> task" where
  "add_runnable r t =
     t\<lparr>trunnables := trunnables t @ [rid r], tacet_us := tacet_us t + racet_us r,
       tbcet_us := tbcet_us t + rbcet_us r, twcet_us := twcet_us t + rwcet_us r\<rparr>"

section \<open>Labels\<close>

record label =
  lid :: nat
  size_bytes :: int
  ltype :: label_type
  lmtype :: message_type
  lmvtype :: message_volume_type
  readers :: "nat list"
  writers :: "nat list"

definition label_new :: "nat \<Rightarrow> int \<Rightarrow> label_type \<Rightarrow> message_type \<Rightarrow> label" where
  "label_new i sz tp mtp =
     \<lparr>lid = i, size_bytes = sz, ltype = tp, lmtype = mtp, lmvtype = kNone, readers = [], writers = []\<rparr>"

section \<open>Texts\<close>

definition endl :: string where
  "endl = [CHR 0x0A]"

definition runnable_string :: "(rat \<Rightarrow> string) \<Rightarrow> runnable \<Rightarrow> string" where
  "runnable_string sd r =
     ''RID = '' @ dec (rid r) @ '', P = '' @ dec_int (rperiod_ms r) @ ''ms, '' @ ''ETs = ('' @
     sd (rbcet_us r) @ '', '' @ sd (racet_us r) @ '', '' @ sd (rwcet_us r) @ '')'' @ endl"

fun runnable_ids_string :: "nat \<Rightarrow> nat \<Rightarrow> nat list \<Rightarrow> string" where
  "runnable_ids_string sz i [] = ''''"
| "runnable_ids_string sz i (r # rs) =
     (if i = 0 then dec r
      else if i < 3 then '', '' @ dec r
      else if i = 3 then '', ...''
      else if i < sz - 1 then ''''
      else '', '' @ dec r) @ runnable_ids_string sz (Suc i) rs"

definition task_string :: "(rat \<Rightarrow> string) \<Rightarrow> task \<Rightarrow> string" where
  "task_string sd t =
     ''TID = '' @ dec (tid t) @ '', P = '' @ dec_int (tperiod_ms t) @ ''ms, U = '' @
     sd (100 * get_utilization t) @ ''%, ETs = ('' @ sd (tbcet_us t) @ '', '' @ sd (tacet_us t) @ '', '' @
     sd (twcet_us t) @ ''), RIDs = ('' @ runnable_ids_string (length (trunnables t)) 0 (trunnables t) @ '')'' @ endl"

definition label_string :: "label \<Rightarrow> string" where
  "label_string l =
     ''LID = '' @ dec (lid l) @ '', Size = '' @ dec_int (size_bytes l) @ ''B, Type = '' @ show_label_type (ltype l) @
     (if ltype l = kReadWrite then ''.'' @ show_message_type (lmtype l) @ ''.'' @ show_message_volume_type (lmvtype l) else '''') @
     (if readers l \<noteq> [] then '', Reader=R'' @ dec (hd (readers l)) else '''') @
     (if writers l \<noteq> [] then '', Writer=R'' @ dec (hd (writers l)) else '''')"

section \<open>The utilisation bound of a task\<close>

definition task_ok :: "(nat \<Rightarrow> runnable) \<Rightarrow> task \<Rightarrow> bool" where
  "task_ok rs t \<longleftrightarrow>
     (\<forall>i \<in> set (trunnables t). rperiod_ms (rs i) = tperiod_ms t) \<and>
     tacet_us t = (\<Sum>i \<leftarrow> trunnables t. racet_us (rs i)) \<and>
     tbcet_us t = (\<Sum>i \<leftarrow> trunnables t. rbcet_us (rs i)) \<and>
     twcet_us t = (\<Sum>i \<leftarrow> trunnables t. rwcet_us (rs i)) \<and>
     (length (trunnables t) \<le> 1 \<or> get_utilization t \<le> kMaxUtilPerCPU)"

lemma task_new_ok: "task_ok rs (task_new i p)"
  by (simp add: task_ok_def task_new_def)

lemma add_runnable_ok:
  assumes "task_ok rs t" "does_runnable_fit t r" "rs (rid r) = r" "rperiod_ms r = tperiod_ms t"
  shows "task_ok rs (add_runnable r t)"
proof -
  have "get_utilization (add_runnable r t) \<le> kMaxUtilPerCPU" if "trunnables t \<noteq> []"
    using that assms(2) get_min_period_pos [of "tperiod_ms t"]
    by (simp add: does_runnable_fit_def get_utilization_def add_runnable_def divide_le_eq)
  then show ?thesis using assms by (auto simp: task_ok_def add_runnable_def)
qed

end
