(* ===== verification/Kzh15_Config.thy ===== *)
theory Kzh15_Config imports Kzh15_Data "HOL-Library.Monad_Syntax" begin

text \<open>
  The configuration of the benchmark generator (\<^verbatim>\<open>src/utils/kzh15_benchmark_generator.cpp\<close>):
  reading it through libconfig and printing it. libconfig is not part of the sources; the
  accessors that are used are the fields of \<open>settings\<close>, and \<open>None\<close> is the exception that each
  of them throws. Maps are association lists in key order. The printing functions use \<^verbatim>\<open>m[k]\<close>,
  which inserts missing entries, so they return the configuration that they leave behind.
\<close>

section \<open>Settings\<close>

record 's settings =
  child :: "'s \<Rightarrow> string \<Rightarrow> 's option"
  elem :: "'s \<Rightarrow> nat \<Rightarrow> 's option"
  get_length :: "'s \<Rightarrow> nat"
  int_of :: "'s \<Rightarrow> int option"
  float_of :: "'s \<Rightarrow> rat option"

definition int_at :: "'s settings \<Rightarrow> 's \<Rightarrow> string \<Rightarrow> int option" where
  "int_at api s name = do { c \<leftarrow> child api s name; int_of api c }"

definition float_at :: "'s settings \<Rightarrow> 's \<Rightarrow> string \<Rightarrow> rat option" where
  "float_at api s name = do { c \<leftarrow> child api s name; float_of api c }"

fun fold_option :: "('x \<Rightarrow> 'a \<Rightarrow> 'a option) \<Rightarrow> 'x list \<Rightarrow> 'a \<Rightarrow> 'a option" where
  "fold_option f [] a = Some a"
| "fold_option f (x # xs) a = do { b \<leftarrow> f x a; fold_option f xs b }"

text \<open>\<^verbatim>\<open>for (int i = 0; i < s.getLength(); i++)\<close>\<close>

definition for_elems :: "'s settings \<Rightarrow> ('s \<Rightarrow> 'a \<Rightarrow> 'a option) \<Rightarrow> 's \<Rightarrow> 'a \<Rightarrow> 'a option" where
  "for_elems api f s a = fold_option (\<lambda>i a. do { e \<leftarrow> elem api s i; f e a }) [0..<get_length api s] a"

section \<open>Configurations\<close>

record et_profile =
  acet_min_us :: rat
  acet_avg_us :: rat
  acet_max_us :: rat
  bcet_f_min :: rat
  bcet_f_max :: rat
  wcet_f_min :: rat
  wcet_f_max :: rat

definition et_profile_default :: et_profile where
  "et_profile_default =
     \<lparr>acet_min_us = 0, acet_avg_us = 0, acet_max_us = 0, bcet_f_min = 1, bcet_f_max = 1, wcet_f_min = 1, wcet_f_max = 1\<rparr>"

record runnables_config =
  rcount :: "int range"
  period_shares :: "(int \<times> rat) list"
  exec_time_profiles :: "(int \<times> et_profile) list"

record labels_config =
  lcount :: "int range"
  size_shares :: "(int range \<times> rat) list"
  label_partition :: "(label_type \<times> rat) list"

record inter_task_config =
  volume_types :: "(message_volume_type \<times> int range) list"
  dist :: "(int \<times> (int \<times> message_volume_type) list) list"

record messages_config =
  message_partition :: "(message_type \<times> rat) list"
  inter_task_msgs_cfg :: inter_task_config

record kzh15_config =
  config_file :: string
  scale_factor :: rat
  periods_ms :: "int list"
  labels_cfg :: labels_config
  msgs_cfg :: messages_config
  runnables_cfg :: runnables_config

definition range_zero :: "int range" where
  "range_zero = \<lparr>rmin = 0, rmax = 0\<rparr>"

definition config_empty :: "string \<Rightarrow> rat \<Rightarrow> kzh15_config" where
  "config_empty file scale =
     \<lparr>config_file = file, scale_factor = scale, periods_ms = [],
      labels_cfg = \<lparr>lcount = range_zero, size_shares = [], label_partition = []\<rparr>,
      msgs_cfg = \<lparr>message_partition = [], inter_task_msgs_cfg = \<lparr>volume_types = [], dist = []\<rparr>\<rparr>,
      runnables_cfg = \<lparr>rcount = range_zero, period_shares = [], exec_time_profiles = []\<rparr>\<rparr>"

section \<open>Reading\<close>

definition parse_runnables :: "'s settings \<Rightarrow> 's \<Rightarrow> runnables_config \<Rightarrow> runnables_config option" where
  "parse_runnables api rt c = do {
     cfg \<leftarrow> child api rt ''KZH15Config.RunnablesConfig'';
     mn \<leftarrow> int_at api cfg ''count.min'';
     mx \<leftarrow> int_at api cfg ''count.max'';
     s \<leftarrow> child api cfg ''period_shares'';
     shares \<leftarrow> for_elems api (\<lambda>e m. do {
         k \<leftarrow> int_at api e ''period_ms'';
         v \<leftarrow> float_at api e ''share_pc'';
         Some (om_put (<) k v m) }) s (period_shares c);
     p \<leftarrow> child api cfg ''exec_time_profiles'';
     profiles \<leftarrow> for_elems api (\<lambda>e m. do {
         a1 \<leftarrow> float_at api e ''acet_min_us'';
         a2 \<leftarrow> float_at api e ''acet_avg_us'';
         a3 \<leftarrow> float_at api e ''acet_max_us'';
         b1 \<leftarrow> float_at api e ''bcet_f_min'';
         b2 \<leftarrow> float_at api e ''bcet_f_max'';
         w1 \<leftarrow> float_at api e ''wcet_f_min'';
         w2 \<leftarrow> float_at api e ''wcet_f_max'';
         k \<leftarrow> int_at api e ''period_ms'';
         Some (om_put (<) k \<lparr>acet_min_us = a1, acet_avg_us = a2, acet_max_us = a3,
           bcet_f_min = b1, bcet_f_max = b2, wcet_f_min = w1, wcet_f_max = w2\<rparr> m) }) p (exec_time_profiles c);
     Some \<lparr>rcount = \<lparr>rmin = mn, rmax = mx\<rparr>, period_shares = shares, exec_time_profiles = profiles\<rparr> }"

definition parse_labels :: "'s settings \<Rightarrow> 's \<Rightarrow> labels_config \<Rightarrow> labels_config option" where
  "parse_labels api rt c = do {
     cfg \<leftarrow> child api rt ''KZH15Config.LabelsConfig'';
     mn \<leftarrow> int_at api cfg ''count.min'';
     mx \<leftarrow> int_at api cfg ''count.max'';
     s \<leftarrow> child api cfg ''size_shares'';
     shares \<leftarrow> for_elems api (\<lambda>e m. do {
         a \<leftarrow> int_at api e ''size_bytes_min'';
         b \<leftarrow> int_at api e ''size_bytes_max'';
         v \<leftarrow> float_at api e ''share_pc'';
         Some (om_put range_less \<lparr>rmin = a, rmax = b\<rparr> v m) }) s (size_shares c);
     p \<leftarrow> child api cfg ''type_partition'';
     ro \<leftarrow> float_at api p ''read_only'';
     wo \<leftarrow> float_at api p ''write_only'';
     rw \<leftarrow> float_at api p ''read_write'';
     Some \<lparr>lcount = \<lparr>rmin = mn, rmax = mx\<rparr>, size_shares = shares,
       label_partition = om_put (<) kReadWrite rw (om_put (<) kWriteOnly wo (om_put (<) kReadOnly ro (label_partition c)))\<rparr> }"

text \<open>An integer without an enumerator is out of the model: \<open>None\<close>.\<close>

definition parse_inter_task :: "'s settings \<Rightarrow> 's \<Rightarrow> inter_task_config \<Rightarrow> inter_task_config option" where
  "parse_inter_task api rt c = do {
     cfg \<leftarrow> child api rt ''KZH15Config.MessagesConfig.InterTaskMessagesConfig'';
     t \<leftarrow> child api cfg ''volume_types'';
     volumes \<leftarrow> for_elems api (\<lambda>e m. do {
         i \<leftarrow> int_at api e ''type'';
         tp \<leftarrow> volume_type_of_int i;
         a \<leftarrow> int_at api e ''min'';
         b \<leftarrow> int_at api e ''max'';
         Some (om_put (<) tp \<lparr>rmin = a, rmax = b\<rparr> m) }) t (volume_types c);
     d \<leftarrow> child api cfg ''dist'';
     rows \<leftarrow> for_elems api (\<lambda>e m. do {
         send \<leftarrow> int_at api e ''send_period_ms'';
         recv \<leftarrow> int_at api e ''recv_period_ms'';
         i \<leftarrow> int_at api e ''volume_type'';
         tp \<leftarrow> volume_type_of_int i;
         Some (om_put (<) send (om_put (<) recv tp (om_value [] m send)) m) }) d (dist c);
     Some \<lparr>volume_types = volumes, dist = rows\<rparr> }"

definition parse_messages :: "'s settings \<Rightarrow> 's \<Rightarrow> messages_config \<Rightarrow> messages_config option" where
  "parse_messages api rt c = do {
     cfg \<leftarrow> child api rt ''KZH15Config.MessagesConfig'';
     p \<leftarrow> child api cfg ''type_partition'';
     f \<leftarrow> float_at api p ''intra_task_fwd'';
     b \<leftarrow> float_at api p ''intra_task_bwd'';
     i \<leftarrow> float_at api p ''inter_task'';
     it \<leftarrow> parse_inter_task api rt (inter_task_msgs_cfg c);
     Some \<lparr>message_partition =
         om_put (<) kInterTask i (om_put (<) kIntraTaskBwd b (om_put (<) kIntraTaskFwd f (message_partition c))),
       inter_task_msgs_cfg = it\<rparr> }"

text \<open>A file that cannot be read is only reported, and the root stays what \<open>read_file\<close> then gives.\<close>

definition parse_config_file :: "'s settings \<Rightarrow> (string \<Rightarrow> 's) \<Rightarrow> kzh15_config \<Rightarrow> kzh15_config option" where
  "parse_config_file api read_file c = do {
     let rt = read_file (config_file c);
     k \<leftarrow> child api rt ''KZH15Config'';
     s \<leftarrow> child api k ''periods_ms'';
     ps \<leftarrow> for_elems api (\<lambda>e ps. do { p \<leftarrow> int_of api e; Some (ps @ [p]) }) s (periods_ms c);
     l \<leftarrow> parse_labels api rt (labels_cfg c);
     m \<leftarrow> parse_messages api rt (msgs_cfg c);
     r \<leftarrow> parse_runnables api rt (runnables_cfg c);
     Some (c\<lparr>periods_ms := ps, labels_cfg := l, msgs_cfg := m, runnables_cfg := r\<rparr>) }"

definition config_new :: "'s settings \<Rightarrow> (string \<Rightarrow> 's) \<Rightarrow> string \<Rightarrow> rat \<Rightarrow> kzh15_config option" where
  "config_new api read_file file scale = parse_config_file api read_file (config_empty file scale)"

definition config_new_default :: "'s settings \<Rightarrow> (string \<Rightarrow> 's) \<Rightarrow> string \<Rightarrow> rat \<Rightarrow> kzh15_config option" where
  "config_new_default api read_file project_directory scale =
     parse_config_file api read_file (config_empty (project_directory @ ''/config/benchmarks/kzh15.cfg'') scale)"

section \<open>Printing\<close>

definition profile_string :: "(rat \<Rightarrow> string) \<Rightarrow> et_profile \<Rightarrow> string" where
  "profile_string sd p =
     ''ExecTimeProfile: ACET tuple = ('' @ sd (acet_min_us p) @ '', '' @ sd (acet_avg_us p) @ '', '' @ sd (acet_max_us p) @
     ''), BCET factors = ('' @ sd (bcet_f_min p) @ '', '' @ sd (bcet_f_max p) @ ''), WCET factors = ('' @
     sd (wcet_f_min p) @ '', '' @ sd (wcet_f_max p) @ '')''"

text \<open>\<^verbatim>\<open>(int) x\<close> truncates towards zero.\<close>

definition trunc :: "rat \<Rightarrow> int" where
  "trunc x = (if x < 0 then ceiling x else floor x)"

text \<open>The entries of a map in key order, without the key 0, which stands for angle-synchronous.\<close>

definition show_entries :: "(int \<Rightarrow> 'v \<Rightarrow> string) \<Rightarrow> (int \<times> 'v) list \<Rightarrow> string" where
  "show_entries f m = concat (map (\<lambda>(p, v). if p = 0 then '''' else f p v) m)"

definition runnables_config_string :: "(rat \<Rightarrow> string) \<Rightarrow> runnables_config \<Rightarrow> string \<times> runnables_config" where
  "runnables_config_string sd c =
     (let (share0, shares) = om_at (<) 0 0 (period_shares c);
          (prof0, profs) = om_at (<) et_profile_default 0 (exec_time_profiles c);
          text =
            ''Section IV.C.'' @ endl @ ''Table III: Runnable Distribution Among Periods'' @ endl @ ''Period, Share'' @ endl @
            show_entries (\<lambda>p v. dec_int p @ '' ms, '' @ dec_int (trunc v) @ '' %'' @ endl) (period_shares c) @
            ''angle-synchronous, '' @ dec_int (trunc share0) @ '' %'' @ endl @ endl @
            ''Section IV.D.'' @ endl @ ''Table IV: Runnable Average Execurion Times'' @ endl @
            ''Period, Average Execution Times in us'' @ endl @ ''Period, Min., Avg., Max.'' @ endl @
            show_entries (\<lambda>p v. dec_int p @ '' ms, '' @ sd (acet_min_us v) @ '', '' @ sd (acet_avg_us v) @ '', '' @
              sd (acet_max_us v)) (exec_time_profiles c) @
            ''angle-synchronous, '' @ sd (acet_min_us prof0) @ '', '' @ sd (acet_avg_us prof0) @ '', '' @ sd (acet_max_us prof0) @
            endl @ endl @
            ''Section IV.D.'' @ endl @
            ''Table V: Factors For Determining Runnable Best- And Worst- '' @ ''Case Execution Times'' @ endl @
            ''Period, Best, Worst'' @ endl @ ''Period, f_min, f_max, f_min, f_max'' @ endl @
            show_entries (\<lambda>p v. dec_int p @ '' ms, '' @ sd (bcet_f_min v) @ '', '' @ sd (bcet_f_max v) @ '', '' @
              sd (wcet_f_min v) @ '', '' @ sd (wcet_f_max v)) profs @
            ''angle-synchronous, '' @ sd (bcet_f_min prof0) @ '', '' @ sd (bcet_f_max prof0) @ '', '' @
            sd (wcet_f_min prof0) @ '', '' @ sd (wcet_f_max prof0) @ endl @ endl
      in (text, c\<lparr>period_shares := shares, exec_time_profiles := profs\<rparr>))"

definition labels_config_string :: "(rat \<Rightarrow> string) \<Rightarrow> labels_config \<Rightarrow> string \<times> labels_config" where
  "labels_config_string sd c =
     (let (ro, m1) = om_at (<) 0 kReadOnly (label_partition c);
          (wo, m2) = om_at (<) 0 kWriteOnly m1;
          (rw, m3) = om_at (<) 0 kReadWrite m2;
          text =
            ''Section IV.A.'' @ endl @ ''Table I: Distribution of Label Sizes'' @ endl @ ''Size (bytes), Share'' @ endl @
            concat (map (\<lambda>(rg, share).
              if rmin rg = rmax rg then dec_int (rmin rg) @ '', '' @ sd share @ '' %'' @ endl
              else dec_int (rmin rg) @ '' - '' @ dec_int (rmax rg) @ '', '' @ sd share @ '' %'' @ endl) (size_shares c)) @
            ''Section IV.A.'' @ endl @ ''The partitioning of all accesses is as follows:'' @ endl @
            ''* Read-only : '' @ sd ro @ ''%'' @ endl @ ''* Write-only : '' @ sd wo @ ''%'' @ endl @
            ''* Read-Write : '' @ sd rw @ ''%'' @ endl @ endl
      in (text, c\<lparr>label_partition := m3\<rparr>))"

text \<open>The six volume ranges in a row; each access may insert its key.\<close>

fun show_volumes :: "message_volume_type list \<Rightarrow> (message_volume_type \<times> int range) list
    \<Rightarrow> string list \<times> (message_volume_type \<times> int range) list" where
  "show_volumes [] m = ([], m)"
| "show_volumes (v # vs) m =
     (let (rg, m1) = om_at (<) range_zero v m;
          (texts, m2) = show_volumes vs m1
      in ((dec_int (rmin rg) @ ''-'' @ dec_int (rmax rg)) # texts, m2))"

fun join :: "string \<Rightarrow> string list \<Rightarrow> string" where
  "join sep [] = ''''"
| "join sep [x] = x"
| "join sep (x # y # xs) = x @ sep @ join sep (y # xs)"

definition show_row :: "(int \<times> message_volume_type) list \<Rightarrow> string \<times> (int \<times> message_volume_type) list" where
  "show_row row =
     (let (v0, row') = om_at (<) kNone 0 row
      in (show_entries (\<lambda>p v. '', '' @ show_message_volume_type v) row @ '', '' @ show_message_volume_type v0, row'))"

fun show_rows :: "(int \<times> (int \<times> message_volume_type) list) list
    \<Rightarrow> string \<times> (int \<times> (int \<times> message_volume_type) list) list" where
  "show_rows [] = ('''', [])"
| "show_rows ((p, row) # rows) =
     (let (text, rows') = show_rows rows
      in if p = 0 then (text, (p, row) # rows')
         else let (t, row') = show_row row in (dec_int p @ '' ms'' @ t @ text, (p, row') # rows'))"

definition inter_task_string :: "inter_task_config \<Rightarrow> string \<times> inter_task_config" where
  "inter_task_string c =
     (let (volumes, vts) = show_volumes [kI, kII, kIII, kIV, kV, kVI] (volume_types c);
          (rows, d1) = show_rows (dist c);
          (row0, d2) = om_at (<) [] 0 d1;
          (t0, row0') = show_row row0;
          text =
            ''Section IV.B.'' @ endl @ ''The color codes the amount of communications with the following'' @
            '' legend:'' @ endl @ ''I, II, III, IV, V, VI'' @ endl @ join '', '' volumes @ endl @ endl @
            ''Section IV.B.'' @ endl @ ''Table II: Inter-Task Communication'' @ endl @ ''Period'' @ endl @
            show_entries (\<lambda>p v. '', '' @ dec_int p @ '' ms'') (dist c) @ '', Angle-sync'' @ rows @
            ''Angle-sync'' @ t0 @ endl
      in (text, \<lparr>volume_types = vts, dist = om_put (<) 0 row0' d2\<rparr>))"

definition messages_config_string :: "(rat \<Rightarrow> string) \<Rightarrow> messages_config \<Rightarrow> string \<times> messages_config" where
  "messages_config_string sd c =
     (let (f, m1) = om_at (<) 0 kIntraTaskFwd (message_partition c);
          (b, m2) = om_at (<) 0 kIntraTaskBwd m1;
          (i, m3) = om_at (<) 0 kInterTask m2;
          (it, ic) = inter_task_string (inter_task_msgs_cfg c)
      in (''Section IV.B.'' @ endl @ ''Forward and backward intra-task communication occurs in'' @ endl @
          sd f @ ''% and '' @ sd b @ ''% of all cases, '' @ ''respectively. Inter-task'' @ endl @
          ''communication is the most '' @ ''frequent type with a share around'' @ endl @ sd i @ ''%.'' @ endl @ endl @ it,
          \<lparr>message_partition = m3, inter_task_msgs_cfg = ic\<rparr>))"

definition config_string :: "(rat \<Rightarrow> string) \<Rightarrow> kzh15_config \<Rightarrow> string \<times> kzh15_config" where
  "config_string sd c =
     (let (l, lc) = labels_config_string sd (labels_cfg c);
          (m, mc) = messages_config_string sd (msgs_cfg c);
          (r, rc) = runnables_config_string sd (runnables_cfg c)
      in (l @ m @ r, c\<lparr>labels_cfg := lc, msgs_cfg := mc, runnables_cfg := rc\<rparr>))"

section \<open>Well-formed configurations\<close>

definition config_ok :: "kzh15_config \<Rightarrow> bool" where
  "config_ok c \<longleftrightarrow>
     om_sorted (<) (period_shares (runnables_cfg c)) \<and> om_sorted (<) (exec_time_profiles (runnables_cfg c)) \<and>
     om_sorted range_less (size_shares (labels_cfg c)) \<and> om_sorted (<) (label_partition (labels_cfg c)) \<and>
     om_sorted (<) (message_partition (msgs_cfg c)) \<and>
     om_sorted (<) (volume_types (inter_task_msgs_cfg (msgs_cfg c))) \<and>
     om_sorted (<) (dist (inter_task_msgs_cfg (msgs_cfg c))) \<and>
     (\<forall>(p, row) \<in> set (dist (inter_task_msgs_cfg (msgs_cfg c))). om_sorted (<) row)"

lemma fold_option_inv:
  assumes "fold_option f xs a = Some b" "P a" "\<And>x a b. f x a = Some b \<Longrightarrow> P a \<Longrightarrow> P b"
  shows "P b"
  using assms(1,2)
proof (induction xs arbitrary: a)
  case (Cons x xs)
  then show ?case using assms(3) by (auto split: bind_splits)
qed simp

lemma for_elems_inv:
  assumes "for_elems api f s a = Some b" "P a" "\<And>e a b. f e a = Some b \<Longrightarrow> P a \<Longrightarrow> P b"
  shows "P b"
proof -
  have step: "P b" if "do { e \<leftarrow> elem api s x; f e a } = Some b" "P a" for x a b
    using that assms(3) by (auto split: bind_splits)
  have "fold_option (\<lambda>i a. do { e \<leftarrow> elem api s i; f e a }) [0..<get_length api s] a = Some b"
    using assms(1) by (simp add: for_elems_def)
  then show ?thesis using assms(2) by (rule fold_option_inv) (rule step)
qed

lemma parse_runnables_ok:
  assumes "parse_runnables api rt c = Some c'" "om_sorted (<) (period_shares c)" "om_sorted (<) (exec_time_profiles c)"
  shows "om_sorted (<) (period_shares c') \<and> om_sorted (<) (exec_time_profiles c')"
  using assms
  by (auto simp: parse_runnables_def int_less.sorted_put split: bind_splits elim!: for_elems_inv)

lemma parse_labels_ok:
  assumes "parse_labels api rt c = Some c'" "om_sorted range_less (size_shares c)" "om_sorted (<) (label_partition c)"
  shows "om_sorted range_less (size_shares c') \<and> om_sorted (<) (label_partition c')"
  using assms
  by (auto simp: parse_labels_def range_order.sorted_put label_type_order.sorted_put split: bind_splits elim!: for_elems_inv)

definition dist_ok :: "(int \<times> (int \<times> message_volume_type) list) list \<Rightarrow> bool" where
  "dist_ok d \<longleftrightarrow> om_sorted (<) d \<and> (\<forall>(p, row) \<in> set d. om_sorted (<) row)"

lemma set_om_put: "set (om_put lt k v m) \<subseteq> insert (k, v) (set m)"
  by (induction m) (auto split: if_splits)

lemma dist_ok_put:
  assumes "dist_ok d"
  shows "dist_ok (om_put (<) send (om_put (<) recv tp (om_value [] d send)) d)"
proof -
  have "om_sorted (<) (om_value [] d send)"
    using assms by (auto simp: dist_ok_def om_value_def int_less.om_sorted_Nil split: option.split dest!: map_of_SomeD)
  then show ?thesis
    using assms set_om_put [of "(<)" send _ d] by (fastforce simp: dist_ok_def int_less.sorted_put)
qed

lemma parse_inter_task_ok:
  assumes "parse_inter_task api rt c = Some c'" "om_sorted (<) (volume_types c)" "dist_ok (dist c)"
  shows "om_sorted (<) (volume_types c') \<and> dist_ok (dist c')"
  using assms
  by (auto simp: parse_inter_task_def volume_type_order.sorted_put dist_ok_put split: bind_splits elim!: for_elems_inv)

lemma parse_messages_ok:
  assumes "parse_messages api rt c = Some c'" "om_sorted (<) (message_partition c)"
    and "om_sorted (<) (volume_types (inter_task_msgs_cfg c))" "dist_ok (dist (inter_task_msgs_cfg c))"
  shows "om_sorted (<) (message_partition c') \<and> om_sorted (<) (volume_types (inter_task_msgs_cfg c')) \<and>
    dist_ok (dist (inter_task_msgs_cfg c'))"
  using assms parse_inter_task_ok [of api rt "inter_task_msgs_cfg c"]
  by (auto simp: parse_messages_def message_type_order.sorted_put split: bind_splits)

lemma config_new_ok:
  assumes "config_new api read_file file scale = Some c"
  shows "config_ok c \<and> config_file c = file \<and> scale_factor c = scale"
proof -
  obtain l m r where "parse_labels api (read_file file) \<lparr>lcount = range_zero, size_shares = [], label_partition = []\<rparr> = Some l"
    "parse_messages api (read_file file) \<lparr>message_partition = [], inter_task_msgs_cfg = \<lparr>volume_types = [], dist = []\<rparr>\<rparr> = Some m"
    "parse_runnables api (read_file file) \<lparr>rcount = range_zero, period_shares = [], exec_time_profiles = []\<rparr> = Some r"
    "labels_cfg c = l" "msgs_cfg c = m" "runnables_cfg c = r" "config_file c = file" "scale_factor c = scale"
    using assms by (auto simp: config_new_def parse_config_file_def config_empty_def Let_def split: bind_splits)
  then show ?thesis
    using parse_labels_ok [of api "read_file file" _ l] parse_messages_ok [of api "read_file file" _ m]
      parse_runnables_ok [of api "read_file file" _ r]
    by (simp add: config_ok_def dist_ok_def int_less.om_sorted_Nil range_order.om_sorted_Nil label_type_order.om_sorted_Nil
        message_type_order.om_sorted_Nil volume_type_order.om_sorted_Nil)
qed

section \<open>Printing is stable\<close>

context ordered_keys
begin

lemma om_at_again: "om_at lt d k (snd (om_at lt d k m)) = om_at lt d k m"
  by (simp add: om_at_def map_of_put split: option.split)

lemma om_at_map: "map_of (snd (om_at lt d k m)) = (map_of m)(k \<mapsto> om_value d m k)"
  by (auto simp: om_at_def om_value_def map_of_put split: option.split)

lemma om_put_same: "om_sorted lt m \<Longrightarrow> map_of m k = Some v \<Longrightarrow> om_put lt k v m = m"
  by (rule sorted_eqI) (auto simp: sorted_put map_of_put)

lemma om_at_sorted: "om_sorted lt m \<Longrightarrow> om_sorted lt (snd (om_at lt d k m))"
  by (auto simp: om_at_def sorted_put split: option.split)

end

lemma show_entries_put0: "show_entries f (om_put (<) 0 v m) = show_entries f m"
  by (induction m) (auto simp: show_entries_def)

lemma show_entries_at0: "show_entries f (snd (om_at (<) d 0 m)) = show_entries f m"
  by (simp add: om_at_def show_entries_put0 split: option.split)

lemma runnables_string_again:
  "runnables_config_string sd (snd (runnables_config_string sd c)) = runnables_config_string sd c"
proof -
  obtain s0 sh where s: "om_at (<) 0 0 (period_shares c) = (s0, sh)" by fastforce
  obtain p0 pr where p: "om_at (<) et_profile_default 0 (exec_time_profiles c) = (p0, pr)" by fastforce
  have "om_at (<) 0 0 sh = (s0, sh)" "om_at (<) et_profile_default 0 pr = (p0, pr)"
    using int_less.om_at_again [of 0 0 "period_shares c"] int_less.om_at_again [of et_profile_default 0 "exec_time_profiles c"]
      s p by simp_all
  moreover have "show_entries f sh = show_entries f (period_shares c)" "show_entries g pr = show_entries g (exec_time_profiles c)" for f g
    using show_entries_at0 [of f 0 "period_shares c"] show_entries_at0 [of g et_profile_default "exec_time_profiles c"] s p by simp_all
  ultimately show ?thesis unfolding runnables_config_string_def s p by (simp add: Let_def)
qed

text \<open>A chain of three accesses to distinct keys finds the same values again.\<close>

lemma om_at_present: "map_of m k = Some v \<Longrightarrow> om_at lt d k m = (v, m)"
  by (simp add: om_at_def)

lemma labels_string_again: "labels_config_string sd (snd (labels_config_string sd c)) = labels_config_string sd c"
proof -
  obtain a m1 where 1: "om_at (<) 0 kReadOnly (label_partition c) = (a, m1)" by fastforce
  obtain b m2 where 2: "om_at (<) 0 kWriteOnly m1 = (b, m2)" by fastforce
  obtain d m3 where 3: "om_at (<) 0 kReadWrite m2 = (d, m3)" by fastforce
  have "map_of m1 kReadOnly = Some a" using label_type_order.om_at_map [of 0 kReadOnly "label_partition c"] 1
    by (metis fst_conv fst_om_at fun_upd_same snd_conv)
  moreover have "map_of m2 = (map_of m1)(kWriteOnly \<mapsto> b)" "map_of m3 = (map_of m2)(kReadWrite \<mapsto> d)"
    using label_type_order.om_at_map [of 0 kWriteOnly m1] label_type_order.om_at_map [of 0 kReadWrite m2] 2 3
    by (metis fst_conv fst_om_at snd_conv)+
  ultimately have "map_of m3 kReadOnly = Some a" "map_of m3 kWriteOnly = Some b" "map_of m3 kReadWrite = Some d" by simp_all
  then show ?thesis unfolding labels_config_string_def 1 2 3 by (simp add: 1 2 3 om_at_present Let_def)
qed

lemma show_volumes_map:
  "show_volumes vs m = (ts, m') \<Longrightarrow> map_of m k = Some r \<Longrightarrow> map_of m' k = Some r"
proof (induction vs arbitrary: m ts m')
  case (Cons v vs)
  obtain rg m1 where 1: "om_at (<) range_zero v m = (rg, m1)" by fastforce
  obtain us m2 where 2: "show_volumes vs m1 = (us, m2)" by fastforce
  have "map_of m1 k = Some r"
    using volume_type_order.om_at_map [of range_zero v m] Cons.prems(2) 1 by (auto simp: om_value_def)
  then show ?case using Cons.IH [OF 2] Cons.prems(1) 1 2 by simp
qed simp

lemma show_volumes_again: "show_volumes vs m = (ts, m') \<Longrightarrow> show_volumes vs m' = (ts, m')"
proof (induction vs arbitrary: m ts m')
  case (Cons v vs)
  obtain rg m1 where 1: "om_at (<) range_zero v m = (rg, m1)" by fastforce
  obtain us m2 where 2: "show_volumes vs m1 = (us, m2)" by fastforce
  have r: "map_of m1 v = Some rg"
    using volume_type_order.om_at_map [of range_zero v m] 1 by (metis fst_conv fst_om_at fun_upd_same snd_conv)
  have m': "m' = m2" "ts = (dec_int (rmin rg) @ ''-'' @ dec_int (rmax rg)) # us" using Cons.prems 1 2 by simp_all
  have "map_of m2 v = Some rg" using show_volumes_map [OF 2 r] .
  then show ?case using Cons.IH [OF 2] m' by (simp add: om_at_present)
qed simp

lemma show_row_again: "show_row row = (t, row') \<Longrightarrow> show_row row' = (t, row')"
  unfolding show_row_def
  using int_less.om_at_again [of kNone 0 row] show_entries_at0 [of _ kNone row]
  by (auto simp: Let_def split: prod.splits)

lemma show_rows_again: "show_rows rows = (t, rows') \<Longrightarrow> show_rows rows' = (t, rows')"
proof (induction rows arbitrary: t rows')
  case (Cons e rows)
  obtain p row where e: "e = (p, row)" by (cases e)
  obtain u us where r: "show_rows rows = (u, us)" by fastforce
  obtain w row' where w: "show_row row = (w, row')" by fastforce
  show ?case using Cons.prems Cons.IH [OF r] show_row_again [OF w] e r w by (auto split: if_splits)
qed simp

lemma show_rows_put0:
  "show_rows rows = (t, rows') \<Longrightarrow> show_rows (om_put (<) 0 row rows) = (t, om_put (<) 0 row rows')"
proof (induction rows arbitrary: t rows')
  case (Cons e rows)
  obtain p r where e: "e = (p, r)" by (cases e)
  obtain u us where s: "show_rows rows = (u, us)" by fastforce
  obtain w r' where w: "show_row r = (w, r')" by fastforce
  show ?case using Cons.prems Cons.IH [OF s] e s w by (auto split: if_splits)
qed simp

lemma show_rows_keys: "show_rows rows = (t, rows') \<Longrightarrow> map fst rows' = map fst rows"
proof (induction rows arbitrary: t rows')
  case (Cons e rows)
  then show ?case by (cases e) (auto split: prod.splits if_splits)
qed simp

lemma show_entries_keys: "map fst m = map fst m' \<Longrightarrow> show_entries (\<lambda>p v. f p) m = show_entries (\<lambda>p v. f p) m'"
proof (induction m arbitrary: m')
  case (Cons e m)
  then obtain e' n where "m' = e' # n" by (cases m') auto
  then show ?case using Cons.IH [of n] Cons.prems by (cases e; cases e') (auto simp: show_entries_def)
qed (simp add: show_entries_def)

lemma inter_task_again:
  assumes "om_sorted (<) (dist c)"
  shows "inter_task_string (snd (inter_task_string c)) = inter_task_string c"
proof -
  obtain vs vm where v: "show_volumes [kI, kII, kIII, kIV, kV, kVI] (volume_types c) = (vs, vm)" by fastforce
  obtain rt d1 where r: "show_rows (dist c) = (rt, d1)" by fastforce
  obtain r0 d2 where o: "om_at (<) [] 0 d1 = (r0, d2)" by fastforce
  obtain t0 r0' where t: "show_row r0 = (t0, r0')" by fastforce
  let ?d = "om_put (<) 0 r0' d2"
  have d1: "om_sorted (<) d1" using assms show_rows_keys [OF r] by (simp add: om_sorted_def)
  have d2: "om_sorted (<) d2" using int_less.om_at_sorted [OF d1, of "[]" 0] o by simp
  have "show_rows d2 = (rt, d2)"
    using show_rows_again [OF r] show_rows_put0 [OF show_rows_again [OF r]] o
    by (auto simp: om_at_def split: option.splits)
  from show_rows_put0 [OF this] have rows: "show_rows ?d = (rt, ?d)" .
  have at: "om_at (<) [] 0 ?d = (r0', ?d)" by (simp add: om_at_def int_less.map_of_put)
  have same: "om_put (<) 0 r0' ?d = ?d"
    by (rule int_less.om_put_same) (simp_all add: int_less.sorted_put d2 int_less.map_of_put)
  have "show_entries (\<lambda>p v. f p) ?d = show_entries (\<lambda>p v. f p) (dist c)" for f
    using show_entries_at0 [of "\<lambda>p v. f p" "[]" d1] o show_entries_keys [OF show_rows_keys [OF r]]
    by (simp add: show_entries_put0)
  then show ?thesis
    using show_volumes_again [OF v] show_row_again [OF t] rows at same
    unfolding inter_task_string_def v r o t by (simp add: v r o t Let_def)
qed

lemma messages_string_again:
  assumes "om_sorted (<) (dist (inter_task_msgs_cfg c))"
  shows "messages_config_string sd (snd (messages_config_string sd c)) = messages_config_string sd c"
proof -
  obtain a m1 where 1: "om_at (<) 0 kIntraTaskFwd (message_partition c) = (a, m1)" by fastforce
  obtain b m2 where 2: "om_at (<) 0 kIntraTaskBwd m1 = (b, m2)" by fastforce
  obtain d m3 where 3: "om_at (<) 0 kInterTask m2 = (d, m3)" by fastforce
  obtain it ic where i: "inter_task_string (inter_task_msgs_cfg c) = (it, ic)" by fastforce
  have "map_of m1 kIntraTaskFwd = Some a" using message_type_order.om_at_map [of 0 kIntraTaskFwd "message_partition c"] 1
    by (metis fst_conv fst_om_at fun_upd_same snd_conv)
  moreover have "map_of m2 = (map_of m1)(kIntraTaskBwd \<mapsto> b)" "map_of m3 = (map_of m2)(kInterTask \<mapsto> d)"
    using message_type_order.om_at_map [of 0 kIntraTaskBwd m1] message_type_order.om_at_map [of 0 kInterTask m2] 2 3
    by (metis fst_conv fst_om_at snd_conv)+
  ultimately have "map_of m3 kIntraTaskFwd = Some a" "map_of m3 kIntraTaskBwd = Some b" "map_of m3 kInterTask = Some d" by simp_all
  moreover have "inter_task_string ic = (it, ic)" using inter_task_again [OF assms] i by simp
  ultimately show ?thesis unfolding messages_config_string_def 1 2 3 i by (simp add: 1 2 3 i om_at_present Let_def)
qed

section \<open>A concrete library\<close>

text \<open>Setting trees, an instance of the accessors with which the witnesses evaluate the model.\<close>

datatype setting = SInt int | SFloat rat | SGroup "(string \<times> setting) list" | SList "setting list"

fun split_dots :: "string \<Rightarrow> string list" where
  "split_dots [] = [[]]"
| "split_dots (c # cs) =
     (if c = CHR ''.'' then [] # split_dots cs
      else case split_dots cs of [] \<Rightarrow> [[c]] | w # ws \<Rightarrow> (c # w) # ws)"

fun descend :: "string list \<Rightarrow> setting \<Rightarrow> setting option" where
  "descend [] s = Some s"
| "descend (n # ns) (SGroup kids) = do { k \<leftarrow> map_of kids n; descend ns k }"
| "descend (n # ns) s = None"

fun tree_elem :: "setting \<Rightarrow> nat \<Rightarrow> setting option" where
  "tree_elem (SList xs) i = (if i < length xs then Some (xs ! i) else None)"
| "tree_elem (SGroup kids) i = (if i < length kids then Some (snd (kids ! i)) else None)"
| "tree_elem s i = None"

fun tree_length :: "setting \<Rightarrow> nat" where
  "tree_length (SList xs) = length xs"
| "tree_length (SGroup kids) = length kids"
| "tree_length s = 0"

fun tree_int :: "setting \<Rightarrow> int option" where
  "tree_int (SInt i) = Some i"
| "tree_int s = None"

fun tree_float :: "setting \<Rightarrow> rat option" where
  "tree_float (SFloat x) = Some x"
| "tree_float s = None"

definition tree_settings :: "setting settings" where
  "tree_settings = \<lparr>child = (\<lambda>s n. descend (split_dots n) s), elem = tree_elem, get_length = tree_length,
     int_of = tree_int, float_of = tree_float\<rparr>"

definition sample_file :: "string \<Rightarrow> setting" where
  "sample_file file = SGroup [(''KZH15Config'', SGroup [
     (''periods_ms'', SList [SInt 10, SInt 1]),
     (''LabelsConfig'', SGroup [(''count'', SGroup [(''min'', SInt 4), (''max'', SInt 9)]),
        (''size_shares'', SList [SGroup [(''size_bytes_min'', SInt 5), (''size_bytes_max'', SInt 8), (''share_pc'', SFloat 40)],
          SGroup [(''size_bytes_min'', SInt 1), (''size_bytes_max'', SInt 1), (''share_pc'', SFloat 60)]]),
        (''type_partition'', SGroup [(''read_only'', SFloat 40), (''write_only'', SFloat 10), (''read_write'', SFloat 50)])]),
     (''MessagesConfig'', SGroup [
        (''type_partition'', SGroup [(''intra_task_fwd'', SFloat 25), (''intra_task_bwd'', SFloat 35), (''inter_task'', SFloat 40)]),
        (''InterTaskMessagesConfig'', SGroup [
          (''volume_types'', SList [SGroup [(''type'', SInt 1), (''min'', SInt 2), (''max'', SInt 3)]]),
          (''dist'', SList [SGroup [(''send_period_ms'', SInt 10), (''recv_period_ms'', SInt 1), (''volume_type'', SInt 1)]])])]),
     (''RunnablesConfig'', SGroup [(''count'', SGroup [(''min'', SInt 1), (''max'', SInt 2)]),
        (''period_shares'', SList [SGroup [(''period_ms'', SInt 10), (''share_pc'', SFloat 30)],
          SGroup [(''period_ms'', SInt 1), (''share_pc'', SFloat 70)]]),
        (''exec_time_profiles'', SList [])])])]"

definition sample_config :: kzh15_config where
  "sample_config = \<lparr>config_file = ''f'', scale_factor = 2, periods_ms = [10, 1],
     labels_cfg = \<lparr>lcount = \<lparr>rmin = 4, rmax = 9\<rparr>, size_shares = [(\<lparr>rmin = 1, rmax = 1\<rparr>, 60), (\<lparr>rmin = 5, rmax = 8\<rparr>, 40)],
       label_partition = [(kReadOnly, 40), (kWriteOnly, 10), (kReadWrite, 50)]\<rparr>,
     msgs_cfg = \<lparr>message_partition = [(kIntraTaskFwd, 25), (kIntraTaskBwd, 35), (kInterTask, 40)],
       inter_task_msgs_cfg = \<lparr>volume_types = [(kI, \<lparr>rmin = 2, rmax = 3\<rparr>)], dist = [(10, [(1, kI)])]\<rparr>\<rparr>,
     runnables_cfg = \<lparr>rcount = \<lparr>rmin = 1, rmax = 2\<rparr>, period_shares = [(1, 70), (10, 30)], exec_time_profiles = []\<rparr>\<rparr>"

lemma sample_config_new: "config_new tree_settings sample_file ''f'' 2 = Some sample_config"
  by code_simp

section \<open>Properties\<close>

text \<open>Lemma (config_type):
  If no accessor throws, then the constructor yields a configuration whose maps are in strict
  key order, so that every key occurs once and iteration visits the keys in order, with the
  file and the scale factor that were given.\<close>
theorem config_type:
  assumes "config_new api read_file file scale = Some c"
  shows "config_ok c \<and> config_file c = file \<and> scale_factor c = scale"
  using assms by (rule config_new_ok)

lemma config_type_witness: "config_ok sample_config \<and> config_file sample_config = ''f'' \<and> scale_factor sample_config = 2"
  by (rule config_type [OF sample_config_new])

text \<open>Lemma (config_string_stable):
  Printing a configuration changes it, because looking up a missing key inserts it, but printing
  what the first call left behind gives the same text and no further change.\<close>
theorem config_string_stable:
  assumes "config_ok c"
  shows "config_string sd (snd (config_string sd c)) = config_string sd c"
proof -
  have "om_sorted (<) (dist (inter_task_msgs_cfg (msgs_cfg c)))" using assms by (simp add: config_ok_def)
  from messages_string_again [OF this, of sd] show ?thesis
    using labels_string_again [of sd "labels_cfg c"] runnables_string_again [of sd "runnables_cfg c"]
    by (auto simp: config_string_def Let_def split: prod.splits)
qed

lemma config_string_stable_witness:
  "config_string (\<lambda>_. ''x'') (snd (config_string (\<lambda>_. ''x'') sample_config)) = config_string (\<lambda>_. ''x'') sample_config \<and>
   map fst (period_shares (runnables_cfg (snd (config_string (\<lambda>_. ''x'') sample_config)))) = [0, 1, 10]"
proof
  have "config_ok sample_config" using config_new_ok [OF sample_config_new] by simp
  then show "config_string (\<lambda>_. ''x'') (snd (config_string (\<lambda>_. ''x'') sample_config)) = config_string (\<lambda>_. ''x'') sample_config"
    by (rule config_string_stable)
qed code_simp


end
