(* ===== verification/Achal_Config.thy ===== *)
theory Achal_Config imports Kzh15_Config begin

text \<open>
  The system configuration of \<^verbatim>\<open>src/achal/config.cpp\<close>: the hosts and the applications of a
  libconfig file. libconfig is not part of the sources; the accessors that are used are the fields
  of \<open>lookups\<close>, where \<open>None\<close> is an exception for \<^verbatim>\<open>operator[]\<close> and a false result for
  \<^verbatim>\<open>lookupValue\<close>. A file that cannot be read leaves the empty configuration behind.
\<close>

section \<open>Data\<close>

record host =
  hname :: string
  ip :: string
  port :: int

record application =
  aname :: string
  aperiod_ms :: int
  replicas :: int

record achal_config =
  aconfig_file :: string
  hosts :: "host list"
  apps :: "application list"

record 's lookups =
  acc :: "'s settings"
  lookup_string :: "'s \<Rightarrow> string \<Rightarrow> string option"
  lookup_int :: "'s \<Rightarrow> string \<Rightarrow> int option"
  lookup_long :: "'s \<Rightarrow> string \<Rightarrow> int option"

section \<open>Reading\<close>

text \<open>An entry counts when the three lookups, in this order, succeed; the others are reported and skipped.\<close>

definition host_of :: "'s lookups \<Rightarrow> 's \<Rightarrow> host option" where
  "host_of api e = do {
     n \<leftarrow> lookup_string api e ''name''; a \<leftarrow> lookup_string api e ''ip''; p \<leftarrow> lookup_int api e ''port'';
     Some \<lparr>hname = n, ip = a, port = p\<rparr> }"

definition application_of :: "'s lookups \<Rightarrow> 's \<Rightarrow> application option" where
  "application_of api e = do {
     n \<leftarrow> lookup_string api e ''name''; p \<leftarrow> lookup_long api e ''period_ms''; r \<leftarrow> lookup_int api e ''replicas'';
     Some \<lparr>aname = n, aperiod_ms = p, replicas = r\<rparr> }"

definition parse_hosts :: "'s lookups \<Rightarrow> 's \<Rightarrow> achal_config \<Rightarrow> achal_config option" where
  "parse_hosts api s = for_elems (acc api) (\<lambda>e c. Some (case host_of api e of
     Some h \<Rightarrow> c\<lparr>hosts := hosts c @ [h]\<rparr> | None \<Rightarrow> c)) s"

definition parse_apps :: "'s lookups \<Rightarrow> 's \<Rightarrow> achal_config \<Rightarrow> achal_config option" where
  "parse_apps api s = for_elems (acc api) (\<lambda>e c. Some (case application_of api e of
     Some a \<Rightarrow> c\<lparr>apps := apps c @ [a]\<rparr> | None \<Rightarrow> c)) s"

definition parse_achal_config :: "'s lookups \<Rightarrow> (string \<Rightarrow> 's) \<Rightarrow> achal_config \<Rightarrow> achal_config option" where
  "parse_achal_config api read_file c = do {
     let root = read_file (aconfig_file c);
     r \<leftarrow> child (acc api) root ''AchalConfig'';
     hs \<leftarrow> child (acc api) r ''hosts'';
     c \<leftarrow> parse_hosts api hs c;
     r \<leftarrow> child (acc api) root ''AchalConfig'';
     as \<leftarrow> child (acc api) r ''applications'';
     parse_apps api as c }"

definition achal_config_new :: "'s lookups \<Rightarrow> (string \<Rightarrow> 's) \<Rightarrow> string \<Rightarrow> achal_config option" where
  "achal_config_new api read_file f = parse_achal_config api read_file \<lparr>aconfig_file = f, hosts = [], apps = []\<rparr>"

definition achal_config_default :: "'s lookups \<Rightarrow> (string \<Rightarrow> 's) \<Rightarrow> string \<Rightarrow> achal_config option" where
  "achal_config_default api read_file project = achal_config_new api read_file (project @ ''/config/default.cfg'')"

section \<open>What is read\<close>

definition elems_of :: "'s settings \<Rightarrow> 's \<Rightarrow> 's list option" where
  "elems_of api s = those (map (elem api s) [0..<get_length api s])"

lemma fold_option_collect:
  assumes "\<And>e c. f e c = Some (case g e of Some x \<Rightarrow> upd c x | None \<Rightarrow> c)"
  shows "fold_option (\<lambda>i a. do { e \<leftarrow> el i; f e a }) is c =
    map_option (\<lambda>es. foldl upd c (List.map_filter g es)) (those (map el is))"
proof (induction "is" arbitrary: c)
  case (Cons i "is")
  show ?case
  proof (cases "el i")
    case (Some e)
    then show ?thesis using Cons assms
      by (simp add: option.map_comp o_def List.map_filter_simps split: option.split)
  qed simp
qed (simp add: List.map_filter_simps)

lemma for_elems_collect:
  assumes "\<And>e c. f e c = Some (case g e of Some x \<Rightarrow> upd c x | None \<Rightarrow> c)"
  shows "for_elems api f s c = map_option (\<lambda>es. foldl upd c (List.map_filter g es)) (elems_of api s)"
  unfolding for_elems_def elems_of_def using assms by (rule fold_option_collect)

lemma foldl_hosts: "foldl (\<lambda>c h. c\<lparr>hosts := hosts c @ [h]\<rparr>) c hs = c\<lparr>hosts := hosts c @ hs\<rparr>"
  by (induction hs arbitrary: c) simp_all

lemma foldl_apps: "foldl (\<lambda>c h. c\<lparr>apps := apps c @ [h]\<rparr>) c as = c\<lparr>apps := apps c @ as\<rparr>"
  by (induction "as" arbitrary: c) simp_all

text \<open>Lemma (achal_config_reads): a configuration is read exactly when the file has both lists, and it holds
  the complete entries of each list, in the order of the file; an incomplete entry is skipped without
  affecting the others.\<close>

theorem achal_config_reads:
  "achal_config_new api read_file f = do {
     r \<leftarrow> child (acc api) (read_file f) ''AchalConfig'';
     hs \<leftarrow> child (acc api) r ''hosts'' \<bind> elems_of (acc api);
     as \<leftarrow> child (acc api) r ''applications'' \<bind> elems_of (acc api);
     Some \<lparr>aconfig_file = f, hosts = List.map_filter (host_of api) hs, apps = List.map_filter (application_of api) as\<rparr> }"
proof -
  have h: "parse_hosts api s c = map_option (\<lambda>es. c\<lparr>hosts := hosts c @ List.map_filter (host_of api) es\<rparr>) (elems_of (acc api) s)" for s c
    unfolding parse_hosts_def
    by (subst for_elems_collect [where g = "host_of api" and upd = "\<lambda>c h. c\<lparr>hosts := hosts c @ [h]\<rparr>"]) (simp_all add: foldl_hosts)
  have a: "parse_apps api s c = map_option (\<lambda>es. c\<lparr>apps := apps c @ List.map_filter (application_of api) es\<rparr>) (elems_of (acc api) s)" for s c
    unfolding parse_apps_def
    by (subst for_elems_collect [where g = "application_of api" and upd = "\<lambda>c h. c\<lparr>apps := apps c @ [h]\<rparr>"]) (simp_all add: foldl_apps)
  show ?thesis
    by (cases "child (acc api) (read_file f) ''AchalConfig''")
      (auto simp: achal_config_new_def parse_achal_config_def h a map_conv_bind_option split: option.split bind_split)
qed

end
