(* ===== verification/Kzh15_Generator.thy ===== *)
theory Kzh15_Generator imports Kzh15_Config begin

text \<open>
  The first half of \<^verbatim>\<open>BenchmarkInstance\<close> (\<^verbatim>\<open>src/utils/kzh15_benchmark_generator.cpp\<close>): the
  numbers of runnables, their periods and execution times, and the grouping into tasks. Every
  function seeds a generator with the time and draws from distributions; a run of the model gets
  the list of draws, and \<open>None\<close> stands for a draw that the distribution cannot give, a list that
  is too short, and for undefined behaviour or an exception of the code. The beta
  distribution of Boost is a parameter.
\<close>

section \<open>Draws\<close>

text \<open>\<open>std::uniform_int_distribution\<close> gives values in the closed interval,
  \<open>std::uniform_real_distribution\<close> in the half-open one.\<close>

fun draw_int :: "int \<Rightarrow> int \<Rightarrow> int list \<Rightarrow> (int \<times> int list) option" where
  "draw_int lo hi [] = None"
| "draw_int lo hi (d # ds) = (if lo \<le> d \<and> d \<le> hi then Some (d, ds) else None)"

fun draw_real :: "rat \<Rightarrow> rat \<Rightarrow> rat list \<Rightarrow> (rat \<times> rat list) option" where
  "draw_real lo hi [] = None"
| "draw_real lo hi (d # ds) = (if lo \<le> d \<and> (d < hi \<or> d = lo \<and> lo = hi) then Some (d, ds) else None)"

lemma draw_int_range: "draw_int lo hi ds = Some (d, ds') \<Longrightarrow> lo \<le> d \<and> d \<le> hi"
  by (cases ds) (auto split: if_splits)

lemma draw_real_range: "draw_real lo hi ds = Some (d, ds') \<Longrightarrow> lo \<le> d \<and> d \<le> hi"
  by (cases ds) (auto split: if_splits)

lemma draw_real_less: "draw_real lo hi ds = Some (d, ds') \<Longrightarrow> lo < hi \<Longrightarrow> d < hi"
  by (cases ds) (auto split: if_splits)

section \<open>Instances\<close>

record benchmark_instance =
  cfg :: kzh15_config
  merge_runnables :: bool
  runnables :: "runnable list"
  tasks :: "task list"
  labels :: "label list"

definition estimate_total_number_of_runnables :: "int list \<Rightarrow> benchmark_instance \<Rightarrow> int option" where
  "estimate_total_number_of_runnables ds inst = do {
     let rc = rcount (runnables_cfg (cfg inst));
     (d, _) \<leftarrow> draw_int (rmin rc) (rmax rc) ds;
     Some (trunc (of_int d * scale_factor (cfg inst))) }"

section \<open>Runnables and their periods\<close>

text \<open>The loop keeps the index of the current period, the number of its runnables, the map of
  shares, in which a lookup may insert, and the runnables so far.\<close>

definition next_runnable :: "int list \<Rightarrow> int \<Rightarrow> nat \<Rightarrow> nat \<times> rat \<times> (int \<times> rat) list \<times> runnable list
    \<Rightarrow> (nat \<times> rat \<times> (int \<times> rat) list \<times> runnable list) option" where
  "next_runnable periods mx i = (\<lambda>(idx, counter, shares, rs).
     if idx < length periods then
       let p = periods ! idx;
           (share, shares') = om_at (<) 0 p shares;
           rs' = rs @ [runnable_new i p]
       in if (counter + 1) * 100 / of_int mx \<ge> share then Some (idx + 1, 0, shares', rs')
          else Some (idx, counter + 1, shares', rs')
     else None)"

definition generate_runnable_instances :: "int \<Rightarrow> benchmark_instance \<Rightarrow> benchmark_instance option" where
  "generate_runnable_instances mx inst = do {
     let c = cfg inst;
     let rc = runnables_cfg c;
     (idx, counter, shares, rs) \<leftarrow>
       fold_option (next_runnable (periods_ms c) mx) [0..<nat mx] (0, 0, period_shares rc, runnables inst);
     Some (inst\<lparr>cfg := c\<lparr>runnables_cfg := rc\<lparr>period_shares := shares\<rparr>\<rparr>, runnables := rs\<rparr>) }"

section \<open>Execution times\<close>

text \<open>What is used of Boost: whether the parameters of a beta distribution are accepted, and its quantiles.\<close>

record boost_api =
  beta_accepts :: "rat \<Rightarrow> rat \<Rightarrow> bool"
  beta_quantile :: "rat \<times> rat \<Rightarrow> rat \<Rightarrow> rat"

record distributions =
  beta_dists :: "(int \<times> rat \<times> rat) list"
  bcet_dists :: "(int \<times> rat \<times> rat) list"
  wcet_dists :: "(int \<times> rat \<times> rat) list"
  dist_profiles :: "(int \<times> et_profile) list"

text \<open>A division by zero yields an infinity or a NaN, which the distribution does not accept.\<close>

definition add_period :: "boost_api \<Rightarrow> int \<Rightarrow> distributions \<Rightarrow> distributions option" where
  "add_period api p ds = do {
     let (et, profiles) = om_at (<) et_profile_default p (dist_profiles ds);
     let alpha = 2;
     let beta = (acet_max_us et - acet_avg_us et) / (acet_avg_us et - acet_min_us et) * alpha;
     if acet_avg_us et = acet_min_us et \<or> \<not> beta_accepts api alpha beta then None
     else Some \<lparr>beta_dists = om_put (<) p (alpha, beta) (beta_dists ds),
       bcet_dists = om_put (<) p (bcet_f_min et, bcet_f_max et) (bcet_dists ds),
       wcet_dists = om_put (<) p (wcet_f_min et, wcet_f_max et) (wcet_dists ds),
       dist_profiles = profiles\<rparr> }"

definition set_times :: "boost_api \<Rightarrow> distributions \<Rightarrow> runnable \<Rightarrow> rat list \<Rightarrow> (runnable \<times> rat list) option" where
  "set_times api ds r us = do {
     let p = rperiod_ms r;
     let et = om_value et_profile_default (dist_profiles ds) p;
     (rand, us) \<leftarrow> draw_real 0 1 us;
     let a = beta_quantile api (om_value (1, 1) (beta_dists ds) p) rand;
     let a = a * (acet_max_us et - acet_min_us et);
     let a = a + acet_min_us et;
     let (b_lo, b_hi) = om_value (0, 1) (bcet_dists ds) p;
     (b, us) \<leftarrow> draw_real b_lo b_hi us;
     let (w_lo, w_hi) = om_value (0, 1) (wcet_dists ds) p;
     (w, us) \<leftarrow> draw_real w_lo w_hi us;
     Some (r\<lparr>racet_us := a, rbcet_us := a * b, rwcet_us := a * w\<rparr>, us) }"

fun set_all_times :: "boost_api \<Rightarrow> distributions \<Rightarrow> runnable list \<Rightarrow> rat list \<Rightarrow> runnable list option" where
  "set_all_times api ds [] us = Some []"
| "set_all_times api ds (r # rs) us = do {
     (r', us') \<leftarrow> set_times api ds r us;
     rs' \<leftarrow> set_all_times api ds rs us';
     Some (r' # rs') }"

text \<open>Every period of a runnable is one of \<open>periods_ms\<close>, so the second loop inserts nothing.\<close>

definition generate_runnable_acets_bcets_and_wcets ::
    "boost_api \<Rightarrow> rat list \<Rightarrow> benchmark_instance \<Rightarrow> benchmark_instance option" where
  "generate_runnable_acets_bcets_and_wcets api us inst = do {
     let c = cfg inst;
     let rc = runnables_cfg c;
     ds \<leftarrow> fold_option (add_period api) (periods_ms c)
       \<lparr>beta_dists = [], bcet_dists = [], wcet_dists = [], dist_profiles = exec_time_profiles rc\<rparr>;
     rs \<leftarrow> set_all_times api ds (runnables inst) us;
     Some (inst\<lparr>cfg := c\<lparr>runnables_cfg := rc\<lparr>exec_time_profiles := dist_profiles ds\<rparr>\<rparr>, runnables := rs\<rparr>) }"

section \<open>Tasks\<close>

text \<open>\<open>opened\<close> says that the pointer \<open>t\<close> is not null; then it is the last task.\<close>

definition put_runnable :: "int \<Rightarrow> runnable \<Rightarrow> nat \<times> bool \<times> task list \<Rightarrow> nat \<times> bool \<times> task list" where
  "put_runnable p r = (\<lambda>(i, opened, ts).
     if rperiod_ms r \<noteq> p then (i, opened, ts)
     else if \<not> opened \<or> \<not> does_runnable_fit (last ts) r then (i + 1, True, ts @ [add_runnable r (task_new i p)])
     else (i, True, butlast ts @ [add_runnable r (last ts)]))"

definition merge_period :: "runnable list \<Rightarrow> int \<Rightarrow> nat \<times> task list \<Rightarrow> nat \<times> task list" where
  "merge_period rs p = (\<lambda>(i, ts).
     let (i', opened, ts') = fold (put_runnable p) rs (i, False, ts) in (i', ts'))"

definition single_task :: "runnable \<Rightarrow> nat \<times> task list \<Rightarrow> nat \<times> task list" where
  "single_task r = (\<lambda>(i, ts). (i + 1, ts @ [add_runnable r (task_new i (rperiod_ms r))]))"

definition generate_task_instances_from_runnables :: "benchmark_instance \<Rightarrow> benchmark_instance" where
  "generate_task_instances_from_runnables inst =
     inst\<lparr>tasks := snd (if \<not> merge_runnables inst then fold single_task (runnables inst) (0, tasks inst)
       else fold (merge_period (runnables inst)) (periods_ms (cfg inst)) (0, tasks inst))\<rparr>"

section \<open>How many runnables each period gets\<close>

definition quota :: "int \<Rightarrow> rat \<Rightarrow> nat" where
  "quota mx share = nat (max 1 \<lceil>share * of_int mx / 100\<rceil>)"

definition period_schedule :: "int \<Rightarrow> (int \<times> rat) list \<Rightarrow> int list \<Rightarrow> int list" where
  "period_schedule mx shares periods = concat (map (\<lambda>p. replicate (quota mx (om_value 0 shares p)) p) periods)"

lemma quota_reached:
  assumes "0 < mx"
  shows "share \<le> (of_nat c + 1) * 100 / of_int mx \<longleftrightarrow> quota mx share \<le> Suc c"
proof -
  have "share \<le> (of_nat c + 1) * 100 / of_int mx \<longleftrightarrow> share * of_int mx / 100 \<le> of_int (int c + 1)"
    using assms by (simp add: field_simps)
  also have "\<dots> \<longleftrightarrow> \<lceil>share * of_int mx / 100\<rceil> \<le> int c + 1" by (simp add: ceiling_le_iff)
  also have "\<dots> \<longleftrightarrow> quota mx share \<le> Suc c" by (auto simp: quota_def)
  finally show ?thesis .
qed

lemma schedule_split:
  assumes "idx < length ps"
  shows "period_schedule mx shares ps = period_schedule mx shares (take idx ps) @
    replicate (quota mx (om_value 0 shares (ps ! idx))) (ps ! idx) @ period_schedule mx shares (drop (Suc idx) ps)"
  by (subst id_take_nth_drop [OF assms]) (simp add: period_schedule_def)

lemma om_value_at [simp]: "om_value d (snd (om_at lt d k m)) j = om_value d m j" if "ordered_keys lt"
  using that by (auto simp: om_at_def om_value_def ordered_keys.map_of_put split: option.split)

lemma om_value_int_at: "om_at (<) d k m = (v, m') \<Longrightarrow> v = om_value d m k \<and> om_value d m' j = om_value d m (j :: int)"
  using om_value_at [OF int_less.ordered_keys_axioms, of d k m j] by (metis fst_conv fst_om_at snd_conv)

fun quota_state :: "int \<Rightarrow> (int \<times> rat) list \<Rightarrow> int list \<Rightarrow> runnable list \<Rightarrow> nat
    \<Rightarrow> nat \<times> rat \<times> (int \<times> rat) list \<times> runnable list \<Rightarrow> bool" where
  "quota_state mx shares ps rs0 k (idx, counter, m, rs) \<longleftrightarrow>
     (\<exists>c. counter = of_nat c \<and> k = length (period_schedule mx shares (take idx ps)) + c \<and> idx \<le> length ps \<and>
        (idx < length ps \<longrightarrow> c < quota mx (om_value 0 shares (ps ! idx))) \<and> (idx = length ps \<longrightarrow> c = 0)) \<and>
     (\<forall>p. om_value 0 m p = om_value 0 shares p) \<and>
     rs = rs0 @ map2 runnable_new [0..<k] (take k (period_schedule mx shares ps))"

lemma next_runnable_step:
  assumes st: "quota_state mx shares ps rs0 k st" and mx: "0 < mx"
  shows "if k < length (period_schedule mx shares ps)
    then \<exists>st'. next_runnable ps mx k st = Some st' \<and> quota_state mx shares ps rs0 (Suc k) st'
    else next_runnable ps mx k st = None"
proof -
  obtain idx counter m rs where s: "st = (idx, counter, m, rs)" by (cases st)
  obtain c where c: "counter = of_nat c" "k = length (period_schedule mx shares (take idx ps)) + c" "idx \<le> length ps"
      "idx < length ps \<Longrightarrow> c < quota mx (om_value 0 shares (ps ! idx))" "idx = length ps \<Longrightarrow> c = 0"
    and m: "\<And>p. om_value 0 m p = om_value 0 shares p"
    and rs: "rs = rs0 @ map2 runnable_new [0..<k] (take k (period_schedule mx shares ps))"
    using st unfolding s by auto
  show ?thesis
  proof (cases "idx < length ps")
    case False
    then show ?thesis using c(2,3,5) by (simp add: s next_runnable_def)
  next
    case True
    let ?p = "ps ! idx" and ?q = "quota mx (om_value 0 shares (ps ! idx))"
    have cq: "c < ?q" using c(4) True by simp
    note L = schedule_split [OF True, of mx shares]
    have k: "k < length (period_schedule mx shares ps)" using L c(2) cq by simp
    have nth: "period_schedule mx shares ps ! k = ?p" unfolding L c(2) using cq by (simp add: nth_append)
    obtain v m' where at: "om_at (<) 0 ?p m = (v, m')" by fastforce
    have v: "v = om_value 0 shares ?p" "\<And>p. om_value 0 m' p = om_value 0 shares p"
      using om_value_int_at [OF at] m by simp_all
    have new: "rs @ [runnable_new k ?p] = rs0 @ map2 runnable_new [0..<Suc k] (take (Suc k) (period_schedule mx shares ps))"
      using k by (simp add: rs take_Suc_conv_app_nth nth)
    have reached: "v \<le> (counter + 1) * 100 / of_int mx \<longleftrightarrow> Suc c = ?q"
      unfolding c(1) quota_reached [OF mx] v(1) using cq by auto
    have take: "length (period_schedule mx shares (take (Suc idx) ps)) = length (period_schedule mx shares (take idx ps)) + ?q"
      using True by (simp add: take_Suc_conv_app_nth period_schedule_def)
    have "\<exists>st'. next_runnable ps mx k st = Some st' \<and> quota_state mx shares ps rs0 (Suc k) st'"
    proof (cases "Suc c = ?q")
      case eq: True
      have "next_runnable ps mx k st = Some (idx + 1, 0, m', rs @ [runnable_new k ?p])"
        using True at reached eq by (simp add: s next_runnable_def)
      moreover have "quota_state mx shares ps rs0 (Suc k) (idx + 1, 0, m', rs @ [runnable_new k ?p])"
        using True v(2) new take eq c(2) unfolding quota_state.simps
        by (intro conjI exI [of _ 0]) (auto simp: quota_def)
      ultimately show ?thesis by blast
    next
      case ne: False
      have "next_runnable ps mx k st = Some (idx, counter + 1, m', rs @ [runnable_new k ?p])"
        using True at reached ne by (simp add: s next_runnable_def)
      moreover have "quota_state mx shares ps rs0 (Suc k) (idx, counter + 1, m', rs @ [runnable_new k ?p])"
        using True v(2) new ne cq c(1,2) unfolding quota_state.simps
        by (intro conjI exI [of _ "Suc c"]) auto
      ultimately show ?thesis by blast
    qed
    then show ?thesis using k by simp
  qed
qed

lemma fold_option_append: "fold_option f (xs @ ys) a = do { b \<leftarrow> fold_option f xs a; fold_option f ys b }"
  by (induction xs arbitrary: a) (auto split: bind_splits)

lemma fold_option_end [simp]: "Option.bind m (fold_option f []) = m"
  by (cases m) simp_all

lemma next_runnable_loop:
  assumes "0 < mx"
  shows "if k \<le> length (period_schedule mx shares ps)
    then \<exists>st. fold_option (next_runnable ps mx) [0..<k] (0, 0, shares, rs0) = Some st \<and> quota_state mx shares ps rs0 k st
    else fold_option (next_runnable ps mx) [0..<k] (0, 0, shares, rs0) = None"
proof (induction k)
  case 0
  show ?case by (auto simp: period_schedule_def quota_def intro!: exI [of _ 0])
next
  case (Suc k)
  note step = next_runnable_step [OF _ assms, of shares ps rs0 k]
  have app: "fold_option f [0..<Suc k] a = Option.bind (fold_option f [0..<k] a) (f k)" for f and a :: "nat \<times> rat \<times> (int \<times> rat) list \<times> runnable list"
    by (simp add: fold_option_append)
  show ?case
  proof (cases "k \<le> length (period_schedule mx shares ps)")
    case True
    then obtain st where st: "fold_option (next_runnable ps mx) [0..<k] (0, 0, shares, rs0) = Some st"
      "quota_state mx shares ps rs0 k st" using Suc.IH by auto
    show ?thesis using step [OF st(2)] unfolding app st(1) by (auto split: if_splits)
  next
    case False
    then have "fold_option (next_runnable ps mx) [0..<k] (0, 0, shares, rs0) = None" using Suc.IH by simp
    then show ?thesis using False unfolding app by simp
  qed
qed

lemma generate_runnables_schedule:
  assumes "0 < mx"
  shows "map_option runnables (generate_runnable_instances mx inst) =
    (let sched = period_schedule mx (period_shares (runnables_cfg (cfg inst))) (periods_ms (cfg inst))
     in if nat mx \<le> length sched then Some (runnables inst @ map2 runnable_new [0..<nat mx] (take (nat mx) sched)) else None)"
  using next_runnable_loop [OF assms, of "nat mx" "period_shares (runnables_cfg (cfg inst))" "periods_ms (cfg inst)" "runnables inst"]
  by (auto simp: generate_runnable_instances_def Let_def split: if_splits)

text \<open>Shares of at least 100 percent suffice.\<close>

lemma schedule_enough:
  assumes "(\<Sum>p \<leftarrow> ps. om_value 0 shares p) \<ge> 100" "0 < mx"
  shows "nat mx \<le> length (period_schedule mx shares ps)"
proof -
  have q: "share * of_int mx / 100 \<le> rat_of_nat (quota mx share)" for share :: rat
  proof -
    have "share * of_int mx / 100 \<le> of_int (max 1 \<lceil>share * of_int mx / 100\<rceil>)"
      by (rule order_trans [OF le_of_int_ceiling]) simp
    then show ?thesis by (simp add: quota_def)
  qed
  have "rat_of_nat (length (period_schedule mx shares ps)) \<ge> (\<Sum>p \<leftarrow> ps. om_value 0 shares p) * of_int mx / 100"
  proof (induction ps)
    case (Cons p ps)
    then show ?case using q [of "om_value 0 shares p"] by (simp add: period_schedule_def field_simps)
  qed (simp add: period_schedule_def)
  moreover have "(\<Sum>p \<leftarrow> ps. om_value 0 shares p) * of_int mx \<ge> 100 * of_int mx" using assms by simp
  ultimately have "rat_of_nat (length (period_schedule mx shares ps)) \<ge> of_int mx" by linarith
  then have "of_int mx \<le> (of_int (int (length (period_schedule mx shares ps))) :: rat)" by simp
  then show ?thesis unfolding of_int_le_iff by simp
qed


section \<open>Bounds of the execution times\<close>

definition period_dists_ok :: "distributions \<Rightarrow> int \<Rightarrow> bool" where
  "period_dists_ok ds p \<longleftrightarrow>
     (let et = om_value et_profile_default (dist_profiles ds) p
      in om_value (0, 1) (bcet_dists ds) p = (bcet_f_min et, bcet_f_max et) \<and>
         om_value (0, 1) (wcet_dists ds) p = (wcet_f_min et, wcet_f_max et))"

lemma om_value_put: "om_value d (om_put (<) k v m) j = (if j = (k :: int) then v else om_value d m j)"
  by (simp add: om_value_def int_less.map_of_put)

lemma add_period_ok:
  assumes "add_period api p ds = Some ds'"
  shows "period_dists_ok ds' p \<and> (\<forall>q. period_dists_ok ds q \<longrightarrow> period_dists_ok ds' q) \<and>
    (\<forall>q. om_value et_profile_default (dist_profiles ds') q = om_value et_profile_default (dist_profiles ds) q)"
proof -
  obtain et m where at: "om_at (<) et_profile_default p (dist_profiles ds) = (et, m)" by fastforce
  show ?thesis using assms om_value_int_at [OF at]
    by (auto simp: add_period_def at Let_def period_dists_ok_def om_value_put split: if_splits)
qed

lemma add_periods_ok:
  assumes "fold_option (add_period api) ps ds = Some ds'"
  shows "(\<forall>p. p \<in> set ps \<or> period_dists_ok ds p \<longrightarrow> period_dists_ok ds' p) \<and>
    (\<forall>q. om_value et_profile_default (dist_profiles ds') q = om_value et_profile_default (dist_profiles ds) q)"
  using assms
proof (induction ps arbitrary: ds)
  case (Cons p ps)
  then obtain d1 where "add_period api p ds = Some d1" "fold_option (add_period api) ps d1 = Some ds'"
    by (auto split: bind_splits)
  then show ?case using add_period_ok Cons.IH by auto
qed simp

text \<open>A time between its bounds, if the range of average times is not empty and not negative.\<close>

definition times_ok :: "et_profile \<Rightarrow> runnable \<Rightarrow> bool" where
  "times_ok et r \<longleftrightarrow> acet_min_us et \<le> racet_us r \<and> racet_us r \<le> acet_max_us et \<and>
     racet_us r * bcet_f_min et \<le> rbcet_us r \<and> rbcet_us r \<le> racet_us r * bcet_f_max et \<and>
     racet_us r * wcet_f_min et \<le> rwcet_us r \<and> rwcet_us r \<le> racet_us r * wcet_f_max et"

definition same_job :: "runnable \<Rightarrow> runnable \<Rightarrow> bool" where
  "same_job r r' \<longleftrightarrow> r' = r\<lparr>racet_us := racet_us r', rbcet_us := rbcet_us r', rwcet_us := rwcet_us r'\<rparr>"

lemma set_times_ok:
  assumes s: "set_times api ds r us = Some (r', us')" and d: "period_dists_ok ds (rperiod_ms r)"
    and q: "\<And>ab u. 0 \<le> u \<Longrightarrow> u \<le> 1 \<Longrightarrow> 0 \<le> beta_quantile api ab u \<and> beta_quantile api ab u \<le> 1"
    and et: "et = om_value et_profile_default (dist_profiles ds) (rperiod_ms r)"
      "0 \<le> acet_min_us et" "acet_min_us et \<le> acet_max_us et"
  shows "same_job r r' \<and> times_ok et r'"
proof -
  have dists: "om_value (0, 1) (bcet_dists ds) (rperiod_ms r) = (bcet_f_min et, bcet_f_max et)"
    "om_value (0, 1) (wcet_dists ds) (rperiod_ms r) = (wcet_f_min et, wcet_f_max et)"
    using d by (simp_all add: period_dists_ok_def Let_def et(1))
  obtain u us1 b us2 w us3 where u: "draw_real 0 1 us = Some (u, us1)"
    and b: "draw_real (bcet_f_min et) (bcet_f_max et) us1 = Some (b, us2)"
    and w: "draw_real (wcet_f_min et) (wcet_f_max et) us2 = Some (w, us3)"
    and r': "r' = (let a = beta_quantile api (om_value (1, 1) (beta_dists ds) (rperiod_ms r)) u *
        (acet_max_us et - acet_min_us et) + acet_min_us et
      in r\<lparr>racet_us := a, rbcet_us := a * b, rwcet_us := a * w\<rparr>)"
    using s dists by (auto simp: set_times_def Let_def et(1) split: bind_splits)
  define x where "x = beta_quantile api (om_value (1, 1) (beta_dists ds) (rperiod_ms r)) u"
  have x: "0 \<le> x" "x \<le> 1" using q draw_real_range [OF u] by (auto simp: x_def)
  have "0 \<le> x * (acet_max_us et - acet_min_us et)" "x * (acet_max_us et - acet_min_us et) \<le> acet_max_us et - acet_min_us et"
    using x et(3) by (simp_all add: mult_left_le_one_le)
  then have a: "acet_min_us et \<le> racet_us r'" "racet_us r' \<le> acet_max_us et" by (simp_all add: r' Let_def x_def)
  have eqs: "rbcet_us r' = racet_us r' * b" "rwcet_us r' = racet_us r' * w" by (simp_all add: r' Let_def)
  have "same_job r r'" by (simp add: r' same_job_def Let_def)
  moreover have "times_ok et r'"
    using a et(2) draw_real_range [OF b] draw_real_range [OF w] by (simp add: times_ok_def eqs mult_left_mono)
  ultimately show ?thesis by blast
qed

lemma set_all_times_ok:
  assumes "set_all_times api ds rs us = Some rs'" "\<And>r. r \<in> set rs \<Longrightarrow> period_dists_ok ds (rperiod_ms r)"
    and q: "\<And>ab u. 0 \<le> u \<Longrightarrow> u \<le> 1 \<Longrightarrow> 0 \<le> beta_quantile api ab u \<and> beta_quantile api ab u \<le> 1"
    and et: "\<And>r. r \<in> set rs \<Longrightarrow> 0 \<le> acet_min_us (prof (rperiod_ms r)) \<and>
        acet_min_us (prof (rperiod_ms r)) \<le> acet_max_us (prof (rperiod_ms r))"
      "\<And>p. om_value et_profile_default (dist_profiles ds) p = prof p"
  shows "list_all2 (\<lambda>r r'. same_job r r' \<and> times_ok (prof (rperiod_ms r)) r') rs rs'"
  using assms(1,2) et(1)
proof (induction rs arbitrary: us rs')
  case (Cons r rs)
  obtain r1 us1 rs1 where 1: "set_times api ds r us = Some (r1, us1)" "set_all_times api ds rs us1 = Some rs1" "rs' = r1 # rs1"
    using Cons.prems(1) by (auto split: bind_splits)
  show ?case
    using Cons.IH [OF 1(2)] set_times_ok [OF 1(1) _ q refl] Cons.prems(2,3) unfolding 1(3) by (simp add: et(2))
qed simp

lemma generate_times_ok:
  assumes g: "generate_runnable_acets_bcets_and_wcets api us inst = Some inst'"
    and q: "\<And>ab u. 0 \<le> u \<Longrightarrow> u \<le> 1 \<Longrightarrow> 0 \<le> beta_quantile api ab u \<and> beta_quantile api ab u \<le> 1"
    and prof: "\<And>p. prof p = om_value et_profile_default (exec_time_profiles (runnables_cfg (cfg inst))) p"
    and et: "\<And>r. r \<in> set (runnables inst) \<Longrightarrow> rperiod_ms r \<in> set (periods_ms (cfg inst)) \<and>
        0 \<le> acet_min_us (prof (rperiod_ms r)) \<and> acet_min_us (prof (rperiod_ms r)) \<le> acet_max_us (prof (rperiod_ms r))"
  shows "list_all2 (\<lambda>r r'. same_job r r' \<and> times_ok (prof (rperiod_ms r)) r') (runnables inst) (runnables inst')"
proof -
  let ?d0 = "\<lparr>beta_dists = [], bcet_dists = [], wcet_dists = [], dist_profiles = exec_time_profiles (runnables_cfg (cfg inst))\<rparr>"
  obtain ds rs where ds: "fold_option (add_period api) (periods_ms (cfg inst)) ?d0 = Some ds"
    and rs: "set_all_times api ds (runnables inst) us = Some rs" "runnables inst' = rs"
    using g by (auto simp: generate_runnable_acets_bcets_and_wcets_def Let_def split: bind_splits)
  note d = add_periods_ok [OF ds]
  show ?thesis unfolding rs(2)
    by (rule set_all_times_ok [OF rs(1) _ q]) (use d et prof in auto)
qed


section \<open>Tasks partition the runnables\<close>

text \<open>Two neighbouring tasks of one period: the runnable that opens the second one did not fit.\<close>

fun greedy :: "(nat \<Rightarrow> runnable) \<Rightarrow> task list \<Rightarrow> bool" where
  "greedy f (a # b # ts) \<longleftrightarrow>
     (tperiod_ms a = tperiod_ms b \<longrightarrow> \<not> does_runnable_fit a (f (hd (trunnables b)))) \<and> greedy f (b # ts)"
| "greedy f ts \<longleftrightarrow> True"

definition tasks_ok :: "(nat \<Rightarrow> runnable) \<Rightarrow> nat \<times> task list \<Rightarrow> bool" where
  "tasks_ok f = (\<lambda>(i, ts). map tid ts = [0..<i] \<and> (\<forall>t \<in> set ts. task_ok f t \<and> trunnables t \<noteq> []))"

definition grouped :: "task list \<Rightarrow> nat list" where
  "grouped ts = concat (map trunnables ts)"

lemma greedy_snoc:
  "greedy f (ts @ [b]) \<longleftrightarrow> greedy f ts \<and>
     (ts \<noteq> [] \<longrightarrow> tperiod_ms (last ts) = tperiod_ms b \<longrightarrow> \<not> does_runnable_fit (last ts) (f (hd (trunnables b))))"
  by (induction f ts rule: greedy.induct) auto

lemma add_runnable_simps [simp]:
  "tid (add_runnable r t) = tid t" "tperiod_ms (add_runnable r t) = tperiod_ms t"
  "trunnables (add_runnable r t) = trunnables t @ [rid r]"
  by (simp_all add: add_runnable_def)

lemma task_new_simps [simp]:
  "tid (task_new i p) = i" "tperiod_ms (task_new i p) = p" "trunnables (task_new i p) = []"
  "does_runnable_fit (task_new i p) r"
  by (simp_all add: task_new_def does_runnable_fit_def)

lemma new_task_ok: "f (rid r) = r \<Longrightarrow> task_ok f (add_runnable r (task_new i (rperiod_ms r)))"
  by (rule add_runnable_ok [OF task_new_ok]) simp_all

lemma single_tasks:
  assumes "\<And>r. r \<in> set rs \<Longrightarrow> f (rid r) = r" "tasks_ok f (i, ts)" "\<forall>t \<in> set ts. length (trunnables t) = 1"
    and "fold single_task rs (i, ts) = (j, us)"
  shows "tasks_ok f (j, us) \<and> grouped us = grouped ts @ map rid rs \<and> (\<forall>t \<in> set us. length (trunnables t) = 1)"
  using assms
proof (induction rs arbitrary: i ts)
  case (Cons r rs)
  have "tasks_ok f (i + 1, ts @ [add_runnable r (task_new i (rperiod_ms r))])"
    using Cons.prems(1,2) new_task_ok [of f r i] by (auto simp: tasks_ok_def)
  from Cons.IH [OF _ this] show ?case using Cons.prems by (auto simp: single_task_def grouped_def)
qed simp

text \<open>The state of the inner loop: while a task is open, it is the last one and has the period \<open>p\<close>.\<close>

definition merging :: "(nat \<Rightarrow> runnable) \<Rightarrow> int \<Rightarrow> nat \<times> bool \<times> task list \<Rightarrow> bool" where
  "merging f p = (\<lambda>(i, opened, ts). tasks_ok f (i, ts) \<and> greedy f ts \<and>
     (opened \<longrightarrow> ts \<noteq> [] \<and> tperiod_ms (last ts) = p) \<and> (\<not> opened \<longrightarrow> (\<forall>t \<in> set ts. tperiod_ms t \<noteq> p)))"

lemma put_runnable_step:
  assumes m: "merging f p (i, opened, ts)" and f: "f (rid r) = r" and s: "put_runnable p r (i, opened, ts) = (j, opened', us)"
  shows "merging f p (j, opened', us) \<and> grouped us = grouped ts @ (if rperiod_ms r = p then [rid r] else []) \<and>
    (\<forall>t \<in> set us. tperiod_ms t = p \<or> t \<in> set ts)"
proof (cases "rperiod_ms r = p")
  case False
  then show ?thesis using m s by (auto simp: put_runnable_def)
next
  case p: True
  have ok: "tasks_ok f (i, ts)" and g: "greedy f ts" using m by (simp_all add: merging_def)
  show ?thesis
  proof (cases "\<not> opened \<or> \<not> does_runnable_fit (last ts) r")
    case True
    let ?t = "add_runnable r (task_new i p)"
    have u: "j = i + 1" "opened'" "us = ts @ [?t]" using s p True by (auto simp: put_runnable_def)
    have "tasks_ok f (j, us)" using ok new_task_ok [of f r i, OF f] p by (auto simp: tasks_ok_def u)
    moreover have "greedy f us" using m g True f by (auto simp: u greedy_snoc merging_def)
    ultimately show ?thesis using u p by (auto simp: merging_def grouped_def)
  next
    case False
    let ?t = "add_runnable r (last ts)"
    have u: "j = i" "opened'" "us = butlast ts @ [?t]" using s p False by (auto simp: put_runnable_def)
    have l: "ts = butlast ts @ [last ts]" "tperiod_ms (last ts) = p" using m False by (auto simp: merging_def)
    have mem: "last ts \<in> set ts" "\<And>t. t \<in> set (butlast ts) \<Longrightarrow> t \<in> set ts"
      using l(1) by (metis in_set_conv_decomp) (rule in_set_butlastD)
    have t: "task_ok f (last ts)" "trunnables (last ts) \<noteq> []" using ok mem by (auto simp: tasks_ok_def)
    have ids: "map tid us = map tid ts" by (subst l(1)) (simp add: u)
    have "task_ok f ?t" by (rule add_runnable_ok [OF t(1)]) (use False f p l(2) in auto)
    then have "tasks_ok f (j, us)" using ok ids mem(2) by (auto simp: tasks_ok_def u)
    moreover have "greedy f us"
      using g t(2) by (subst (asm) l(1)) (auto simp: u greedy_snoc)
    moreover have "grouped ts = grouped (butlast ts) @ trunnables (last ts)" by (subst l(1)) (simp add: grouped_def)
    then have "grouped us = grouped ts @ [rid r]" by (simp add: u grouped_def)
    ultimately show ?thesis using u p l(2) mem(2) by (auto simp: merging_def)
  qed
qed

lemma put_runnables:
  assumes "merging f p (i, opened, ts)" "\<And>r. r \<in> set rs \<Longrightarrow> f (rid r) = r"
    and "fold (put_runnable p) rs (i, opened, ts) = (j, opened', us)"
  shows "merging f p (j, opened', us) \<and> grouped us = grouped ts @ map rid (filter (\<lambda>r. rperiod_ms r = p) rs) \<and>
    (\<forall>t \<in> set us. tperiod_ms t = p \<or> t \<in> set ts)"
  using assms
proof (induction rs arbitrary: i opened ts)
  case (Cons r rs)
  obtain k o1 vs where 1: "put_runnable p r (i, opened, ts) = (k, o1, vs)" by (metis prod_cases3)
  note step = put_runnable_step [OF Cons.prems(1) _ 1]
  show ?case using Cons.IH [of k o1 vs] step Cons.prems 1 by (auto simp: grouped_def)
qed simp

lemma merge_periods:
  assumes "distinct ps" "\<And>r. r \<in> set rs \<Longrightarrow> f (rid r) = r" "tasks_ok f (i, ts)" "greedy f ts"
    and "\<And>t. t \<in> set ts \<Longrightarrow> tperiod_ms t \<notin> set ps"
    and "fold (merge_period rs) ps (i, ts) = (j, us)"
  shows "tasks_ok f (j, us) \<and> greedy f us \<and>
    grouped us = grouped ts @ concat (map (\<lambda>p. map rid (filter (\<lambda>r. rperiod_ms r = p) rs)) ps)"
  using assms
proof (induction ps arbitrary: i ts)
  case (Cons p ps)
  obtain k o1 vs where 1: "fold (put_runnable p) rs (i, False, ts) = (k, o1, vs)" by (metis prod_cases3)
  have "merging f p (i, False, ts)" using Cons.prems by (auto simp: merging_def)
  from put_runnables [OF this Cons.prems(2) 1]
  have v: "merging f p (k, o1, vs)" "grouped vs = grouped ts @ map rid (filter (\<lambda>r. rperiod_ms r = p) rs)"
    "\<And>t. t \<in> set vs \<Longrightarrow> tperiod_ms t = p \<or> t \<in> set ts" by blast+
  have "merge_period rs p (i, ts) = (k, vs)" using 1 by (simp add: merge_period_def)
  then have rest: "fold (merge_period rs) ps (k, vs) = (j, us)" using Cons.prems(6) by simp
  have "tasks_ok f (k, vs)" "greedy f vs" using v(1) by (simp_all add: merging_def)
  moreover have "tperiod_ms t \<notin> set ps" if "t \<in> set vs" for t using v(3) [OF that] Cons.prems(1,5) by auto
  ultimately show ?case using Cons.IH [OF _ Cons.prems(2) _ _ _ rest] Cons.prems(1) v(2) by simp
qed simp


end
