(* ===== verification/Kzh15_Labels.thy ===== *)
theory Kzh15_Labels imports Kzh15_Generator begin

text \<open>
  The second half of \<^verbatim>\<open>BenchmarkInstance\<close>: the labels, their sizes and types, the runnables
  that read and write them, and the constructor that runs all steps. A pointer to a runnable is
  its index in \<open>runnables\<close>, a pointer to a label its index in the vector that is generated,
  which is its identifier; both are stable while the labels are mapped.
\<close>

section \<open>Generating labels\<close>

definition estimate_total_number_of_labels :: "int list \<Rightarrow> benchmark_instance \<Rightarrow> int option" where
  "estimate_total_number_of_labels ds inst = do {
     let lc = lcount (labels_cfg (cfg inst));
     (d, _) \<leftarrow> draw_int (rmin lc) (rmax lc) ds;
     Some (trunc (of_int d * scale_factor (cfg inst))) }"

text \<open>The loops that add up the shares; the iterator must not be dereferenced at the end of the map.\<close>

fun pick_share :: "rat \<Rightarrow> rat \<Rightarrow> ('k \<times> rat) list \<Rightarrow> 'k option" where
  "pick_share rand cumulative [] = None"
| "pick_share rand cumulative ((k, share) # m) =
     (if rand < cumulative + share then Some k else pick_share rand (cumulative + share) m)"

text \<open>\<open>mtype\<close> is declared outside the loop and assigned for read-write labels only: the others get
  the value of the last read-write label, and before that an indeterminate one, the argument \<open>mt\<close>.\<close>

fun generate_labels :: "labels_config \<Rightarrow> messages_config \<Rightarrow> nat list \<Rightarrow> message_type \<Rightarrow> rat list \<Rightarrow> label list option" where
  "generate_labels lc mc [] mt ds = Some []"
| "generate_labels lc mc (i # is) mt ds = do {
     (rand, ds) \<leftarrow> draw_real 0 100 ds;
     sz \<leftarrow> pick_share rand 0 (size_shares lc);
     tp \<leftarrow> pick_share rand 0 (label_partition lc);
     (mt, ds) \<leftarrow> (if tp = kReadWrite then do {
         (rand2, ds) \<leftarrow> draw_real 0 100 ds;
         m \<leftarrow> pick_share rand2 0 (message_partition mc);
         Some (m, ds) }
       else Some (mt, ds));
     ls \<leftarrow> generate_labels lc mc is mt ds;
     Some (label_new i (rmax sz) tp mt # ls) }"

definition generate_label_instances :: "int \<Rightarrow> message_type \<Rightarrow> rat list \<Rightarrow> benchmark_instance \<Rightarrow> benchmark_instance option" where
  "generate_label_instances mx mt ds inst = do {
     ls \<leftarrow> generate_labels (labels_cfg (cfg inst)) (msgs_cfg (cfg inst)) [0..<nat mx] mt ds;
     Some (inst\<lparr>labels := labels inst @ ls\<rparr>) }"

section \<open>Mapping labels to runnables\<close>

text \<open>An index below \<open>n\<close>, drawn until the condition holds. The loop of the code may run forever;
  here it ends with the list of draws.\<close>

fun draw_until :: "(nat \<Rightarrow> bool) \<Rightarrow> nat \<Rightarrow> nat list \<Rightarrow> (nat \<times> nat list) option" where
  "draw_until c n [] = None"
| "draw_until c n (d # ds) = (if d < n then if c d then Some (d, ds) else draw_until c n ds else None)"

definition draw_index :: "nat \<Rightarrow> nat list \<Rightarrow> (nat \<times> nat list) option" where
  "draw_index n ds = draw_until (\<lambda>_. True) n ds"

definition update_at :: "nat \<Rightarrow> ('a \<Rightarrow> 'a) \<Rightarrow> 'a list \<Rightarrow> 'a list" where
  "update_at i f xs = xs[i := f (xs ! i)]"

definition map_read_only :: "label \<Rightarrow> runnable list \<Rightarrow> nat list \<Rightarrow> (label \<times> runnable list \<times> nat list) option" where
  "map_read_only l rs ds = do {
     (r, ds) \<leftarrow> draw_index (length rs) ds;
     Some (l\<lparr>readers := readers l @ [r]\<rparr>,
       update_at r (\<lambda>x. x\<lparr>ro_labels_read := ro_labels_read x @ [lid l]\<rparr>) rs, ds) }"

definition map_write_only :: "label \<Rightarrow> runnable list \<Rightarrow> nat list \<Rightarrow> (label \<times> runnable list \<times> nat list) option" where
  "map_write_only l rs ds = do {
     (r, ds) \<leftarrow> draw_index (length rs) ds;
     Some (l\<lparr>writers := writers l @ [r]\<rparr>,
       update_at r (\<lambda>x. x\<lparr>wo_labels_written := wo_labels_written x @ [lid l]\<rparr>) rs, ds) }"

definition link_intra :: "nat \<Rightarrow> nat \<Rightarrow> label \<Rightarrow> runnable list \<Rightarrow> label \<times> runnable list" where
  "link_intra w r l rs =
     (l\<lparr>writers := writers l @ [w], readers := readers l @ [r]\<rparr>,
      update_at r (\<lambda>x. x\<lparr>rw_intra_task_labels_read := rw_intra_task_labels_read x @ [lid l]\<rparr>)
        (update_at w (\<lambda>x. x\<lparr>rw_intra_task_labels_written := rw_intra_task_labels_written x @ [lid l]\<rparr>) rs))"

definition map_intra_task :: "task list \<Rightarrow> label \<Rightarrow> runnable list \<Rightarrow> nat list \<Rightarrow> (label \<times> runnable list \<times> nat list) option" where
  "map_intra_task ts l rs ds = do {
     (k, ds) \<leftarrow> draw_until (\<lambda>k. \<not> length (trunnables (ts ! k)) < 2) (length ts) ds;
     let t = trunnables (ts ! k);
     (a, ds) \<leftarrow> draw_index (length t) ds;
     (b, ds) \<leftarrow> draw_until (\<lambda>b. rid (rs ! (t ! a)) \<noteq> rid (rs ! (t ! b))) (length t) ds;
     let (r1, r2) = (if rid (rs ! (t ! b)) < rid (rs ! (t ! a)) then (t ! b, t ! a) else (t ! a, t ! b));
     let (l', rs') = (if lmtype l = kIntraTaskFwd then link_intra r1 r2 l rs else link_intra r2 r1 l rs);
     Some (l', rs', ds) }"

definition map_label :: "task list \<Rightarrow> label \<Rightarrow> runnable list \<Rightarrow> nat list \<Rightarrow> (label \<times> runnable list \<times> nat list) option" where
  "map_label ts l rs ds =
     (if ltype l = kReadOnly then map_read_only l rs ds
      else if ltype l = kWriteOnly then map_write_only l rs ds
      else if ltype l = kReadWrite \<and> (lmtype l = kIntraTaskFwd \<or> lmtype l = kIntraTaskBwd) then map_intra_task ts l rs ds
      else Some (l, rs, ds))"

text \<open>The loop \<^verbatim>\<open>for (Label* l : labels)\<close> of this function and of the next section.\<close>

fun map_labels :: "(label \<Rightarrow> runnable list \<Rightarrow> nat list \<Rightarrow> ('e \<times> runnable list \<times> nat list) option)
    \<Rightarrow> label list \<Rightarrow> runnable list \<Rightarrow> nat list \<Rightarrow> ('e list \<times> runnable list \<times> nat list) option" where
  "map_labels f [] rs ds = Some ([], rs, ds)"
| "map_labels f (l # ls) rs ds = do {
     (l', rs', ds') \<leftarrow> f l rs ds;
     (ls', rs'', ds'') \<leftarrow> map_labels f ls rs' ds';
     Some (l' # ls', rs'', ds'') }"

definition map_labels_to_runnables :: "nat list \<Rightarrow> benchmark_instance \<Rightarrow> benchmark_instance option" where
  "map_labels_to_runnables ds inst = do {
     (ls, rs, _) \<leftarrow> map_labels (map_label (tasks inst)) (labels inst) (runnables inst) ds;
     Some (inst\<lparr>labels := ls, runnables := rs\<rparr>) }"

section \<open>Inter-task messages\<close>

definition is_inter_task :: "label \<Rightarrow> bool" where
  "is_inter_task l \<longleftrightarrow> ltype l = kReadWrite \<and> lmtype l = kInterTask"

text \<open>The volume type of a draw: the first one whose range contains it.\<close>

fun pick_volume :: "int \<Rightarrow> (message_volume_type \<times> int range) list \<Rightarrow> message_volume_type option" where
  "pick_volume rand [] = None"
| "pick_volume rand ((v, rg) # m) = (if rand \<ge> rmin rg \<and> rand \<le> rmax rg then Some v else pick_volume rand m)"

fun assign_volumes :: "(message_volume_type \<times> int range) list \<Rightarrow> int \<Rightarrow> int \<Rightarrow> label list \<Rightarrow> int list \<Rightarrow> label list option" where
  "assign_volumes m lo hi [] ds = Some []"
| "assign_volumes m lo hi (l # ls) ds =
     (if \<not> is_inter_task l then do { ls' \<leftarrow> assign_volumes m lo hi ls ds; Some (l # ls') }
      else do {
        (rand, ds) \<leftarrow> draw_int lo hi ds;
        v \<leftarrow> pick_volume rand m;
        ls' \<leftarrow> assign_volumes m lo hi ls ds;
        Some (l\<lparr>lmvtype := v\<rparr> # ls') })"

text \<open>The pairs of sending and receiving period of each volume type. A failed \<^verbatim>\<open>assert\<close> is \<open>None\<close>.\<close>

definition add_pair :: "(int \<times> (int \<times> message_volume_type) list) list \<Rightarrow> int \<times> int
    \<Rightarrow> (message_volume_type \<times> int range list) list \<Rightarrow> (message_volume_type \<times> int range list) list option" where
  "add_pair d = (\<lambda>(p1, p2) rev_dist. do {
     row \<leftarrow> map_of d p1;
     v \<leftarrow> map_of row p2;
     Some (om_put (<) v (om_value [] rev_dist v @ [\<lparr>rmin = p1, rmax = p2\<rparr>]) rev_dist) })"

definition reverse_dist :: "(int \<times> (int \<times> message_volume_type) list) list \<Rightarrow> int list
    \<Rightarrow> (message_volume_type \<times> int range list) list option" where
  "reverse_dist d periods = fold_option (add_pair d) (List.product periods periods) []"

text \<open>The indices of the runnables of each period.\<close>

definition runnables_by_period :: "runnable list \<Rightarrow> (int \<times> nat list) list" where
  "runnables_by_period rs =
     fold (\<lambda>i m. om_put (<) (rperiod_ms (rs ! i)) (om_value [] m (rperiod_ms (rs ! i)) @ [i]) m) [0..<length rs] []"

definition link_inter :: "nat \<Rightarrow> nat \<Rightarrow> label \<Rightarrow> runnable list \<Rightarrow> label \<times> runnable list" where
  "link_inter w r l rs =
     (l\<lparr>writers := writers l @ [w], readers := readers l @ [r]\<rparr>,
      update_at r (\<lambda>x. x\<lparr>rw_inter_task_labels_read := rw_inter_task_labels_read x @ [lid l]\<rparr>)
        (update_at w (\<lambda>x. x\<lparr>rw_inter_task_labels_written := rw_inter_task_labels_written x @ [lid l]\<rparr>) rs))"

text \<open>A label that cannot be mapped is only marked; it stays as it is and is deleted later.\<close>

definition map_inter_task :: "(message_volume_type \<times> int range list) list \<Rightarrow> (int \<times> nat list) list
    \<Rightarrow> label \<Rightarrow> runnable list \<Rightarrow> nat list \<Rightarrow> ((label \<times> bool) \<times> runnable list \<times> nat list) option" where
  "map_inter_task rev_dist p_to_r l rs ds =
     (if \<not> is_inter_task l then Some ((l, False), rs, ds)
      else do {
        let pairs = om_value [] rev_dist (lmvtype l);
        (k, ds) \<leftarrow> draw_index (length pairs) ds;
        let p1 = rmin (pairs ! k);
        let p2 = rmax (pairs ! k);
        if map_of p_to_r p1 = None \<or> map_of p_to_r p2 = None then Some ((l, True), rs, ds)
        else if p1 = p2 \<and> length (om_value [] p_to_r p1) < 2 then Some ((l, True), rs, ds)
        else do {
          let s1 = om_value [] p_to_r p1;
          let s2 = om_value [] p_to_r p2;
          (a, ds) \<leftarrow> draw_index (length s1) ds;
          (b, ds) \<leftarrow> draw_until (\<lambda>b. rid (rs ! (s1 ! a)) \<noteq> rid (rs ! (s2 ! b))) (length s2) ds;
          let (l', rs') = link_inter (s1 ! a) (s2 ! b) l rs;
          Some ((l', False), rs', ds) } })"

definition map_inter_task_msgs_to_runnables :: "int list \<Rightarrow> nat list \<Rightarrow> benchmark_instance \<Rightarrow> benchmark_instance option" where
  "map_inter_task_msgs_to_runnables vs ds inst = do {
     let c = cfg inst;
     let it = inter_task_msgs_cfg (msgs_cfg c);
     let (rg1, m1) = om_at (<) range_zero kI (volume_types it);
     let (rg6, m2) = om_at (<) range_zero kVI m1;
     ls \<leftarrow> assign_volumes m2 (rmin rg1) (rmax rg6) (labels inst) vs;
     rev_dist \<leftarrow> reverse_dist (dist it) (periods_ms c);
     (es, rs, _) \<leftarrow> map_labels (map_inter_task rev_dist (runnables_by_period (runnables inst))) ls (runnables inst) ds;
     let deleted = map (lid \<circ> fst) (filter snd es);
     Some (inst\<lparr>cfg := c\<lparr>msgs_cfg := (msgs_cfg c)\<lparr>inter_task_msgs_cfg := it\<lparr>volume_types := m2\<rparr>\<rparr>\<rparr>,
       runnables := rs, labels := filter (\<lambda>l. lid l \<notin> set deleted) (map fst es)\<rparr>) }"

section \<open>The constructor\<close>

text \<open>The draws of the functions it calls, each from a generator of its own, and the indeterminate message type.\<close>

record draws =
  runnable_counts :: "int list"
  time_draws :: "rat list"
  label_counts :: "int list"
  label_draws :: "rat list"
  first_mtype :: message_type
  map_draws :: "nat list"
  volume_draws :: "int list"
  inter_draws :: "nat list"

definition benchmark_instance_new :: "boost_api \<Rightarrow> draws \<Rightarrow> kzh15_config \<Rightarrow> bool \<Rightarrow> benchmark_instance option" where
  "benchmark_instance_new api ds c merge = do {
     let inst = \<lparr>cfg = c, merge_runnables = merge, runnables = [], tasks = [], labels = []\<rparr>;
     num_runnables \<leftarrow> estimate_total_number_of_runnables (runnable_counts ds) inst;
     inst \<leftarrow> generate_runnable_instances num_runnables inst;
     inst \<leftarrow> generate_runnable_acets_bcets_and_wcets api (time_draws ds) inst;
     let inst = generate_task_instances_from_runnables inst;
     num_labels \<leftarrow> estimate_total_number_of_labels (label_counts ds) inst;
     inst \<leftarrow> generate_label_instances num_labels (first_mtype ds) (label_draws ds) inst;
     inst \<leftarrow> map_labels_to_runnables (map_draws ds) inst;
     map_inter_task_msgs_to_runnables (volume_draws ds) (inter_draws ds) inst }"

section \<open>Sizes and types of the generated labels\<close>

lemma pick_share_mem: "pick_share r c m = Some k \<Longrightarrow> k \<in> fst ` set m"
  by (induction r c m rule: pick_share.induct) (auto split: if_splits)

lemma pick_share_enough: "r < c + (\<Sum>(k, s) \<leftarrow> m. s) \<Longrightarrow> m \<noteq> [] \<Longrightarrow> pick_share r c m \<noteq> None"
proof (induction r c m rule: pick_share.induct)
  case (2 r c k s m)
  then show ?case by (cases m) (auto simp: add.assoc)
qed simp

text \<open>A larger draw gives a later entry.\<close>

lemma pick_share_mono:
  assumes "pick_share r c m = Some k" "pick_share r' c m = Some k'" "r \<le> r'" "sorted_wrt le (map fst m)"
    and "\<And>x. le x x"
  shows "le k k'"
  using assms
proof (induction r c m rule: pick_share.induct)
  case (2 r c k1 s m)
  show ?case
  proof (cases "r < c + s")
    case True
    have "k' = k1 \<or> k' \<in> fst ` set m" using 2(3) pick_share_mem [of r' "c + s" m k'] by (auto split: if_splits)
    then show ?thesis using True 2(2,5,6) by (auto split: if_splits)
  next
    case False
    then show ?thesis using 2 by (auto split: if_splits)
  qed
qed simp

definition label_drawn :: "labels_config \<Rightarrow> label \<Rightarrow> bool" where
  "label_drawn lc l \<longleftrightarrow> (\<exists>rand sz. pick_share rand 0 (size_shares lc) = Some sz \<and> size_bytes l = rmax sz \<and>
     pick_share rand 0 (label_partition lc) = Some (ltype l))"

lemma generate_labels_drawn:
  assumes "generate_labels lc mc is mt ds = Some ls"
  shows "map lid ls = is \<and> (\<forall>l \<in> set ls. label_drawn lc l \<and> readers l = [] \<and> writers l = [])"
  using assms
proof (induction "is" arbitrary: mt ds ls)
  case (Cons i js)
  obtain rand ds1 sz tp mt2 ds2 ls2 where g: "pick_share rand 0 (size_shares lc) = Some sz"
    "pick_share rand 0 (label_partition lc) = Some tp" "generate_labels lc mc js mt2 ds2 = Some ls2"
    "ls = label_new i (rmax sz) tp mt2 # ls2"
    using Cons.prems by (auto split: bind_splits)
  then show ?case using Cons.IH [OF g(3)] by (auto simp: label_new_def label_drawn_def)
qed simp

lemma drawn_types_sizes:
  assumes "label_drawn lc l" "label_drawn lc l'" "om_sorted (<) (label_partition lc)" "ltype l < ltype l'"
    and "sorted (map (rmax \<circ> fst) (size_shares lc))"
  shows "size_bytes l \<le> size_bytes l'"
proof -
  obtain r sz r' sz' where d: "pick_share r 0 (size_shares lc) = Some sz" "size_bytes l = rmax sz"
    "pick_share r 0 (label_partition lc) = Some (ltype l)"
    "pick_share r' 0 (size_shares lc) = Some sz'" "size_bytes l' = rmax sz'"
    "pick_share r' 0 (label_partition lc) = Some (ltype l')"
    using assms(1,2) by (auto simp: label_drawn_def)
  have "sorted_wrt (\<le>) (map fst (label_partition lc))"
    using assms(3) unfolding om_sorted_def by (rule sorted_wrt_mono_rel [rotated]) simp
  then have "r \<le> r'"
    using pick_share_mono [OF d(6,3), of "(\<le>)"] assms(4) by (meson leD linear order_refl)
  moreover have "sorted_wrt (\<lambda>a b. rmax a \<le> rmax b) (map fst (size_shares lc))"
    using assms(5) by (simp add: sorted_wrt_map comp_def)
  ultimately show ?thesis using pick_share_mono [OF d(1,4), of "\<lambda>a b. rmax a \<le> rmax b"] d(2,5) by simp
qed


section \<open>Which runnables access a label\<close>

definition label_kind :: "label \<Rightarrow> label_type \<times> bool" where
  "label_kind l = (ltype l, is_inter_task l)"

definition reads :: "label list \<Rightarrow> label_type \<times> bool \<Rightarrow> nat \<Rightarrow> nat list" where
  "reads ls k i = map lid (filter (\<lambda>l. label_kind l = k \<and> i \<in> set (readers l)) ls)"

definition writes :: "label list \<Rightarrow> label_type \<times> bool \<Rightarrow> nat \<Rightarrow> nat list" where
  "writes ls k i = map lid (filter (\<lambda>l. label_kind l = k \<and> i \<in> set (writers l)) ls)"

text \<open>The six lists of a runnable are exactly the labels that name it, in the order of the labels.\<close>

definition access_lists :: "label list \<Rightarrow> runnable list \<Rightarrow> bool" where
  "access_lists ls rs \<longleftrightarrow> (\<forall>i < length rs.
     ro_labels_read (rs ! i) = reads ls (kReadOnly, False) i \<and>
     wo_labels_written (rs ! i) = writes ls (kWriteOnly, False) i \<and>
     rw_intra_task_labels_read (rs ! i) = reads ls (kReadWrite, False) i \<and>
     rw_intra_task_labels_written (rs ! i) = writes ls (kReadWrite, False) i \<and>
     rw_inter_task_labels_read (rs ! i) = reads ls (kReadWrite, True) i \<and>
     rw_inter_task_labels_written (rs ! i) = writes ls (kReadWrite, True) i)"

definition unmapped :: "label \<Rightarrow> bool" where
  "unmapped l \<longleftrightarrow> readers l = [] \<and> writers l = []"

text \<open>Which runnables access a mapped label, by its type.\<close>

definition mapped :: "(int \<times> (int \<times> message_volume_type) list) list \<Rightarrow> task list \<Rightarrow> runnable list \<Rightarrow> label \<Rightarrow> bool" where
  "mapped d ts rs l \<longleftrightarrow>
     (case (ltype l, writers l, readers l) of
        (kReadOnly, [], [r]) \<Rightarrow> r < length rs
      | (kWriteOnly, [w], []) \<Rightarrow> w < length rs
      | (kReadWrite, [w], [r]) \<Rightarrow> w < length rs \<and> r < length rs \<and>
         (case lmtype l of
            kIntraTaskFwd \<Rightarrow> w < r \<and> (\<exists>t \<in> set ts. {w, r} \<subseteq> set (trunnables t))
          | kIntraTaskBwd \<Rightarrow> r < w \<and> (\<exists>t \<in> set ts. {w, r} \<subseteq> set (trunnables t))
          | kInterTask \<Rightarrow> w \<noteq> r \<and> Option.bind (map_of d (rperiod_ms (rs ! w))) (\<lambda>row. map_of row (rperiod_ms (rs ! r)))
              = Some (lmvtype l))
      | _ \<Rightarrow> False)"

text \<open>The runnables keep all but their lists.\<close>

definition fixed_part :: "runnable \<Rightarrow> nat \<times> int \<times> rat \<times> rat \<times> rat" where
  "fixed_part r = (rid r, rperiod_ms r, racet_us r, rbcet_us r, rwcet_us r)"

definition same_shape :: "runnable list \<Rightarrow> runnable list \<Rightarrow> bool" where
  "same_shape rs rs' \<longleftrightarrow> map fixed_part rs' = map fixed_part rs"

lemma same_shape_nth:
  assumes "same_shape rs rs'"
  shows "length rs' = length rs"
    and "i < length rs \<Longrightarrow> rid (rs' ! i) = rid (rs ! i) \<and> rperiod_ms (rs' ! i) = rperiod_ms (rs ! i) \<and>
      fixed_part (rs' ! i) = fixed_part (rs ! i)"
proof -
  show l: "length rs' = length rs" using assms by (metis same_shape_def length_map)
  assume "i < length rs"
  then have "fixed_part (rs' ! i) = fixed_part (rs ! i)"
    using assms l nth_map [of i rs' fixed_part] nth_map [of i rs fixed_part] by (simp add: same_shape_def)
  then show "rid (rs' ! i) = rid (rs ! i) \<and> rperiod_ms (rs' ! i) = rperiod_ms (rs ! i) \<and> fixed_part (rs' ! i) = fixed_part (rs ! i)"
    by (simp add: fixed_part_def)
qed

lemma same_shape_trans: "same_shape a b \<Longrightarrow> same_shape b c \<Longrightarrow> same_shape a c"
  by (simp add: same_shape_def)

lemma mapped_shape:
  assumes "same_shape rs rs'"
  shows "mapped d ts rs' l = mapped d ts rs l"
  using same_shape_nth [OF assms]
  by (simp add: mapped_def split: label_type.split message_type.split list.split) auto

lemma length_update_at [simp]: "length (update_at i f xs) = length xs"
  by (simp add: update_at_def)

lemma nth_update_at: "j < length xs \<Longrightarrow> update_at i f xs ! j = (if j = i then f (xs ! j) else xs ! j)"
  by (simp add: update_at_def nth_list_update)

text \<open>What one step may do with a label and the runnables: leave both alone, or add to each
  runnable's list of this kind the label if the label now names that runnable.\<close>

definition linked :: "label \<Rightarrow> label \<Rightarrow> runnable list \<Rightarrow> runnable list \<Rightarrow> bool" where
  "linked l l' rs rs' \<longleftrightarrow> lid l' = lid l \<and> label_kind l' = label_kind l \<and> same_shape rs rs' \<and>
     (\<forall>i < length rs. let rd = (\<lambda>k. if label_kind l = k \<and> i \<in> set (readers l') then [lid l] else []);
         wr = (\<lambda>k. if label_kind l = k \<and> i \<in> set (writers l') then [lid l] else []) in
       ro_labels_read (rs' ! i) = ro_labels_read (rs ! i) @ rd (kReadOnly, False) \<and>
       wo_labels_written (rs' ! i) = wo_labels_written (rs ! i) @ wr (kWriteOnly, False) \<and>
       rw_intra_task_labels_read (rs' ! i) = rw_intra_task_labels_read (rs ! i) @ rd (kReadWrite, False) \<and>
       rw_intra_task_labels_written (rs' ! i) = rw_intra_task_labels_written (rs ! i) @ wr (kReadWrite, False) \<and>
       rw_inter_task_labels_read (rs' ! i) = rw_inter_task_labels_read (rs ! i) @ rd (kReadWrite, True) \<and>
       rw_inter_task_labels_written (rs' ! i) = rw_inter_task_labels_written (rs ! i) @ wr (kReadWrite, True))"

lemma unmapped_none [simp]:
  assumes "unmapped l"
  shows "i \<notin> set (readers l)" "i \<notin> set (writers l)"
  using assms by (simp_all add: unmapped_def)

lemma reads_step:
  assumes "unmapped l" "\<forall>y \<in> set ys. label_kind y = label_kind l \<longrightarrow> unmapped y" "label_kind l' = label_kind l" "lid l' = lid l"
  shows "reads (xs @ l' # ys) k i = reads (xs @ l # ys) k i @ (if label_kind l = k \<and> i \<in> set (readers l') then [lid l] else [])"
    and "writes (xs @ l' # ys) k i = writes (xs @ l # ys) k i @ (if label_kind l = k \<and> i \<in> set (writers l') then [lid l] else [])"
proof -
  have "filter (\<lambda>y. label_kind y = k \<and> i \<in> set (readers y)) ys = []"
    "filter (\<lambda>y. label_kind y = k \<and> i \<in> set (writers y)) ys = []" if "label_kind l = k"
    using assms(2) that by (auto simp: filter_empty_conv)
  then show "reads (xs @ l' # ys) k i = reads (xs @ l # ys) k i @ (if label_kind l = k \<and> i \<in> set (readers l') then [lid l] else [])"
    "writes (xs @ l' # ys) k i = writes (xs @ l # ys) k i @ (if label_kind l = k \<and> i \<in> set (writers l') then [lid l] else [])"
    using assms(1,3,4) by (auto simp: reads_def writes_def)
qed

lemma access_step:
  assumes "access_lists (xs @ l # ys) rs" "linked l l' rs rs'" "unmapped l"
    and "\<forall>y \<in> set ys. label_kind y = label_kind l \<longrightarrow> unmapped y"
  shows "access_lists (xs @ l' # ys) rs'"
proof -
  have l': "label_kind l' = label_kind l" "lid l' = lid l" and shape: "same_shape rs rs'" using assms(2) by (simp_all add: linked_def)
  note r = reads_step [OF assms(3,4) l', of xs]
  show ?thesis unfolding access_lists_def r
  proof (intro allI impI)
    fix i assume "i < length rs'"
    then have i: "i < length rs" using same_shape_nth(1) [OF shape] by simp
    note a = assms(1) [unfolded access_lists_def, rule_format, OF i]
    note b = assms(2) [unfolded linked_def Let_def, THEN conjunct2, THEN conjunct2, THEN conjunct2, rule_format, OF i]
    show "ro_labels_read (rs' ! i) = reads (xs @ l # ys) (kReadOnly, False) i @
        (if label_kind l = (kReadOnly, False) \<and> i \<in> set (readers l') then [lid l] else []) \<and>
      wo_labels_written (rs' ! i) = writes (xs @ l # ys) (kWriteOnly, False) i @
        (if label_kind l = (kWriteOnly, False) \<and> i \<in> set (writers l') then [lid l] else []) \<and>
      rw_intra_task_labels_read (rs' ! i) = reads (xs @ l # ys) (kReadWrite, False) i @
        (if label_kind l = (kReadWrite, False) \<and> i \<in> set (readers l') then [lid l] else []) \<and>
      rw_intra_task_labels_written (rs' ! i) = writes (xs @ l # ys) (kReadWrite, False) i @
        (if label_kind l = (kReadWrite, False) \<and> i \<in> set (writers l') then [lid l] else []) \<and>
      rw_inter_task_labels_read (rs' ! i) = reads (xs @ l # ys) (kReadWrite, True) i @
        (if label_kind l = (kReadWrite, True) \<and> i \<in> set (readers l') then [lid l] else []) \<and>
      rw_inter_task_labels_written (rs' ! i) = writes (xs @ l # ys) (kReadWrite, True) i @
        (if label_kind l = (kReadWrite, True) \<and> i \<in> set (writers l') then [lid l] else [])"
      using a b by metis
  qed
qed


section \<open>The steps link labels and runnables\<close>

lemma same_shapeI:
  assumes "length rs' = length rs" "\<And>i. i < length rs \<Longrightarrow> fixed_part (rs' ! i) = fixed_part (rs ! i)"
  shows "same_shape rs rs'"
  using assms by (auto simp: same_shape_def intro!: nth_equalityI)

lemma linked_refl: "unmapped l \<Longrightarrow> linked l l rs rs"
  by (simp add: linked_def same_shape_def Let_def)

lemma linked_read_only:
  assumes "unmapped l" "label_kind l = (kReadOnly, False)"
  shows "linked l (l\<lparr>readers := readers l @ [r]\<rparr>) rs (update_at r (\<lambda>x. x\<lparr>ro_labels_read := ro_labels_read x @ [lid l]\<rparr>) rs)"
  using assms
  by (auto simp: linked_def label_kind_def is_inter_task_def unmapped_def fixed_part_def nth_update_at Let_def intro!: same_shapeI)

lemma linked_write_only:
  assumes "unmapped l" "label_kind l = (kWriteOnly, False)"
  shows "linked l (l\<lparr>writers := writers l @ [r]\<rparr>) rs (update_at r (\<lambda>x. x\<lparr>wo_labels_written := wo_labels_written x @ [lid l]\<rparr>) rs)"
  using assms
  by (auto simp: linked_def label_kind_def is_inter_task_def unmapped_def fixed_part_def nth_update_at Let_def intro!: same_shapeI)

lemma linked_intra:
  assumes "unmapped l" "label_kind l = (kReadWrite, False)" "link_intra w r l rs = (l', rs')"
  shows "linked l l' rs rs'"
  using assms
  by (auto simp: linked_def link_intra_def label_kind_def is_inter_task_def unmapped_def fixed_part_def nth_update_at Let_def intro!: same_shapeI)

lemma linked_inter:
  assumes "unmapped l" "label_kind l = (kReadWrite, True)" "link_inter w r l rs = (l', rs')"
  shows "linked l l' rs rs'"
  using assms
  by (auto simp: linked_def link_inter_def label_kind_def is_inter_task_def unmapped_def fixed_part_def nth_update_at Let_def intro!: same_shapeI)

lemma draw_until_some: "draw_until c n ds = Some (d, ds') \<Longrightarrow> d < n \<and> c d"
  by (induction c n ds rule: draw_until.induct) (auto split: if_splits)

lemma draw_index_some: "draw_index n ds = Some (d, ds') \<Longrightarrow> d < n"
  unfolding draw_index_def by (drule draw_until_some) simp

definition tasks_in :: "task list \<Rightarrow> runnable list \<Rightarrow> bool" where
  "tasks_in ts rs \<longleftrightarrow> map rid rs = [0..<length rs] \<and> (\<forall>t \<in> set ts. \<forall>i \<in> set (trunnables t). i < length rs)"

lemma rid_index: "tasks_in ts rs \<Longrightarrow> i < length rs \<Longrightarrow> rid (rs ! i) = i"
  using nth_map [of i rs rid] by (simp add: tasks_in_def)

lemma tasks_in_shape: "same_shape rs rs' \<Longrightarrow> tasks_in ts rs \<Longrightarrow> tasks_in ts rs'"
proof -
  assume s: "same_shape rs rs'" and t: "tasks_in ts rs"
  have "map rid rs' = map rid rs" using same_shape_nth [OF s] by (auto intro!: nth_equalityI)
  then show ?thesis using t same_shape_nth(1) [OF s] by (simp add: tasks_in_def)
qed

lemma label_kind_simps:
  "label_kind l = (kReadOnly, False) \<longleftrightarrow> ltype l = kReadOnly"
  "label_kind l = (kWriteOnly, False) \<longleftrightarrow> ltype l = kWriteOnly"
  "label_kind l = (kReadWrite, True) \<longleftrightarrow> is_inter_task l"
  by (auto simp: label_kind_def is_inter_task_def)

lemma map_intra_ok:
  assumes m: "map_intra_task ts l rs ds = Some (l', rs', ds')" and ok: "tasks_in ts rs"
    and l: "unmapped l" "ltype l = kReadWrite" "lmtype l = kIntraTaskFwd \<or> lmtype l = kIntraTaskBwd"
  shows "linked l l' rs rs' \<and> mapped d ts rs' l'"
proof -
  obtain k ds1 a ds2 b ds3 where k: "draw_until (\<lambda>k. \<not> length (trunnables (ts ! k)) < 2) (length ts) ds = Some (k, ds1)"
    and a: "draw_index (length (trunnables (ts ! k))) ds1 = Some (a, ds2)"
    and b: "draw_until (\<lambda>b. rid (rs ! (trunnables (ts ! k) ! a)) \<noteq> rid (rs ! (trunnables (ts ! k) ! b)))
        (length (trunnables (ts ! k))) ds2 = Some (b, ds3)"
    and res: "(let t = trunnables (ts ! k);
        (r1, r2) = (if rid (rs ! (t ! b)) < rid (rs ! (t ! a)) then (t ! b, t ! a) else (t ! a, t ! b))
      in if lmtype l = kIntraTaskFwd then link_intra r1 r2 l rs else link_intra r2 r1 l rs) = (l', rs')"
    using m by (auto simp: map_intra_task_def Let_def split: bind_splits prod.splits if_splits)
  let ?x = "trunnables (ts ! k) ! a" and ?y = "trunnables (ts ! k) ! b"
  have t: "ts ! k \<in> set ts" using draw_until_some [OF k] by simp
  have mem: "?x \<in> set (trunnables (ts ! k))" "?y \<in> set (trunnables (ts ! k))"
    using draw_index_some [OF a] draw_until_some [OF b] by simp_all
  then have lt: "?x < length rs" "?y < length rs" using ok t by (auto simp: tasks_in_def)
  then have ne: "?x \<noteq> ?y" and ids: "rid (rs ! ?x) = ?x" "rid (rs ! ?y) = ?y"
    using draw_until_some [OF b] rid_index [OF ok] by auto
  define u v where "u = min ?x ?y" and "v = max ?x ?y"
  have uv: "u < v" "u < length rs" "v < length rs" "\<exists>t \<in> set ts. u \<in> set (trunnables t) \<and> v \<in> set (trunnables t)"
    using ne lt mem t by (auto simp: u_def v_def min_def max_def)
  have link: "(if lmtype l = kIntraTaskFwd then link_intra u v l rs else link_intra v u l rs) = (l', rs')"
    using res ne by (auto simp: Let_def ids u_def v_def min_def max_def split: if_splits)
  have kind: "label_kind l = (kReadWrite, False)" using l by (auto simp: label_kind_def is_inter_task_def)
  have linked: "linked l l' rs rs'" using link linked_intra [OF l(1) kind] by (auto split: if_splits)
  have "mapped d ts rs' l'"
    using link l uv by (auto simp: mapped_def link_intra_def unmapped_def split: if_splits)
  then show ?thesis using linked by blast
qed

lemma map_label_ok:
  assumes m: "map_label ts l rs ds = Some (l', rs', ds')" and ok: "tasks_in ts rs" and l: "unmapped l"
  shows "linked l l' rs rs' \<and> (if is_inter_task l then l' = l \<and> rs' = rs else mapped d ts rs' l')"
proof (cases "ltype l")
  case kReadOnly
  then obtain r ds1 where "draw_index (length rs) ds = Some (r, ds1)" "l' = l\<lparr>readers := readers l @ [r]\<rparr>"
    "rs' = update_at r (\<lambda>x. x\<lparr>ro_labels_read := ro_labels_read x @ [lid l]\<rparr>) rs"
    using m by (auto simp: map_label_def map_read_only_def split: bind_splits)
  then show ?thesis using kReadOnly l linked_read_only [OF l] draw_index_some
    by (auto simp: label_kind_simps mapped_def unmapped_def is_inter_task_def)
next
  case kWriteOnly
  then obtain r ds1 where "draw_index (length rs) ds = Some (r, ds1)" "l' = l\<lparr>writers := writers l @ [r]\<rparr>"
    "rs' = update_at r (\<lambda>x. x\<lparr>wo_labels_written := wo_labels_written x @ [lid l]\<rparr>) rs"
    using m by (auto simp: map_label_def map_write_only_def split: bind_splits)
  then show ?thesis using kWriteOnly l linked_write_only [OF l] draw_index_some
    by (auto simp: label_kind_simps mapped_def unmapped_def is_inter_task_def)
next
  case kReadWrite
  show ?thesis
  proof (cases "lmtype l = kInterTask")
    case True
    then show ?thesis using kReadWrite m l by (auto simp: map_label_def is_inter_task_def linked_refl)
  next
    case False
    then have "lmtype l = kIntraTaskFwd \<or> lmtype l = kIntraTaskBwd" by (cases "lmtype l") auto
    then show ?thesis using kReadWrite False m l map_intra_ok [OF _ ok l kReadWrite]
      by (auto simp: map_label_def is_inter_task_def)
  qed
qed


section \<open>The two passes over the labels\<close>

lemma map_labels_access:
  assumes "map_labels f ls rs ds = Some (es, rs', ds')" "access_lists (xs @ ls) rs" "same_shape rs0 rs"
    and step: "\<And>l rs ds e rs1 ds1. l \<in> set ls \<Longrightarrow> same_shape rs0 rs \<Longrightarrow> f l rs ds = Some (e, rs1, ds1) \<Longrightarrow>
      same_shape rs rs1 \<and> R l e \<and> (pr e = l \<and> rs1 = rs \<or> label_kind l \<in> K \<and> linked l (pr e) rs rs1)"
    and K: "\<And>y. y \<in> set ls \<Longrightarrow> label_kind y \<in> K \<Longrightarrow> unmapped y"
  shows "access_lists (xs @ map pr es) rs' \<and> same_shape rs0 rs' \<and> list_all2 R ls es"
  using assms
proof (induction ls arbitrary: rs ds es xs)
  case (Cons l ls)
  obtain e rs1 ds1 es1 where 1: "f l rs ds = Some (e, rs1, ds1)" "map_labels f ls rs1 ds1 = Some (es1, rs', ds')" "es = e # es1"
    using Cons.prems(1) by (auto split: bind_splits)
  note s = Cons.prems(4) [OF _ Cons.prems(3) 1(1)]
  have "access_lists (xs @ pr e # ls) rs1"
  proof (cases "label_kind l \<in> K \<and> linked l (pr e) rs rs1")
    case True
    then show ?thesis using access_step [OF Cons.prems(2)] Cons.prems(5) by auto
  next
    case False
    then show ?thesis using s Cons.prems(2) by auto
  qed
  then have acc: "access_lists ((xs @ [pr e]) @ ls) rs1" by simp
  have shape: "same_shape rs0 rs1" using s same_shape_trans [OF Cons.prems(3)] by simp
  have "access_lists ((xs @ [pr e]) @ map pr es1) rs' \<and> same_shape rs0 rs' \<and> list_all2 R ls es1"
  proof (rule Cons.IH [OF 1(2) acc shape])
    fix k rs2 ds2 e2 rs3 ds3
    assume "k \<in> set ls" "same_shape rs0 rs2" "f k rs2 ds2 = Some (e2, rs3, ds3)"
    then show "same_shape rs2 rs3 \<and> R k e2 \<and> (pr e2 = k \<and> rs3 = rs2 \<or> label_kind k \<in> K \<and> linked k (pr e2) rs2 rs3)"
      by (intro Cons.prems(4)) simp_all
  next
    fix y
    assume "y \<in> set ls" "label_kind y \<in> K"
    then show "unmapped y" by (intro Cons.prems(5)) simp_all
  qed
  then show ?case using s by (simp add: 1(3))
qed simp

definition pass1 :: "(int \<times> (int \<times> message_volume_type) list) list \<Rightarrow> task list \<Rightarrow> runnable list \<Rightarrow> label \<Rightarrow> label \<Rightarrow> bool" where
  "pass1 d ts rs l l' \<longleftrightarrow> lid l' = lid l \<and> label_kind l' = label_kind l \<and> (if is_inter_task l then l' = l else mapped d ts rs l')"

lemma first_pass:
  assumes "map_labels (map_label ts) ls rs ds = Some (ls', rs', ds')" "\<forall>l \<in> set ls. unmapped l" "access_lists ls rs" "tasks_in ts rs"
  shows "access_lists ls' rs' \<and> same_shape rs rs' \<and> list_all2 (pass1 d ts rs) ls ls'"
proof -
  have step: "same_shape rs2 rs1 \<and> pass1 d ts rs l l1 \<and> (l1 = l \<and> rs1 = rs2 \<or> label_kind l \<in> UNIV \<and> linked l l1 rs2 rs1)"
    if "l \<in> set ls" "same_shape rs rs2" "map_label ts l rs2 ds2 = Some (l1, rs1, ds1)" for l rs2 ds2 l1 rs1 ds1
  proof -
    note ok = map_label_ok [OF that(3) tasks_in_shape [OF that(2) assms(4)] assms(2) [rule_format, OF that(1)], of d]
    then have s: "same_shape rs2 rs1" by (simp add: linked_def)
    show ?thesis using ok s mapped_shape [OF same_shape_trans [OF that(2) s], of d ts l1]
      by (auto simp: pass1_def linked_def)
  qed
  show ?thesis
    using map_labels_access [where f = "map_label ts" and pr = "\<lambda>l. l" and xs = "[]" and K = UNIV, OF assms(1) _ _ step] assms(2,3)
    by (simp add: same_shape_def)
qed

lemma assign_volumes_spec:
  assumes "assign_volumes m lo hi ls vs = Some ls'"
  shows "list_all2 (\<lambda>l l'. l' = l\<lparr>lmvtype := lmvtype l'\<rparr> \<and> (\<not> is_inter_task l \<longrightarrow> l' = l)) ls ls'"
  using assms by (induction m lo hi ls vs arbitrary: ls' rule: assign_volumes.induct) (auto split: bind_splits if_splits)

lemma reverse_dist_spec:
  assumes "reverse_dist d ps = Some rv"
  shows "\<forall>v. \<forall>rg \<in> set (om_value [] rv v). Option.bind (map_of d (rmin rg)) (\<lambda>row. map_of row (rmax rg)) = Some v"
  using assms unfolding reverse_dist_def
proof (rule fold_option_inv)
  show "\<forall>v. \<forall>rg \<in> set (om_value [] [] v). Option.bind (map_of d (rmin rg)) (\<lambda>row. map_of row (rmax rg)) = Some v"
    by (simp add: om_value_def)
next
  fix x a b
  assume "add_pair d x a = Some b"
    and a: "\<forall>v. \<forall>rg \<in> set (om_value [] a v). Option.bind (map_of d (rmin rg)) (\<lambda>row. map_of row (rmax rg)) = Some v"
  then obtain p1 p2 row w where x: "map_of d p1 = Some row" "map_of row p2 = Some w"
    "b = om_put (<) w (om_value [] a w @ [\<lparr>rmin = p1, rmax = p2\<rparr>]) a"
    by (auto simp: add_pair_def split: bind_splits prod.splits)
  have "om_value [] b v = (if v = w then om_value [] a w @ [\<lparr>rmin = p1, rmax = p2\<rparr>] else om_value [] a v)" for v
    by (simp add: x(3) om_value_def volume_type_order.map_of_put)
  then show "\<forall>v. \<forall>rg \<in> set (om_value [] b v). Option.bind (map_of d (rmin rg)) (\<lambda>row. map_of row (rmax rg)) = Some v"
    using a x(1,2) by auto
qed

lemma runnables_by_period_spec: "\<forall>p. \<forall>i \<in> set (om_value [] (runnables_by_period rs) p). i < length rs \<and> rperiod_ms (rs ! i) = p"
  unfolding runnables_by_period_def
  by (rule fold_invariant [where Q = "\<lambda>i. i < length rs"]) (auto simp: om_value_put om_value_def [of "[]" "[]"] split: if_splits)

definition pass2 :: "(int \<times> (int \<times> message_volume_type) list) list \<Rightarrow> task list \<Rightarrow> runnable list \<Rightarrow> label \<Rightarrow> label \<times> bool \<Rightarrow> bool" where
  "pass2 d ts rs l e \<longleftrightarrow> lid (fst e) = lid l \<and> label_kind (fst e) = label_kind l \<and>
     (if is_inter_task l then (if snd e then fst e = l else mapped d ts rs (fst e)) else e = (l, False))"

lemma map_inter_task_ok:
  assumes m: "map_inter_task rv (runnables_by_period rs0) l rs ds = Some (e, rs', ds')" and ok: "tasks_in ts rs"
    and shape: "same_shape rs0 rs" and l: "is_inter_task l \<Longrightarrow> unmapped l" and rv: "reverse_dist d ps = Some rv"
  shows "pass2 d ts rs l e \<and> (fst e = l \<and> rs' = rs \<or> is_inter_task l \<and> linked l (fst e) rs rs')"
proof (cases "is_inter_task l \<and> \<not> snd e")
  case False
  then show ?thesis using m by (auto simp: map_inter_task_def pass2_def Let_def split: if_splits bind_splits prod.splits)
next
  case True
  let ?pr = "om_value [] rv (lmvtype l)" and ?by = "om_value [] (runnables_by_period rs0)"
  obtain k ds1 a ds2 b ds3 where k: "draw_index (length ?pr) ds = Some (k, ds1)"
    and a: "draw_index (length (?by (rmin (?pr ! k)))) ds1 = Some (a, ds2)"
    and b: "draw_until (\<lambda>b. rid (rs ! (?by (rmin (?pr ! k)) ! a)) \<noteq> rid (rs ! (?by (rmax (?pr ! k)) ! b)))
        (length (?by (rmax (?pr ! k)))) ds2 = Some (b, ds3)"
    and link: "link_inter (?by (rmin (?pr ! k)) ! a) (?by (rmax (?pr ! k)) ! b) l rs = (fst e, rs')"
    using m True by (auto simp: map_inter_task_def Let_def split: if_splits bind_splits prod.splits)
  let ?w = "?by (rmin (?pr ! k)) ! a" and ?r = "?by (rmax (?pr ! k)) ! b"
  have by_nth: "?by p ! i < length rs0 \<and> rperiod_ms (rs0 ! (?by p ! i)) = p" if "i < length (?by p)" for p i
    using runnables_by_period_spec [of rs0] nth_mem [OF that] by blast
  have w: "?w < length rs0" "rperiod_ms (rs0 ! ?w) = rmin (?pr ! k)" and r: "?r < length rs0" "rperiod_ms (rs0 ! ?r) = rmax (?pr ! k)"
    using by_nth draw_index_some [OF a] draw_until_some [OF b] by blast+
  have lt: "?w < length rs" "?r < length rs" using w r same_shape_nth(1) [OF shape] by simp_all
  have ne: "?w \<noteq> ?r" using draw_until_some [OF b] by auto
  have "Option.bind (map_of d (rmin (?pr ! k))) (\<lambda>row. map_of row (rmax (?pr ! k))) = Some (lmvtype l)"
    using reverse_dist_spec [OF rv] draw_index_some [OF k] by simp
  then have v: "Option.bind (map_of d (rperiod_ms (rs ! ?w))) (\<lambda>row. map_of row (rperiod_ms (rs ! ?r))) = Some (lmvtype l)"
    using w r same_shape_nth(2) [OF shape] by simp
  have u: "unmapped l" and t: "ltype l = kReadWrite" "lmtype l = kInterTask" using l True by (auto simp: is_inter_task_def)
  have "linked l (fst e) rs rs'"
    using linked_inter [OF u _ link] True by (simp add: label_kind_simps)
  moreover have "fst e = l\<lparr>writers := writers l @ [?w], readers := readers l @ [?r]\<rparr>"
    using link by (simp add: link_inter_def)
  then have "mapped d ts rs (fst e)" using lt ne v t u by (simp add: mapped_def unmapped_def)
  ultimately show ?thesis using True by (auto simp: pass2_def linked_def)
qed


lemma second_pass:
  assumes m: "map_labels (map_inter_task rv (runnables_by_period rs)) ls rs ds = Some (es, rs', ds')" and acc: "access_lists ls rs"
    and ok: "tasks_in ts rs" and unm: "\<And>l. l \<in> set ls \<Longrightarrow> is_inter_task l \<Longrightarrow> unmapped l" and rv: "reverse_dist d ps = Some rv"
  shows "access_lists (map fst es) rs' \<and> same_shape rs rs' \<and> list_all2 (pass2 d ts rs) ls es"
proof -
  have step: "same_shape rs2 rs1 \<and> pass2 d ts rs l e \<and> (fst e = l \<and> rs1 = rs2 \<or>
      label_kind l \<in> {(kReadWrite, True)} \<and> linked l (fst e) rs2 rs1)"
    if "l \<in> set ls" "same_shape rs rs2" "map_inter_task rv (runnables_by_period rs) l rs2 ds2 = Some (e, rs1, ds1)" for l rs2 ds2 e rs1 ds1
  proof -
    have p: "pass2 d ts rs2 l e \<and> (fst e = l \<and> rs1 = rs2 \<or> is_inter_task l \<and> linked l (fst e) rs2 rs1)"
      using map_inter_task_ok [OF that(3) tasks_in_shape [OF that(2) ok] that(2) unm [OF that(1)] rv] .
    then have "same_shape rs2 rs1" by (elim conjE disjE) (simp_all add: linked_def same_shape_def)
    moreover have "pass2 d ts rs l e" using p mapped_shape [OF that(2), of d ts "fst e"] by (auto simp: pass2_def)
    ultimately show ?thesis using p by (simp add: label_kind_simps)
  qed
  have "access_lists ([] @ map fst es) rs' \<and> same_shape rs rs' \<and> list_all2 (pass2 d ts rs) ls es"
  proof (rule map_labels_access [OF m])
    show "access_lists ([] @ ls) rs" "same_shape rs rs" using acc by (simp_all add: same_shape_def)
  next
    fix l rs2 ds2 e rs1 ds1
    assume "l \<in> set ls" "same_shape rs rs2" "map_inter_task rv (runnables_by_period rs) l rs2 ds2 = Some (e, rs1, ds1)"
    then show "same_shape rs2 rs1 \<and> pass2 d ts rs l e \<and> (fst e = l \<and> rs1 = rs2 \<or>
        label_kind l \<in> {(kReadWrite, True)} \<and> linked l (fst e) rs2 rs1)" by (rule step)
  qed (auto simp: label_kind_simps unm)
  then show ?thesis by simp
qed

lemma reads_filter:
  assumes "\<And>l. l \<in> set ls \<Longrightarrow> \<not> c l \<Longrightarrow> unmapped l"
  shows "reads (filter c ls) k i = reads ls k i" "writes (filter c ls) k i = writes ls k i"
proof -
  have "filter (\<lambda>l. c l \<and> label_kind l = k \<and> i \<in> set (readers l)) ls = filter (\<lambda>l. label_kind l = k \<and> i \<in> set (readers l)) ls"
    "filter (\<lambda>l. c l \<and> label_kind l = k \<and> i \<in> set (writers l)) ls = filter (\<lambda>l. label_kind l = k \<and> i \<in> set (writers l)) ls"
    by (rule filter_cong; use assms in force)+
  then show "reads (filter c ls) k i = reads ls k i" "writes (filter c ls) k i = writes ls k i"
    by (simp_all add: reads_def writes_def conj_commute conj_left_commute)
qed

lemma access_filter: "access_lists ls rs \<Longrightarrow> (\<And>l. l \<in> set ls \<Longrightarrow> \<not> c l \<Longrightarrow> unmapped l) \<Longrightarrow> access_lists (filter c ls) rs"
  by (simp add: access_lists_def reads_filter)

lemma pass2_lids: "list_all2 (pass2 d ts rs) ls es \<Longrightarrow> map (lid \<circ> fst) es = map lid ls"
  by (induction rule: list_all2_induct) (auto simp: pass2_def)

text \<open>What a benchmark instance promises.\<close>

definition instance_ok :: "benchmark_instance \<Rightarrow> bool" where
  "instance_ok inst \<longleftrightarrow>
     map rid (runnables inst) = [0..<length (runnables inst)] \<and>
     mset (grouped (tasks inst)) = mset [0..<length (runnables inst)] \<and>
     (\<forall>t \<in> set (tasks inst). task_ok (\<lambda>i. runnables inst ! i) t) \<and>
     sorted_wrt (<) (map lid (labels inst)) \<and>
     (\<forall>l \<in> set (labels inst). mapped (dist (inter_task_msgs_cfg (msgs_cfg (cfg inst)))) (tasks inst) (runnables inst) l) \<and>
     access_lists (labels inst) (runnables inst)"

lemma grouped_tasks_in:
  assumes "mset (grouped ts) = mset [0..<length rs]" "map rid rs = [0..<length rs]"
  shows "tasks_in ts rs"
proof -
  have "set (grouped ts) = {0..<length rs}" using arg_cong [OF assms(1), of set_mset] by simp
  then show ?thesis using assms(2) by (auto simp: tasks_in_def grouped_def)
qed

lemma task_ok_cong:
  assumes "\<And>i. i \<in> set (trunnables t) \<Longrightarrow> fixed_part (f i) = fixed_part (g i)"
  shows "task_ok f t = task_ok g t"
proof -
  have eq: "rperiod_ms (f i) = rperiod_ms (g i)" "racet_us (f i) = racet_us (g i)" "rbcet_us (f i) = rbcet_us (g i)"
    "rwcet_us (f i) = rwcet_us (g i)" if "i \<in> set (trunnables t)" for i
    using assms [OF that] by (simp_all add: fixed_part_def)
  have "(\<Sum>i \<leftarrow> trunnables t. racet_us (f i)) = (\<Sum>i \<leftarrow> trunnables t. racet_us (g i))"
    "(\<Sum>i \<leftarrow> trunnables t. rbcet_us (f i)) = (\<Sum>i \<leftarrow> trunnables t. rbcet_us (g i))"
    "(\<Sum>i \<leftarrow> trunnables t. rwcet_us (f i)) = (\<Sum>i \<leftarrow> trunnables t. rwcet_us (g i))"
    by (rule arg_cong [of _ _ sum_list], rule map_cong; simp add: eq)+
  moreover have "(\<forall>i \<in> set (trunnables t). rperiod_ms (f i) = tperiod_ms t) \<longleftrightarrow> (\<forall>i \<in> set (trunnables t). rperiod_ms (g i) = tperiod_ms t)"
    using eq(1) by simp
  ultimately show ?thesis unfolding task_ok_def by (simp only:)
qed

section \<open>The steps of the constructor\<close>

text \<open>Before labels exist: identifiers are positions, no runnable accesses anything.\<close>

definition fresh_runnables :: "int list \<Rightarrow> runnable list \<Rightarrow> bool" where
  "fresh_runnables ps rs \<longleftrightarrow> map rid rs = [0..<length rs] \<and> (\<forall>r \<in> set rs. rperiod_ms r \<in> set ps) \<and> access_lists [] rs"

lemma fresh_runnables_new:
  assumes g: "generate_runnable_instances mx inst = Some inst'" and e: "runnables inst = []"
  shows "fresh_runnables (periods_ms (cfg inst)) (runnables inst') \<and> tasks inst' = tasks inst \<and> labels inst' = labels inst \<and>
    merge_runnables inst' = merge_runnables inst \<and> periods_ms (cfg inst') = periods_ms (cfg inst)"
proof -
  let ?ps = "periods_ms (cfg inst)" and ?L = "period_schedule mx (period_shares (runnables_cfg (cfg inst))) (periods_ms (cfg inst))"
  have "\<exists>xs. runnables inst' = map2 runnable_new [0..<length xs] xs \<and> set xs \<subseteq> set ?ps"
  proof (cases "0 < mx")
    case True
    then have "runnables inst' = map2 runnable_new [0..<nat mx] (take (nat mx) ?L)" "nat mx \<le> length ?L"
      using generate_runnables_schedule [OF True, of inst] g e by (auto simp: Let_def split: if_splits)
    moreover have "set (take (nat mx) ?L) \<subseteq> set ?ps"
      by (rule order_trans [OF set_take_subset]) (auto simp: period_schedule_def)
    ultimately show ?thesis by (intro exI [of _ "take (nat mx) ?L"]) simp
  next
    case False
    then show ?thesis using g e by (intro exI [of _ "[]"]) (auto simp: generate_runnable_instances_def Let_def)
  qed
  then obtain xs where xs: "runnables inst' = map2 runnable_new [0..<length xs] xs" "set xs \<subseteq> set ?ps" by blast
  have n: "length (runnables inst') = length xs" "\<And>i. i < length xs \<Longrightarrow> runnables inst' ! i = runnable_new i (xs ! i)"
    by (simp_all add: xs(1))
  have "rperiod_ms r \<in> set ?ps" if r: "r \<in> set (runnables inst')" for r
  proof -
    obtain i where "i < length xs" "r = runnable_new i (xs ! i)" using r n by (auto simp: in_set_conv_nth)
    then show ?thesis using xs(2) nth_mem [of i xs] by (auto simp: runnable_new_def)
  qed
  moreover have "map rid (runnables inst') = [0..<length (runnables inst')]"
    by (rule nth_equalityI) (simp_all add: n runnable_new_def)
  moreover have "access_lists [] (runnables inst')"
    using n by (simp add: access_lists_def reads_def writes_def runnable_new_def)
  ultimately have "fresh_runnables ?ps (runnables inst')" by (simp add: fresh_runnables_def)
  then show ?thesis using g by (auto simp: generate_runnable_instances_def Let_def split: bind_splits)
qed

lemma set_all_times_same: "set_all_times api ds rs us = Some rs' \<Longrightarrow> list_all2 same_job rs rs'"
proof (induction rs arbitrary: us rs')
  case (Cons r rs)
  obtain r1 us1 rs1 where 1: "set_times api ds r us = Some (r1, us1)" "set_all_times api ds rs us1 = Some rs1" "rs' = r1 # rs1"
    using Cons.prems by (auto split: bind_splits)
  have "same_job r r1" using 1(1) by (auto simp: set_times_def same_job_def Let_def split: bind_splits prod.splits)
  then show ?case using Cons.IH [OF 1(2)] by (simp add: 1(3))
qed simp

lemma same_job_fields:
  assumes "same_job r r'"
  shows "rid r' = rid r" "rperiod_ms r' = rperiod_ms r" "ro_labels_read r' = ro_labels_read r"
    "wo_labels_written r' = wo_labels_written r" "rw_intra_task_labels_read r' = rw_intra_task_labels_read r"
    "rw_intra_task_labels_written r' = rw_intra_task_labels_written r" "rw_inter_task_labels_read r' = rw_inter_task_labels_read r"
    "rw_inter_task_labels_written r' = rw_inter_task_labels_written r"
  by (subst assms [unfolded same_job_def], simp)+

lemma fresh_runnables_times:
  assumes "generate_runnable_acets_bcets_and_wcets api us inst = Some inst'" "fresh_runnables ps (runnables inst)"
  shows "fresh_runnables ps (runnables inst') \<and> tasks inst' = tasks inst \<and> labels inst' = labels inst \<and>
    merge_runnables inst' = merge_runnables inst \<and> periods_ms (cfg inst') = periods_ms (cfg inst)"
proof -
  obtain ds where "set_all_times api ds (runnables inst) us = Some (runnables inst')" and rest: "tasks inst' = tasks inst"
    "labels inst' = labels inst" "merge_runnables inst' = merge_runnables inst" "periods_ms (cfg inst') = periods_ms (cfg inst)"
    using assms(1) by (auto simp: generate_runnable_acets_bcets_and_wcets_def Let_def split: bind_splits)
  from set_all_times_same [OF this(1)]
  have l: "length (runnables inst') = length (runnables inst)"
    and j: "\<And>i. i < length (runnables inst) \<Longrightarrow> same_job (runnables inst ! i) (runnables inst' ! i)"
    by (simp_all add: list_all2_conv_all_nth)
  have "map rid (runnables inst') = map rid (runnables inst)" "map rperiod_ms (runnables inst') = map rperiod_ms (runnables inst)"
    using l j by (auto simp: same_job_fields intro!: nth_equalityI)
  moreover have "access_lists [] (runnables inst')"
    using assms(2) same_job_fields [OF j] unfolding fresh_runnables_def access_lists_def l by simp
  moreover have "(\<forall>r \<in> set (runnables inst'). rperiod_ms r \<in> set ps) \<longleftrightarrow> set (map rperiod_ms (runnables inst')) \<subseteq> set ps" by auto
  ultimately show ?thesis using assms(2) l rest by (auto simp: fresh_runnables_def)
qed

lemma mset_by_period:
  assumes "distinct ps" "\<And>r. r \<in> set rs \<Longrightarrow> rperiod_ms r \<in> set ps"
  shows "mset (concat (map (\<lambda>p. map rid (filter (\<lambda>r. rperiod_ms r = p) rs)) ps)) = mset (map rid rs)"
  using assms
proof (induction rs)
  case (Cons r rs)
  have "mset (concat (map (\<lambda>p. map rid (filter (\<lambda>x. rperiod_ms x = p) (r # rs))) qs)) =
      (if rperiod_ms r \<in> set qs then {#rid r#} else {#}) + mset (concat (map (\<lambda>p. map rid (filter (\<lambda>x. rperiod_ms x = p) rs)) qs))"
    if "distinct qs" for qs
    using that by (induction qs) auto
  from this [OF Cons.prems(1)] show ?case using Cons by simp
qed simp

lemma tasks_ok_count: "tasks_ok f (i, ts) \<Longrightarrow> i = length ts"
proof -
  assume "tasks_ok f (i, ts)"
  then have "length (map tid ts) = length [0..<i]" by (simp only: tasks_ok_def prod.case)
  then show ?thesis by simp
qed

lemma generate_tasks_ok:
  assumes "fresh_runnables (periods_ms (cfg inst)) (runnables inst)" "tasks inst = []"
    and "merge_runnables inst \<Longrightarrow> distinct (periods_ms (cfg inst))" and inst': "inst' = generate_task_instances_from_runnables inst"
  shows "map tid (tasks inst') = [0..<length (tasks inst')] \<and>
    mset (grouped (tasks inst')) = mset [0..<length (runnables inst)] \<and>
    (\<forall>t \<in> set (tasks inst'). task_ok (\<lambda>i. runnables inst ! i) t \<and> trunnables t \<noteq> []) \<and>
    (if merge_runnables inst then greedy (\<lambda>i. runnables inst ! i) (tasks inst')
     else \<forall>t \<in> set (tasks inst'). length (trunnables t) = 1)"
proof -
  let ?rs = "runnables inst" and ?f = "\<lambda>i. runnables inst ! i"
  have rids: "map rid ?rs = [0..<length ?rs]" using assms(1) by (simp add: fresh_runnables_def)
  have f: "?f (rid r) = r" if "r \<in> set ?rs" for r
    using that rids nth_map [of _ ?rs rid] by (auto simp: in_set_conv_nth)
  have start: "tasks_ok ?f (0, [])" "greedy ?f []" by (simp_all add: tasks_ok_def)
  show ?thesis
  proof (cases "merge_runnables inst")
    case False
    obtain j us where u: "fold single_task ?rs (0, []) = (j, us)" by fastforce
    then have "tasks inst' = us" using inst' False assms(2) by (simp add: generate_task_instances_from_runnables_def)
    moreover have "tasks_ok ?f (j, us)" "grouped us = map rid ?rs" "\<forall>t \<in> set us. length (trunnables t) = 1"
      using single_tasks [OF f start(1) _ u] by (simp_all add: grouped_def)
    ultimately show ?thesis using False rids tasks_ok_count by (auto simp: tasks_ok_def)
  next
    case True
    obtain j us where u: "fold (merge_period ?rs) (periods_ms (cfg inst)) (0, []) = (j, us)" by fastforce
    then have t: "tasks inst' = us" using inst' True assms(2) by (simp add: generate_task_instances_from_runnables_def)
    have "mset (concat (map (\<lambda>p. map rid (filter (\<lambda>r. rperiod_ms r = p) ?rs)) (periods_ms (cfg inst)))) = mset (map rid ?rs)"
      by (rule mset_by_period [OF assms(3) [OF True]]) (use assms(1) in \<open>simp add: fresh_runnables_def\<close>)
    moreover have "tasks_ok ?f (j, us)" "greedy ?f us"
      "grouped us = concat (map (\<lambda>p. map rid (filter (\<lambda>r. rperiod_ms r = p) ?rs)) (periods_ms (cfg inst)))"
      using merge_periods [OF assms(3) [OF True] f start _ u] by (simp_all add: grouped_def)
    ultimately show ?thesis using True rids tasks_ok_count unfolding t by (auto simp: tasks_ok_def)
  qed
qed


section \<open>The finished instance\<close>

lemma generate_label_instances_ok:
  assumes "generate_label_instances mx mt ds inst = Some inst'" "labels inst = []" "access_lists [] (runnables inst)"
  shows "map lid (labels inst') = [0..<nat mx] \<and> (\<forall>l \<in> set (labels inst'). label_drawn (labels_cfg (cfg inst)) l \<and> unmapped l) \<and>
    access_lists (labels inst') (runnables inst') \<and> inst' = inst\<lparr>labels := labels inst'\<rparr>"
proof -
  obtain ls where ls: "generate_labels (labels_cfg (cfg inst)) (msgs_cfg (cfg inst)) [0..<nat mx] mt ds = Some ls"
    "inst' = inst\<lparr>labels := ls\<rparr>"
    using assms(1,2) by (auto simp: generate_label_instances_def split: bind_splits)
  have l: "map lid ls = [0..<nat mx]" "\<And>l. l \<in> set ls \<Longrightarrow> label_drawn (labels_cfg (cfg inst)) l \<and> unmapped l"
    using generate_labels_drawn [OF ls(1)] by (simp_all add: unmapped_def)
  then have "filter (\<lambda>l. label_kind l = k \<and> i \<in> set (readers l)) ls = []" "filter (\<lambda>l. label_kind l = k \<and> i \<in> set (writers l)) ls = []" for k i
    by (simp_all add: filter_empty_conv)
  then have "access_lists ls (runnables inst)" using assms(3) by (simp add: access_lists_def reads_def writes_def)
  then show ?thesis using l ls(2) by simp
qed

lemma list_all2_preimage: "list_all2 P xs ys \<Longrightarrow> y \<in> set ys \<Longrightarrow> \<exists>x \<in> set xs. P x y"
  by (induction rule: list_all2_induct) auto

lemma map_inter_task_msgs_ok:
  assumes m: "map_inter_task_msgs_to_runnables vs ds inst = Some inst'" and acc: "access_lists (labels inst) (runnables inst)"
    and ok: "tasks_in (tasks inst) (runnables inst)" and ids: "sorted_wrt (<) (map lid (labels inst))"
    and ls: "\<And>l. l \<in> set (labels inst) \<Longrightarrow> if is_inter_task l then unmapped l
        else mapped (dist (inter_task_msgs_cfg (msgs_cfg (cfg inst)))) (tasks inst) (runnables inst) l"
  shows "access_lists (labels inst') (runnables inst') \<and> same_shape (runnables inst) (runnables inst') \<and> tasks inst' = tasks inst \<and>
    sorted_wrt (<) (map lid (labels inst')) \<and>
    (\<forall>l \<in> set (labels inst'). mapped (dist (inter_task_msgs_cfg (msgs_cfg (cfg inst')))) (tasks inst') (runnables inst') l)"
proof -
  let ?d = "dist (inter_task_msgs_cfg (msgs_cfg (cfg inst)))"
  obtain m2 lo hi ls1 rv es rs rest where v: "assign_volumes m2 lo hi (labels inst) vs = Some ls1"
    and rv: "reverse_dist ?d (periods_ms (cfg inst)) = Some rv"
    and es: "map_labels (map_inter_task rv (runnables_by_period (runnables inst))) ls1 (runnables inst) ds = Some (es, rs, rest)"
    and i: "runnables inst' = rs" "labels inst' = filter (\<lambda>l. lid l \<notin> set (map (lid \<circ> fst) (filter snd es))) (map fst es)"
      "tasks inst' = tasks inst" "dist (inter_task_msgs_cfg (msgs_cfg (cfg inst'))) = ?d"
    using m by (auto simp: map_inter_task_msgs_to_runnables_def Let_def split: bind_splits prod.splits)
  note av = assign_volumes_spec [OF v]
  have same: "lid l' = lid l \<and> label_kind l' = label_kind l \<and> readers l' = readers l \<and> writers l' = writers l"
    if "l' = l\<lparr>lmvtype := lmvtype l'\<rparr>" for l l' :: label
    by (subst (1 2 3 4) that) (simp add: label_kind_def is_inter_task_def)
  have r1: "reads ls1 k j = reads (labels inst) k j \<and> writes ls1 k j = writes (labels inst) k j \<and> map lid ls1 = map lid (labels inst)" for k j
  proof -
    have "list_all2 (\<lambda>l l'. lid l' = lid l \<and> label_kind l' = label_kind l \<and> readers l' = readers l \<and> writers l' = writers l) (labels inst) ls1"
      by (rule list_all2_mono [OF av]) (use same in blast)
    then show ?thesis by (induction rule: list_all2_induct) (simp_all add: reads_def writes_def)
  qed
  have acc1: "access_lists ls1 (runnables inst)" using acc r1 by (simp add: access_lists_def)
  have ls1: "if is_inter_task l then unmapped l else mapped ?d (tasks inst) (runnables inst) l" if "l \<in> set ls1" for l
  proof -
    obtain l0 where l0: "l0 \<in> set (labels inst)" "l = l0\<lparr>lmvtype := lmvtype l\<rparr>" "\<not> is_inter_task l0 \<longrightarrow> l = l0"
      using list_all2_preimage [OF av \<open>l \<in> set ls1\<close>] by blast
    show ?thesis
    proof (cases "is_inter_task l0")
      case True
      then show ?thesis using ls [OF l0(1)] same [OF l0(2)] by (simp add: unmapped_def label_kind_def)
    next
      case False
      then show ?thesis using ls [OF l0(1)] l0(3) by simp
    qed
  qed
  have unm: "unmapped l" if "l \<in> set ls1" "is_inter_task l" for l using ls1 [OF that(1)] that(2) by simp
  from second_pass [OF es acc1 ok unm rv]
  have fin: "access_lists (map fst es) rs" "same_shape (runnables inst) rs" "list_all2 (pass2 ?d (tasks inst) (runnables inst)) ls1 es"
    by blast+
  have lids: "map (lid \<circ> fst) es = map lid (labels inst)" using pass2_lids [OF fin(3)] r1 by simp
  then have dist: "distinct (map (lid \<circ> fst) es)" using ids by (simp add: strict_sorted_iff)
  have per: "if snd e then unmapped (fst e) else mapped ?d (tasks inst) (runnables inst) (fst e)" if "e \<in> set es" for e
  proof -
    obtain l where "l \<in> set ls1" "pass2 ?d (tasks inst) (runnables inst) l e"
      using list_all2_preimage [OF fin(3) \<open>e \<in> set es\<close>] by blast
    then show ?thesis using ls1 [of l] by (auto simp: pass2_def split: if_splits)
  qed
  have marked: "snd e" if e: "e \<in> set es" "lid (fst e) \<in> set (map (lid \<circ> fst) (filter snd es))" for e
  proof -
    obtain e2 where e2: "e2 \<in> set es" "snd e2" "lid (fst e2) = lid (fst e)" using e(2) by auto
    have "inj_on (lid \<circ> fst) (set es)" using dist by (simp add: distinct_map)
    then have "e2 = e" by (rule inj_onD) (use e(1) e2(1,3) in simp_all)
    then show ?thesis using e2(2) by simp
  qed
  have "access_lists (labels inst') rs" unfolding i(2)
  proof (rule access_filter [OF fin(1)])
    fix l assume l: "l \<in> set (map fst es)" "\<not> lid l \<notin> set (map (lid \<circ> fst) (filter snd es))"
    then obtain e where e: "e \<in> set es" "l = fst e" by auto
    have "snd e" by (rule marked [OF e(1)]) (use l(2) e(2) in simp)
    then show "unmapped l" using per [OF e(1)] e(2) by simp
  qed
  moreover have "mapped ?d (tasks inst) rs l" if "l \<in> set (labels inst')" for l
  proof -
    have "l \<in> fst ` set es" and no: "lid l \<notin> set (map (lid \<circ> fst) (filter snd es))" using that unfolding i(2) by auto
    then obtain e where e: "e \<in> set es" "l = fst e" by blast
    have "\<not> snd e" using no e by auto
    then show ?thesis using per [OF e(1)] e(2) mapped_shape [OF fin(2)] by simp
  qed
  moreover have "sorted_wrt (<) (map lid (labels inst'))"
  proof -
    have "sorted_wrt (<) (map lid (map fst es))" using lids ids by simp
    then have "sorted_wrt (\<lambda>x y. lid x < lid y) (map fst es)" by (simp only: sorted_wrt_map)
    then show ?thesis unfolding i(2) sorted_wrt_map [of "(<)" lid] by (rule sorted_wrt_filter)
  qed
  ultimately show ?thesis using fin(2) i by simp
qed

lemma constructor_ok:
  assumes new: "benchmark_instance_new api ds c merge = Some inst" and per: "merge \<Longrightarrow> distinct (periods_ms c)"
  shows "instance_ok inst"
proof -
  let ?i0 = "\<lparr>cfg = c, merge_runnables = merge, runnables = [], tasks = [], labels = []\<rparr>"
  obtain n i1 i2 i3 m i4 i5 where 1: "generate_runnable_instances n ?i0 = Some i1"
    and 2: "generate_runnable_acets_bcets_and_wcets api (time_draws ds) i1 = Some i2"
    and 3: "i3 = generate_task_instances_from_runnables i2"
    and 4: "generate_label_instances m (first_mtype ds) (label_draws ds) i3 = Some i4"
    and 5: "map_labels_to_runnables (map_draws ds) i4 = Some i5"
    and 6: "map_inter_task_msgs_to_runnables (volume_draws ds) (inter_draws ds) i5 = Some inst"
    using new by (auto simp: benchmark_instance_new_def Let_def split: bind_splits)
  let ?d = "dist (inter_task_msgs_cfg (msgs_cfg (cfg i4)))" and ?f = "\<lambda>i. runnables i4 ! i"
  note s1 = fresh_runnables_new [OF 1, simplified]
  note s2 = fresh_runnables_times [OF 2 s1 [THEN conjunct1]]
  have i2: "fresh_runnables (periods_ms (cfg i2)) (runnables i2)" "tasks i2 = []" "labels i2 = []"
    "merge_runnables i2 = merge" "periods_ms (cfg i2) = periods_ms c"
    using s1 s2 by simp_all
  have i3: "runnables i3 = runnables i2" "labels i3 = []" using 3 i2(3) by (simp_all add: generate_task_instances_from_runnables_def)
  have acc3: "access_lists [] (runnables i3)" using i2(1) i3(1) by (simp add: fresh_runnables_def)
  from generate_label_instances_ok [OF 4 i3(2) acc3]
  have lids: "map lid (labels i4) = [0..<nat m]" and ls: "\<forall>l \<in> set (labels i4). unmapped l"
    and acc: "access_lists (labels i4) (runnables i4)" and i4: "i4 = i3\<lparr>labels := labels i4\<rparr>" by blast+
  have r4: "runnables i4 = runnables i2" "tasks i4 = tasks i3" using i3(1) by (subst i4; simp)+
  note t = generate_tasks_ok [OF i2(1,2) _ 3, unfolded i2(4,5), OF per]
  have rids: "map rid (runnables i4) = [0..<length (runnables i4)]" using i2(1) by (simp add: fresh_runnables_def r4)
  have group: "mset (grouped (tasks i4)) = mset [0..<length (runnables i4)]" using t r4 by simp
  note tin = grouped_tasks_in [OF group rids]
  obtain rs5 ls5 rest where 7: "map_labels (map_label (tasks i4)) (labels i4) (runnables i4) (map_draws ds) = Some (ls5, rs5, rest)"
    and i5: "i5 = i4\<lparr>labels := ls5, runnables := rs5\<rparr>"
    using 5 by (auto simp: map_labels_to_runnables_def split: bind_splits)
  from first_pass [OF 7 ls acc tin, of ?d]
  have p1: "access_lists ls5 rs5" "same_shape (runnables i4) rs5" "list_all2 (pass1 ?d (tasks i4) (runnables i4)) (labels i4) ls5" by blast+
  have ids5: "map lid ls5 = map lid (labels i4)" using p1(3) by (induction rule: list_all2_induct) (auto simp: pass1_def)
  have sorted5: "sorted_wrt (<) (map lid ls5)" unfolding ids5 lids by (simp add: sorted_wrt_upt)
  have ls5: "if is_inter_task l then unmapped l else mapped ?d (tasks i4) rs5 l" if "l \<in> set ls5" for l
  proof -
    obtain l0 where "l0 \<in> set (labels i4)" "pass1 ?d (tasks i4) (runnables i4) l0 l"
      using list_all2_preimage [OF p1(3) \<open>l \<in> set ls5\<close>] by blast
    then show ?thesis using ls mapped_shape [OF p1(2)] by (auto simp: pass1_def label_kind_def split: if_splits)
  qed
  have fields: "labels i5 = ls5" "runnables i5 = rs5" "tasks i5 = tasks i4" "cfg i5 = cfg i4" by (simp_all add: i5)
  from map_inter_task_msgs_ok [OF 6, unfolded fields, OF p1(1) tasks_in_shape [OF p1(2) tin] sorted5 ls5]
  have last: "access_lists (labels inst) (runnables inst)" "same_shape rs5 (runnables inst)" "tasks inst = tasks i4"
    "sorted_wrt (<) (map lid (labels inst))"
    "\<forall>l \<in> set (labels inst). mapped (dist (inter_task_msgs_cfg (msgs_cfg (cfg inst)))) (tasks inst) (runnables inst) l" by auto
  have shape: "same_shape (runnables i4) (runnables inst)" by (rule same_shape_trans [OF p1(2) last(2)])
  note n = same_shape_nth [OF shape]
  have "map rid (runnables inst) = map rid (runnables i4)" using n by (auto intro!: nth_equalityI)
  moreover have "task_ok (\<lambda>i. runnables inst ! i) u" if "u \<in> set (tasks inst)" for u
  proof -
    have "task_ok ?f u" using that t r4 last(3) by auto
    moreover have "fixed_part (runnables inst ! i) = fixed_part (?f i)" if "i \<in> set (trunnables u)" for i
      using n(2) tin that \<open>u \<in> set (tasks inst)\<close> last(3) by (auto simp: tasks_in_def)
    ultimately show ?thesis using task_ok_cong by blast
  qed
  ultimately show ?thesis using last group rids n(1) by (simp add: instance_ok_def)
qed


end
