(* ===== verification/Kzh15_Instance.thy ===== *)
theory Kzh15_Instance imports Kzh15_Labels begin

text \<open>
  The properties of generated benchmark instances, and the concrete instance that shows their
  hypotheses to be satisfiable.
\<close>

section \<open>A concrete instance\<close>

definition sample_boost :: boost_api where
  "sample_boost = \<lparr>beta_accepts = (\<lambda>a b. 0 < a \<and> 0 < b), beta_quantile = (\<lambda>_ u. max 0 (min 1 u))\<rparr>"

definition sample_profile :: et_profile where
  "sample_profile = \<lparr>acet_min_us = 100, acet_avg_us = 150, acet_max_us = 300,
     bcet_f_min = 1 / 2, bcet_f_max = 1, wcet_f_min = 1, wcet_f_max = 4\<rparr>"

definition sample_kzh15 :: kzh15_config where
  "sample_kzh15 = \<lparr>config_file = ''k'', scale_factor = 2, periods_ms = [10, 5],
     labels_cfg = \<lparr>lcount = \<lparr>rmin = 1, rmax = 3\<rparr>, size_shares = [(\<lparr>rmin = 1, rmax = 1\<rparr>, 30), (\<lparr>rmin = 5, rmax = 8\<rparr>, 70)],
       label_partition = [(kReadOnly, 20), (kWriteOnly, 20), (kReadWrite, 60)]\<rparr>,
     msgs_cfg = \<lparr>message_partition = [(kIntraTaskFwd, 30), (kIntraTaskBwd, 30), (kInterTask, 40)],
       inter_task_msgs_cfg = \<lparr>volume_types = [(kI, \<lparr>rmin = 1, rmax = 2\<rparr>), (kVI, \<lparr>rmin = 3, rmax = 4\<rparr>)],
         dist = [(5, [(5, kI), (10, kVI)]), (10, [(5, kI), (10, kVI)])]\<rparr>\<rparr>,
     runnables_cfg = \<lparr>rcount = \<lparr>rmin = 1, rmax = 2\<rparr>, period_shares = [(5, 50), (10, 50)],
       exec_time_profiles = [(5, sample_profile), (10, sample_profile)]\<rparr>\<rparr>"

definition sample_draws :: draws where
  "sample_draws = \<lparr>runnable_counts = [2], time_draws = [0, 1 / 2, 1, 1 / 2, 1 / 2, 2, 1 / 4, 1 / 2, 3, 1 / 3, 3 / 4, 3 / 2],
     label_counts = [3], label_draws = [10, 25, 50, 10, 60, 40, 70, 90, 80, 95], first_mtype = kInterTask,
     map_draws = [3, 0, 1, 1, 1, 0, 0, 1, 0], volume_draws = [2, 3], inter_draws = [0, 1, 0, 0, 0, 0, 1]\<rparr>"

definition sample_instance :: benchmark_instance where
  "sample_instance = the (benchmark_instance_new sample_boost sample_draws sample_kzh15 True)"

lemma sample_instance_new: "benchmark_instance_new sample_boost sample_draws sample_kzh15 True = Some sample_instance"
proof -
  have "benchmark_instance_new sample_boost sample_draws sample_kzh15 True \<noteq> None" by code_simp
  then show ?thesis by (simp add: sample_instance_def)
qed

section \<open>Properties\<close>

text \<open>C24 (benchmark_instance_ok):
  Whatever is drawn, a finished instance numbers its runnables by position, puts each runnable into
  exactly one task, and every task has the period of its runnables, the sums of their execution times,
  and, unless it holds one runnable only, a utilisation of at most one half. Every remaining label
  is read and written as its type says: a read-only label has one reader, a write-only label one
  writer, a forward (backward) label a writer before (after) its reader in one task, an
  inter-task label two different runnables whose periods have the volume type of the label. The six access
  lists of a runnable are exactly the labels that name it, in order.\<close>
theorem benchmark_instance_ok:
  assumes "benchmark_instance_new api ds c merge = Some inst" and "merge \<Longrightarrow> distinct (periods_ms c)"
  shows "instance_ok inst"
  using assms by (rule constructor_ok)

lemma benchmark_instance_ok_witness:
  "instance_ok sample_instance \<and> length (runnables sample_instance) = 4 \<and> length (labels sample_instance) = 6"
proof
  show "instance_ok sample_instance"
    by (rule benchmark_instance_ok [OF sample_instance_new]) (simp add: sample_kzh15_def)
qed code_simp

text \<open>Lemma (runnables_by_quota):
  The periods of the generated runnables are those of a schedule that gives each period of the
  configuration, in order, the least positive number of runnables that reaches its share of
  \<open>mx\<close>; if the shares are too small for \<open>mx\<close> runnables, the loop runs past the end of the vector of
  periods, and if they add up to at least 100 percent, it never does.\<close>
theorem runnables_by_quota:
  assumes "0 < mx"
  shows "map_option runnables (generate_runnable_instances mx inst) =
      (let sched = period_schedule mx (period_shares (runnables_cfg (cfg inst))) (periods_ms (cfg inst))
       in if nat mx \<le> length sched then Some (runnables inst @ map2 runnable_new [0..<nat mx] (take (nat mx) sched)) else None) \<and>
    ((\<Sum>p \<leftarrow> periods_ms (cfg inst). om_value 0 (period_shares (runnables_cfg (cfg inst))) p) \<ge> 100 \<longrightarrow>
       generate_runnable_instances mx inst \<noteq> None)"
proof -
  have "generate_runnable_instances mx inst \<noteq> None"
    if "(\<Sum>p \<leftarrow> periods_ms (cfg inst). om_value 0 (period_shares (runnables_cfg (cfg inst))) p) \<ge> 100"
    using generate_runnables_schedule [OF assms, of inst] schedule_enough [OF that assms] by (auto simp: Let_def)
  then show ?thesis using generate_runnables_schedule [OF assms] by blast
qed

definition empty_instance :: benchmark_instance where
  "empty_instance = \<lparr>cfg = sample_kzh15, merge_runnables = True, runnables = [], tasks = [], labels = []\<rparr>"

lemma runnables_by_quota_witness:
  "map_option (map rperiod_ms \<circ> runnables) (generate_runnable_instances 4 empty_instance) = Some [10, 10, 5, 5]"
proof -
  have "period_schedule 4 (period_shares (runnables_cfg (cfg empty_instance))) (periods_ms (cfg empty_instance)) = [10, 10, 5, 5]"
    by code_simp
  then have "map_option runnables (generate_runnable_instances 4 empty_instance) =
      Some (runnables empty_instance @ map2 runnable_new [0..<nat 4] (take (nat 4) [10, 10, 5, 5]))"
    using runnables_by_quota [of 4 empty_instance] by simp
  then have "map_option (map rperiod_ms) (map_option runnables (generate_runnable_instances 4 empty_instance)) =
      map_option (map rperiod_ms) (Some (runnables empty_instance @ map2 runnable_new [0..<nat 4] (take (nat 4) [10, 10, 5, 5])))"
    by (rule arg_cong)
  also have "\<dots> = Some [10, 10, 5, 5]" by code_simp
  finally show ?thesis by (simp add: option.map_comp)
qed

text \<open>Lemma (execution_times_bounded):
  If the quantiles of a beta distribution lie in the unit interval, then setting the
  execution times changes nothing else of a runnable, the average time lies between the bounds of the profile of
  its period, and best and worst times are the average time scaled by factors within the bounds of the profile.\<close>
theorem execution_times_bounded:
  assumes "generate_runnable_acets_bcets_and_wcets api us inst = Some inst'"
    and "\<And>ab u. 0 \<le> u \<Longrightarrow> u \<le> 1 \<Longrightarrow> 0 \<le> beta_quantile api ab u \<and> beta_quantile api ab u \<le> 1"
    and "\<And>p. prof p = om_value et_profile_default (exec_time_profiles (runnables_cfg (cfg inst))) p"
    and "\<And>r. r \<in> set (runnables inst) \<Longrightarrow> rperiod_ms r \<in> set (periods_ms (cfg inst)) \<and>
        0 \<le> acet_min_us (prof (rperiod_ms r)) \<and> acet_min_us (prof (rperiod_ms r)) \<le> acet_max_us (prof (rperiod_ms r))"
  shows "list_all2 (\<lambda>r r'. same_job r r' \<and> times_ok (prof (rperiod_ms r)) r') (runnables inst) (runnables inst')"
  by (rule generate_times_ok [OF assms])

definition one_runnable :: benchmark_instance where
  "one_runnable = empty_instance\<lparr>runnables := [runnable_new 0 10]\<rparr>"

lemma execution_times_bounded_witness:
  "\<exists>inst'. generate_runnable_acets_bcets_and_wcets sample_boost [1 / 2, 3 / 4, 2] one_runnable = Some inst' \<and>
     list_all2 (\<lambda>r r'. same_job r r' \<and> times_ok sample_profile r') (runnables one_runnable) (runnables inst')"
proof -
  have "generate_runnable_acets_bcets_and_wcets sample_boost [1 / 2, 3 / 4, 2] one_runnable \<noteq> None" by code_simp
  then obtain inst' where i: "generate_runnable_acets_bcets_and_wcets sample_boost [1 / 2, 3 / 4, 2] one_runnable = Some inst'" by blast
  have r: "runnables one_runnable = [runnable_new 0 10]" "periods_ms (cfg one_runnable) = [10, 5]"
    "om_value et_profile_default (exec_time_profiles (runnables_cfg (cfg one_runnable))) 10 = sample_profile"
    by (simp_all add: one_runnable_def empty_instance_def sample_kzh15_def om_value_def)
  have "list_all2 (\<lambda>r r'. same_job r r' \<and> times_ok (om_value et_profile_default
      (exec_time_profiles (runnables_cfg (cfg one_runnable))) (rperiod_ms r)) r') (runnables one_runnable) (runnables inst')"
    by (rule execution_times_bounded [OF i _ refl])
      (simp_all add: sample_boost_def r runnable_new_def sample_profile_def)
  then show ?thesis using i by (intro exI [of _ inst']) (simp add: r runnable_new_def list_all2_Cons1)
qed

text \<open>C35 (tasks_partition_runnables):
  Grouping puts every runnable into exactly one task, numbers the tasks by position, keeps periods and
  sums, and opens a second task of a period only for a runnable that does not fit into the first;
  without merging, every task has exactly one runnable.\<close>
theorem tasks_partition_runnables:
  assumes "fresh_runnables (periods_ms (cfg inst)) (runnables inst)" "tasks inst = []"
    and "merge_runnables inst \<Longrightarrow> distinct (periods_ms (cfg inst))" and "inst' = generate_task_instances_from_runnables inst"
  shows "map tid (tasks inst') = [0..<length (tasks inst')] \<and>
    mset (grouped (tasks inst')) = mset [0..<length (runnables inst)] \<and>
    (\<forall>t \<in> set (tasks inst'). task_ok (\<lambda>i. runnables inst ! i) t \<and> trunnables t \<noteq> []) \<and>
    (if merge_runnables inst then greedy (\<lambda>i. runnables inst ! i) (tasks inst')
     else \<forall>t \<in> set (tasks inst'). length (trunnables t) = 1)"
  by (rule generate_tasks_ok [OF assms])

lemma tasks_partition_runnables_witness:
  "map tid (tasks (generate_task_instances_from_runnables one_runnable)) = [0] \<and>
   mset (grouped (tasks (generate_task_instances_from_runnables one_runnable))) = {#0#}"
proof -
  have "length (runnables one_runnable) = 1" "length (tasks (generate_task_instances_from_runnables one_runnable)) = 1"
    by code_simp+
  moreover have "fresh_runnables (periods_ms (cfg one_runnable)) (runnables one_runnable)"
    by (simp add: fresh_runnables_def one_runnable_def empty_instance_def sample_kzh15_def runnable_new_def access_lists_def reads_def writes_def)
  ultimately show ?thesis
    using tasks_partition_runnables [of one_runnable "generate_task_instances_from_runnables one_runnable"]
    by (simp add: one_runnable_def empty_instance_def sample_kzh15_def)
qed

text \<open>Lemma (label_size_follows_type):
  One and the same draw selects the size and the type of a label, so the two are not independent: if the ranges of sizes
  have ascending maxima, no read-only label is larger than a write-only label, and no write-only
  label is larger than a read-write label.\<close>
theorem label_size_follows_type:
  assumes "generate_label_instances mx mt ds inst = Some inst'" "labels inst = []" "access_lists [] (runnables inst)"
    and "om_sorted (<) (label_partition (labels_cfg (cfg inst)))" "sorted (map (rmax \<circ> fst) (size_shares (labels_cfg (cfg inst))))"
    and "l \<in> set (labels inst')" "l' \<in> set (labels inst')" "ltype l < ltype l'"
  shows "size_bytes l \<le> size_bytes l'"
  using generate_label_instances_ok [OF assms(1-3)] drawn_types_sizes [OF _ _ assms(4,8,5)] assms(6,7) by blast

lemma label_size_follows_type_witness:
  "\<exists>inst' a b. generate_label_instances 2 kInterTask [10, 90, 20] empty_instance = Some inst' \<and> labels inst' = [a, b] \<and>
     size_bytes a \<le> size_bytes b"
proof -
  have "map_option (map (\<lambda>l. (lid l, ltype l)) \<circ> labels) (generate_label_instances 2 kInterTask [10, 90, 20] empty_instance)
      = Some [(0, kReadOnly), (1, kReadWrite)]" by code_simp
  then obtain inst' a b where i: "generate_label_instances 2 kInterTask [10, 90, 20] empty_instance = Some inst'"
    "labels inst' = [a, b]" "ltype a = kReadOnly" "ltype b = kReadWrite" by auto
  have e: "labels empty_instance = []" "access_lists [] (runnables empty_instance)"
    "om_sorted (<) (label_partition (labels_cfg (cfg empty_instance)))"
    "sorted (map (rmax \<circ> fst) (size_shares (labels_cfg (cfg empty_instance))))"
    by (simp_all add: empty_instance_def access_lists_def sample_kzh15_def om_sorted_def less_label_type_def)
  have "size_bytes a \<le> size_bytes b"
    by (rule label_size_follows_type [OF i(1) e]) (simp_all add: i less_label_type_def)
  then show ?thesis using i by blast
qed

text \<open>Lemma (inter_task_label_within_task):
  An inter-task label can connect two runnables of one task, since only their periods are checked.\<close>
theorem inter_task_label_within_task:
  "\<exists>l \<in> set (labels sample_instance). \<exists>t \<in> set (tasks sample_instance).
     is_inter_task l \<and> set (writers l) \<union> set (readers l) \<subseteq> set (trunnables t) \<and> length (writers l @ readers l) = 2"
  by code_simp


end
