(* ===== verification/Kzh15_Stats.thy ===== *)
theory Kzh15_Stats imports Kzh15_Instance begin

text \<open>
  The statistics of a benchmark instance and its printed summary
  (\<^verbatim>\<open>src/utils/kzh15_benchmark_generator.cpp\<close>). A quotient of doubles with divisor zero is
  \<open>None\<close>: every such quotient here is 0 / 0, a NaN, which \<open>sd\<close> prints, while its conversion to
  an unsigned integer is undefined.
\<close>

section \<open>Tasks of a period\<close>

definition get_num_tasks :: "int \<Rightarrow> benchmark_instance \<Rightarrow> nat" where
  "get_num_tasks p inst = fold (\<lambda>t count. if tperiod_ms t \<noteq> p then count else count + 1) (tasks inst) 0"

definition quotient :: "rat \<Rightarrow> rat \<Rightarrow> rat option" where
  "quotient a b = (if b = 0 then None else Some (a / b))"

definition get_avg_runnables_per_task :: "int \<Rightarrow> benchmark_instance \<Rightarrow> rat option" where
  "get_avg_runnables_per_task p inst =
     (let (task_count, runnable_count) =
        fold (\<lambda>t (tc, rc). if tperiod_ms t \<noteq> p then (tc, rc) else (tc + 1, rc + length (trunnables t))) (tasks inst) (0 :: nat, 0)
      in quotient (of_nat runnable_count) (of_nat task_count))"

definition get_avg_utilization_per_task :: "int \<Rightarrow> benchmark_instance \<Rightarrow> rat option" where
  "get_avg_utilization_per_task p inst =
     (let (task_count, utilization) =
        fold (\<lambda>t (tc, u). if tperiod_ms t \<noteq> p then (tc, u) else (tc + 1, u + get_utilization t)) (tasks inst) (0 :: nat, 0)
      in quotient utilization (of_nat task_count))"

text \<open>\<^verbatim>\<open>std::numeric_limits<double>::max()\<close> and \<^verbatim>\<open>min()\<close>, the least positive normal number.\<close>

definition dbl_max :: rat where
  "dbl_max = (2 ^ 53 - 1) * 2 ^ 971"

definition dbl_min :: rat where
  "dbl_min = 1 / 2 ^ 1022"

definition widen_range :: "int \<Rightarrow> (task \<Rightarrow> rat) \<Rightarrow> task \<Rightarrow> rat range \<Rightarrow> rat range" where
  "widen_range p et t rg =
     (if tperiod_ms t \<noteq> p then rg
      else let rg = (if et t < rmin rg then rg\<lparr>rmin := US_TO_MS (et t)\<rparr> else rg)
           in if et t > rmax rg then rg\<lparr>rmax := US_TO_MS (et t)\<rparr> else rg)"

definition ms_range :: "(task \<Rightarrow> rat) \<Rightarrow> int \<Rightarrow> benchmark_instance \<Rightarrow> rat range" where
  "ms_range et p inst = fold (widen_range p et) (tasks inst) \<lparr>rmin = dbl_max, rmax = dbl_min\<rparr>"

definition get_bcet_ms_range :: "int \<Rightarrow> benchmark_instance \<Rightarrow> rat range" where
  "get_bcet_ms_range = ms_range tbcet_us"

definition get_acet_ms_range :: "int \<Rightarrow> benchmark_instance \<Rightarrow> rat range" where
  "get_acet_ms_range = ms_range tacet_us"

definition get_wcet_ms_range :: "int \<Rightarrow> benchmark_instance \<Rightarrow> rat range" where
  "get_wcet_ms_range = ms_range twcet_us"

section \<open>Distributions of labels\<close>

definition count_key :: "('k \<Rightarrow> 'k \<Rightarrow> bool) \<Rightarrow> 'k \<Rightarrow> ('k \<times> nat) list \<Rightarrow> ('k \<times> nat) list" where
  "count_key lt k m =
     (let m = (if map_of m k = None then om_put lt k 0 m else m) in om_put lt k (om_value 0 m k + 1) m)"

definition get_label_size_dist :: "benchmark_instance \<Rightarrow> (int \<times> nat) list" where
  "get_label_size_dist inst = fold (\<lambda>l. count_key (<) (size_bytes l)) (labels inst) []"

definition get_label_type_dist :: "benchmark_instance \<Rightarrow> (label_type \<times> nat) list" where
  "get_label_type_dist inst = fold (\<lambda>l. count_key (<) (ltype l)) (labels inst) []"

definition get_msg_type_dist :: "benchmark_instance \<Rightarrow> (message_type \<times> nat) list" where
  "get_msg_type_dist inst = fold (\<lambda>l m. if ltype l \<noteq> kReadWrite then m else count_key (<) (lmtype l) m) (labels inst) []"

section \<open>Labels per task\<close>

definition avg_per_task :: "(runnable \<Rightarrow> nat) \<Rightarrow> benchmark_instance \<Rightarrow> nat option" where
  "avg_per_task f inst = map_option (\<lambda>q. nat \<lfloor>q\<rfloor>)
     (quotient (of_nat (\<Sum>t \<leftarrow> tasks inst. \<Sum>i \<leftarrow> trunnables t. f (runnables inst ! i))) (of_nat (length (tasks inst))))"

definition get_avg_ro_labels_read_per_task :: "benchmark_instance \<Rightarrow> nat option" where
  "get_avg_ro_labels_read_per_task = avg_per_task (\<lambda>r. length (ro_labels_read r))"

definition get_avg_rw_labels_read_per_task :: "benchmark_instance \<Rightarrow> nat option" where
  "get_avg_rw_labels_read_per_task =
     avg_per_task (\<lambda>r. length (rw_intra_task_labels_read r) + length (rw_inter_task_labels_read r))"

definition get_avg_wo_labels_written_per_task :: "benchmark_instance \<Rightarrow> nat option" where
  "get_avg_wo_labels_written_per_task = avg_per_task (\<lambda>r. length (wo_labels_written r))"

definition get_avg_rw_labels_written_per_task :: "benchmark_instance \<Rightarrow> nat option" where
  "get_avg_rw_labels_written_per_task =
     avg_per_task (\<lambda>r. length (rw_intra_task_labels_written r) + length (rw_inter_task_labels_written r))"

definition get_total_utilization :: "benchmark_instance \<Rightarrow> rat" where
  "get_total_utilization inst = fold (\<lambda>t total. total + get_utilization t) (tasks inst) 0"

section \<open>The summary\<close>

text \<open>The lines that are logged, without the logger's prefix.\<close>

definition tab :: "nat \<Rightarrow> string" where
  "tab n = replicate n (CHR 0x09)"

definition period_lines :: "(rat option \<Rightarrow> string) \<Rightarrow> benchmark_instance \<Rightarrow> int \<Rightarrow> string list" where
  "period_lines sd inst p =
     (let rg = get_angle_sync_period_range; n = get_num_tasks p inst;
          rb = get_bcet_ms_range p inst; ra = get_acet_ms_range p inst; rw = get_wcet_ms_range p inst;
          interval = (\<lambda>r. ''['' @ sd (Some (rmin r)) @ ''ms, '' @ sd (Some (rmax r)) @ ''ms]'')
      in (if p = 0 then tab 2 @ dec n @ '' sporadic tasks with minimum inter-arrival time of '' @ dec_int (rmin rg) @ ''ms''
          else tab 2 @ dec n @ '' periodic tasks with period '' @ dec_int p @ ''ms'') #
         (if n = 0 then [] else
          [tab 3 @ ''Average # runnables per task '' @ sd (get_avg_runnables_per_task p inst),
           tab 3 @ ''Average utilization per task '' @ sd (get_avg_utilization_per_task p inst),
           tab 3 @ ''Execution times across tasks'',
           tab 4 @ ''Best-case execution times (BCET) in    '' @ interval rb,
           tab 4 @ ''Average-case execution times (ACET) in '' @ interval ra,
           tab 4 @ ''Worst-case execution times (WCET) in   '' @ interval rw]))"

definition print_summary :: "(rat option \<Rightarrow> string) \<Rightarrow> benchmark_instance \<Rightarrow> string list option" where
  "print_summary sd inst = do {
     let n = length (labels inst);
     let pc = (\<lambda>k m. quotient (of_nat k * 100) (of_nat m));
     let d1 = om_value 0 (get_label_type_dist inst);
     let d2 = om_value 0 (get_msg_type_dist inst);
     let sizes = tab 3 @ join '', '' (map (\<lambda>(s, c). dec_int s @ ''B ('' @ sd (pc c n) @ ''%)'') (get_label_size_dist inst));
     ro \<leftarrow> get_avg_ro_labels_read_per_task inst;
     rwr \<leftarrow> get_avg_rw_labels_read_per_task inst;
     wo \<leftarrow> get_avg_wo_labels_written_per_task inst;
     rww \<leftarrow> get_avg_rw_labels_written_per_task inst;
     Some (
       [''KZH15 Benchmark Instance Summary'',
        tab 1 @ dec (length (tasks inst)) @ '' tasks consisting of '' @ dec (length (runnables inst)) @ '' runnables'',
        tab 1 @ ''(since runnables with the same activation pattern can be '' @ ''grouped into one task)''] @
       concat (map (period_lines sd inst) (periods_ms (cfg inst))) @
       [tab 1 @ dec n @ '' labels (at most one read and write access per label)'',
        tab 2 @ ''Distribution of labels based on read/write access'',
        tab 3 @ sd (pc (d1 kReadOnly) n) @ ''% read-only  (RO) labels'',
        tab 3 @ sd (pc (d1 kWriteOnly) n) @ ''% write-only (WO) labels'',
        tab 3 @ sd (pc (d1 kReadWrite) n) @ ''% read-write (RW) labels, out of which'',
        tab 4 @ sd (pc (d2 kIntraTaskFwd) (d1 kReadWrite)) @ ''% labels with read after write in the same task '' @ ''(intra-task-forward)'',
        tab 4 @ sd (pc (d2 kIntraTaskBwd) (d1 kReadWrite)) @ ''% labels with write after read in the same task '' @ ''(intra-task-backward)'',
        tab 4 @ sd (pc (d2 kInterTask) (d1 kReadWrite)) @ ''% labels with read and write in different tasks '' @ ''(inter-task)'',
        tab 2 @ ''Distribution of labels based on data size'',
        sizes,
        tab 2 @ ''Distribution of labels based on task mapping'',
        tab 3 @ ''Average # RO labels read per task    = '' @ dec ro,
        tab 3 @ ''Average # RW labels read per task    = '' @ dec rwr,
        tab 3 @ ''Average # WO labels written per task = '' @ dec wo,
        tab 3 @ ''Average # RW labels written per task = '' @ dec rww,
        '''']) }"

section \<open>Counting\<close>

definition some_pos :: "nat \<Rightarrow> nat option" where
  "some_pos n = (if n = 0 then None else Some n)"

context ordered_keys
begin

lemma map_of_count_key: "map_of (count_key lt k m) = (map_of m)(k \<mapsto> Suc (om_value 0 m k))"
  by (auto simp: count_key_def om_value_def map_of_put Let_def split: option.split)

lemma map_of_count:
  "map_of (fold (\<lambda>x. count_key lt (f x)) xs m) k =
     (if k \<in> f ` set xs then Some (om_value 0 m k + length (filter (\<lambda>x. f x = k) xs)) else map_of m k)"
  by (induction xs arbitrary: m) (auto simp: map_of_count_key om_value_def filter_empty_conv image_iff split: option.split)

lemma map_of_count_Nil: "map_of (fold (\<lambda>x. count_key lt (f x)) xs []) k = some_pos (length (filter (\<lambda>x. f x = k) xs))"
  by (auto simp: map_of_count om_value_def some_pos_def filter_empty_conv)

end

lemma fold_skip: "fold (\<lambda>x m. if c x then m else f x m) xs m = fold f (filter (\<lambda>x. \<not> c x) xs) m"
  by (induction xs arbitrary: m) auto

section \<open>Ranges\<close>

lemma widen_further:
  assumes "\<And>a b. a \<in> S \<Longrightarrow> b \<in> S \<Longrightarrow> US_TO_MS (et a) < et b" "a \<in> S" "b \<in> S"
    and "\<And>t. t \<in> set ts \<Longrightarrow> tperiod_ms t = p \<Longrightarrow> t \<in> S"
  shows "fold (widen_range p et) ts \<lparr>rmin = US_TO_MS (et a), rmax = US_TO_MS (et b)\<rparr> =
    \<lparr>rmin = US_TO_MS (et a), rmax = US_TO_MS (et (last (b # filter (\<lambda>t. tperiod_ms t = p) ts)))\<rparr>"
  using assms(3,4)
proof (induction ts arbitrary: b)
  case (Cons t ts)
  show ?case
  proof (cases "tperiod_ms t = p")
    case True
    then have "t \<in> S" using Cons.prems(2) by simp
    then have "US_TO_MS (et a) < et t" "US_TO_MS (et b) < et t" using assms(1,2) Cons.prems(1) by simp_all
    then have "widen_range p et t \<lparr>rmin = US_TO_MS (et a), rmax = US_TO_MS (et b)\<rparr> = \<lparr>rmin = US_TO_MS (et a), rmax = US_TO_MS (et t)\<rparr>"
      using True by (simp add: widen_range_def)
    then show ?thesis using Cons.IH [OF \<open>t \<in> S\<close>] Cons.prems(2) True by simp
  next
    case False
    then show ?thesis using Cons by (simp add: widen_range_def)
  qed
qed simp

lemma widen_first:
  "tperiod_ms t = p \<Longrightarrow> dbl_min < et t \<Longrightarrow> et t < dbl_max \<Longrightarrow>
   widen_range p et t \<lparr>rmin = dbl_max, rmax = dbl_min\<rparr> = \<lparr>rmin = US_TO_MS (et t), rmax = US_TO_MS (et t)\<rparr>"
  by (simp add: widen_range_def)

lemma ms_range_ends:
  assumes "\<And>a b. a \<in> set ts \<Longrightarrow> b \<in> set ts \<Longrightarrow> US_TO_MS (et a) < et b" "\<And>t. t \<in> set ts \<Longrightarrow> dbl_min < et t \<and> et t < dbl_max"
    and ts: "ts = filter (\<lambda>t. tperiod_ms t = p) (tasks inst)" "ts \<noteq> []"
  shows "ms_range et p inst = \<lparr>rmin = US_TO_MS (et (hd ts)), rmax = US_TO_MS (et (last ts))\<rparr>"
proof -
  have fold: "fold (widen_range p et) us rg = fold (widen_range p et) (filter (\<lambda>t. tperiod_ms t = p) us) rg" for us rg
    by (induction us arbitrary: rg) (simp_all add: widen_range_def)
  obtain t us where t: "ts = t # us" using ts(2) by (cases ts) auto
  have per: "\<And>u. u \<in> set ts \<Longrightarrow> tperiod_ms u = p" using ts(1) by simp
  then have us: "filter (\<lambda>t. tperiod_ms t = p) us = us" unfolding t by (simp add: filter_id_conv)
  have "ms_range et p inst = fold (widen_range p et) us \<lparr>rmin = US_TO_MS (et t), rmax = US_TO_MS (et t)\<rparr>"
    unfolding ms_range_def fold [of "tasks inst"] ts(1) [symmetric] t
    using widen_first [of t p et] per assms(2) t by simp
  also have "\<dots> = \<lparr>rmin = US_TO_MS (et t), rmax = US_TO_MS (et (last (t # us)))\<rparr>"
    using widen_further [of "set ts" et t t us p] assms(1) t us by simp
  finally show ?thesis by (simp add: t)
qed

section \<open>Properties\<close>

text \<open>Lemma (label_dist_counts):
  The distributions of labels count, for each size, type and, among read-write labels, message type that occurs,
  the labels that have it, and have no entry for others.\<close>
theorem label_dist_counts:
  "map_of (get_label_size_dist inst) s = some_pos (length (filter (\<lambda>l. size_bytes l = s) (labels inst))) \<and>
   map_of (get_label_type_dist inst) t = some_pos (length (filter (\<lambda>l. ltype l = t) (labels inst))) \<and>
   map_of (get_msg_type_dist inst) m = some_pos (length (filter (\<lambda>l. ltype l = kReadWrite \<and> lmtype l = m) (labels inst)))"
proof (intro conjI)
  show "map_of (get_label_size_dist inst) s = some_pos (length (filter (\<lambda>l. size_bytes l = s) (labels inst)))"
    unfolding get_label_size_dist_def by (rule int_less.map_of_count_Nil)
  show "map_of (get_label_type_dist inst) t = some_pos (length (filter (\<lambda>l. ltype l = t) (labels inst)))"
    unfolding get_label_type_dist_def by (rule label_type_order.map_of_count_Nil)
  have "filter (\<lambda>l. lmtype l = m) (filter (\<lambda>l. ltype l = kReadWrite) (labels inst)) =
      filter (\<lambda>l. ltype l = kReadWrite \<and> lmtype l = m) (labels inst)"
    by (simp add: conj_commute)
  then show "map_of (get_msg_type_dist inst) m = some_pos (length (filter (\<lambda>l. ltype l = kReadWrite \<and> lmtype l = m) (labels inst)))"
    unfolding get_msg_type_dist_def fold_skip message_type_order.map_of_count_Nil by simp
qed

text \<open>Lemma (ms_range_first_last):
  The ranges of execution times compare times in microseconds with bounds that are stored in
  milliseconds. Unless two tasks of the period differ by a factor of a thousand, the range consists of the time
  of the first task and that of the last one, whichever is larger.\<close>
theorem ms_range_first_last:
  assumes "\<And>a b. a \<in> set ts \<Longrightarrow> b \<in> set ts \<Longrightarrow> US_TO_MS (twcet_us a) < twcet_us b"
    and "\<And>t. t \<in> set ts \<Longrightarrow> dbl_min < twcet_us t \<and> twcet_us t < dbl_max"
    and "ts = filter (\<lambda>t. tperiod_ms t = p) (tasks inst)" "ts \<noteq> []"
  shows "get_wcet_ms_range p inst = \<lparr>rmin = US_TO_MS (twcet_us (hd ts)), rmax = US_TO_MS (twcet_us (last ts))\<rparr>"
  unfolding get_wcet_ms_range_def by (rule ms_range_ends [OF assms])

lemma dbl_bounds: "dbl_min \<le> 1" "1000000 \<le> dbl_max"
proof -
  have p: "1 \<le> (2 :: rat) ^ n" for n by (rule one_le_power) simp
  show "dbl_min \<le> 1" using p [of 1022] unfolding dbl_min_def by (subst divide_le_eq_1_pos) (auto intro: zero_less_power)
  have "(1000000 :: rat) \<le> (2 ^ 53 - 1) * 1" by simp
  also have "\<dots> \<le> dbl_max" unfolding dbl_max_def by (rule mult_left_mono [OF p]) simp
  finally show "1000000 \<le> dbl_max" .
qed

definition three_tasks :: benchmark_instance where
  "three_tasks = empty_instance\<lparr>tasks := [(task_new 0 10)\<lparr>twcet_us := 3000\<rparr>, (task_new 1 10)\<lparr>twcet_us := 5000\<rparr>,
     (task_new 2 10)\<lparr>twcet_us := 2000\<rparr>]\<rparr>"

lemma ms_range_first_last_witness: "get_wcet_ms_range 10 three_tasks = \<lparr>rmin = 3, rmax = 2\<rparr>"
proof -
  let ?ts = "tasks three_tasks"
  have t: "?ts = [(task_new 0 10)\<lparr>twcet_us := 3000\<rparr>, (task_new 1 10)\<lparr>twcet_us := 5000\<rparr>, (task_new 2 10)\<lparr>twcet_us := 2000\<rparr>]"
    by (simp add: three_tasks_def)
  have d: "dbl_min < 2000" "dbl_min < 3000" "dbl_min < 5000" "2000 < dbl_max" "3000 < dbl_max" "5000 < dbl_max"
    using dbl_bounds by simp_all
  have "get_wcet_ms_range 10 three_tasks = \<lparr>rmin = US_TO_MS (twcet_us (hd ?ts)), rmax = US_TO_MS (twcet_us (last ?ts))\<rparr>"
    by (rule ms_range_first_last) (auto simp: t d US_TO_MS_def task_new_def)
  then show ?thesis by (simp add: t US_TO_MS_def)
qed

end
