(* ===== verification/Kzh15_Basic.thy ===== *)
theory Kzh15_Basic imports Kzh15_Stats "HOL-Library.Word" begin

text \<open>
  Writing a benchmark instance to a file and reading it back as \<^verbatim>\<open>BenchmarkInstanceBasic\<close>, and
  the functions that adapt such an instance to a slower replica: removing the short periods
  and cutting label sizes (\<^verbatim>\<open>src/utils/kzh15_benchmark_generator.cpp\<close>). The objects
  of type \<^verbatim>\<open>RunnableBasic\<close> form a heap; the vector of runnables and the tasks hold indices into it,
  and \<open>None\<close> is the null pointer that \<^verbatim>\<open>rid_to_obj_map[k]\<close> inserts for an unknown identifier.
\<close>

section \<open>Exporting\<close>

definition int_list :: "nat list \<Rightarrow> setting" where
  "int_list xs = SList (map (\<lambda>x. SInt (int x)) xs)"

definition export_task :: "task \<Rightarrow> setting" where
  "export_task t = SGroup [(''id'', SInt (int (tid t))), (''period_ms'', SInt (get_min_period_ms (tperiod_ms t))),
     (''acet_us'', SFloat (tacet_us t)), (''bcet_us'', SFloat (tbcet_us t)), (''wcet_us'', SFloat (twcet_us t)),
     (''runnables'', int_list (trunnables t))]"

definition export_runnable :: "runnable \<Rightarrow> setting" where
  "export_runnable r = SGroup [(''id'', SInt (int (rid r))), (''period_ms'', SInt (get_min_period_ms (rperiod_ms r))),
     (''acet_us'', SFloat (racet_us r)), (''bcet_us'', SFloat (rbcet_us r)), (''wcet_us'', SFloat (rwcet_us r)),
     (''ro_labels_read'', int_list (ro_labels_read r)), (''wo_labels_written'', int_list (wo_labels_written r)),
     (''rw_intra_task_labels_read'', int_list (rw_intra_task_labels_read r)),
     (''rw_intra_task_labels_written'', int_list (rw_intra_task_labels_written r)),
     (''rw_inter_task_labels_read'', int_list (rw_inter_task_labels_read r)),
     (''rw_inter_task_labels_written'', int_list (rw_inter_task_labels_written r))]"

definition export_label :: "label \<Rightarrow> setting" where
  "export_label l = SGroup [(''id'', SInt (int (lid l))), (''size_bytes'', SInt (size_bytes l))]"

definition export_tree :: "benchmark_instance \<Rightarrow> setting" where
  "export_tree inst = SGroup [(''KZH15BenchmarkInstance'', SGroup [
     (''Summary'', SGroup [(''utilization'', SFloat (get_total_utilization inst)),
        (''num_labels'', SInt (int (length (labels inst))))]),
     (''Tasks'', SList (map export_task (tasks inst))),
     (''Runnables'', SList (map export_runnable (runnables inst))),
     (''Labels'', SList (map export_label (labels inst)))])]"

text \<open>The name of the file and what is written to it. A file that cannot be written is only reported.\<close>

definition export_to_file :: "string \<Rightarrow> benchmark_instance \<Rightarrow> string \<times> setting" where
  "export_to_file project_directory inst =
     (project_directory @ ''/config/benchmarks/kzh15_'' @ dec_int (trunc (get_total_utilization inst * 100)) @ ''pcu_'' @
        dec (length (labels inst)) @ ''l.cfg'', export_tree inst)"

section \<open>Basic instances\<close>

record runnable_basic =
  brid :: int
  brperiod_ms :: int
  bracet_us :: rat
  brbcet_us :: rat
  brwcet_us :: rat
  bro_read :: "int list"
  bwo_written :: "int list"
  bintra_read :: "int list"
  bintra_written :: "int list"
  binter_read :: "int list"
  binter_written :: "int list"

record task_basic =
  btid :: int
  btperiod_ms :: int
  btacet_us :: rat
  btbcet_us :: rat
  btwcet_us :: rat
  btrunnables :: "nat option list"

record benchmark_basic =
  objects :: "runnable_basic list"
  brunnables :: "nat list"
  btasks :: "task_basic list"
  label_sizes :: "(int \<times> int) list"

definition read_ints :: "'s settings \<Rightarrow> 's \<Rightarrow> string \<Rightarrow> int list option" where
  "read_ints api s name = do {
     l \<leftarrow> child api s name;
     for_elems api (\<lambda>e xs. do { x \<leftarrow> int_of api e; Some (xs @ [x]) }) l [] }"

definition read_runnable :: "'s settings \<Rightarrow> 's \<Rightarrow> runnable_basic option" where
  "read_runnable api s = do {
     i \<leftarrow> int_at api s ''id'';
     p \<leftarrow> int_at api s ''period_ms'';
     a \<leftarrow> float_at api s ''acet_us'';
     b \<leftarrow> float_at api s ''bcet_us'';
     w \<leftarrow> float_at api s ''wcet_us'';
     l1 \<leftarrow> read_ints api s ''ro_labels_read'';
     l2 \<leftarrow> read_ints api s ''wo_labels_written'';
     l3 \<leftarrow> read_ints api s ''rw_intra_task_labels_read'';
     l4 \<leftarrow> read_ints api s ''rw_intra_task_labels_written'';
     l5 \<leftarrow> read_ints api s ''rw_inter_task_labels_read'';
     l6 \<leftarrow> read_ints api s ''rw_inter_task_labels_written'';
     Some \<lparr>brid = i, brperiod_ms = p, bracet_us = a, brbcet_us = b, brwcet_us = w, bro_read = l1, bwo_written = l2,
       bintra_read = l3, bintra_written = l4, binter_read = l5, binter_written = l6\<rparr> }"

definition read_task :: "'s settings \<Rightarrow> (int \<times> nat) list \<Rightarrow> 's \<Rightarrow> task_basic option" where
  "read_task api rid_to_obj s = do {
     i \<leftarrow> int_at api s ''id'';
     p \<leftarrow> int_at api s ''period_ms'';
     a \<leftarrow> float_at api s ''acet_us'';
     b \<leftarrow> float_at api s ''bcet_us'';
     w \<leftarrow> float_at api s ''wcet_us'';
     rs \<leftarrow> read_ints api s ''runnables'';
     Some \<lparr>btid = i, btperiod_ms = p, btacet_us = a, btbcet_us = b, btwcet_us = w,
       btrunnables = map (map_of rid_to_obj) rs\<rparr> }"

definition benchmark_basic_new :: "'s settings \<Rightarrow> (string \<Rightarrow> 's) \<Rightarrow> string \<Rightarrow> benchmark_basic option" where
  "benchmark_basic_new api read_file file = do {
     let rt = read_file file;
     s_tasks \<leftarrow> child api rt ''KZH15BenchmarkInstance.Tasks'';
     s_runnables \<leftarrow> child api rt ''KZH15BenchmarkInstance.Runnables'';
     s_labels \<leftarrow> child api rt ''KZH15BenchmarkInstance.Labels'';
     (objs, rmap) \<leftarrow> for_elems api (\<lambda>s (objs, rmap). do {
         r \<leftarrow> read_runnable api s;
         Some (objs @ [r], om_put (<) (brid r) (length objs) rmap) }) s_runnables ([], []);
     ts \<leftarrow> for_elems api (\<lambda>s ts. do { t \<leftarrow> read_task api rmap s; Some (ts @ [t]) }) s_tasks [];
     sizes \<leftarrow> for_elems api (\<lambda>s m. do {
         i \<leftarrow> int_at api s ''id'';
         z \<leftarrow> int_at api s ''size_bytes'';
         Some (om_put (<) i z m) }) s_labels [];
     Some \<lparr>objects = objs, brunnables = [0..<length objs], btasks = ts, label_sizes = sizes\<rparr> }"

text \<open>A quotient by a period of zero is not finite, \<open>None\<close>.\<close>

definition task_basic_string :: "(rat option \<Rightarrow> string) \<Rightarrow> task_basic \<Rightarrow> string" where
  "task_basic_string sd t =
     ''TID = '' @ dec_int (btid t) @ '', P = '' @ dec_int (btperiod_ms t) @ ''ms, U = '' @
     sd (quotient (100 * US_TO_MS (btwcet_us t)) (of_int (btperiod_ms t))) @ ''%, ETs = ('' @
     sd (Some (US_TO_MS (btbcet_us t))) @ ''ms, '' @ sd (Some (US_TO_MS (btacet_us t))) @ ''ms, '' @
     sd (Some (US_TO_MS (btwcet_us t))) @ ''ms)''"

definition total_utilization_basic :: "benchmark_basic \<Rightarrow> rat option" where
  "total_utilization_basic b = do {
     total \<leftarrow> fold_option (\<lambda>t total. do {
       u \<leftarrow> quotient (US_TO_MS (btwcet_us t)) (of_int (btperiod_ms t));
       Some (total + u) }) (btasks b) 0;
     Some (total * 100) }"

definition get_avg_label_size :: "benchmark_basic \<Rightarrow> rat option" where
  "get_avg_label_size b =
     (let total = fold (\<lambda>(k, s) total. total + of_int s) (label_sizes b) 0
      in quotient total (of_nat (length (label_sizes b))))"

definition get_total_labels :: "benchmark_basic \<Rightarrow> nat" where
  "get_total_labels b = length (label_sizes b)"

definition get_total_tasks :: "benchmark_basic \<Rightarrow> nat" where
  "get_total_tasks b = length (btasks b)"

definition print_summary_basic :: "(rat option \<Rightarrow> string) \<Rightarrow> benchmark_basic \<Rightarrow> string list" where
  "print_summary_basic sd b =
     [''KZH15 Benchmark Instance (Basic) Summary'',
      tab 1 @ ''Total labels '' @ dec (get_total_labels b),
      tab 1 @ ''Average label size '' @ sd (get_avg_label_size b),
      tab 1 @ ''Total utilization '' @ sd (total_utilization_basic b) @ ''%'',
      tab 1 @ ''Total tasks '' @ dec (get_total_tasks b) @ '':''] @
     map (\<lambda>t. tab 2 @ task_basic_string sd t) (btasks b) @ ['''']"

section \<open>Adapting an instance\<close>

text \<open>\<^verbatim>\<open>r->period_ms < smallest_period_ms\<close> converts the period to 64 unsigned bits.\<close>

definition too_fast :: "64 word \<Rightarrow> int \<Rightarrow> bool" where
  "too_fast smallest p \<longleftrightarrow> word_of_int p < smallest"

definition listed_labels :: "runnable_basic \<Rightarrow> int list" where
  "listed_labels r = bro_read r @ bwo_written r @ bintra_read r @ bintra_written r @ binter_read r @ binter_written r"

definition delete_set :: "64 word \<Rightarrow> benchmark_basic \<Rightarrow> int set" where
  "delete_set smallest b =
     fold (\<lambda>i s. if too_fast smallest (brperiod_ms (objects b ! i)) then s \<union> set (listed_labels (objects b ! i)) else s)
       (brunnables b) {}"

definition erase_inter :: "int set \<Rightarrow> runnable_basic \<Rightarrow> runnable_basic" where
  "erase_inter del r = r\<lparr>binter_read := filter (\<lambda>l. l \<notin> del) (binter_read r),
     binter_written := filter (\<lambda>l. l \<notin> del) (binter_written r)\<rparr>"

definition resolve_label_dependencies :: "64 word \<Rightarrow> benchmark_basic \<Rightarrow> benchmark_basic" where
  "resolve_label_dependencies smallest b =
     (let del = delete_set smallest b
      in b\<lparr>objects := fold (\<lambda>i. update_at i (erase_inter del)) (brunnables b) (objects b),
           label_sizes := filter (\<lambda>(k, s). k \<notin> del) (label_sizes b)\<rparr>)"

definition trim_benchmark :: "64 word \<Rightarrow> benchmark_basic \<Rightarrow> benchmark_basic" where
  "trim_benchmark smallest b =
     b\<lparr>btasks := filter (\<lambda>t. \<not> too_fast smallest (btperiod_ms t)) (btasks b),
       brunnables := filter (\<lambda>i. \<not> too_fast smallest (brperiod_ms (objects b ! i))) (brunnables b)\<rparr>"

text \<open>The size is compared as a 32-bit unsigned integer, and the bound becomes an \<^verbatim>\<open>int\<close> again.\<close>

definition shrink_label_sizes :: "32 word \<Rightarrow> benchmark_basic \<Rightarrow> benchmark_basic" where
  "shrink_label_sizes mx b =
     b\<lparr>label_sizes := map (\<lambda>(k, s). (k, if mx < word_of_int s then sint mx else s)) (label_sizes b)\<rparr>"

section \<open>Reading back what was exported\<close>

text \<open>What is assumed of libconfig: \<open>R s t\<close> says that the setting \<open>s\<close>, read from a file, is the tree
  \<open>t\<close> that was written. Floating-point numbers are written with limited precision, \<open>rnd\<close>.\<close>

definition reads_back :: "'s settings \<Rightarrow> (rat \<Rightarrow> rat) \<Rightarrow> ('s \<Rightarrow> setting \<Rightarrow> bool) \<Rightarrow> bool" where
  "reads_back api rnd R \<longleftrightarrow>
     (\<forall>s i. R s (SInt i) \<longrightarrow> int_of api s = Some i) \<and>
     (\<forall>s x. R s (SFloat x) \<longrightarrow> float_of api s = Some (rnd x)) \<and>
     (\<forall>s xs. R s (SList xs) \<longrightarrow> get_length api s = length xs \<and> (\<forall>i < length xs. \<exists>e. elem api s i = Some e \<and> R e (xs ! i))) \<and>
     (\<forall>s t path u. R s t \<longrightarrow> descend (split_dots path) t = Some u \<longrightarrow> (\<exists>c. child api s path = Some c \<and> R c u))"

lemma read_child:
  assumes "reads_back api rnd R" "R s t" "descend (split_dots path) t = Some u"
  obtains c where "child api s path = Some c" "R c u"
  using assms unfolding reads_back_def by blast

lemma read_int_at:
  assumes "reads_back api rnd R" "R s t" "descend (split_dots path) t = Some (SInt i)"
  shows "int_at api s path = Some i"
proof -
  obtain c where "child api s path = Some c" "R c (SInt i)" using read_child [OF assms] .
  then show ?thesis using assms(1) by (simp add: int_at_def reads_back_def)
qed

lemma read_float_at:
  assumes "reads_back api rnd R" "R s t" "descend (split_dots path) t = Some (SFloat x)"
  shows "float_at api s path = Some (rnd x)"
proof -
  obtain c where "child api s path = Some c" "R c (SFloat x)" using read_child [OF assms] .
  then show ?thesis using assms(1) by (simp add: float_at_def reads_back_def)
qed

lemma read_elems:
  assumes rb: "reads_back api rnd R" and s: "R s (SList (map g xs))"
    and f: "\<And>x e a. x \<in> set xs \<Longrightarrow> R e (g x) \<Longrightarrow> f e a = Some (h x a)"
  shows "for_elems api f s a = Some (fold h xs a)"
proof -
  have len: "get_length api s = length xs" and el: "\<And>i. i < length xs \<Longrightarrow> \<exists>e. elem api s i = Some e \<and> R e (g (xs ! i))"
    using rb s unfolding reads_back_def by (metis length_map, metis length_map nth_map)
  have "fold_option (\<lambda>i a. do { e \<leftarrow> elem api s i; f e a }) [0..<n] a = Some (fold h (take n xs) a)" if "n \<le> length xs" for n
    using that
  proof (induction n)
    case (Suc n)
    obtain e where e: "elem api s n = Some e" "R e (g (xs ! n))" using el [of n] Suc.prems by auto
    have "f e (fold h (take n xs) a) = Some (h (xs ! n) (fold h (take n xs) a))" using f [OF _ e(2)] Suc.prems by simp
    then show ?case using Suc e(1) by (simp add: fold_option_append take_Suc_conv_app_nth)
  qed simp
  from this [of "length xs"] show ?thesis by (simp add: for_elems_def len)
qed

lemma read_int_list:
  assumes "reads_back api rnd R" "R s t" "descend (split_dots path) t = Some (int_list xs)"
  shows "read_ints api s path = Some (map int xs)"
proof -
  obtain c where c: "child api s path = Some c" "R c (SList (map (\<lambda>x. SInt (int x)) xs))"
    using read_child [OF assms] unfolding int_list_def .
  have "for_elems api (\<lambda>e ys. do { x \<leftarrow> int_of api e; Some (ys @ [x]) }) c [] = Some (fold (\<lambda>x ys. ys @ [int x]) xs [])"
    by (rule read_elems [OF assms(1) c(2)]) (use assms(1) in \<open>simp add: reads_back_def\<close>)
  moreover have "fold (\<lambda>x ys. ys @ [int x]) xs zs = zs @ map int xs" for zs by (induction xs arbitrary: zs) simp_all
  ultimately show ?thesis using c(1) by (simp add: read_ints_def)
qed

definition basic_runnable :: "(rat \<Rightarrow> rat) \<Rightarrow> runnable \<Rightarrow> runnable_basic" where
  "basic_runnable rnd r = \<lparr>brid = int (rid r), brperiod_ms = get_min_period_ms (rperiod_ms r),
     bracet_us = rnd (racet_us r), brbcet_us = rnd (rbcet_us r), brwcet_us = rnd (rwcet_us r),
     bro_read = map int (ro_labels_read r), bwo_written = map int (wo_labels_written r),
     bintra_read = map int (rw_intra_task_labels_read r), bintra_written = map int (rw_intra_task_labels_written r),
     binter_read = map int (rw_inter_task_labels_read r), binter_written = map int (rw_inter_task_labels_written r)\<rparr>"

definition basic_task :: "(rat \<Rightarrow> rat) \<Rightarrow> task \<Rightarrow> task_basic" where
  "basic_task rnd t = \<lparr>btid = int (tid t), btperiod_ms = get_min_period_ms (tperiod_ms t),
     btacet_us = rnd (tacet_us t), btbcet_us = rnd (tbcet_us t), btwcet_us = rnd (twcet_us t),
     btrunnables = map Some (trunnables t)\<rparr>"

text \<open>The basic instance that belongs to an instance: the runnables of a task become pointers to the objects at
  their positions, and labels keep nothing but their sizes.\<close>

definition basic_of :: "(rat \<Rightarrow> rat) \<Rightarrow> benchmark_instance \<Rightarrow> benchmark_basic" where
  "basic_of rnd inst = \<lparr>objects = map (basic_runnable rnd) (runnables inst), brunnables = [0..<length (runnables inst)],
     btasks = map (basic_task rnd) (tasks inst), label_sizes = map (\<lambda>l. (int (lid l), size_bytes l)) (labels inst)\<rparr>"

lemma read_exported_runnable:
  assumes rb: "reads_back api rnd R" and r: "R s (export_runnable r)"
  shows "read_runnable api s = Some (basic_runnable rnd r)"
  unfolding read_runnable_def
  by (simp add: basic_runnable_def export_runnable_def read_int_at [OF rb r] read_float_at [OF rb r] read_int_list [OF rb r])

lemma read_exported_task:
  assumes rb: "reads_back api rnd R" and t: "R s (export_task t)"
    and m: "\<And>i. i \<in> set (trunnables t) \<Longrightarrow> map_of rmap (int i) = Some i"
  shows "read_task api rmap s = Some (basic_task rnd t)"
  unfolding read_task_def
  by (simp add: basic_task_def export_task_def read_int_at [OF rb t] read_float_at [OF rb t] read_int_list [OF rb t] m)

lemma read_runnables_fold:
  assumes "map rid rs = [length objs..<length objs + length rs]"
  shows "fst (fold (\<lambda>r (objs, m). (objs @ [basic_runnable rnd r], om_put (<) (int (rid r)) (length objs) m)) rs (objs, m)) =
      objs @ map (basic_runnable rnd) rs \<and>
    (\<forall>i. i < length objs + length rs \<longrightarrow> (i < length objs \<longrightarrow> map_of m (int i) = Some i) \<longrightarrow>
       map_of (snd (fold (\<lambda>r (objs, m). (objs @ [basic_runnable rnd r], om_put (<) (int (rid r)) (length objs) m)) rs (objs, m))) (int i) = Some i)"
  using assms
proof (induction rs arbitrary: objs m)
  case (Cons r rs)
  have r: "rid r = length objs" "map rid rs = [Suc (length objs)..<Suc (length objs) + length rs]"
    using Cons.prems upt_conv_Cons [of "length objs" "length objs + length (r # rs)"] by (simp_all del: upt_Suc)
  have "map rid rs = [length (objs @ [basic_runnable rnd r])..<length (objs @ [basic_runnable rnd r]) + length rs]" using r(2) by simp
  note IH = Cons.IH [OF this, of "om_put (<) (int (rid r)) (length objs) m"]
  show ?case
  proof (intro conjI allI impI)
    show "fst (fold (\<lambda>r (objs, m). (objs @ [basic_runnable rnd r], om_put (<) (int (rid r)) (length objs) m)) (r # rs) (objs, m)) =
      objs @ map (basic_runnable rnd) (r # rs)"
      using IH by simp
  next
    fix i assume i: "i < length objs + length (r # rs)" "i < length objs \<longrightarrow> map_of m (int i) = Some i"
    show "map_of (snd (fold (\<lambda>r (objs, m). (objs @ [basic_runnable rnd r], om_put (<) (int (rid r)) (length objs) m)) (r # rs) (objs, m))) (int i) = Some i"
      using IH [THEN conjunct2, rule_format, of i] i by (auto simp: int_less.map_of_put r(1))
  qed
qed simp

lemma om_put_last: "(\<And>k'. k' \<in> fst ` set m \<Longrightarrow> k' < k) \<Longrightarrow> om_put (<) k v m = m @ [(k :: int, v)]"
  by (induction m) force+

lemma read_sizes_fold:
  assumes "sorted_wrt (<) (map fst m @ map (\<lambda>l. int (lid l)) ls)"
  shows "fold (\<lambda>l. om_put (<) (int (lid l)) (size_bytes l)) ls m = m @ map (\<lambda>l. (int (lid l), size_bytes l)) ls"
  using assms
proof (induction ls arbitrary: m)
  case (Cons l ls)
  have "om_put (<) (int (lid l)) (size_bytes l) m = m @ [(int (lid l), size_bytes l)]"
    by (rule om_put_last) (use Cons.prems in \<open>auto simp: sorted_wrt_append\<close>)
  then show ?case using Cons by simp
qed simp

lemma export_tree_paths:
  "descend (split_dots ''KZH15BenchmarkInstance.Tasks'') (export_tree inst) = Some (SList (map export_task (tasks inst)))"
  "descend (split_dots ''KZH15BenchmarkInstance.Runnables'') (export_tree inst) = Some (SList (map export_runnable (runnables inst)))"
  "descend (split_dots ''KZH15BenchmarkInstance.Labels'') (export_tree inst) = Some (SList (map export_label (labels inst)))"
  by (simp_all add: export_tree_def)

lemma read_exported:
  assumes rb: "reads_back api rnd R" and f: "R (read_file file) (export_tree inst)"
    and ids: "map rid (runnables inst) = [0..<length (runnables inst)]" "tasks_in (tasks inst) (runnables inst)"
      "sorted_wrt (<) (map lid (labels inst))"
  shows "benchmark_basic_new api read_file file = Some (basic_of rnd inst)"
proof -
  obtain ct where ct: "child api (read_file file) ''KZH15BenchmarkInstance.Tasks'' = Some ct" "R ct (SList (map export_task (tasks inst)))"
    by (rule read_child [OF rb f export_tree_paths(1)])
  obtain cr where cr: "child api (read_file file) ''KZH15BenchmarkInstance.Runnables'' = Some cr"
    "R cr (SList (map export_runnable (runnables inst)))"
    by (rule read_child [OF rb f export_tree_paths(2)])
  obtain cl where cl: "child api (read_file file) ''KZH15BenchmarkInstance.Labels'' = Some cl" "R cl (SList (map export_label (labels inst)))"
    by (rule read_child [OF rb f export_tree_paths(3)])
  let ?h = "\<lambda>r (objs, m). (objs @ [basic_runnable rnd r], om_put (<) (int (rid r)) (length objs) m)"
  have 1: "for_elems api (\<lambda>s (objs, rmap). do { r \<leftarrow> read_runnable api s;
      Some (objs @ [r], om_put (<) (brid r) (length objs) rmap) }) cr ([], []) = Some (fold ?h (runnables inst) ([], []))"
    by (rule read_elems [OF rb cr(2)]) (auto simp: read_exported_runnable [OF rb] basic_runnable_def)
  obtain objs rmap where o: "fold ?h (runnables inst) ([], []) = (objs, rmap)" by fastforce
  have rs: "objs = map (basic_runnable rnd) (runnables inst)" "\<And>i. i < length (runnables inst) \<Longrightarrow> map_of rmap (int i) = Some i"
    using read_runnables_fold [of "runnables inst" "[]" rnd "[]"] ids(1) o by simp_all
  have "for_elems api (\<lambda>s ts. do { t \<leftarrow> read_task api rmap s; Some (ts @ [t]) }) ct [] =
      Some (fold (\<lambda>t ts. ts @ [basic_task rnd t]) (tasks inst) [])"
  proof (rule read_elems [OF rb ct(2)])
    fix t e ts assume t: "t \<in> set (tasks inst)" "R e (export_task t)"
    have "read_task api rmap e = Some (basic_task rnd t)"
      by (rule read_exported_task [OF rb t(2)]) (use ids(2) rs(2) t(1) in \<open>auto simp: tasks_in_def\<close>)
    then show "do { t \<leftarrow> read_task api rmap e; Some (ts @ [t]) } = Some (ts @ [basic_task rnd t])" by simp
  qed
  moreover have "fold (\<lambda>t ts. ts @ [basic_task rnd t]) xs zs = zs @ map (basic_task rnd) xs" for xs zs
    by (induction xs arbitrary: zs) simp_all
  ultimately have 2: "for_elems api (\<lambda>s ts. do { t \<leftarrow> read_task api rmap s; Some (ts @ [t]) }) ct [] = Some (map (basic_task rnd) (tasks inst))"
    by simp
  have 3: "for_elems api (\<lambda>s m. do { i \<leftarrow> int_at api s ''id''; z \<leftarrow> int_at api s ''size_bytes''; Some (om_put (<) i z m) }) cl [] =
      Some (fold (\<lambda>l. om_put (<) (int (lid l)) (size_bytes l)) (labels inst) [])"
  proof (rule read_elems [OF rb cl(2)])
    fix l e m assume "R e (export_label l)"
    then show "do { i \<leftarrow> int_at api e ''id''; z \<leftarrow> int_at api e ''size_bytes''; Some (om_put (<) i z m) } =
        Some (om_put (<) (int (lid l)) (size_bytes l) m)"
      using read_int_at [OF rb, of e "export_label l"] by (simp add: export_label_def)
  qed
  have "sorted_wrt (<) (map (\<lambda>l. int (lid l)) (labels inst))" using ids(3) by (simp add: sorted_wrt_map)
  then have "fold (\<lambda>l. om_put (<) (int (lid l)) (size_bytes l)) (labels inst) [] = map (\<lambda>l. (int (lid l), size_bytes l)) (labels inst)"
    using read_sizes_fold [of "[]" "labels inst"] by simp
  then show ?thesis by (simp add: benchmark_basic_new_def ct(1) cr(1) cl(1) 1 2 3 o rs(1) basic_of_def)
qed


lemma utilization_same: "total_utilization_basic (basic_of (\<lambda>x. x) inst) = Some (get_total_utilization inst * 100)"
proof -
  have "fold_option (\<lambda>t total. do { u \<leftarrow> quotient (US_TO_MS (btwcet_us t)) (of_int (btperiod_ms t)); Some (total + u) })
      (map (basic_task (\<lambda>x. x)) ts) a = Some (fold (\<lambda>t total. total + get_utilization t) ts a)" for ts and a :: rat
  proof (induction ts arbitrary: a)
    case (Cons t ts)
    have "get_min_period_ms (tperiod_ms t) \<noteq> 0" using get_min_period_pos [of "tperiod_ms t"] by simp
    then show ?case using Cons by (simp add: basic_task_def quotient_def get_utilization_def)
  qed simp
  then show ?thesis by (simp add: total_utilization_basic_def basic_of_def get_total_utilization_def)
qed

section \<open>Labels of a basic instance\<close>

definition accessors :: "label \<Rightarrow> nat set" where
  "accessors l = set (readers l) \<union> set (writers l)"

definition own_labels :: "runnable_basic \<Rightarrow> int list" where
  "own_labels r = bro_read r @ bwo_written r @ bintra_read r @ bintra_written r"

lemma instance_ok_tasks_in: "instance_ok inst \<Longrightarrow> tasks_in (tasks inst) (runnables inst)"
  by (rule grouped_tasks_in) (simp_all add: instance_ok_def)

text \<open>Only labels that name a runnable are listed by it.\<close>

lemma listed_by:
  assumes ok: "instance_ok inst" and i: "i < length (runnables inst)"
  shows "set (own_labels (basic_runnable rnd (runnables inst ! i))) =
      {int (lid l) | l. l \<in> set (labels inst) \<and> \<not> is_inter_task l \<and> i \<in> accessors l}"
    and "set (binter_read (basic_runnable rnd (runnables inst ! i))) =
      {int (lid l) | l. l \<in> set (labels inst) \<and> is_inter_task l \<and> i \<in> set (readers l)}"
    and "set (binter_written (basic_runnable rnd (runnables inst ! i))) =
      {int (lid l) | l. l \<in> set (labels inst) \<and> is_inter_task l \<and> i \<in> set (writers l)}"
proof -
  have m: "mapped (dist (inter_task_msgs_cfg (msgs_cfg (cfg inst)))) (tasks inst) (runnables inst) l" if "l \<in> set (labels inst)" for l
    using ok that by (simp add: instance_ok_def)
  have acc: "access_lists (labels inst) (runnables inst)" using ok by (simp add: instance_ok_def)
  note a = acc [unfolded access_lists_def, rule_format, OF i]
  have kinds: "label_kind l = (kReadOnly, False) \<and> i \<in> set (readers l) \<or> label_kind l = (kWriteOnly, False) \<and> i \<in> set (writers l) \<or>
      label_kind l = (kReadWrite, False) \<and> (i \<in> set (readers l) \<or> i \<in> set (writers l)) \<longleftrightarrow> \<not> is_inter_task l \<and> i \<in> accessors l"
    if "l \<in> set (labels inst)" for l
    using m [OF that]
    by (cases "ltype l") (auto simp: mapped_def label_kind_def is_inter_task_def accessors_def split: list.splits)
  have "set (own_labels (basic_runnable rnd (runnables inst ! i))) = {int (lid l) | l. l \<in> set (labels inst) \<and>
      (label_kind l = (kReadOnly, False) \<and> i \<in> set (readers l) \<or> label_kind l = (kWriteOnly, False) \<and> i \<in> set (writers l) \<or>
       label_kind l = (kReadWrite, False) \<and> (i \<in> set (readers l) \<or> i \<in> set (writers l)))}"
    using a by (auto simp: own_labels_def basic_runnable_def reads_def writes_def)
  also have "\<dots> = {int (lid l) | l. l \<in> set (labels inst) \<and> \<not> is_inter_task l \<and> i \<in> accessors l}"
    using kinds by (intro Collect_cong ex_cong1) blast
  finally show "set (own_labels (basic_runnable rnd (runnables inst ! i))) =
      {int (lid l) | l. l \<in> set (labels inst) \<and> \<not> is_inter_task l \<and> i \<in> accessors l}" .
  show "set (binter_read (basic_runnable rnd (runnables inst ! i))) =
      {int (lid l) | l. l \<in> set (labels inst) \<and> is_inter_task l \<and> i \<in> set (readers l)}"
    "set (binter_written (basic_runnable rnd (runnables inst ! i))) =
      {int (lid l) | l. l \<in> set (labels inst) \<and> is_inter_task l \<and> i \<in> set (writers l)}"
    using a by (auto simp: basic_runnable_def reads_def writes_def label_kind_simps)
qed

lemma accessors_period:
  assumes ok: "instance_ok inst" and l: "l \<in> set (labels inst)" "\<not> is_inter_task l" "i \<in> accessors l" "j \<in> accessors l"
  shows "rperiod_ms (runnables inst ! i) = rperiod_ms (runnables inst ! j)"
proof -
  have m: "mapped (dist (inter_task_msgs_cfg (msgs_cfg (cfg inst)))) (tasks inst) (runnables inst) l" using ok l(1) by (simp add: instance_ok_def)
  have t: "rperiod_ms (runnables inst ! k) = tperiod_ms t" if "t \<in> set (tasks inst)" "k \<in> set (trunnables t)" for t k
    using ok that by (simp add: instance_ok_def task_ok_def)
  have "i = j \<or> (\<exists>t \<in> set (tasks inst). {i, j} \<subseteq> set (trunnables t))"
    using m l(2-4) by (cases "ltype l"; cases "lmtype l") (auto simp: mapped_def is_inter_task_def accessors_def split: list.splits)
  then show ?thesis using t by auto
qed

lemma accessors_bound: "instance_ok inst \<Longrightarrow> l \<in> set (labels inst) \<Longrightarrow> i \<in> accessors l \<Longrightarrow> i < length (runnables inst)"
  unfolding instance_ok_def
  by (cases "ltype l") (fastforce simp: mapped_def accessors_def split: list.splits)+

lemma lid_unique: "instance_ok inst \<Longrightarrow> l \<in> set (labels inst) \<Longrightarrow> l' \<in> set (labels inst) \<Longrightarrow> lid l = lid l' \<Longrightarrow> l = l'"
  by (auto simp: instance_ok_def strict_sorted_iff distinct_map dest: inj_onD)

lemma update_all: "n \<le> length xs \<Longrightarrow> fold (\<lambda>i. update_at i f) [0..<n] xs = map f (take n xs) @ drop n xs"
proof (induction n)
  case (Suc n)
  then have "fold (\<lambda>i. update_at i f) [0..<Suc n] xs = update_at n f (map f (take n xs) @ drop n xs)" by simp
  also have "\<dots> = map f (take (Suc n) xs) @ drop (Suc n) xs"
    using Suc.prems by (simp add: update_at_def nth_append list_update_append take_Suc_conv_app_nth Cons_nth_drop_Suc [symmetric])
  finally show ?case .
qed simp

lemma delete_set_eq:
  "delete_set s b = (\<Union>i \<in> {i \<in> set (brunnables b). too_fast s (brperiod_ms (objects b ! i))}. set (listed_labels (objects b ! i)))"
proof -
  have "fold (\<lambda>i d. if c i then d \<union> f i else d) xs d0 = d0 \<union> (\<Union>i \<in> {i \<in> set xs. c i}. f i)" for c :: "nat \<Rightarrow> bool" and f :: "nat \<Rightarrow> int set" and xs d0
    by (induction xs arbitrary: d0) auto
  then show ?thesis by (simp add: delete_set_def)
qed


section \<open>Properties\<close>

text \<open>What an adapted instance must satisfy: the labels that its runnables list have sizes, whoever
  reads an inter-task label has a writer, and tasks point to remaining runnables.\<close>

definition closed_benchmark :: "benchmark_basic \<Rightarrow> bool" where
  "closed_benchmark b \<longleftrightarrow>
     (\<forall>i \<in> set (brunnables b). set (listed_labels (objects b ! i)) \<subseteq> fst ` set (label_sizes b)) \<and>
     (\<forall>i \<in> set (brunnables b). \<forall>x \<in> set (binter_read (objects b ! i)). \<exists>j \<in> set (brunnables b). x \<in> set (binter_written (objects b ! j))) \<and>
     (\<forall>t \<in> set (btasks b). \<forall>r \<in> set (btrunnables t). \<exists>i \<in> set (brunnables b). r = Some i)"

lemma trimmed_closed:
  assumes ok: "instance_ok inst" and b: "b = basic_of rnd inst"
  shows "closed_benchmark (trim_benchmark s (resolve_label_dependencies s b))"
proof -
  let ?n = "length (runnables inst)" and ?rs = "runnables inst"
  let ?obj = "\<lambda>i. basic_runnable rnd (?rs ! i)" and ?fast = "\<lambda>i. too_fast s (get_min_period_ms (rperiod_ms (?rs ! i)))"
  define del where "del = delete_set s b"
  let ?b = "trim_benchmark s (resolve_label_dependencies s b)"
  have objs: "objects ?b = map (erase_inter del \<circ> basic_runnable rnd) ?rs"
    using update_all [of ?n "map (basic_runnable rnd) ?rs" "erase_inter del"]
    by (simp add: trim_benchmark_def resolve_label_dependencies_def b basic_of_def del_def Let_def)
  have res: "objects (resolve_label_dependencies s b) = objects ?b" by (simp add: trim_benchmark_def)
  have obj: "objects ?b ! i = erase_inter del (?obj i)" if "i < ?n" for i using that by (simp add: objs)
  have "brunnables (resolve_label_dependencies s b) = [0..<?n]"
    by (simp add: resolve_label_dependencies_def b basic_of_def Let_def)
  then have "brunnables ?b = filter (\<lambda>i. \<not> too_fast s (brperiod_ms (objects ?b ! i))) [0..<?n]"
    unfolding res [symmetric] by (simp add: trim_benchmark_def)
  moreover have "brperiod_ms (objects ?b ! i) = get_min_period_ms (rperiod_ms (?rs ! i))" if "i < ?n" for i
    using obj [OF that] by (simp add: erase_inter_def basic_runnable_def)
  ultimately have keep: "set (brunnables ?b) = {i. i < ?n \<and> \<not> ?fast i}" by auto
  have sizes: "fst ` set (label_sizes ?b) = {int (lid l) | l. l \<in> set (labels inst) \<and> int (lid l) \<notin> del}"
    by (force simp: trim_benchmark_def resolve_label_dependencies_def b basic_of_def del_def Let_def)
  have listed: "set (listed_labels (?obj i)) = {int (lid l) | l. l \<in> set (labels inst) \<and> i \<in> accessors l}" if "i < ?n" for i
  proof -
    have "set (listed_labels r) = set (own_labels r) \<union> set (binter_read r) \<union> set (binter_written r)" for r
      by (auto simp: listed_labels_def own_labels_def)
    from this [of "?obj i"] show ?thesis unfolding listed_by [OF ok that] accessors_def by blast
  qed
  have del: "del = {int (lid l) | l. l \<in> set (labels inst) \<and> (\<exists>i \<in> accessors l. ?fast i)}"
  proof -
    have "del = (\<Union>i \<in> {i. i < ?n \<and> ?fast i}. {int (lid l) | l. l \<in> set (labels inst) \<and> i \<in> accessors l})"
      using listed unfolding del_def delete_set_eq by (auto simp: b basic_of_def basic_runnable_def)
    then show ?thesis using accessors_bound [OF ok] by blast
  qed
  have del_label: "int (lid l) \<in> del \<longleftrightarrow> (\<exists>i \<in> accessors l. ?fast i)" if "l \<in> set (labels inst)" for l
    using that lid_unique [OF ok that] unfolding del by auto
  have own: "set (listed_labels (erase_inter del r)) = set (own_labels r) \<union> (set (binter_read r) \<union> set (binter_written r)) - del \<union> set (own_labels r)" for r
    by (auto simp: listed_labels_def own_labels_def erase_inter_def)
  have "set (listed_labels (objects ?b ! i)) \<subseteq> fst ` set (label_sizes ?b)" if i: "i < ?n" "\<not> ?fast i" for i
  proof
    fix x assume "x \<in> set (listed_labels (objects ?b ! i))"
    then have x: "x \<in> set (own_labels (?obj i)) \<or> x \<in> set (listed_labels (?obj i)) - del"
      unfolding obj [OF i(1)] own by (auto simp: listed_labels_def)
    have "x \<notin> del" if xo: "x \<in> set (own_labels (?obj i))"
    proof -
      obtain l where l: "l \<in> set (labels inst)" "\<not> is_inter_task l" "i \<in> accessors l" "x = int (lid l)"
        using xo unfolding listed_by(1) [OF ok i(1)] by blast
      have "\<not> ?fast j" if j: "j \<in> accessors l" for j using accessors_period [OF ok l(1-3) j] i(2) by simp
      then show ?thesis using del_label [OF l(1)] l(4) by blast
    qed
    moreover have "x \<in> set (listed_labels (?obj i))" using x by (auto simp: listed_labels_def own_labels_def)
    ultimately show "x \<in> fst ` set (label_sizes ?b)" using x listed [OF i(1)] unfolding sizes by auto
  qed
  moreover have "\<exists>j \<in> set (brunnables ?b). x \<in> set (binter_written (objects ?b ! j))"
    if i: "i < ?n" "\<not> ?fast i" and x: "x \<in> set (binter_read (objects ?b ! i))" for i x
  proof -
    have "x \<notin> del" "x \<in> set (binter_read (?obj i))" using x unfolding obj [OF i(1)] by (auto simp: erase_inter_def)
    then obtain l where l: "l \<in> set (labels inst)" "is_inter_task l" "x = int (lid l)" "\<forall>j \<in> accessors l. \<not> ?fast j"
      using listed_by(2) [OF ok i(1), of rnd] del_label by auto
    have "mapped (dist (inter_task_msgs_cfg (msgs_cfg (cfg inst)))) (tasks inst) ?rs l" using ok l(1) by (simp add: instance_ok_def)
    then obtain w where w: "w \<in> set (writers l)" using l(2) by (auto simp: mapped_def is_inter_task_def split: list.splits)
    then have a: "w \<in> accessors l" by (simp add: accessors_def)
    have n: "w < ?n" by (rule accessors_bound [OF ok l(1) a])
    have "x \<in> set (binter_written (objects ?b ! w))"
      using listed_by(3) [OF ok n, of rnd] l(1-3) w \<open>x \<notin> del\<close> by (auto simp: obj [OF n] erase_inter_def)
    then show ?thesis using keep n l(4) a by auto
  qed
  moreover have "\<exists>i \<in> set (brunnables ?b). r = Some i" if t: "t \<in> set (btasks ?b)" and r: "r \<in> set (btrunnables t)" for t r
  proof -
    obtain u where u: "u \<in> set (tasks inst)" "t = basic_task rnd u" "\<not> too_fast s (get_min_period_ms (tperiod_ms u))"
      using t by (auto simp: trim_benchmark_def resolve_label_dependencies_def b basic_of_def basic_task_def Let_def)
    obtain i where i: "i \<in> set (trunnables u)" "r = Some i" using r by (auto simp: u(2) basic_task_def)
    have "rperiod_ms (?rs ! i) = tperiod_ms u" using ok u(1) i(1) by (simp add: instance_ok_def task_ok_def)
    moreover have "i < ?n" using instance_ok_tasks_in [OF ok] u(1) i(1) by (simp add: tasks_in_def)
    ultimately show ?thesis using keep u(3) i(2) by auto
  qed
  ultimately show ?thesis unfolding closed_benchmark_def using keep by blast
qed


text \<open>C25 (export_roundtrip):
  Reading back the file that an instance was exported to gives its basic instance: tasks point to the
  objects of their runnables, periods are the least inter-arrival times, label identifiers and sizes are kept and
  floating-point numbers are those that the file format keeps. If it keeps them all, the total utilisation agrees.\<close>
theorem export_roundtrip:
  assumes "reads_back api rnd R" "instance_ok inst" "export_to_file dir inst = (file, tree)" "R (read_file file) tree"
  shows "benchmark_basic_new api read_file file = Some (basic_of rnd inst) \<and>
    ((\<forall>x. rnd x = x) \<longrightarrow> total_utilization_basic (basic_of rnd inst) = Some (get_total_utilization inst * 100))"
proof -
  have "R (read_file file) (export_tree inst)" using assms(3,4) by (simp add: export_to_file_def)
  from read_exported [where read_file = read_file, OF assms(1) this] have "benchmark_basic_new api read_file file = Some (basic_of rnd inst)"
    using instance_ok_tasks_in [OF assms(2)] assms(2) by (simp add: instance_ok_def)
  moreover have "total_utilization_basic (basic_of rnd inst) = Some (get_total_utilization inst * 100)" if "\<forall>x. rnd x = x"
  proof -
    have "rnd = (\<lambda>x. x)" using that by auto
    then show ?thesis using utilization_same by simp
  qed
  ultimately show ?thesis by blast
qed

lemma tree_settings_reads_back: "reads_back tree_settings (\<lambda>x. x) (\<lambda>s t. s = t)"
  by (auto simp: reads_back_def tree_settings_def)

lemma sample_instance_ok: "instance_ok sample_instance"
  by (rule constructor_ok [OF sample_instance_new]) (simp add: sample_kzh15_def)

lemma export_roundtrip_witness:
  "\<exists>file tree. export_to_file ''/p'' sample_instance = (file, tree) \<and>
     benchmark_basic_new tree_settings (\<lambda>_. tree) file = Some (basic_of (\<lambda>x. x) sample_instance)"
proof -
  obtain name tree where e: "export_to_file ''/p'' sample_instance = (name, tree)" by fastforce
  then show ?thesis
    using export_roundtrip [OF tree_settings_reads_back sample_instance_ok e, of "\<lambda>_. tree"] by blast
qed

text \<open>C27 (trimmed_benchmark_closed):
  Resolving label dependencies and then removing the tasks and runnables of short periods leaves a closed benchmark:
  every label that a remaining runnable lists still has a size, every reader of
  an inter-task label has a remaining writer, and every task points to remaining runnables only.\<close>
theorem trimmed_benchmark_closed:
  assumes "instance_ok inst" "b = basic_of rnd inst"
  shows "closed_benchmark (trim_benchmark s (resolve_label_dependencies s b))"
  using assms by (rule trimmed_closed)

definition sample_basic :: benchmark_basic where
  "sample_basic = basic_of (\<lambda>x. x) sample_instance"

lemma trimmed_benchmark_closed_witness:
  "closed_benchmark (trim_benchmark 6 (resolve_label_dependencies 6 sample_basic)) \<and>
   brunnables (trim_benchmark 6 (resolve_label_dependencies 6 sample_basic)) = [0, 1] \<and>
   map fst (label_sizes (trim_benchmark 6 (resolve_label_dependencies 6 sample_basic))) = [1, 3, 5]"
proof (intro conjI)
  show "closed_benchmark (trim_benchmark 6 (resolve_label_dependencies 6 sample_basic))"
    by (rule trimmed_benchmark_closed [OF sample_instance_ok sample_basic_def])
qed code_simp+

text \<open>Lemma (shrink_bounds):
  For sizes that are not negative, shrinking replaces each by the smaller one of the size and the bound, in spite of the conversions
  between signed and unsigned integers, and leaves all else unchanged.\<close>
theorem shrink_bounds:
  assumes "\<And>k s. (k, s) \<in> set (label_sizes b) \<Longrightarrow> 0 \<le> s \<and> s < 2 ^ 31"
  shows "shrink_label_sizes mx b = b\<lparr>label_sizes := map (\<lambda>(k, s). (k, min s (uint mx))) (label_sizes b)\<rparr>"
proof -
  have "(if mx < word_of_int s then sint mx else s) = min s (uint mx)" if "(k, s) \<in> set (label_sizes b)" for k s
  proof -
    have s: "0 \<le> s" "s < 2 ^ 31" using assms [OF that] by auto
    then have u: "uint (word_of_int s :: 32 word) = s" by (simp add: uint_word_of_int)
    have "sint mx = uint mx" if "uint mx < s"
      using that s by (simp add: sint_uint signed_take_bit_int_eq_self_iff) (smt (verit) uint_ge_0)
    then show ?thesis by (auto simp: word_less_def u)
  qed
  then have "map (\<lambda>(k, s). (k, if mx < word_of_int s then sint mx else s)) (label_sizes b) =
      map (\<lambda>(k, s). (k, min s (uint mx))) (label_sizes b)"
    by (intro map_cong) auto
  then show ?thesis unfolding shrink_label_sizes_def by (rule arg_cong)
qed

lemma shrink_bounds_witness:
  "label_sizes (shrink_label_sizes 64 \<lparr>objects = [], brunnables = [], btasks = [], label_sizes = [(1, 8), (2, 4096)]\<rparr>) = [(1, 8), (2, 64)]"
  by (subst shrink_bounds) auto


end
