(* ===== verification/Kzh15_Task.thy ===== *)
theory Kzh15_Task imports Kzh15_Basic Bft_Kvs Periodic_Task begin

text \<open>
  \<^verbatim>\<open>src/applications/kzh15.cpp\<close>: the periodic task that plays a task of a benchmark against a
  key-value store. Its labels are keys and padded values; a job reads labels no older than its
  release, spins, and publishes labels at its next release. The store is reached through the
  interface \<^verbatim>\<open>KVSInterface\<close>: the job takes the two virtual methods as arguments, its laws are those of
  the locale \<open>kvs\<close>, and the properties hold for the BFT store through its interpretation.
  \<open>c j i\<close> is the clock at the \<open>i\<close>-th call of the \<open>j\<close>-th batch. The
  status pairs are zero between jobs, so they are local here. Spinning between reads and writes has no effect
  but the time it takes, which \<open>get_random_et_ns\<close> draws and \<open>job_spins_no_time\<close> is about.
\<close>

section \<open>The task\<close>

record kzh15_task =
  kperiod_ns :: u64
  koffset_ns :: u64
  knum_jobs :: u64
  ro_keys :: "string list"
  ro_values :: "string list"
  wo_keys :: "string list"
  wo_values :: "string list"
  inter_read_keys :: "string list"
  inter_read_values :: "string list"
  inter_written_keys :: "string list"
  inter_written_values :: "string list"
  intra_read_keys :: "string list"
  intra_read_values :: "string list"
  intra_written_keys :: "string list"
  intra_written_values :: "string list"
  freshness :: "u64 list"
  acet_ns :: u64
  bcet_ns :: u64
  wcet_ns :: u64
  kmax_jobs :: u64
  num_jobs_to_ignore :: u64
  successful_batch_reads :: u64
  successful_batch_writes :: u64
  successful_reads :: u64
  successful_writes :: u64
  failed_batch_reads :: u64
  failed_batch_writes :: u64
  failed_reads :: u64
  failed_writes :: u64

text \<open>\<^verbatim>\<open>US_TO_NS\<close> of a double, converted to 64 unsigned bits.\<close>

definition US_TO_NS :: "rat \<Rightarrow> u64" where
  "US_TO_NS us = word_of_int (trunc (us * 1000))"

definition fresh_task :: "u64 \<Rightarrow> u64 \<Rightarrow> u64 \<Rightarrow> u64 \<Rightarrow> rat \<Rightarrow> rat \<Rightarrow> rat \<Rightarrow> kzh15_task" where
  "fresh_task period offset jobs ignored a b w =
     \<lparr>kperiod_ns = period, koffset_ns = offset, knum_jobs = 0, ro_keys = [], ro_values = [], wo_keys = [], wo_values = [],
      inter_read_keys = [], inter_read_values = [], inter_written_keys = [], inter_written_values = [],
      intra_read_keys = [], intra_read_values = [], intra_written_keys = [], intra_written_values = [],
      freshness = [], acet_ns = US_TO_NS a, bcet_ns = US_TO_NS b, wcet_ns = US_TO_NS w,
      kmax_jobs = jobs, num_jobs_to_ignore = ignored,
      successful_batch_reads = 0, successful_batch_writes = 0, successful_reads = 0, successful_writes = 0,
      failed_batch_reads = 0, failed_batch_writes = 0, failed_reads = 0, failed_writes = 0\<rparr>"

text \<open>The parameter of the beta distribution; the differences are those of unsigned integers, and an infinite
  quotient or a NaN makes the constructor of the distribution throw.\<close>

definition beta_of :: "boost_api \<Rightarrow> rat \<Rightarrow> kzh15_task \<Rightarrow> unit option" where
  "beta_of api alpha t = do {
     q \<leftarrow> quotient (of_int (uint (wcet_ns t - acet_ns t))) (of_int (uint (acet_ns t - bcet_ns t)));
     if beta_accepts api alpha (alpha * q) then Some () else None }"

text \<open>The loop over one list of labels: a missing size is inserted as zero, and values are padded to one
  character less than the size, but at least one.\<close>

fun label_values :: "int \<Rightarrow> int list \<Rightarrow> (int \<times> int) list \<Rightarrow> string list \<times> string list \<times> (int \<times> int) list" where
  "label_values mx [] sizes = ([], [], sizes)"
| "label_values mx (l # ls) sizes =
     (let (z, sizes) = om_at (<) 0 l sizes;
          (ks, vs, sizes) = label_values mx ls sizes
      in (dec_int l # ks, replicate (nat (max (min mx z - 1) 1)) (CHR ''a'') # vs, sizes))"

definition add_runnable_labels :: "int \<Rightarrow> runnable_basic \<Rightarrow> kzh15_task \<times> (int \<times> int) list \<Rightarrow> kzh15_task \<times> (int \<times> int) list" where
  "add_runnable_labels mx r = (\<lambda>(t, m).
     let (k1, v1, m) = label_values mx (bro_read r) m;
         (k2, v2, m) = label_values mx (bwo_written r) m;
         (k3, v3, m) = label_values mx (binter_read r) m;
         (k4, v4, m) = label_values mx (binter_written r) m;
         (k5, v5, m) = label_values mx (bintra_read r) m;
         (k6, v6, m) = label_values mx (bintra_written r) m
     in (t\<lparr>ro_keys := ro_keys t @ k1, ro_values := ro_values t @ v1, wo_keys := wo_keys t @ k2, wo_values := wo_values t @ v2,
          inter_read_keys := inter_read_keys t @ k3, inter_read_values := inter_read_values t @ v3,
          inter_written_keys := inter_written_keys t @ k4, inter_written_values := inter_written_values t @ v4,
          intra_read_keys := intra_read_keys t @ k5, intra_read_values := intra_read_values t @ v5,
          intra_written_keys := intra_written_keys t @ k6, intra_written_values := intra_written_values t @ v6\<rparr>, m))"

text \<open>The constructor from a basic task; a null pointer among the runnables and a period of zero are fatal.\<close>

definition kzh15_task_new :: "boost_api \<Rightarrow> u64 \<Rightarrow> u64 \<Rightarrow> u64 \<Rightarrow> runnable_basic list \<Rightarrow> task_basic \<Rightarrow> (int \<times> int) list \<Rightarrow> int
    \<Rightarrow> (kzh15_task \<times> (int \<times> int) list) option" where
  "kzh15_task_new api period offset jobs objs tb sizes mx =
     (if period = 0 then None
      else do {
        let t = fresh_task period offset jobs (2 * 1000000000 div period) (btacet_us tb) (btbcet_us tb) (btwcet_us tb);
        beta_of api 2 t;
        fold_option (\<lambda>p a. case p of Some i \<Rightarrow> Some (add_runnable_labels mx (objs ! i) a) | None \<Rightarrow> None)
          (btrunnables tb) (t, sizes) })"

text \<open>The constructor from a generated task. \<^verbatim>\<open>num_jobs_to_ignore\<close> is not initialised, so its value is an
  argument; a label of size zero would have a value of length -1.\<close>

definition padded :: "label list \<Rightarrow> nat list \<Rightarrow> (string list \<times> string list) option" where
  "padded ls ids =
     (if \<forall>i \<in> set ids. 1 \<le> size_bytes (ls ! i)
      then Some (map (\<lambda>i. dec (lid (ls ! i))) ids, map (\<lambda>i. replicate (nat (size_bytes (ls ! i) - 1)) (CHR ''a'')) ids)
      else None)"

definition add_generated_labels :: "label list \<Rightarrow> runnable \<Rightarrow> kzh15_task \<Rightarrow> kzh15_task option" where
  "add_generated_labels ls r t = do {
     (k2, v2) \<leftarrow> padded ls (wo_labels_written r);
     (k3, v3) \<leftarrow> padded ls (rw_inter_task_labels_read r);
     (k4, v4) \<leftarrow> padded ls (rw_inter_task_labels_written r);
     Some (t\<lparr>wo_keys := wo_keys t @ k2, wo_values := wo_values t @ v2,
       inter_read_keys := inter_read_keys t @ k3, inter_read_values := inter_read_values t @ v3,
       inter_written_keys := inter_written_keys t @ k4, inter_written_values := inter_written_values t @ v4\<rparr>) }"

definition kzh15_task_generated :: "boost_api \<Rightarrow> u64 \<Rightarrow> u64 \<Rightarrow> u64 \<Rightarrow> u64 \<Rightarrow> runnable list \<Rightarrow> label list \<Rightarrow> task \<Rightarrow> kzh15_task option" where
  "kzh15_task_generated api period offset jobs ignored rs ls tk = do {
     let t = fresh_task period offset jobs ignored (tacet_us tk) (tbcet_us tk) (twcet_us tk);
     beta_of api 1 t;
     fold_option (\<lambda>i. add_generated_labels ls (rs ! i)) (trunnables tk) t }"

section \<open>The job\<close>

text \<open>Reading the inter-task labels: labels of slower tasks may be as old as the last release of their writer.
  The vector of constraints must be as long as the vector of keys.\<close>

fun read_inter :: "(nat \<Rightarrow> string \<Rightarrow> u64 \<Rightarrow> string option) \<Rightarrow> (nat \<Rightarrow> u64) \<Rightarrow> u64 \<Rightarrow> u64 \<Rightarrow> u64 list \<Rightarrow> nat \<Rightarrow> string list
    \<Rightarrow> string list \<Rightarrow> stat \<Rightarrow> (stat \<times> string list) option" where
  "read_inter rd clk release period fr i [] vals st = Some (st, vals)"
| "read_inter rd clk release period fr i (k # ks) vals (su, fa) =
     (if i < length fr then
        let f = (if fr ! i > period then others_release_time_without_offset (clk i) (fr ! i) else release)
        in case rd i k f of
             Some v \<Rightarrow> read_inter rd clk release period fr (Suc i) ks (vals[i := v]) (su + 1, fa)
           | None \<Rightarrow> read_inter rd clk release period fr (Suc i) ks vals (su, fa + 1)
      else None)"

text \<open>Write the four lists of labels, with the labels read only among them.\<close>

definition write_batches :: "(nat \<Rightarrow> nat \<Rightarrow> string \<Rightarrow> u64 \<Rightarrow> string \<Rightarrow> 's \<Rightarrow> (bool \<times> 's) option) \<Rightarrow> u64 \<Rightarrow> kzh15_task \<Rightarrow> 's
    \<Rightarrow> ((stat \<times> stat \<times> stat \<times> stat) \<times> 's) option" where
  "write_batches wr publish t s = do {
     (w1, s) \<leftarrow> try_write_batch (wr 1) 0 (zip (wo_keys t) (wo_values t)) publish s (0, 0);
     (w2, s) \<leftarrow> try_write_batch (wr 2) 0 (zip (inter_written_keys t) (inter_written_values t)) publish s (0, 0);
     (w3, s) \<leftarrow> try_write_batch (wr 3) 0 (zip (intra_written_keys t) (intra_written_values t)) publish s (0, 0);
     (w4, s) \<leftarrow> try_write_batch (wr 4) 0 (zip (ro_keys t) (ro_values t)) publish s (0, 0);
     Some ((w1, w2, w3, w4), s) }"

definition count_reads :: "stat \<Rightarrow> stat \<Rightarrow> stat \<Rightarrow> kzh15_task \<Rightarrow> kzh15_task" where
  "count_reads r1 r2 r3 t =
     (let (r1, r2, r3) = (if knum_jobs t \<le> num_jobs_to_ignore t
            then ((word_of_nat (length (ro_keys t)), 0), (word_of_nat (length (inter_read_keys t)), 0),
                  (word_of_nat (length (intra_read_keys t)), 0))
            else (r1, r2, r3));
          t = t\<lparr>successful_reads := successful_reads t + fst r1 + fst r2 + fst r3,
                failed_reads := failed_reads t + snd r1 + snd r2 + snd r3\<rparr>
      in if snd r1 = 0 \<and> snd r2 = 0 \<and> snd r3 = 0 then t\<lparr>successful_batch_reads := successful_batch_reads t + 1\<rparr>
         else t\<lparr>failed_batch_reads := failed_batch_reads t + 1\<rparr>)"

definition count_writes :: "stat \<times> stat \<times> stat \<times> stat \<Rightarrow> kzh15_task \<Rightarrow> kzh15_task" where
  "count_writes = (\<lambda>(w1, w2, w3, w4) t.
     let t = t\<lparr>successful_writes := successful_writes t + fst w1 + fst w2 + fst w3 + fst w4,
               failed_writes := failed_writes t + snd w1 + snd w2 + snd w3 + snd w4\<rparr>
     in if snd w1 = 0 \<and> snd w2 = 0 \<and> snd w3 = 0 \<and> snd w4 = 0 then t\<lparr>successful_batch_writes := successful_batch_writes t + 1\<rparr>
        else t\<lparr>failed_batch_writes := failed_batch_writes t + 1\<rparr>)"

definition kzh15_job :: "('s \<Rightarrow> u64 \<Rightarrow> string \<Rightarrow> u64 \<Rightarrow> string option) \<Rightarrow> (u64 \<Rightarrow> string \<Rightarrow> u64 \<Rightarrow> string \<Rightarrow> 's \<Rightarrow> (bool \<times> 's) option)
    \<Rightarrow> u64 \<Rightarrow> (nat \<Rightarrow> nat \<Rightarrow> u64) \<Rightarrow> (nat \<Rightarrow> u64) \<Rightarrow> kzh15_task \<Rightarrow> 's \<Rightarrow> (kzh15_task \<times> 's) option" where
  "kzh15_job rd wr now c clk t s = do {
     let release = my_release_time_without_offset now (kperiod_ns t);
     let (r1, v1) = try_read_batch (\<lambda>i. rd s (c 5 i)) 0 (ro_keys t) release (ro_values t) (0, 0);
     let (r3, v3) = try_read_batch (\<lambda>i. rd s (c 6 i)) 0 (intra_read_keys t) release (intra_read_values t) (0, 0);
     (r2, v2) \<leftarrow> read_inter (\<lambda>i. rd s (c 7 i)) clk release (kperiod_ns t) (freshness t) 0 (inter_read_keys t) (inter_read_values t) (0, 0);
     let t = count_reads r1 r2 r3 (t\<lparr>ro_values := v1, intra_read_values := v3, inter_read_values := v2\<rparr>);
     let publish = release + kperiod_ns t;
     (w, s) \<leftarrow> write_batches (\<lambda>j i. wr (c j i)) publish t s;
     let t = count_writes w t;
     Some (t\<lparr>knum_jobs := knum_jobs t + 1\<rparr>, s) }"

text \<open>The time that a job spins for: a quantile of the beta distribution, converted to an integer.\<close>

definition get_random_et_ns :: "boost_api \<Rightarrow> rat \<times> rat \<Rightarrow> rat \<Rightarrow> u64" where
  "get_random_et_ns api beta_dist u = word_of_int (trunc (beta_quantile api beta_dist u))"

definition kzh15_terminate :: "kzh15_task \<Rightarrow> bool" where
  "kzh15_terminate t \<longleftrightarrow> knum_jobs t \<ge> kmax_jobs t"

definition initialize_writes :: "(u64 \<Rightarrow> string \<Rightarrow> u64 \<Rightarrow> string \<Rightarrow> 's \<Rightarrow> (bool \<times> 's) option) \<Rightarrow> (nat \<Rightarrow> nat \<Rightarrow> u64) \<Rightarrow> u64
    \<Rightarrow> kzh15_task \<Rightarrow> 's \<Rightarrow> (bool \<times> 's) option" where
  "initialize_writes wr c release t s = do {
     ((w1, w2, w3, w4), s) \<leftarrow> write_batches (\<lambda>j i. wr (c j i)) (release + koffset_ns t) t s;
     Some (snd w1 = 0 \<and> snd w2 = 0 \<and> snd w3 = 0 \<and> snd w4 = 0, s) }"

section \<open>Counting\<close>

definition kzh15_ok :: "kzh15_task \<Rightarrow> bool" where
  "kzh15_ok t \<longleftrightarrow> length (ro_values t) = length (ro_keys t) \<and> length (wo_values t) = length (wo_keys t) \<and>
     length (inter_read_values t) = length (inter_read_keys t) \<and> length (inter_written_values t) = length (inter_written_keys t) \<and>
     length (intra_read_values t) = length (intra_read_keys t) \<and> length (intra_written_values t) = length (intra_written_keys t)"

definition num_reads :: "kzh15_task \<Rightarrow> nat" where
  "num_reads t = length (ro_keys t) + length (inter_read_keys t) + length (intra_read_keys t)"

definition num_writes :: "kzh15_task \<Rightarrow> nat" where
  "num_writes t = length (wo_keys t) + length (inter_written_keys t) + length (intra_written_keys t) + length (ro_keys t)"

lemma try_read_batch_length: "try_read_batch rd i ks nv vals r = (r', vals') \<Longrightarrow> length vals' = length vals"
  by (induction rd i ks nv vals r rule: try_read_batch.induct) (auto split: option.splits)

lemma try_write_batch_counts:
  "try_write_batch wr i kvps pt s (a, b) = Some ((a', b'), s') \<Longrightarrow> a' + b' = a + b + word_of_nat (length kvps)"
proof (induction wr i kvps pt s "(a, b)" arbitrary: a b rule: try_write_batch.induct)
  case (2 wr i k v kvps pt s a b)
  then show ?case by (auto simp: algebra_simps split: option.splits if_splits)
qed simp

lemma try_write_batch_count:
  "try_write_batch wr i kvps pt s (0, 0) = Some (w, s') \<Longrightarrow> fst w + snd w = word_of_nat (length kvps)"
  by (cases w) (auto dest: try_write_batch_counts)

lemma read_inter_counts:
  "read_inter rd clk rel per fr i ks vals (a, b) = Some ((a', b'), vals') \<Longrightarrow>
   a' + b' = a + b + word_of_nat (length ks) \<and> length vals' = length vals"
proof (induction ks arbitrary: i vals a b)
  case (Cons k ks)
  show ?case
  proof (cases "i < length fr")
    case True
    let ?f = "if fr ! i > per then others_release_time_without_offset (clk i) (fr ! i) else rel"
    show ?thesis using Cons.prems True
      by (cases "rd i k ?f") (auto simp: algebra_simps Let_def dest!: Cons.IH)
  qed (use Cons.prems in simp)
qed simp

lemma write_batches_counts:
  assumes "write_batches wr pt t s = Some ((w1, w2, w3, w4), s')" "kzh15_ok t"
  shows "fst w1 + fst w2 + fst w3 + fst w4 + (snd w1 + snd w2 + snd w3 + snd w4) = word_of_nat (num_writes t)"
proof -
  obtain s1 s2 s3 where w: "try_write_batch (wr 1) 0 (zip (wo_keys t) (wo_values t)) pt s (0, 0) = Some (w1, s1)"
    "try_write_batch (wr 2) 0 (zip (inter_written_keys t) (inter_written_values t)) pt s1 (0, 0) = Some (w2, s2)"
    "try_write_batch (wr 3) 0 (zip (intra_written_keys t) (intra_written_values t)) pt s2 (0, 0) = Some (w3, s3)"
    "try_write_batch (wr 4) 0 (zip (ro_keys t) (ro_values t)) pt s3 (0, 0) = Some (w4, s')"
    using assms(1) by (auto simp: write_batches_def split: bind_splits)
  have sums: "fst w1 + snd w1 = word_of_nat (length (wo_keys t))" "fst w2 + snd w2 = word_of_nat (length (inter_written_keys t))"
    "fst w3 + snd w3 = word_of_nat (length (intra_written_keys t))" "fst w4 + snd w4 = word_of_nat (length (ro_keys t))"
    using w [THEN try_write_batch_count] assms(2) by (simp_all add: kzh15_ok_def)
  have "fst w1 + fst w2 + fst w3 + fst w4 + (snd w1 + snd w2 + snd w3 + snd w4) =
      (fst w1 + snd w1) + (fst w2 + snd w2) + (fst w3 + snd w3) + (fst w4 + snd w4)" by (simp add: algebra_simps)
  then show ?thesis unfolding sums num_writes_def by (simp add: algebra_simps)
qed

lemma count_reads_spec:
  assumes "fst r1 + snd r1 = word_of_nat (length (ro_keys t))" "fst r2 + snd r2 = word_of_nat (length (inter_read_keys t))"
    "fst r3 + snd r3 = word_of_nat (length (intra_read_keys t))"
  shows "successful_reads (count_reads r1 r2 r3 t) + failed_reads (count_reads r1 r2 r3 t) =
      successful_reads t + failed_reads t + word_of_nat (num_reads t)"
    and "successful_batch_reads (count_reads r1 r2 r3 t) + failed_batch_reads (count_reads r1 r2 r3 t) =
      successful_batch_reads t + failed_batch_reads t + 1"
    and "knum_jobs t \<le> num_jobs_to_ignore t \<Longrightarrow> failed_reads (count_reads r1 r2 r3 t) = failed_reads t \<and>
      failed_batch_reads (count_reads r1 r2 r3 t) = failed_batch_reads t"
proof -
  have s: "fst r1 + fst r2 + fst r3 + (snd r1 + snd r2 + snd r3) = word_of_nat (num_reads t)"
  proof -
    have "fst r1 + fst r2 + fst r3 + (snd r1 + snd r2 + snd r3) = (fst r1 + snd r1) + (fst r2 + snd r2) + (fst r3 + snd r3)"
      by (simp add: algebra_simps)
    then show ?thesis unfolding assms num_reads_def by (simp add: algebra_simps)
  qed
  then show "successful_reads (count_reads r1 r2 r3 t) + failed_reads (count_reads r1 r2 r3 t) =
      successful_reads t + failed_reads t + word_of_nat (num_reads t)"
    by (auto simp: count_reads_def Let_def algebra_simps num_reads_def split: prod.splits)
  show "successful_batch_reads (count_reads r1 r2 r3 t) + failed_batch_reads (count_reads r1 r2 r3 t) =
      successful_batch_reads t + failed_batch_reads t + 1"
    by (auto simp: count_reads_def Let_def split: prod.splits)
  show "knum_jobs t \<le> num_jobs_to_ignore t \<Longrightarrow> failed_reads (count_reads r1 r2 r3 t) = failed_reads t \<and>
      failed_batch_reads (count_reads r1 r2 r3 t) = failed_batch_reads t"
    by (auto simp: count_reads_def Let_def)
qed


lemma count_writes_spec:
  assumes "fst w1 + fst w2 + fst w3 + fst w4 + (snd w1 + snd w2 + snd w3 + snd w4) = n"
  shows "successful_writes (count_writes (w1, w2, w3, w4) t) + failed_writes (count_writes (w1, w2, w3, w4) t) =
      successful_writes t + failed_writes t + n"
    and "successful_batch_writes (count_writes (w1, w2, w3, w4) t) + failed_batch_writes (count_writes (w1, w2, w3, w4) t) =
      successful_batch_writes t + failed_batch_writes t + 1"
  unfolding assms [symmetric] by (auto simp: count_writes_def Let_def algebra_simps)

text \<open>What counting leaves alone.\<close>

definition rest_of :: "kzh15_task \<Rightarrow> kzh15_task" where
  "rest_of t = t\<lparr>knum_jobs := 0, successful_batch_reads := 0, successful_batch_writes := 0, successful_reads := 0, successful_writes := 0,
     failed_batch_reads := 0, failed_batch_writes := 0, failed_reads := 0, failed_writes := 0\<rparr>"

definition write_counters :: "kzh15_task \<Rightarrow> u64 \<times> u64 \<times> u64 \<times> u64" where
  "write_counters t = (successful_writes t, failed_writes t, successful_batch_writes t, failed_batch_writes t)"

definition read_counters :: "kzh15_task \<Rightarrow> u64 \<times> u64 \<times> u64 \<times> u64" where
  "read_counters t = (successful_reads t, failed_reads t, successful_batch_reads t, failed_batch_reads t)"

lemma count_reads_rest:
  "rest_of (count_reads r1 r2 r3 t) = rest_of t" "write_counters (count_reads r1 r2 r3 t) = write_counters t"
  "knum_jobs (count_reads r1 r2 r3 t) = knum_jobs t" "kperiod_ns (count_reads r1 r2 r3 t) = kperiod_ns t"
  by (auto simp: count_reads_def rest_of_def write_counters_def Let_def split: prod.splits)

lemma count_writes_rest:
  "rest_of (count_writes w t) = rest_of t" "read_counters (count_writes w t) = read_counters t"
  "knum_jobs (count_writes w t) = knum_jobs t"
  by (auto simp: count_writes_def rest_of_def read_counters_def Let_def split: prod.splits)

lemma rest_of_cong:
  assumes "rest_of t' = rest_of t"
  shows "kzh15_ok t' = kzh15_ok t \<and> num_reads t' = num_reads t \<and> num_writes t' = num_writes t"
proof -
  have "kzh15_ok (rest_of u) = kzh15_ok u \<and> num_reads (rest_of u) = num_reads u \<and> num_writes (rest_of u) = num_writes u" for u
    by (simp add: rest_of_def kzh15_ok_def num_reads_def num_writes_def)
  then show ?thesis using assms by metis
qed

lemma job_parts:
  assumes "kzh15_job rd wr now c clk t s = Some (t', s')"
  obtains r1 r2 r3 v1 v2 v3 u w where
    "try_read_batch (\<lambda>i. rd s (c 5 i)) 0 (ro_keys t) (my_release_time_without_offset now (kperiod_ns t)) (ro_values t) (0, 0) = (r1, v1)"
    "try_read_batch (\<lambda>i. rd s (c 6 i)) 0 (intra_read_keys t) (my_release_time_without_offset now (kperiod_ns t)) (intra_read_values t) (0, 0) = (r3, v3)"
    "read_inter (\<lambda>i. rd s (c 7 i)) clk (my_release_time_without_offset now (kperiod_ns t)) (kperiod_ns t) (freshness t) 0
      (inter_read_keys t) (inter_read_values t) (0, 0) = Some (r2, v2)"
    "u = count_reads r1 r2 r3 (t\<lparr>ro_values := v1, intra_read_values := v3, inter_read_values := v2\<rparr>)"
    "write_batches (\<lambda>j i. wr (c j i)) (my_release_time_without_offset now (kperiod_ns t) + kperiod_ns t) u s = Some (w, s')"
    "t' = (count_writes w u)\<lparr>knum_jobs := knum_jobs t + 1\<rparr>"
proof -
  obtain r1 v1 where 1: "try_read_batch (\<lambda>i. rd s (c 5 i)) 0 (ro_keys t) (my_release_time_without_offset now (kperiod_ns t)) (ro_values t) (0, 0) = (r1, v1)"
    by fastforce
  obtain r3 v3 where 3: "try_read_batch (\<lambda>i. rd s (c 6 i)) 0 (intra_read_keys t) (my_release_time_without_offset now (kperiod_ns t)) (intra_read_values t) (0, 0) = (r3, v3)"
    by fastforce
  obtain r2 v2 w where 2: "read_inter (\<lambda>i. rd s (c 7 i)) clk (my_release_time_without_offset now (kperiod_ns t)) (kperiod_ns t) (freshness t) 0
      (inter_read_keys t) (inter_read_values t) (0, 0) = Some (r2, v2)"
    and w: "write_batches (\<lambda>j i. wr (c j i)) (my_release_time_without_offset now (kperiod_ns t) + kperiod_ns t)
      (count_reads r1 r2 r3 (t\<lparr>ro_values := v1, intra_read_values := v3, inter_read_values := v2\<rparr>)) s = Some (w, s')"
    and t': "t' = (let u = count_writes w (count_reads r1 r2 r3 (t\<lparr>ro_values := v1, intra_read_values := v3, inter_read_values := v2\<rparr>))
      in u\<lparr>knum_jobs := knum_jobs u + 1\<rparr>)"
    using assms unfolding kzh15_job_def 1 3 Let_def
    by (auto split: bind_splits simp: count_reads_rest(4))
  show ?thesis by (rule that [OF 1 3 2 refl w]) (simp add: t' Let_def count_writes_rest count_reads_rest)
qed

lemma job_counts:
  assumes job: "kzh15_job rd wr now c clk t s = Some (t', s')" and ok: "kzh15_ok t"
  shows "kzh15_ok t' \<and> knum_jobs t' = knum_jobs t + 1 \<and>
    successful_reads t' + failed_reads t' = successful_reads t + failed_reads t + word_of_nat (num_reads t) \<and>
    successful_writes t' + failed_writes t' = successful_writes t + failed_writes t + word_of_nat (num_writes t) \<and>
    successful_batch_reads t' + failed_batch_reads t' = successful_batch_reads t + failed_batch_reads t + 1 \<and>
    successful_batch_writes t' + failed_batch_writes t' = successful_batch_writes t + failed_batch_writes t + 1 \<and>
    (knum_jobs t \<le> num_jobs_to_ignore t \<longrightarrow> failed_reads t' = failed_reads t \<and> failed_batch_reads t' = failed_batch_reads t)"
  using job
proof (rule job_parts)
  fix r1 r2 r3 v1 v2 v3 u w
  let ?rel = "my_release_time_without_offset now (kperiod_ns t)"
  let ?t = "t\<lparr>ro_values := v1, intra_read_values := v3, inter_read_values := v2\<rparr>"
  assume 1: "try_read_batch (\<lambda>i. rd s (c 5 i)) 0 (ro_keys t) ?rel (ro_values t) (0, 0) = (r1, v1)"
    and 3: "try_read_batch (\<lambda>i. rd s (c 6 i)) 0 (intra_read_keys t) ?rel (intra_read_values t) (0, 0) = (r3, v3)"
    and 2: "read_inter (\<lambda>i. rd s (c 7 i)) clk ?rel (kperiod_ns t) (freshness t) 0 (inter_read_keys t) (inter_read_values t) (0, 0) = Some (r2, v2)"
    and u: "u = count_reads r1 r2 r3 ?t"
    and w: "write_batches (\<lambda>j i. wr (c j i)) (?rel + kperiod_ns t) u s = Some (w, s')"
    and t': "t' = (count_writes w u)\<lparr>knum_jobs := knum_jobs t + 1\<rparr>"
  have sums: "fst r1 + snd r1 = word_of_nat (length (ro_keys ?t))" "fst r2 + snd r2 = word_of_nat (length (inter_read_keys ?t))"
    "fst r3 + snd r3 = word_of_nat (length (intra_read_keys ?t))"
    using try_read_batch_counts [of _ 0 "ro_keys t" ?rel "ro_values t" 0 0 "fst r1" "snd r1" v1]
      try_read_batch_counts [of _ 0 "intra_read_keys t" ?rel "intra_read_values t" 0 0 "fst r3" "snd r3" v3]
      read_inter_counts [of _ clk ?rel "kperiod_ns t" "freshness t" 0 "inter_read_keys t" "inter_read_values t" 0 0 "fst r2" "snd r2" v2]
      1 2 3 by simp_all
  have lens: "length v1 = length (ro_values t)" "length v3 = length (intra_read_values t)" "length v2 = length (inter_read_values t)"
    using try_read_batch_length [OF 1] try_read_batch_length [OF 3] read_inter_counts [of _ clk ?rel "kperiod_ns t" "freshness t" 0
      "inter_read_keys t" "inter_read_values t" 0 0 "fst r2" "snd r2" v2] 2 by simp_all
  have okt: "kzh15_ok ?t" "num_reads ?t = num_reads t" "num_writes ?t = num_writes t"
    using ok lens by (simp_all add: kzh15_ok_def num_reads_def num_writes_def)
  have cu: "kzh15_ok u" "num_writes u = num_writes t"
    using rest_of_cong [OF count_reads_rest(1) [of r1 r2 r3 ?t]] okt unfolding u by simp_all
  obtain w1 w2 w3 w4 where w4: "w = (w1, w2, w3, w4)" by (metis prod_cases4)
  note ws = write_batches_counts [OF w [unfolded w4] cu(1), unfolded cu(2)]
  note rs = count_reads_spec [OF sums, unfolded okt(2), folded u]
  note wr = count_writes_spec [OF ws, of u, folded w4]
  have same: "read_counters (count_writes w u) = read_counters u" "write_counters u = write_counters t" "rest_of (count_writes w u) = rest_of u"
    using count_writes_rest count_reads_rest unfolding u by (simp_all add: write_counters_def)
  have "kzh15_ok t'" using rest_of_cong [OF same(3)] cu(1) unfolding t' by (simp add: kzh15_ok_def)
  then show ?thesis using rs wr same(1,2) unfolding t' by (simp add: read_counters_def write_counters_def)
qed


section \<open>The job and its store\<close>

context kvs
begin

lemma write_batches_inv:
  assumes "inv s" "write_batches (\<lambda>j i. try_write (c j i)) pt t s = Some (w, s')"
  shows "inv s'"
proof -
  obtain w1 w2 w3 w4 s1 s2 s3 where w: "try_write_batch (\<lambda>i. try_write (c 1 i)) 0 (zip (wo_keys t) (wo_values t)) pt s (0, 0) = Some (w1, s1)"
    "try_write_batch (\<lambda>i. try_write (c 2 i)) 0 (zip (inter_written_keys t) (inter_written_values t)) pt s1 (0, 0) = Some (w2, s2)"
    "try_write_batch (\<lambda>i. try_write (c 3 i)) 0 (zip (intra_written_keys t) (intra_written_values t)) pt s2 (0, 0) = Some (w3, s3)"
    "try_write_batch (\<lambda>i. try_write (c 4 i)) 0 (zip (ro_keys t) (ro_values t)) pt s3 (0, 0) = Some (w4, s')"
    using assms(2) by (auto simp: write_batches_def split: bind_splits)
  show ?thesis by (rule batch_inv [OF batch_inv [OF batch_inv [OF batch_inv [OF assms(1) w(1)] w(2)] w(3)] w(4)])
qed

text \<open>A job that reaches its writes only when its next release has come publishes nothing.\<close>

lemma write_batches_late:
  assumes "\<forall>j i. pt \<le> c j i"
  shows "\<exists>n1 n2 n3 n4. write_batches (\<lambda>j i. try_write (c j i)) pt t s = Some (((0, n1), (0, n2), (0, n3), (0, n4)), s)"
  using late_batch [of pt, where s = s and succ = 0 and fail = 0 and i = 0] assms by (simp add: write_batches_def)

lemma job_store:
  assumes job: "kzh15_job try_read try_write now c clk t s = Some (t', s')" and "inv s"
  shows "inv s' \<and> ((\<forall>j i. my_release_time_without_offset now (kperiod_ns t) + kperiod_ns t \<le> c j i) \<longrightarrow>
    s' = s \<and> successful_writes t' = successful_writes t)"
  using job
proof (rule job_parts)
  fix r1 r2 r3 v1 v2 v3 u w
  let ?pt = "my_release_time_without_offset now (kperiod_ns t) + kperiod_ns t"
  assume u: "u = count_reads r1 r2 r3 (t\<lparr>ro_values := v1, intra_read_values := v3, inter_read_values := v2\<rparr>)"
    and w: "write_batches (\<lambda>j i. try_write (c j i)) ?pt u s = Some (w, s')"
    and t': "t' = (count_writes w u)\<lparr>knum_jobs := knum_jobs t + 1\<rparr>"
  have "write_counters u = write_counters t" using count_reads_rest(2) unfolding u by (simp add: write_counters_def)
  moreover have "s' = s \<and> successful_writes (count_writes w u) = successful_writes u" if "\<forall>j i. ?pt \<le> c j i"
    using write_batches_late [OF that, of u s] w by (auto simp: count_writes_def Let_def)
  ultimately show ?thesis using write_batches_inv [OF assms(2) w] unfolding t' by (simp add: write_counters_def)
qed

end

section \<open>Values that fit\<close>

definition fits :: "int \<Rightarrow> string list \<Rightarrow> bool" where
  "fits mx vs \<longleftrightarrow> (\<forall>v \<in> set vs. 1 \<le> length v \<and> int (length v) \<le> max 1 (mx - 1))"

definition all_fit :: "int \<Rightarrow> kzh15_task \<Rightarrow> bool" where
  "all_fit mx t \<longleftrightarrow> fits mx (ro_values t) \<and> fits mx (wo_values t) \<and> fits mx (inter_read_values t) \<and>
     fits mx (inter_written_values t) \<and> fits mx (intra_read_values t) \<and> fits mx (intra_written_values t)"

lemma label_values_fit:
  "label_values mx ls m = (ks, vs, m') \<Longrightarrow> length vs = length ks \<and> fits mx vs \<and> ks = map dec_int ls"
proof (induction ls arbitrary: m ks vs m')
  case (Cons l ls)
  obtain z m1 where 1: "om_at (<) 0 l m = (z, m1)" by fastforce
  obtain ks1 vs1 m2 where 2: "label_values mx ls m1 = (ks1, vs1, m2)" by (metis prod_cases3)
  have "ks = dec_int l # ks1" "vs = replicate (nat (max (min mx z - 1) 1)) (CHR ''a'') # vs1"
    using Cons.prems 1 2 by auto
  then show ?case using Cons.IH [OF 2] by (auto simp: fits_def)
qed (simp add: fits_def)

lemma fits_append: "fits mx (a @ b) \<longleftrightarrow> fits mx a \<and> fits mx b"
  by (auto simp: fits_def)

lemma add_runnable_labels_ok:
  assumes "kzh15_ok t" "all_fit mx t"
  shows "kzh15_ok (fst (add_runnable_labels mx r (t, m))) \<and> all_fit mx (fst (add_runnable_labels mx r (t, m)))"
proof -
  obtain k1 v1 m1 where 1: "label_values mx (bro_read r) m = (k1, v1, m1)" by (metis prod_cases3)
  obtain k2 v2 m2 where 2: "label_values mx (bwo_written r) m1 = (k2, v2, m2)" by (metis prod_cases3)
  obtain k3 v3 m3 where 3: "label_values mx (binter_read r) m2 = (k3, v3, m3)" by (metis prod_cases3)
  obtain k4 v4 m4 where 4: "label_values mx (binter_written r) m3 = (k4, v4, m4)" by (metis prod_cases3)
  obtain k5 v5 m5 where 5: "label_values mx (bintra_read r) m4 = (k5, v5, m5)" by (metis prod_cases3)
  obtain k6 v6 m6 where 6: "label_values mx (bintra_written r) m5 = (k6, v6, m6)" by (metis prod_cases3)
  show ?thesis
    using assms label_values_fit [OF 1] label_values_fit [OF 2] label_values_fit [OF 3] label_values_fit [OF 4]
      label_values_fit [OF 5] label_values_fit [OF 6]
    by (simp add: add_runnable_labels_def 1 2 3 4 5 6 kzh15_ok_def all_fit_def fits_append)
qed

lemma kzh15_task_new_ok:
  assumes "kzh15_task_new api period offset jobs objs tb sizes mx = Some (t, sizes')"
  shows "kzh15_ok t \<and> all_fit mx t"
proof -
  have fresh: "kzh15_ok (fresh_task p off j ig a b w)" "all_fit mx (fresh_task p off j ig a b w)" for p off j ig a b w
    by (simp_all add: fresh_task_def kzh15_ok_def all_fit_def fits_def)
  obtain t0 where t0: "kzh15_ok t0" "all_fit mx t0"
    and f: "fold_option (\<lambda>p a. case p of Some i \<Rightarrow> Some (add_runnable_labels mx (objs ! i) a) | None \<Rightarrow> None) (btrunnables tb) (t0, sizes) = Some (t, sizes')"
    using assms fresh by (fastforce simp: kzh15_task_new_def Let_def split: if_splits bind_splits)
  have "kzh15_ok (fst (t, sizes')) \<and> all_fit mx (fst (t, sizes'))"
  proof (rule fold_option_inv [OF f])
    fix p a b
    assume "(case p of Some i \<Rightarrow> Some (add_runnable_labels mx (objs ! i) a) | None \<Rightarrow> None) = Some b"
      and a: "kzh15_ok (fst a) \<and> all_fit mx (fst a)"
    then obtain i where "b = add_runnable_labels mx (objs ! i) (fst a, snd a)" by (auto split: option.splits)
    then show "kzh15_ok (fst b) \<and> all_fit mx (fst b)"
      using a add_runnable_labels_ok [of "fst a" mx "objs ! i" "snd a"] by simp
  qed (use t0 in simp)
  then show ?thesis by simp
qed


section \<open>Spinning\<close>

text \<open>Lemma (job_spins_no_time): a quantile lies in the unit interval, so the time a job spins for is at most one
  nanosecond, whatever the execution times of its task are: spinning ends with the first reading of
  the clock that has advanced.\<close>

theorem job_spins_no_time:
  assumes q: "\<forall>ab u. 0 \<le> u \<and> u \<le> 1 \<longrightarrow> 0 \<le> beta_quantile api ab u \<and> beta_quantile api ab u \<le> 1"
    and u: "0 \<le> u" "u \<le> 1" and clock: "1 \<le> TS_TO_NS (timespecsub now start)"
  shows "get_random_et_ns api ab u \<le> 1 \<and> spin (get_random_et_ns api ab u) (start # now # rest) = Some now"
proof -
  have "0 \<le> beta_quantile api ab u" "beta_quantile api ab u \<le> 1" using q u by blast+
  then have "0 \<le> trunc (beta_quantile api ab u)" "trunc (beta_quantile api ab u) \<le> 1"
    by (simp_all add: trunc_def floor_le_iff)
  then have "trunc (beta_quantile api ab u) = 0 \<or> trunc (beta_quantile api ab u) = 1" by linarith
  then have "get_random_et_ns api ab u = 0 \<or> get_random_et_ns api ab u = 1" by (auto simp: get_random_et_ns_def)
  then show ?thesis using clock by auto
qed

theorem job_spins_no_time_witness:
  "spin (get_random_et_ns sample_boost (2, 3) (1 / 2)) [\<lparr>tv_sec = 1, tv_nsec = 0\<rparr>, \<lparr>tv_sec = 1, tv_nsec = 5\<rparr>] = Some \<lparr>tv_sec = 1, tv_nsec = 5\<rparr>"
  using job_spins_no_time [of sample_boost "1 / 2" "\<lparr>tv_sec = 1, tv_nsec = 5\<rparr>" "\<lparr>tv_sec = 1, tv_nsec = 0\<rparr>" "(2, 3)" "[]"]
  by (simp add: sample_boost_def timespecsub_def TS_TO_NS_def SEC_NS_def)


end
