(* ===== verification/Kzh15_Run.thy ===== *)
theory Kzh15_Run imports Kzh15_Task Bft_Job begin

text \<open>
  The release loop of a benchmark task (\<^verbatim>\<open>src/utils/periodic_task.cpp\<close>, \<^verbatim>\<open>src/applications/kzh15.cpp\<close>)
  over a store that other tasks change between its jobs: every job reports each of its reads and writes
  exactly once, an overrunning job publishes nothing, and a task whose keys and values fit the store and whose
  jobs fit the table of execution times reaches its last job; with more jobs, or with a key that is too long, it fails an assertion.
\<close>

section \<open>The run\<close>

text \<open>A tick: what the other tasks do to the store before the job, the time of its first clock reading, the
  clock of its batches, and the clock of its freshness constraints.\<close>

type_synonym 's tick = "('s \<Rightarrow> 's) \<times> u64 \<times> (nat \<Rightarrow> nat \<Rightarrow> u64) \<times> (nat \<Rightarrow> u64)"

text \<open>After each job the loop asserts that the number of jobs is within the table of execution times.\<close>

fun kzh15_run :: "('s \<Rightarrow> u64 \<Rightarrow> string \<Rightarrow> u64 \<Rightarrow> string option) \<Rightarrow> (u64 \<Rightarrow> string \<Rightarrow> u64 \<Rightarrow> string \<Rightarrow> 's \<Rightarrow> (bool \<times> 's) option)
    \<Rightarrow> 's tick list \<Rightarrow> kzh15_task \<Rightarrow> 's \<Rightarrow> (kzh15_task \<times> 's) option" where
  "kzh15_run rd wr [] t s = (if kzh15_terminate t then Some (t, s) else None)"
| "kzh15_run rd wr ((env, now, c, clk) # ticks) t s =
     (if kzh15_terminate t then Some (t, s)
      else case kzh15_job rd wr now c clk t (env s) of
             None \<Rightarrow> None
           | Some (t', s') \<Rightarrow>
               if unat (knum_jobs t') \<le> MAX_NUM_JOBS then kzh15_run rd wr ticks t' s' else None)"

section \<open>What a job leaves alone\<close>

definition task_frame :: "kzh15_task \<Rightarrow> string list list \<times> u64 list \<times> u64 \<times> u64 \<times> u64" where
  "task_frame t = ([ro_keys t, wo_keys t, inter_read_keys t, inter_written_keys t, intra_read_keys t, intra_written_keys t,
     wo_values t, inter_written_values t, intra_written_values t], freshness t, kmax_jobs t, kperiod_ns t, num_jobs_to_ignore t)"

lemma task_frame_rest: "task_frame (rest_of t) = task_frame t"
  by (simp add: task_frame_def rest_of_def)

lemma task_frame_sizes: "task_frame t' = task_frame t \<Longrightarrow> num_reads t' = num_reads t \<and> num_writes t' = num_writes t"
  by (simp add: task_frame_def num_reads_def num_writes_def)

lemma job_frame:
  assumes "kzh15_job rd wr now c clk t s = Some (t', s')"
  shows "task_frame t' = task_frame t"
  using assms
proof (rule job_parts)
  fix r1 r2 r3 v1 v2 v3 u w
  let ?t = "t\<lparr>ro_values := v1, intra_read_values := v3, inter_read_values := v2\<rparr>"
  assume u: "u = count_reads r1 r2 r3 ?t" and t': "t' = (count_writes w u)\<lparr>knum_jobs := knum_jobs t + 1\<rparr>"
  have "rest_of t' = rest_of ?t"
    using count_writes_rest(1) [of w u] count_reads_rest(1) [of r1 r2 r3 ?t]
    unfolding t' u by (simp add: rest_of_def)
  then have "task_frame t' = task_frame ?t" using task_frame_rest by metis
  then show ?thesis by (simp add: task_frame_def)
qed

section \<open>A task that fits its store\<close>

definition task_fits :: "nat \<Rightarrow> nat \<Rightarrow> kzh15_task \<Rightarrow> bool" where
  "task_fits KS VS t \<longleftrightarrow>
     (\<forall>k \<in> set (wo_keys t @ inter_written_keys t @ intra_written_keys t @ ro_keys t). length k \<le> KS) \<and>
     (\<forall>v \<in> set (wo_values t @ inter_written_values t @ intra_written_values t @ ro_values t). length v \<le> VS)"

definition constrained :: "kzh15_task \<Rightarrow> bool" where
  "constrained t \<longleftrightarrow> length (inter_read_keys t) \<le> length (freshness t)"

lemma read_inter_total:
  "i + length ks \<le> length fr \<Longrightarrow> \<exists>r'. read_inter rd clk rel per fr i ks vals r = Some r'"
proof (induction ks arbitrary: i vals r)
  case (Cons k ks)
  obtain su fa where r: "r = (su, fa)" by (cases r)
  let ?f = "if fr ! i > per then others_release_time_without_offset (clk i) (fr ! i) else rel"
  have "i < length fr" "Suc i + length ks \<le> length fr" using Cons.prems by simp_all
  then show ?case using Cons.IH unfolding r by (cases "rd i k ?f") (simp_all add: Let_def)
qed simp


context bounded_kvs
begin

lemma write_batches_total:
  assumes "inv s" "task_fits KS VS t"
  shows "\<exists>w s'. write_batches (\<lambda>j i. try_write (c j i)) pt t s = Some (w, s') \<and> inv s'"
proof -
  have fit: "\<forall>(k, v) \<in> set (zip (wo_keys t) (wo_values t)). length k \<le> KS \<and> length v \<le> VS"
    "\<forall>(k, v) \<in> set (zip (inter_written_keys t) (inter_written_values t)). length k \<le> KS \<and> length v \<le> VS"
    "\<forall>(k, v) \<in> set (zip (intra_written_keys t) (intra_written_values t)). length k \<le> KS \<and> length v \<le> VS"
    "\<forall>(k, v) \<in> set (zip (ro_keys t) (ro_values t)). length k \<le> KS \<and> length v \<le> VS"
    using assms(2) by (auto simp: task_fits_def dest: set_zip_leftD set_zip_rightD)
  obtain w1 s1 where 1: "try_write_batch (\<lambda>i. try_write (c 1 i)) 0 (zip (wo_keys t) (wo_values t)) pt s (0, 0) = Some (w1, s1)" "inv s1"
    using write_batch_total [OF assms(1) fit(1)] by blast
  obtain w2 s2 where 2: "try_write_batch (\<lambda>i. try_write (c 2 i)) 0 (zip (inter_written_keys t) (inter_written_values t)) pt s1 (0, 0) = Some (w2, s2)" "inv s2"
    using write_batch_total [OF 1(2) fit(2)] by blast
  obtain w3 s3 where 3: "try_write_batch (\<lambda>i. try_write (c 3 i)) 0 (zip (intra_written_keys t) (intra_written_values t)) pt s2 (0, 0) = Some (w3, s3)" "inv s3"
    using write_batch_total [OF 2(2) fit(3)] by blast
  obtain w4 s4 where 4: "try_write_batch (\<lambda>i. try_write (c 4 i)) 0 (zip (ro_keys t) (ro_values t)) pt s3 (0, 0) = Some (w4, s4)" "inv s4"
    using write_batch_total [OF 3(2) fit(4)] by blast
  have "write_batches (\<lambda>j i. try_write (c j i)) pt t s = Some ((w1, w2, w3, w4), s4)"
    unfolding write_batches_def using 1(1) 2(1) 3(1) 4(1) by simp
  then show ?thesis using 4(2) by blast
qed

lemma job_total:
  assumes "inv s" "task_fits KS VS t" "constrained t"
  shows "\<exists>t' s'. kzh15_job try_read try_write now c clk t s = Some (t', s') \<and> inv s' \<and> task_fits KS VS t'"
proof -
  let ?rel = "my_release_time_without_offset now (kperiod_ns t)"
  obtain r1 v1 where 1: "try_read_batch (\<lambda>i. try_read s (c 5 i)) 0 (ro_keys t) ?rel (ro_values t) (0, 0) = (r1, v1)" by fastforce
  obtain r3 v3 where 3: "try_read_batch (\<lambda>i. try_read s (c 6 i)) 0 (intra_read_keys t) ?rel (intra_read_values t) (0, 0) = (r3, v3)" by fastforce
  obtain r2 v2 where 2: "read_inter (\<lambda>i. try_read s (c 7 i)) clk ?rel (kperiod_ns t) (freshness t) 0 (inter_read_keys t) (inter_read_values t) (0, 0) = Some (r2, v2)"
    using read_inter_total [of 0 "inter_read_keys t" "freshness t"] assms(3) by (fastforce simp: constrained_def)
  define u where "u = count_reads r1 r2 r3 (t\<lparr>ro_values := v1, intra_read_values := v3, inter_read_values := v2\<rparr>)"
  have rest: "rest_of u = rest_of (t\<lparr>ro_values := v1, intra_read_values := v3, inter_read_values := v2\<rparr>)"
    unfolding u_def by (rule count_reads_rest(1))
  have fits_rest: "task_fits KS VS (rest_of x) = task_fits KS VS x" for x by (simp add: task_fits_def rest_of_def)
  have "\<forall>v \<in> set v1. length v \<le> VS"
    using read_batch_fits [OF assms(1) _ 1] assms(2) by (simp add: task_fits_def)
  then have "task_fits KS VS (t\<lparr>ro_values := v1, intra_read_values := v3, inter_read_values := v2\<rparr>)"
    using assms(2) by (auto simp: task_fits_def)
  then have fu: "task_fits KS VS u" using rest fits_rest by metis
  obtain w s' where w: "write_batches (\<lambda>j i. try_write (c j i)) (?rel + kperiod_ns t) u s = Some (w, s')" "inv s'"
    using write_batches_total [OF assms(1) fu] by blast
  let ?t' = "(count_writes w u)\<lparr>knum_jobs := knum_jobs (count_writes w u) + 1\<rparr>"
  have ru: "kperiod_ns u = kperiod_ns t" unfolding u_def by (simp add: count_reads_rest)
  have "kzh15_job try_read try_write now c clk t s = Some (?t', s')"
    unfolding kzh15_job_def Let_def 1 3 by (simp add: 2 u_def [symmetric] ru w(1))
  moreover have "rest_of ?t' = rest_of u" using count_writes_rest(1) [of w u] by (simp add: rest_of_def)
  then have "task_fits KS VS ?t'" using fu fits_rest by metis
  ultimately show ?thesis using w(2) by blast
qed

end

section \<open>The run completes and accounts for every access\<close>

definition accounted :: "kzh15_task \<Rightarrow> bool" where
  "accounted t \<longleftrightarrow> kzh15_ok t \<and>
     successful_reads t + failed_reads t = knum_jobs t * word_of_nat (num_reads t) \<and>
     successful_writes t + failed_writes t = knum_jobs t * word_of_nat (num_writes t) \<and>
     successful_batch_reads t + failed_batch_reads t = knum_jobs t \<and>
     successful_batch_writes t + failed_batch_writes t = knum_jobs t"

lemma job_accounted:
  assumes "kzh15_job rd wr now c clk t s = Some (t', s')" "accounted t"
  shows "accounted t' \<and> knum_jobs t' = knum_jobs t + 1"
  using job_counts [OF assms(1)] task_frame_sizes [OF job_frame [OF assms(1)]] assms(2)
  by (simp add: accounted_def algebra_simps)

lemma run_accounted:
  assumes "kzh15_run rd wr ticks t s = Some (t', s')" "accounted t" "knum_jobs t \<le> kmax_jobs t"
  shows "accounted t' \<and> task_frame t' = task_frame t \<and> knum_jobs t' = kmax_jobs t"
  using assms
proof (induction rd wr ticks t s arbitrary: t' s' rule: kzh15_run.induct)
  case (1 rd wr t s)
  then show ?case by (auto simp: kzh15_terminate_def split: if_splits)
next
  case (2 rd wr env now c clk ticks t s)
  show ?case
  proof (cases "kzh15_terminate t")
    case True
    then show ?thesis using "2.prems" by (auto simp: kzh15_terminate_def)
  next
    case False
    then obtain t1 s1 where job: "kzh15_job rd wr now c clk t (env s) = Some (t1, s1)" and few: "unat (knum_jobs t1) \<le> MAX_NUM_JOBS"
      and run: "kzh15_run rd wr ticks t1 s1 = Some (t', s')"
      using "2.prems"(1) by (auto split: option.splits if_splits)
    note one = job_accounted [OF job "2.prems"(2)] job_frame [OF job]
    have "kmax_jobs t1 = kmax_jobs t" using one(2) by (simp add: task_frame_def)
    moreover have "knum_jobs t < kmax_jobs t" using False by (simp add: kzh15_terminate_def)
    ultimately have "knum_jobs t1 \<le> kmax_jobs t1" using one(1) by (simp add: inc_le)
    then show ?thesis
      using "2.IH" [OF False job refl few run] one \<open>kmax_jobs t1 = kmax_jobs t\<close> by simp
  qed
qed

text \<open>A run that returns has passed the assertion after each of its jobs.\<close>

lemma run_few_jobs:
  "kzh15_run rd wr ticks t s = Some (t', s') \<Longrightarrow>
   kmax_jobs t' \<le> knum_jobs t' \<and> kmax_jobs t' = kmax_jobs t \<and> (t' = t \<or> unat (knum_jobs t') \<le> MAX_NUM_JOBS)"
proof (induction rd wr ticks t s rule: kzh15_run.induct)
  case (1 rd wr t s)
  then show ?case by (auto simp: kzh15_terminate_def split: if_splits)
next
  case (2 rd wr env now c clk ticks t s)
  show ?case
  proof (cases "kzh15_terminate t")
    case True
    then show ?thesis using "2.prems" by (auto simp: kzh15_terminate_def)
  next
    case False
    then obtain t1 s1 where job: "kzh15_job rd wr now c clk t (env s) = Some (t1, s1)" and few: "unat (knum_jobs t1) \<le> MAX_NUM_JOBS"
      and run: "kzh15_run rd wr ticks t1 s1 = Some (t', s')"
      using "2.prems"(1) by (auto split: option.splits if_splits)
    show ?thesis using "2.IH" [OF False job refl few run] few job_frame [OF job] by (auto simp: task_frame_def)
  qed
qed

lemma run_too_many_jobs:
  assumes "knum_jobs t = 0" "MAX_NUM_JOBS < unat (kmax_jobs t)"
  shows "kzh15_run rd wr ticks t s = None"
proof (rule ccontr)
  assume "kzh15_run rd wr ticks t s \<noteq> None"
  then obtain t' s' where "kzh15_run rd wr ticks t s = Some (t', s')" by auto
  from run_few_jobs [OF this] have "unat (kmax_jobs t) \<le> unat (knum_jobs t')" "t' = t \<or> unat (knum_jobs t') \<le> MAX_NUM_JOBS"
    by (auto simp: word_le_nat_alt)
  then show False using assms by auto
qed

context bounded_kvs
begin

lemma run_total:
  assumes "inv s" "task_fits KS VS t" "constrained t" "unat (kmax_jobs t) - unat (knum_jobs t) \<le> length ticks"
    and "unat (kmax_jobs t) \<le> MAX_NUM_JOBS"
    and "\<forall>(env, x) \<in> set ticks. \<forall>s. inv s \<longrightarrow> inv (env s)"
  shows "\<exists>t' s'. kzh15_run try_read try_write ticks t s = Some (t', s') \<and> inv s'"
  using assms
proof (induction ticks arbitrary: t s)
  case Nil
  then show ?case by (simp add: kzh15_terminate_def word_le_nat_alt)
next
  case (Cons tick ticks)
  obtain env now c clk where tick: "tick = (env, now, c, clk)" by (cases tick) auto
  show ?case
  proof (cases "kzh15_terminate t")
    case False
    have "inv (env s)" using Cons.prems(1,6) tick by simp
    then obtain t1 s1 where job: "kzh15_job try_read try_write now c clk t (env s) = Some (t1, s1)" "inv s1" "task_fits KS VS t1"
      using job_total Cons.prems(2,3) by blast
    have fr: "constrained t1" "kmax_jobs t1 = kmax_jobs t"
      using job_frame [OF job(1)] Cons.prems(3) by (simp_all add: task_frame_def constrained_def)
    have "knum_jobs t1 = knum_jobs t + 1" using job(1) by (auto elim!: job_parts)
    moreover have "Suc (unat (knum_jobs t)) < 2 ^ 64"
      using False unat_lt_u64 [of "kmax_jobs t"] by (simp add: kzh15_terminate_def not_le word_less_nat_alt)
    ultimately have "unat (knum_jobs t1) = Suc (unat (knum_jobs t))" by (simp add: unat_word_ariths(1))
    then have n1: "unat (knum_jobs t1) = Suc (unat (knum_jobs t))" .
    then have "unat (kmax_jobs t1) - unat (knum_jobs t1) \<le> length ticks" using Cons.prems(4) fr(2) by simp
    moreover have "\<forall>(env, x) \<in> set ticks. \<forall>s. inv s \<longrightarrow> inv (env s)" using Cons.prems(6) by simp
    moreover have "unat (knum_jobs t) < unat (kmax_jobs t)" using False by (simp add: kzh15_terminate_def not_le word_less_nat_alt)
    then have "unat (knum_jobs t1) \<le> MAX_NUM_JOBS" using n1 Cons.prems(5) by simp
    ultimately show ?thesis using Cons.IH [OF job(2,3) fr(1)] False tick job(1) Cons.prems(5) fr(2) by simp
  qed (use Cons.prems(1) tick in simp)
qed

end


section \<open>Over the BFT store\<close>

definition stored_fit :: "nat \<Rightarrow> bft_kvs \<Rightarrow> bool" where
  "stored_fit VS s \<longleftrightarrow> (\<forall>k b e. store s k = Some b \<longrightarrow> e \<in> set b \<longrightarrow> length (snd e) \<le> VS)"

lemma scan_bucket_mem: "scan_bucket now nv b = Some v \<Longrightarrow> \<exists>e \<in> set b. snd e = v"
  by (induction now nv b rule: scan_bucket.induct) (auto split: if_splits)

interpretation bft_bounded: bounded_kvs try_read "try_write NT KS VS" "\<lambda>s. bft_ok NT KS VS s \<and> stored_fit VS s" KS VS
  for NT KS VS
proof
  fix s s' now k publish_time v ok
  assume "bft_ok NT KS VS s \<and> stored_fit VS s" "try_write NT KS VS now k publish_time v s = Some (ok, s')"
  moreover from this have "bft_ok NT KS VS s'" using bft.inv_write by blast
  ultimately show "bft_ok NT KS VS s' \<and> stored_fit VS s'" by (auto simp: try_write_def stored_fit_def split: if_splits)
next
  fix s now k nv v
  assume "bft_ok NT KS VS s \<and> stored_fit VS s" "try_read s now k nv = Some v"
  then show "length v \<le> VS"
    using scan_bucket_mem [of now nv _ v] by (fastforce simp: try_read_def stored_fit_def split: if_splits option.splits)
qed (auto simp: bft.future_read bft.past_write, auto simp: try_write_def)

text \<open>A key that is too long for the store fails its assertion, unless the write comes too late to be looked at.\<close>

lemma long_key_batch:
  assumes "(k, v) \<in> set kvps" "KS < length k" "\<forall>i. c i < pt"
  shows "try_write_batch (\<lambda>i. try_write NT KS VS (c i)) i kvps pt s r = None"
  using assms(1)
proof (induction kvps arbitrary: i s r)
  case (Cons kv kvps)
  obtain k' v' where kv: "kv = (k', v')" by (cases kv)
  obtain su fa where r: "r = (su, fa)" by (cases r)
  show ?case
  proof (cases "try_write NT KS VS (c i) k' pt v' s")
    case (Some res)
    have "\<not> pt \<le> c i" using assms(3) by (simp add: not_le)
    then have "k' \<noteq> k" using Some assms(2) by (auto simp: try_write_def)
    then have "(k, v) \<in> set kvps" using Cons.prems kv by simp
    then show ?thesis using Cons.IH Some by (cases res) (simp add: kv r)
  qed (simp add: kv r)
qed simp

lemma key_zipped: "k \<in> set ks \<Longrightarrow> length vs = length ks \<Longrightarrow> \<exists>v. (k, v) \<in> set (zip ks vs)"
  by (metis in_set_impl_in_set_zip1)

lemma long_key_job:
  assumes "kzh15_ok t" "k \<in> set (wo_keys t @ inter_written_keys t @ intra_written_keys t @ ro_keys t)" "KS < length k"
    and on_time: "\<forall>j i. c j i < my_release_time_without_offset now (kperiod_ns t) + kperiod_ns t"
  shows "kzh15_job try_read (try_write NT KS VS) now c clk t s = None"
proof (rule ccontr)
  assume "kzh15_job try_read (try_write NT KS VS) now c clk t s \<noteq> None"
  then obtain t' s' where job: "kzh15_job try_read (try_write NT KS VS) now c clk t s = Some (t', s')" by auto
  from job show False
  proof (rule job_parts)
    fix r1 r2 r3 v1 v2 v3 u w
    let ?rel = "my_release_time_without_offset now (kperiod_ns t)"
    let ?t = "t\<lparr>ro_values := v1, intra_read_values := v3, inter_read_values := v2\<rparr>"
    assume 1: "try_read_batch (\<lambda>i. try_read s (c 5 i)) 0 (ro_keys t) ?rel (ro_values t) (0, 0) = (r1, v1)"
      and u: "u = count_reads r1 r2 r3 ?t" and w: "write_batches (\<lambda>j i. try_write NT KS VS (c j i)) (?rel + kperiod_ns t) u s = Some (w, s')"
    have rest: "rest_of u = rest_of ?t" unfolding u by (rule count_reads_rest(1))
    have same: "wo_keys u = wo_keys t" "wo_values u = wo_values t" "inter_written_keys u = inter_written_keys t"
      "inter_written_values u = inter_written_values t" "intra_written_keys u = intra_written_keys t"
      "intra_written_values u = intra_written_values t" "ro_keys u = ro_keys t" "ro_values u = v1"
      using arg_cong [OF rest, of wo_keys] arg_cong [OF rest, of wo_values] arg_cong [OF rest, of inter_written_keys]
        arg_cong [OF rest, of inter_written_values] arg_cong [OF rest, of intra_written_keys] arg_cong [OF rest, of intra_written_values]
        arg_cong [OF rest, of ro_keys] arg_cong [OF rest, of ro_values]
      by (simp_all add: rest_of_def)
    have "length v1 = length (ro_keys t)" using try_read_batch_length [OF 1] assms(1) by (simp add: kzh15_ok_def)
    then obtain v where "(k, v) \<in> set (zip (wo_keys u) (wo_values u)) \<union> set (zip (inter_written_keys u) (inter_written_values u)) \<union>
        set (zip (intra_written_keys u) (intra_written_values u)) \<union> set (zip (ro_keys u) (ro_values u))"
      unfolding same using assms(1,2) key_zipped by (fastforce simp: kzh15_ok_def)
    moreover have "(k, v) \<in> set kvps \<Longrightarrow> try_write_batch (\<lambda>i. try_write NT KS VS (c j i)) 0 kvps (?rel + kperiod_ns t) s r = None" for kvps j s r
      using assms(3) on_time by (intro long_key_batch) auto
    ultimately show False using w by (auto simp: write_batches_def split: bind_splits)
  qed
qed

definition fresh_counters :: "kzh15_task \<Rightarrow> u64 \<Rightarrow> bool" where
  "fresh_counters t jobs \<longleftrightarrow> knum_jobs t = 0 \<and> kmax_jobs t = jobs \<and> read_counters t = (0, 0, 0, 0) \<and> write_counters t = (0, 0, 0, 0)"

lemma add_runnable_labels_counters:
  "fresh_counters (fst (add_runnable_labels mx r (t, m))) jobs = fresh_counters t jobs"
  by (simp add: add_runnable_labels_def fresh_counters_def read_counters_def write_counters_def split: prod.splits)

lemma kzh15_task_new_counters:
  assumes "kzh15_task_new api period offset jobs objs tb sizes mx = Some (t, sizes')"
  shows "fresh_counters t jobs"
proof -
  have fresh: "fresh_counters (fresh_task p off jobs ig a b w) jobs" for p off ig a b w
    by (simp add: fresh_task_def fresh_counters_def read_counters_def write_counters_def)
  obtain t0 where t0: "fresh_counters t0 jobs"
    and f: "fold_option (\<lambda>p a. case p of Some i \<Rightarrow> Some (add_runnable_labels mx (objs ! i) a) | None \<Rightarrow> None) (btrunnables tb) (t0, sizes) = Some (t, sizes')"
    using assms fresh by (fastforce simp: kzh15_task_new_def Let_def split: if_splits bind_splits)
  have "fresh_counters (fst (t, sizes')) jobs"
  proof (rule fold_option_inv [OF f])
    fix p a b
    assume "(case p of Some i \<Rightarrow> Some (add_runnable_labels mx (objs ! i) a) | None \<Rightarrow> None) = Some b"
      and a: "fresh_counters (fst a) jobs"
    then obtain i where "b = add_runnable_labels mx (objs ! i) (fst a, snd a)" by (auto split: option.splits)
    then show "fresh_counters (fst b) jobs"
      using a add_runnable_labels_counters [of mx "objs ! i" "fst a" "snd a"] by simp
  qed (use t0 in simp)
  then show ?thesis by simp
qed

lemma fits_VS: "fits mx vs \<Longrightarrow> mx \<le> int VS + 1 \<Longrightarrow> 1 \<le> VS \<Longrightarrow> v \<in> set vs \<Longrightarrow> length v \<le> VS"
  by (auto simp: fits_def)

lemma run_completes:
  assumes new: "kzh15_task_new api period offset jobs objs tb sizes mx = Some (t0, sizes')"
    and t: "t = t0\<lparr>freshness := fr\<rparr>" and fr: "length (inter_read_keys t0) \<le> length fr"
    and kfit: "\<forall>k \<in> set (wo_keys t @ inter_written_keys t @ intra_written_keys t @ ro_keys t). length k \<le> KS"
    and vfit: "mx \<le> int VS + 1" "1 \<le> VS"
    and store: "bft_ok NT KS VS s" "stored_fit VS s"
    and others: "\<forall>(env, x) \<in> set ticks. \<forall>s. bft_ok NT KS VS s \<and> stored_fit VS s \<longrightarrow> bft_ok NT KS VS (env s) \<and> stored_fit VS (env s)"
    and ticks: "unat jobs \<le> length ticks"
  shows "if unat jobs \<le> MAX_NUM_JOBS
    then \<exists>t' s'. kzh15_run try_read (try_write NT KS VS) ticks t s = Some (t', s') \<and>
      bft_ok NT KS VS s' \<and> stored_fit VS s' \<and> knum_jobs t' = jobs \<and>
      successful_reads t' + failed_reads t' = jobs * word_of_nat (num_reads t) \<and>
      successful_writes t' + failed_writes t' = jobs * word_of_nat (num_writes t) \<and>
      successful_batch_reads t' + failed_batch_reads t' = jobs \<and>
      successful_batch_writes t' + failed_batch_writes t' = jobs
    else kzh15_run try_read (try_write NT KS VS) ticks t s = None"
proof (cases "unat jobs \<le> MAX_NUM_JOBS")
  case True
  have ok: "kzh15_ok t0" "all_fit mx t0" using kzh15_task_new_ok [OF new] by simp_all
  have cnt: "fresh_counters t0 jobs" by (rule kzh15_task_new_counters [OF new])
  have "task_fits KS VS t"
    unfolding task_fits_def using kfit ok(2) fits_VS [OF _ vfit]
    by (auto simp: t all_fit_def)
  moreover have "constrained t" using fr by (simp add: t constrained_def)
  moreover have k: "knum_jobs t = 0" "kmax_jobs t = jobs" using cnt by (simp_all add: t fresh_counters_def)
  ultimately obtain t' s' where run: "kzh15_run try_read (try_write NT KS VS) ticks t s = Some (t', s')"
    and s': "bft_ok NT KS VS s' \<and> stored_fit VS s'"
    using bft_bounded.run_total [of NT KS VS s t ticks] store others ticks True by auto
  have "accounted t"
    using ok(1) cnt by (simp add: accounted_def kzh15_ok_def fresh_counters_def read_counters_def write_counters_def t)
  then have acc: "accounted t'" "task_frame t' = task_frame t" "knum_jobs t' = jobs"
    using run_accounted [OF run] k by simp_all
  show ?thesis using True run s' acc task_frame_sizes [OF acc(2)] by (auto simp: accounted_def)
next
  case False
  have "knum_jobs t = 0" "kmax_jobs t = jobs" using kzh15_task_new_counters [OF new] by (simp_all add: t fresh_counters_def)
  then have "kzh15_run try_read (try_write NT KS VS) ticks t s = None" using False by (intro run_too_many_jobs) simp_all
  then show ?thesis using False by simp
qed

text \<open>C14 (kzh15_run_completes): a benchmark task built from an exported task, with a freshness
  constraint for each label that it reads from other tasks, and keys and values that fit the BFT store,
  runs exactly its jobs whatever the other tasks do to the store in between, without a failed assertion, provided that
  there are at most 180000 of them; each job has reported each of its reads and writes once, as a success or a failure.
  A task with more jobs fails the assertion of the release loop on the number of jobs.\<close>

theorem kzh15_run_completes:
  assumes new: "kzh15_task_new api period offset jobs objs tb sizes mx = Some (t0, sizes')"
    and t: "t = t0\<lparr>freshness := fr\<rparr>" and fr: "length (inter_read_keys t0) \<le> length fr"
    and kfit: "\<forall>k \<in> set (wo_keys t @ inter_written_keys t @ intra_written_keys t @ ro_keys t). length k \<le> KS"
    and vfit: "mx \<le> int VS + 1" "1 \<le> VS"
    and store: "bft_ok NT KS VS s" "stored_fit VS s"
    and others: "\<forall>(env, x) \<in> set ticks. \<forall>s. bft_ok NT KS VS s \<and> stored_fit VS s \<longrightarrow> bft_ok NT KS VS (env s) \<and> stored_fit VS (env s)"
    and ticks: "unat jobs \<le> length ticks"
  shows "if unat jobs \<le> MAX_NUM_JOBS
    then \<exists>t' s'. kzh15_run try_read (try_write NT KS VS) ticks t s = Some (t', s') \<and>
      bft_ok NT KS VS s' \<and> stored_fit VS s' \<and> knum_jobs t' = jobs \<and>
      successful_reads t' + failed_reads t' = jobs * word_of_nat (num_reads t) \<and>
      successful_writes t' + failed_writes t' = jobs * word_of_nat (num_writes t) \<and>
      successful_batch_reads t' + failed_batch_reads t' = jobs \<and>
      successful_batch_writes t' + failed_batch_writes t' = jobs
    else kzh15_run try_read (try_write NT KS VS) ticks t s = None"
  using assms by (rule run_completes)


text \<open>C16 (late_job_publishes_nothing): a job that comes to its writes only when its next release has
  passed leaves the BFT store as it was and reports every write as failed; the reads of a job among the
  first ones are all reported as successful, whatever the store returned.\<close>

theorem late_job_publishes_nothing:
  assumes "kzh15_job try_read (try_write NT KS VS) now c clk t s = Some (t', s')" "bft_ok NT KS VS s" "kzh15_ok t"
    and "\<forall>j i. my_release_time_without_offset now (kperiod_ns t) + kperiod_ns t \<le> c j i"
  shows "s' = s \<and> successful_writes t' = successful_writes t \<and>
    failed_writes t' = failed_writes t + word_of_nat (num_writes t) \<and>
    (knum_jobs t \<le> num_jobs_to_ignore t \<longrightarrow> failed_reads t' = failed_reads t)"
  using bft.job_store [OF assms(1,2)] assms(4) job_counts [OF assms(1,3)] by simp

section \<open>A concrete task\<close>

definition demo_runnable :: runnable_basic where
  "demo_runnable = \<lparr>brid = 7, brperiod_ms = 1, bracet_us = 2, brbcet_us = 1, brwcet_us = 3, bro_read = [1], bwo_written = [2],
     bintra_read = [], bintra_written = [], binter_read = [3], binter_written = []\<rparr>"

definition demo_basic_task :: task_basic where
  "demo_basic_task = \<lparr>btid = 0, btperiod_ms = 1, btacet_us = 2, btbcet_us = 1, btwcet_us = 3, btrunnables = [Some 0]\<rparr>"

definition demo_kzh15 :: kzh15_task where
  "demo_kzh15 = \<lparr>kperiod_ns = 1000000, koffset_ns = 0, knum_jobs = 0, ro_keys = [''1''], ro_values = [''aaa''], wo_keys = [''2''],
     wo_values = [''a''], inter_read_keys = [''3''], inter_read_values = [''a''], inter_written_keys = [], inter_written_values = [],
     intra_read_keys = [], intra_read_values = [], intra_written_keys = [], intra_written_values = [],
     freshness = [], acet_ns = 2000, bcet_ns = 1000, wcet_ns = 3000, kmax_jobs = 2, num_jobs_to_ignore = 2000,
     successful_batch_reads = 0, successful_batch_writes = 0, successful_reads = 0, successful_writes = 0,
     failed_batch_reads = 0, failed_batch_writes = 0, failed_reads = 0, failed_writes = 0\<rparr>"

lemma demo_kzh15_new:
  "kzh15_task_new sample_boost 1000000 0 2 [demo_runnable] demo_basic_task [(1, 9), (2, 2), (3, 1)] 4 =
     Some (demo_kzh15, [(1, 9), (2, 2), (3, 1)])"
  by code_simp

lemma demo_store_fits: "bft_ok 1 3 3 demo_kvs \<and> stored_fit 3 demo_kvs"
proof -
  have "store demo_kvs = Map.empty"
    by (simp add: demo_kvs_def bft_new_def eig_new_def Let_def)
  then show ?thesis using demo_kvs_ok by (simp add: stored_fit_def)
qed

theorem kzh15_run_completes_witness:
  "\<exists>t' s'. kzh15_run try_read (try_write 1 3 3)
       [(\<lambda>s. s, 5000000, \<lambda>_ _. 5000100, \<lambda>_. 5000100), (\<lambda>s. s\<lparr>unpublished := zero_node 1 3 3\<rparr>, 6000000, \<lambda>_ _. 6000100, \<lambda>_. 6000100)]
       (demo_kzh15\<lparr>freshness := [2000000]\<rparr>) demo_kvs = Some (t', s') \<and>
     knum_jobs t' = 2 \<and> successful_reads t' + failed_reads t' = 4 \<and> successful_writes t' + failed_writes t' = 4"
  using kzh15_run_completes [OF demo_kzh15_new refl, of "[2000000]" 3 3 1 demo_kvs
      "[(\<lambda>s. s, 5000000, \<lambda>_ _. 5000100, \<lambda>_. 5000100), (\<lambda>s. s\<lparr>unpublished := zero_node 1 3 3\<rparr>, 6000000, \<lambda>_ _. 6000100, \<lambda>_. 6000100)]"]
    demo_store_fits zero_node_pending [of 1 3 3]
  by (auto simp: demo_kzh15_def num_reads_def num_writes_def bft_ok_def stored_fit_def MAX_NUM_JOBS_def)

theorem late_job_publishes_nothing_witness:
  "\<exists>t' s'. kzh15_job try_read (try_write 1 3 3) 5000000 (\<lambda>_ _. 6000000) (\<lambda>_. 6000000) (demo_kzh15\<lparr>freshness := [2000000]\<rparr>) demo_kvs = Some (t', s') \<and>
     s' = demo_kvs \<and> failed_writes t' = 2"
proof -
  let ?t = "demo_kzh15\<lparr>freshness := [2000000]\<rparr>"
  have "task_fits 3 3 ?t" "constrained ?t" and ok: "kzh15_ok ?t" "num_writes ?t = 2" "failed_writes ?t = 0" "kperiod_ns ?t = 1000000"
    by (simp_all add: demo_kzh15_def task_fits_def constrained_def kzh15_ok_def num_writes_def)
  then obtain t' s' where job: "kzh15_job try_read (try_write 1 3 3) 5000000 (\<lambda>_ _. 6000000) (\<lambda>_. 6000000) ?t demo_kvs = Some (t', s')"
    using bft_bounded.job_total [of 1 3 3 demo_kvs ?t] demo_store_fits by blast
  have "\<forall>j i :: nat. my_release_time_without_offset 5000000 (kperiod_ns ?t) + kperiod_ns ?t \<le> (6000000 :: u64)"
    unfolding ok(4) my_release_time_without_offset_def by simp
  then show ?thesis
    using late_job_publishes_nothing [OF job _ ok(1)] demo_store_fits job ok(2,3) by auto
qed

end
