(* ===== verification/Exp_Common.thy ===== *)
theory Exp_Common imports Kzh15_Run begin

text \<open>
  What the two experiments of \<^verbatim>\<open>exp/\<close> share: the addresses of \<^verbatim>\<open>common.h\<close>, priorities by
  period, the configuration structure of the BFT store (\<^verbatim>\<open>src/achal/bft_kvs.h\<close>) and the statistics
  that are collected at the end. An index outside of a table and a conversion of a double
  that does not fit are \<open>None\<close>.
\<close>

section \<open>Addresses\<close>

definition bft_kvs_ports :: "string list list" where
  "bft_kvs_ports =
     [[''8080'', ''8081'', ''8082'', ''8083''],
      [''8084'', ''8085'', ''8086'', ''8087''],
      [''8088'', ''8089'', ''8090'', ''8091'']]"

definition node_ips :: "string list" where
  "node_ips =
     [''198.162.55.144'', ''198.162.55.145'', ''198.162.55.146'', ''198.162.55.147'',
      ''198.162.55.148'', ''198.162.55.149'', ''198.162.55.159'', ''198.162.55.160'']"

definition entry :: "'a list \<Rightarrow> int \<Rightarrow> 'a option" where
  "entry xs i = (if 0 \<le> i \<and> i < int (length xs) then Some (xs ! nat i) else None)"

definition port_of :: "int \<Rightarrow> int \<Rightarrow> string option" where
  "port_of cpu node = do { ps \<leftarrow> entry bft_kvs_ports cpu; entry ps node }"

text \<open>\<^verbatim>\<open>(node_id - 1) % 4\<close>, the remainder with the sign of the dividend.\<close>

definition node_index :: "int \<Rightarrow> int" where
  "node_index node_id = sgn (node_id - 1) * (\<bar>node_id - 1\<bar> mod 4)"

section \<open>Lists of results\<close>

lemma those_map_iff: "those (map f xs) = Some ys \<longleftrightarrow> list_all2 (\<lambda>x y. f x = Some y) xs ys"
proof (induction xs arbitrary: ys)
  case (Cons x xs)
  then show ?case by (cases ys; cases "f x"; cases "those (map f xs)") (auto simp: list_all2_Cons1)
qed auto

lemma those_map_image:
  assumes "those (map f is) = Some xs" "\<And>i x. i \<in> set is \<Longrightarrow> f i = Some x \<Longrightarrow> g x = h i"
  shows "map g xs = map h is"
proof -
  have "list_all2 (\<lambda>i x. f i = Some x) is xs" using assms(1) by (simp add: those_map_iff)
  then show ?thesis using assms(2) by (induction "is" xs rule: list_all2_induct) simp_all
qed

section \<open>Configurations\<close>

record process =
  pid :: int
  pip :: string
  pport :: string

record kvs_config =
  cid :: int
  cperiod_ns :: u64
  coffset_ns :: u64
  cpriority :: int
  ccpu :: nat
  cport :: nat
  cpeers :: "process list"
  cdelay_ns :: u64
  crounds :: u8
  cprocess :: u8
  cmax_jobs :: u64

text \<open>\<^verbatim>\<open>MS_TO_NS\<close> of an unsigned integer, and the number of jobs \<^verbatim>\<open>SEC_TO_NS(s) / period_ns\<close> of a double.\<close>

definition MS_TO_NS :: "u64 \<Rightarrow> u64" where
  "MS_TO_NS t = t * 1000000"

definition jobs_of :: "rat \<Rightarrow> u64 \<Rightarrow> u64 option" where
  "jobs_of duration_s period_ns =
     (if period_ns = 0 then None
      else let q = trunc (duration_s * 1000000000 / of_nat (unat period_ns))
           in if 0 \<le> q \<and> q < 2 ^ 64 then Some (word_of_int q) else None)"

definition nmr_offset_ns :: "u64 \<Rightarrow> nat \<Rightarrow> nat \<Rightarrow> u64" where
  "nmr_offset_ns period_ms n i = word_of_nat i * (MS_TO_NS period_ms div word_of_nat n)"

section \<open>Priorities\<close>

definition get_period_based_priority :: "u64 \<Rightarrow> int" where
  "get_period_based_priority period_ms =
     (if period_ms \<le> 1 then 25
      else if period_ms \<le> 2 then 24
      else if period_ms \<le> 5 then 23
      else if period_ms \<le> 10 then 22
      else if period_ms \<le> 20 then 21
      else if period_ms \<le> 50 then 20
      else if period_ms \<le> 100 then 19
      else if period_ms \<le> 200 then 18
      else 17)"

definition BFT_KVS_DEFAULT_PRIORITY :: int where
  "BFT_KVS_DEFAULT_PRIORITY = 1"

text \<open>Lemma (rate_monotonic_priorities): priorities follow the rates: a task with a shorter period never has
  a lower priority, and every application task is above the store's own task.\<close>

theorem rate_monotonic_priorities:
  assumes "p \<le> q"
  shows "get_period_based_priority q \<le> get_period_based_priority p \<and> BFT_KVS_DEFAULT_PRIORITY < get_period_based_priority q"
proof
  have "p \<le> k" if "q \<le> k" for k using assms that by (rule order_trans)
  then show "get_period_based_priority q \<le> get_period_based_priority p"
    by (auto simp: get_period_based_priority_def)
  show "BFT_KVS_DEFAULT_PRIORITY < get_period_based_priority q"
    by (simp add: get_period_based_priority_def BFT_KVS_DEFAULT_PRIORITY_def)
qed

theorem rate_monotonic_priorities_witness:
  "get_period_based_priority 100 \<le> get_period_based_priority 50 \<and> get_period_based_priority 100 = 19"
  using rate_monotonic_priorities [of 50 100] by (simp add: get_period_based_priority_def word_le_nat_alt)

section \<open>Statistics\<close>

definition add_counts :: "access_counts \<Rightarrow> access_counts \<Rightarrow> access_counts" where
  "add_counts t c =
     \<lparr>succ_reads = succ_reads c + succ_reads t, succ_writes = succ_writes c + succ_writes t,
      succ_batch_reads = succ_batch_reads c + succ_batch_reads t, succ_batch_writes = succ_batch_writes c + succ_batch_writes t,
      fail_reads = fail_reads c + fail_reads t, fail_writes = fail_writes c + fail_writes t,
      fail_batch_reads = fail_batch_reads c + fail_batch_reads t, fail_batch_writes = fail_batch_writes c + fail_batch_writes t\<rparr>"

text \<open>A percentage of nothing is not a number, \<open>None\<close>.\<close>

definition percent :: "u64 \<Rightarrow> u64 \<Rightarrow> rat option" where
  "percent s f = quotient (of_nat (unat s) * 100) (of_nat (unat (s + f)))"

record measured =
  mbcet_ms :: rat
  macet_ms :: rat
  mwcet_ms :: rat

text \<open>The loop over the tasks of one kind; the average of no task is not a number.\<close>

definition measured_start :: measured where
  "measured_start = \<lparr>mbcet_ms = dbl_max, macet_ms = 0, mwcet_ms = dbl_min\<rparr>"

definition measured_step :: "measured \<Rightarrow> measured \<Rightarrow> measured" where
  "measured_step x m =
     \<lparr>mbcet_ms = (if mbcet_ms m > mbcet_ms x then mbcet_ms x else mbcet_ms m),
      macet_ms = macet_ms m + macet_ms x,
      mwcet_ms = (if mwcet_ms m < mwcet_ms x then mwcet_ms x else mwcet_ms m)\<rparr>"

definition measured_over :: "measured list \<Rightarrow> rat \<times> rat option \<times> rat" where
  "measured_over xs =
     (let m = fold measured_step xs measured_start
      in (mbcet_ms m, quotient (macet_ms m) (of_nat (length xs)), mwcet_ms m))"

lemma fold_measured:
  "fold measured_step xs m = \<lparr>mbcet_ms = Min (insert (mbcet_ms m) (mbcet_ms ` set xs)), macet_ms = macet_ms m + sum_list (map macet_ms xs),
     mwcet_ms = Max (insert (mwcet_ms m) (mwcet_ms ` set xs))\<rparr>"
proof (induction xs arbitrary: m)
  case (Cons x xs)
  have "Min (insert (mbcet_ms (measured_step x m)) A) = Min (insert (mbcet_ms m) (insert (mbcet_ms x) A))" if "finite A" for A
    using that by (cases "A = {}") (auto simp: measured_step_def min_def not_less Min_insert2)
  moreover have "Max (insert (mwcet_ms (measured_step x m)) A) = Max (insert (mwcet_ms m) (insert (mwcet_ms x) A))" if "finite A" for A
    using that by (cases "A = {}") (auto simp: measured_step_def max_def not_less)
  ultimately show ?case by (simp add: Cons.IH) (simp add: measured_step_def)
qed simp

section \<open>The common release\<close>

text \<open>The instant at which all tasks of a node are released, from a reading of the clock (after the epoch).\<close>

definition bosch_release :: "timespec \<Rightarrow> timespec" where
  "bosch_release now = fix_ts \<lparr>tv_sec = tv_sec now div 10 * 10 + 20, tv_nsec = 0\<rparr>"

definition ivp_release :: "timespec \<Rightarrow> timespec" where
  "ivp_release now = fix_ts \<lparr>tv_sec = tv_sec now + 5, tv_nsec = 0\<rparr>"

text \<open>Lemma (nodes_release_together): nodes whose readings lie in the same ten seconds agree on the release of \<^verbatim>\<open>bosch1\<close>, which is
  more than ten and at most twenty seconds ahead; nodes on either side of a boundary are ten seconds apart.\<close>

theorem nodes_release_together:
  assumes "timespecisvalid now" "0 \<le> tv_sec now" "tv_sec now < 2 ^ 32" "0 \<le> tv_sec other" "tv_sec other < 2 ^ 32"
  shows "ns (bosch_release now) - ns now \<in> {10000000000<..20000000000} \<and>
    ns (bosch_release other) - ns (bosch_release now) = (tv_sec other div 10 - tv_sec now div 10) * 10000000000"
proof -
  have r: "ns (bosch_release t) = (tv_sec t div 10 * 10 + 20) * 1000000000" if "0 \<le> tv_sec t" "tv_sec t < 2 ^ 32" for t
  proof -
    have "0 \<le> tv_sec t div 10 * 10 + 20" "tv_sec t div 10 * 10 \<le> tv_sec t" using that(1) by simp_all
    then show ?thesis unfolding bosch_release_def using that(2)
      by (subst ns_def) (subst fix_ts_fields; simp add: ns_def)+
  qed
  have "tv_sec now div 10 * 10 \<le> tv_sec now" "tv_sec now < tv_sec now div 10 * 10 + 10" by simp_all
  moreover have "0 \<le> tv_nsec now" "tv_nsec now < 1000000000" using assms(1) by (simp_all add: timespecisvalid_def)
  ultimately show ?thesis using r [of now] r [of other] assms by (simp add: ns_def)
qed

theorem nodes_release_together_witness:
  "ns (bosch_release \<lparr>tv_sec = 120, tv_nsec = 0\<rparr>) - ns (bosch_release \<lparr>tv_sec = 119, tv_nsec = 5\<rparr>) = 10000000000"
  using nodes_release_together [of "\<lparr>tv_sec = 119, tv_nsec = 5\<rparr>" "\<lparr>tv_sec = 120, tv_nsec = 0\<rparr>"]
  by (simp add: timespecisvalid_def)


end
