(* ===== verification/Exp_Bosch.thy ===== *)
theory Exp_Bosch imports Exp_Common Etcd_Kvs begin

text \<open>
  The experiment \<^verbatim>\<open>exp/bosch1.cpp\<close>: it adapts an exported benchmark to a shortest period, creates a
  BFT store per processor and node, a benchmark task per processor and task of the benchmark, and
  fills in the freshness constraints of the tasks. The arguments of the program are given as parsed
  values; numbers of processors and nodes are naturals. The benchmark that is read from the file is an argument.
  The sockets and the threads are not part of the model, nor is the printing.
\<close>

section \<open>Stores\<close>

text \<open>The cascades over \<^verbatim>\<open>NT\<close>: the stores exist for 100, 200, ..., 2000 labels.\<close>

definition capacity_for :: "nat \<Rightarrow> nat option" where
  "capacity_for NT = List.find (\<lambda>c. NT < c)
     [100, 200, 300, 400, 500, 600, 700, 800, 900, 1000, 1100, 1200, 1300, 1400, 1500, 1600, 1700, 1800, 1900, 2000]"

definition bftkvs_init_from_config :: "nat \<Rightarrow> (nat \<times> bft_kvs) list \<Rightarrow> kvs_config \<Rightarrow> (nat \<times> bft_kvs) list option" where
  "bftkvs_init_from_config NT kvs_instances conf = do {
     c \<leftarrow> capacity_for NT;
     s \<leftarrow> bft_new c 7 15 (length (cpeers conf)) (unat (cprocess conf)) (crounds conf) (cperiod_ns conf) (coffset_ns conf) (cmax_jobs conf);
     Some (kvs_instances @ [(c, s)]) }"

text \<open>The connection of each store, through a cast to the type for \<open>NT\<close> labels; the socket operations are the
  argument \<open>connect\<close>, whose first argument is the capacity of that type.\<close>

definition cast_and_call :: "nat \<Rightarrow> (nat \<Rightarrow> nat \<times> bft_kvs \<Rightarrow> unit option) \<Rightarrow> nat \<times> bft_kvs \<Rightarrow> unit option" where
  "cast_and_call NT method s = do { c \<leftarrow> capacity_for NT; method c s }"

definition bftkvs_connect_to_severs :: "nat \<Rightarrow> (nat \<Rightarrow> nat \<times> bft_kvs \<Rightarrow> unit option) \<Rightarrow> (nat \<times> bft_kvs) list \<Rightarrow> unit option" where
  "bftkvs_connect_to_severs NT connect_to_servers kvs_instances = fold_option (\<lambda>s u. cast_and_call NT connect_to_servers s) kvs_instances ()"

definition bftkvs_connect_to_clients :: "nat \<Rightarrow> (nat \<Rightarrow> nat \<times> bft_kvs \<Rightarrow> unit option) \<Rightarrow> (nat \<times> bft_kvs) list \<Rightarrow> unit option" where
  "bftkvs_connect_to_clients NT accept_clients kvs_instances = fold_option (\<lambda>s u. cast_and_call NT accept_clients s) kvs_instances ()"

section \<open>Arguments\<close>

record bosch_args =
  smallest_period_ms :: u64
  config_file_name :: string
  exp_duration_s :: rat
  kvs_type :: string
  node_id :: int
  total_nodes :: nat
  cpus_used :: nat

definition get_preset_wcets :: "string \<Rightarrow> u64 \<times> u64 \<times> u64 \<times> u64" where
  "get_preset_wcets f =
     (if f = ''kzh15_113pcu_1018l.cfg'' then (2, 2, 2, 2)
      else if f = ''kzh15_109pcu_1479l.cfg'' then (2, 2, 2, 2)
      else if f = ''kzh15_108pcu_1557l.cfg'' then (2, 3, 2, 2)
      else if f = ''kzh15_94pcu_1891l.cfg'' then (2, 3, 2, 2)
      else if f = ''kzh15_140pcu_2017l.cfg'' then (2, 3, 2, 3)
      else if f = ''kzh15_115pcu_2062l.cfg'' then (2, 3, 2, 2)
      else if f = ''kzh15_125pcu_2541l.cfg'' then (2, 3, 2, 2)
      else if f = ''kzh15_103pcu_2846l.cfg'' then (2, 4, 2, 2)
      else if f = ''kzh15_105pcu_2965l.cfg'' then (3, 4, 2, 3)
      else if f = ''kzh15_105pcu_3476l.cfg'' then (3, 5, 2, 3)
      else (2, 4, 2, 2))"

text \<open>The times of the tasks, with none for 50 ms when the shortest period is longer.\<close>

definition task_wcets :: "bosch_args \<Rightarrow> u64 \<times> u64 \<times> u64 \<times> u64" where
  "task_wcets a =
     (let (w50, w100, w200, w1000) = get_preset_wcets (config_file_name a)
      in (if smallest_period_ms a > 50 then 0 else w50, w100, w200, w1000))"

definition prepare_benchmark :: "u64 \<Rightarrow> benchmark_basic \<Rightarrow> benchmark_basic" where
  "prepare_benchmark smallest b = shrink_label_sizes 16 (trim_benchmark smallest (resolve_label_dependencies smallest b))"

section \<open>Creating the stores\<close>

definition peers_of :: "bosch_args \<Rightarrow> nat \<Rightarrow> process list option" where
  "peers_of a nmr = fold_option (\<lambda>i ps. do {
     addr \<leftarrow> entry node_ips (if node_id a \<le> 4 then int i else int i + 4);
     p \<leftarrow> port_of (int nmr) (int i);
     Some (ps @ [\<lparr>pid = int i, pip = addr, pport = p\<rparr>]) }) [0..<total_nodes a] []"

definition bosch_kvs_config :: "bosch_args \<Rightarrow> nat \<Rightarrow> kvs_config option" where
  "bosch_kvs_config a nmr = do {
     let (w50, w100, w200, w1000) = task_wcets a;
     let period = MS_TO_NS (smallest_period_ms a);
     jobs \<leftarrow> jobs_of (exp_duration_s a) period;
     ps \<leftarrow> peers_of a nmr;
     p \<leftarrow> port_of (int nmr) (node_index (node_id a));
     Some \<lparr>cid = 1000 * node_id a + 100 * int nmr, cperiod_ns = period,
       coffset_ns = nmr_offset_ns (smallest_period_ms a) (cpus_used a) nmr + MS_TO_NS (w50 + w100 + w200 + w1000),
       cpriority = BFT_KVS_DEFAULT_PRIORITY, ccpu = nmr, cport = undec p, cpeers = ps,
       cdelay_ns = 100 * 1000, crounds = 2, cprocess = word_of_int (node_index (node_id a)), cmax_jobs = jobs\<rparr> }"

definition bosch_kvs_instances :: "bosch_args \<Rightarrow> nat \<Rightarrow> (nat \<times> bft_kvs) list option" where
  "bosch_kvs_instances a total_labels = do {
     confs \<leftarrow> those (map (bosch_kvs_config a) [0..<cpus_used a]);
     fold_option (\<lambda>conf insts. bftkvs_init_from_config total_labels insts conf) confs [] }"

text \<open>The peers of an instance over Redis, which no branch uses any more.\<close>

definition bosch_get_peers_minus_self :: "nat \<Rightarrow> int \<Rightarrow> string \<Rightarrow> tcp_node list" where
  "bosch_get_peers_minus_self cpus self stype =
     map (\<lambda>i. if stype = ''BFTKVS'' then \<lparr>ip = ''achal0'' @ dec (i + 1), port = ''8081''\<rparr>
              else \<lparr>ip = ''127.0.0.1'', port = dec (7000 + i)\<rparr>) (filter (\<lambda>i. int i \<noteq> self) [0..<cpus])"

section \<open>Creating the tasks\<close>

record placed_task =
  ptid :: int
  pprio :: int
  pcpu :: nat
  ptask :: kzh15_task

text \<open>The offset in milliseconds: the part of the processor, truncated, and the times of the shorter periods.\<close>

definition task_offset_ms :: "bosch_args \<Rightarrow> nat \<Rightarrow> int \<Rightarrow> u64" where
  "task_offset_ms a cpu period_ms =
     (let (w50, w100, w200, w1000) = task_wcets a
      in nmr_offset_ns (smallest_period_ms a) (cpus_used a) cpu div 1000000 +
         (if period_ms = 50 then 0
          else if period_ms = 100 then w50
          else if period_ms = 200 then w50 + w100
          else if period_ms = 1000 then w50 + w100 + w200
          else 0))"

definition bosch_task :: "boost_api \<Rightarrow> bosch_args \<Rightarrow> runnable_basic list \<Rightarrow> nat \<Rightarrow> nat \<Rightarrow> task_basic \<Rightarrow> (int \<times> int) list
    \<Rightarrow> (placed_task \<times> (int \<times> int) list) option" where
  "bosch_task api a objs cpu unique tb sizes =
     (if too_fast (smallest_period_ms a) (btperiod_ms tb) then None
      else do {
        let period = MS_TO_NS (word_of_int (btperiod_ms tb));
        jobs \<leftarrow> jobs_of (exp_duration_s a) period;
        (t, sizes) \<leftarrow> kzh15_task_new api period (MS_TO_NS (task_offset_ms a cpu (btperiod_ms tb))) jobs objs tb sizes 16;
        Some (\<lparr>ptid = 1000 * node_id a + 100 * int cpu + (int unique + 1), pprio = get_period_based_priority (word_of_int (btperiod_ms tb)),
               pcpu = cpu, ptask = t\<rparr>, sizes) })"

text \<open>Both loops, over the processors and over the tasks of the benchmark.\<close>

definition bosch_tasks :: "boost_api \<Rightarrow> bosch_args \<Rightarrow> benchmark_basic \<Rightarrow> placed_task list option" where
  "bosch_tasks api a b = map_option fst
     (fold_option (\<lambda>cpu acc. fold_option (\<lambda>(k, tb) (ts, sizes). do {
         (t, sizes) \<leftarrow> bosch_task api a (objects b) cpu k tb sizes;
         Some (ts @ [t], sizes) }) (List.enumerate 0 (btasks b)) acc) [0..<cpus_used a] ([], label_sizes b))"

text \<open>The freshness constraints of a task: for each label that it reads from other tasks, the period of each task
  that writes it; the assertion wants as many constraints as labels.\<close>

definition writer_periods :: "placed_task list \<Rightarrow> string \<Rightarrow> u64 list" where
  "writer_periods ts r = concat (map (\<lambda>t. map (\<lambda>_. kperiod_ns (ptask t)) (filter (\<lambda>w. r = w) (inter_written_keys (ptask t)))) ts)"

definition fill_freshness :: "placed_task list \<Rightarrow> placed_task \<Rightarrow> placed_task option" where
  "fill_freshness ts p =
     (let fr = freshness (ptask p) @ concat (map (writer_periods ts) (inter_read_keys (ptask p)))
      in if length (inter_read_keys (ptask p)) = length fr then Some (p\<lparr>ptask := ptask p\<lparr>freshness := fr\<rparr>\<rparr>) else None)"

definition bosch_setup :: "boost_api \<Rightarrow> (nat \<Rightarrow> nat \<times> bft_kvs \<Rightarrow> unit option) \<Rightarrow> (nat \<Rightarrow> nat \<times> bft_kvs \<Rightarrow> unit option)
    \<Rightarrow> bosch_args \<Rightarrow> benchmark_basic \<Rightarrow> ((nat \<times> bft_kvs) list \<times> placed_task list) option" where
  "bosch_setup api connect accept a b0 =
     (if kvs_type a \<noteq> ''BFTKVS'' then None
      else do {
        let b = prepare_benchmark (smallest_period_ms a) b0;
        let labels = get_total_labels b;
        insts \<leftarrow> bosch_kvs_instances a labels;
        bftkvs_connect_to_severs labels connect insts;
        bftkvs_connect_to_clients labels accept insts;
        ts \<leftarrow> bosch_tasks api a b;
        ts \<leftarrow> those (map (fill_freshness ts) ts);
        Some (insts, ts) })"


section \<open>Facts on the parts\<close>

lemma capacity_for_bounds:
  "capacity_for n = Some c \<Longrightarrow> n < c \<and> c \<le> n + 100 \<and> c \<le> 2000"
  by (auto simp: capacity_for_def split: if_splits)

lemma capacity_for_some: "(\<exists>c. capacity_for n = Some c) \<longleftrightarrow> n < 2000"
  by (auto simp: capacity_for_def split: if_splits)

lemma bft_new_ok:
  assumes "bft_new NT KS VS peers me rounds period offset jobs = Some s" "NT < 2 ^ 32"
  shows "bft_ok NT KS VS s \<and> store s = Map.empty"
proof -
  obtain t where t: "eig_new (zero_node NT KS VS) (word_of_nat peers) (ucast rounds) = Some t"
    and s: "s = \<lparr>my_process_id = me, max_rounds = ucast rounds, max_jobs = jobs, num_jobs = 0,
      one_round_us = (period - offset) div 2 div ucast rounds div 1000, total_run_time = 0, store = Map.empty,
      unpublished = zero_node NT KS VS, tree = t\<rparr>"
    using assms(1) by (auto simp: bft_new_def split: option.splits if_splits)
  show ?thesis
    using eig_new_wf [OF t] eig_new_shape(3) [OF t] zero_node_pending [of NT KS VS] assms(2)
    unfolding s by (simp add: bft_ok_def store_ok_def)
qed

lemma fold_option_collects:
  assumes "fold_option f xs (ts, z) = Some (ts', z')"
    and "\<And>x ts z ts' z'. f x (ts, z) = Some (ts', z') \<Longrightarrow> map g ts' = map g ts @ h x"
  shows "map g ts' = map g ts @ concat (map h xs)"
  using assms(1)
proof (induction xs arbitrary: ts z)
  case (Cons x xs)
  obtain ts1 z1 where "f x (ts, z) = Some (ts1, z1)" "fold_option f xs (ts1, z1) = Some (ts', z')"
    using Cons.prems by (auto split: bind_splits)
  then show ?case using Cons.IH [of ts1 z1] assms(2) [of x ts z ts1 z1] by simp
qed simp

text \<open>The labels of one kind that a task of a benchmark lists.\<close>

definition task_labels :: "(runnable_basic \<Rightarrow> int list) \<Rightarrow> runnable_basic list \<Rightarrow> task_basic \<Rightarrow> string list" where
  "task_labels sel objs tb = concat (map (\<lambda>p. case p of Some i \<Rightarrow> map dec_int (sel (objs ! i)) | None \<Rightarrow> []) (btrunnables tb))"

lemma label_values_keys: "label_values mx lids m = (k, v, m') \<Longrightarrow> k = map dec_int lids"
  using label_values_fit by blast

lemma add_runnable_labels_inter:
  assumes "add_runnable_labels mx r (t, m) = (t', m')"
  shows "inter_read_keys t' = inter_read_keys t @ map dec_int (binter_read r) \<and>
    inter_written_keys t' = inter_written_keys t @ map dec_int (binter_written r) \<and>
    kperiod_ns t' = kperiod_ns t \<and> freshness t' = freshness t"
  using assms by (auto simp: add_runnable_labels_def split: prod.splits dest!: label_values_keys)

lemma add_runnables_inter:
  assumes "fold_option (\<lambda>p a. case p of Some i \<Rightarrow> Some (add_runnable_labels mx (objs ! i) a) | None \<Rightarrow> None) ps (t, m) = Some (t', m')"
  shows "inter_read_keys t' = inter_read_keys t @ concat (map (\<lambda>p. case p of Some i \<Rightarrow> map dec_int (binter_read (objs ! i)) | None \<Rightarrow> []) ps) \<and>
    inter_written_keys t' = inter_written_keys t @ concat (map (\<lambda>p. case p of Some i \<Rightarrow> map dec_int (binter_written (objs ! i)) | None \<Rightarrow> []) ps) \<and>
    kperiod_ns t' = kperiod_ns t \<and> freshness t' = freshness t"
  using assms
proof (induction ps arbitrary: t m)
  case (Cons p ps)
  obtain i where p: "p = Some i" using Cons.prems by (cases p) simp_all
  obtain t1 m1 where "add_runnable_labels mx (objs ! i) (t, m) = (t1, m1)" by fastforce
  then show ?case using Cons.IH [of t1 m1] Cons.prems p add_runnable_labels_inter [of mx "objs ! i" t m t1 m1] by simp
qed simp

lemma kzh15_task_new_inter:
  assumes "kzh15_task_new api period offset jobs objs tb sizes mx = Some (t, sizes')"
  shows "inter_read_keys t = task_labels binter_read objs tb \<and> inter_written_keys t = task_labels binter_written objs tb \<and>
    kperiod_ns t = period \<and> freshness t = []"
proof -
  have fresh: "inter_read_keys (fresh_task p off j ig a b w) = []" "inter_written_keys (fresh_task p off j ig a b w) = []"
    "kperiod_ns (fresh_task p off j ig a b w) = p" "freshness (fresh_task p off j ig a b w) = []" for p off j ig a b w
    by (simp_all add: fresh_task_def)
  obtain t0 where "inter_read_keys t0 = []" "inter_written_keys t0 = []" "kperiod_ns t0 = period" "freshness t0 = []"
    and f: "fold_option (\<lambda>p a. case p of Some i \<Rightarrow> Some (add_runnable_labels mx (objs ! i) a) | None \<Rightarrow> None) (btrunnables tb) (t0, sizes) = Some (t, sizes')"
    using assms fresh by (fastforce simp: kzh15_task_new_def Let_def split: if_splits bind_splits)
  then show ?thesis using add_runnables_inter [OF f] by (simp add: task_labels_def)
qed


section \<open>The tasks of the experiment\<close>

lemma fold_option_inv_mem:
  assumes "fold_option f xs a = Some b" "P a" "\<And>x a b. x \<in> set xs \<Longrightarrow> f x a = Some b \<Longrightarrow> P a \<Longrightarrow> P b"
  shows "P b"
  using assms
proof (induction xs arbitrary: a)
  case (Cons x xs)
  obtain c where c: "f x a = Some c" "fold_option f xs c = Some b" using Cons.prems(1) by (auto split: bind_splits)
  have "P c" using Cons.prems(3) [OF _ c(1) Cons.prems(2)] by simp
  then show ?case using Cons.IH [OF c(2)] Cons.prems(3) by auto
qed simp

definition task_built :: "boost_api \<Rightarrow> bosch_args \<Rightarrow> benchmark_basic \<Rightarrow> placed_task \<Rightarrow> bool" where
  "task_built api a b p \<longleftrightarrow> pcpu p < cpus_used a \<and>
     (\<exists>tb \<in> set (btasks b). \<exists>off jobs sizes sizes'.
        jobs_of (exp_duration_s a) (MS_TO_NS (word_of_int (btperiod_ms tb))) = Some jobs \<and>
        kzh15_task_new api (MS_TO_NS (word_of_int (btperiod_ms tb))) off jobs (objects b) tb sizes 16 = Some (ptask p, sizes'))"

definition inter_keys :: "placed_task \<Rightarrow> string list \<times> string list" where
  "inter_keys p = (inter_read_keys (ptask p), inter_written_keys (ptask p))"

definition task_inter_labels :: "benchmark_basic \<Rightarrow> task_basic \<Rightarrow> string list \<times> string list" where
  "task_inter_labels b tb = (task_labels binter_read (objects b) tb, task_labels binter_written (objects b) tb)"

lemma bosch_task_parts:
  assumes "bosch_task api a (objects b) cpu k tb sizes = Some (p, sizes')" "tb \<in> set (btasks b)" "cpu < cpus_used a"
  shows "task_built api a b p"
proof -
  obtain jobs where "jobs_of (exp_duration_s a) (MS_TO_NS (word_of_int (btperiod_ms tb))) = Some jobs" "pcpu p = cpu"
    "kzh15_task_new api (MS_TO_NS (word_of_int (btperiod_ms tb))) (MS_TO_NS (task_offset_ms a cpu (btperiod_ms tb))) jobs (objects b) tb sizes 16
       = Some (ptask p, sizes')"
    using assms(1) by (auto simp: bosch_task_def Let_def split: if_splits bind_splits)
  then show ?thesis using assms(2,3) unfolding task_built_def by blast
qed

lemma bosch_task_inter:
  assumes "bosch_task api a (objects b) cpu k tb sizes = Some (p, sizes')"
  shows "inter_keys p = task_inter_labels b tb"
  using assms by (auto simp: bosch_task_def inter_keys_def task_inter_labels_def Let_def split: if_splits bind_splits
      dest!: kzh15_task_new_inter)

lemma bosch_tasks_fold:
  assumes "bosch_tasks api a b = Some ts"
  obtains sizes' where "fold_option (\<lambda>cpu acc. fold_option (\<lambda>(k, tb) (ts, sizes). do {
         (t, sizes) \<leftarrow> bosch_task api a (objects b) cpu k tb sizes;
         Some (ts @ [t], sizes) }) (List.enumerate 0 (btasks b)) acc) [0..<cpus_used a] ([], label_sizes b) = Some (ts, sizes')"
  using assms by (auto simp: bosch_tasks_def)

lemma bosch_tasks_built:
  assumes "bosch_tasks api a b = Some ts"
  shows "\<forall>p \<in> set ts. task_built api a b p"
proof (rule bosch_tasks_fold [OF assms])
  fix sizes'
  assume f: "fold_option (\<lambda>cpu acc. fold_option (\<lambda>(k, tb) (ts, sizes). do {
         (t, sizes) \<leftarrow> bosch_task api a (objects b) cpu k tb sizes;
         Some (ts @ [t], sizes) }) (List.enumerate 0 (btasks b)) acc) [0..<cpus_used a] ([], label_sizes b) = Some (ts, sizes')"
  have "\<forall>p \<in> set (fst (ts, sizes')). task_built api a b p"
  proof (rule fold_option_inv_mem [OF f])
    fix cpu acc acc'
    assume cpu: "cpu \<in> set [0..<cpus_used a]" and acc: "\<forall>p \<in> set (fst acc). task_built api a b p"
      and g: "fold_option (\<lambda>(k, tb) (ts, sizes). do { (t, sizes) \<leftarrow> bosch_task api a (objects b) cpu k tb sizes; Some (ts @ [t], sizes) })
        (List.enumerate 0 (btasks b)) acc = Some acc'"
    show "\<forall>p \<in> set (fst acc'). task_built api a b p"
    proof (rule fold_option_inv_mem [OF g])
      fix x c c'
      assume x: "x \<in> set (List.enumerate 0 (btasks b))" and c: "\<forall>p \<in> set (fst c). task_built api a b p"
        and "(case x of (k, tb) \<Rightarrow> \<lambda>(ts, sizes). do { (t, sizes) \<leftarrow> bosch_task api a (objects b) cpu k tb sizes; Some (ts @ [t], sizes) }) c = Some c'"
      then obtain k tb t sz where "x = (k, tb)" "bosch_task api a (objects b) cpu k tb (snd c) = Some (t, sz)" "c' = (fst c @ [t], sz)"
        by (auto split: prod.splits bind_splits)
      moreover have "snd x \<in> set (map snd (List.enumerate 0 (btasks b)))" using x by (simp only: set_map imageI)
      then have "tb \<in> set (btasks b)" using calculation by simp
      ultimately show "\<forall>p \<in> set (fst c'). task_built api a b p"
        using c cpu bosch_task_parts [of api a b cpu k tb "snd c" t sz] by simp
    qed (use acc in simp)
  qed simp
  then show ?thesis by simp
qed

lemma bosch_tasks_inter:
  assumes "bosch_tasks api a b = Some ts"
  shows "map inter_keys ts = concat (map (\<lambda>_. map (task_inter_labels b) (btasks b)) [0..<cpus_used a])"
proof (rule bosch_tasks_fold [OF assms])
  fix sizes'
  assume f: "fold_option (\<lambda>cpu acc. fold_option (\<lambda>(k, tb) (ts, sizes). do {
         (t, sizes) \<leftarrow> bosch_task api a (objects b) cpu k tb sizes;
         Some (ts @ [t], sizes) }) (List.enumerate 0 (btasks b)) acc) [0..<cpus_used a] ([], label_sizes b) = Some (ts, sizes')"
  have inner: "map inter_keys ts' = map inter_keys ts @ map (task_inter_labels b) (btasks b)"
    if "fold_option (\<lambda>(k, tb) (ts, sizes). do { (t, sizes) \<leftarrow> bosch_task api a (objects b) cpu k tb sizes; Some (ts @ [t], sizes) })
        (List.enumerate 0 (btasks b)) (ts, z) = Some (ts', z')" for cpu ts z ts' z'
  proof -
    have "map inter_keys ts' = map inter_keys ts @ concat (map (\<lambda>(k, tb). [task_inter_labels b tb]) (List.enumerate 0 (btasks b)))"
    proof (rule fold_option_collects [OF that])
      fix x ts0 z0 ts1 z1
      assume "(case x of (k, tb) \<Rightarrow> \<lambda>(ts, sizes). do { (t, sizes) \<leftarrow> bosch_task api a (objects b) cpu k tb sizes; Some (ts @ [t], sizes) })
        (ts0, z0) = Some (ts1, z1 :: (int \<times> int) list)"
      then obtain k tb t where "x = (k, tb)" "bosch_task api a (objects b) cpu k tb z0 = Some (t, z1)" "ts1 = ts0 @ [t]"
        by (auto split: prod.splits bind_splits)
      then show "map inter_keys ts1 = map inter_keys ts0 @ (case x of (k, tb) \<Rightarrow> [task_inter_labels b tb])"
        using bosch_task_inter by simp
    qed
    moreover have "concat (map (\<lambda>(k :: nat, tb). [task_inter_labels b tb]) xs) = map (task_inter_labels b) (map snd xs)" for xs
      by (induction xs) auto
    ultimately show ?thesis by simp
  qed
  show ?thesis using fold_option_collects [OF f, of inter_keys "\<lambda>_. map (task_inter_labels b) (btasks b)"] inner by simp
qed


section \<open>The setup\<close>

lemma list_all2_right: "list_all2 P xs ys \<Longrightarrow> y \<in> set ys \<Longrightarrow> \<exists>x \<in> set xs. P x y"
  by (induction xs ys rule: list_all2_induct) auto

lemma list_all2_left: "list_all2 P xs ys \<Longrightarrow> x \<in> set xs \<Longrightarrow> \<exists>y \<in> set ys. P x y"
  by (induction xs ys rule: list_all2_induct) auto

lemma setup_parts:
  assumes "bosch_setup api connect accept a b0 = Some (insts, ts)" and "b = prepare_benchmark (smallest_period_ms a) b0"
  obtains ts0 where "bosch_kvs_instances a (get_total_labels b) = Some insts" "bosch_tasks api a b = Some ts0"
    "list_all2 (\<lambda>p q. fill_freshness ts0 p = Some q) ts0 ts"
  using assms by (auto simp: bosch_setup_def Let_def those_map_iff split: if_splits bind_splits)

lemma init_instances:
  assumes "fold_option (\<lambda>conf insts. bftkvs_init_from_config L insts conf) confs acc = Some insts"
    and "\<forall>(c, s) \<in> set acc. capacity_for L = Some c \<and> bft_ok c 7 15 s \<and> store s = Map.empty"
  shows "length insts = length acc + length confs \<and>
    (\<forall>(c, s) \<in> set insts. capacity_for L = Some c \<and> bft_ok c 7 15 s \<and> store s = Map.empty)"
  using assms
proof (induction confs arbitrary: acc)
  case (Cons conf confs)
  obtain c s where cs: "capacity_for L = Some c"
    "bft_new c 7 15 (length (cpeers conf)) (unat (cprocess conf)) (crounds conf) (cperiod_ns conf) (coffset_ns conf) (cmax_jobs conf) = Some s"
    "fold_option (\<lambda>conf insts. bftkvs_init_from_config L insts conf) confs (acc @ [(c, s)]) = Some insts"
    using Cons.prems(1) by (auto simp: bftkvs_init_from_config_def split: bind_splits)
  have "c < 2 ^ 32" using capacity_for_bounds [OF cs(1)] by simp
  then have "bft_ok c 7 15 s \<and> store s = Map.empty" using bft_new_ok [OF cs(2)] by simp
  then show ?case using Cons.IH [OF cs(3)] Cons.prems(2) cs(1) by simp
qed simp

lemma instances_ok:
  assumes "bosch_kvs_instances a L = Some insts"
  shows "length insts = cpus_used a \<and> (\<forall>(c, s) \<in> set insts. capacity_for L = Some c \<and> bft_ok c 7 15 s \<and> store s = Map.empty)"
proof -
  obtain confs where "those (map (bosch_kvs_config a) [0..<cpus_used a]) = Some confs"
    and f: "fold_option (\<lambda>conf insts. bftkvs_init_from_config L insts conf) confs [] = Some insts"
    using assms by (auto simp: bosch_kvs_instances_def split: bind_splits)
  then have "length confs = cpus_used a" by (auto simp: those_map_iff dest: list_all2_lengthD)
  then show ?thesis using init_instances [OF f] by simp
qed

lemma fill_freshness_some:
  "fill_freshness ts p = Some q \<Longrightarrow> pcpu q = pcpu p \<and> (\<exists>fr. ptask q = ptask p\<lparr>freshness := fr\<rparr> \<and>
     length fr = length (inter_read_keys (ptask p)) \<and> fr = freshness (ptask p) @ concat (map (writer_periods ts) (inter_read_keys (ptask p))))"
  by (auto simp: fill_freshness_def Let_def split: if_splits)

lemma setup_task:
  assumes "bosch_setup api connect accept a b0 = Some (insts, ts)" "p \<in> set ts" "b = prepare_benchmark (smallest_period_ms a) b0"
  obtains tb off jobs sizes sizes' t fr where "tb \<in> set (btasks b)" "pcpu p < cpus_used a" "bosch_kvs_instances a (get_total_labels b) = Some insts"
    "kzh15_task_new api (MS_TO_NS (word_of_int (btperiod_ms tb))) off jobs (objects b) tb sizes 16 = Some (t, sizes')"
    "ptask p = t\<lparr>freshness := fr\<rparr>" "length fr = length (inter_read_keys t)"
  using assms(1,3)
proof (rule setup_parts)
  fix ts0
  assume insts: "bosch_kvs_instances a (get_total_labels b) = Some insts" and ts0: "bosch_tasks api a b = Some ts0"
    and fill: "list_all2 (\<lambda>p q. fill_freshness ts0 p = Some q) ts0 ts"
  obtain q where q: "q \<in> set ts0" "fill_freshness ts0 q = Some p"
    using list_all2_right [OF fill assms(2)] by blast
  obtain fr where fr: "pcpu p = pcpu q" "ptask p = ptask q\<lparr>freshness := fr\<rparr>" "length fr = length (inter_read_keys (ptask q))"
    using fill_freshness_some [OF q(2)] by blast
  obtain tb off jobs sizes sizes' where "pcpu q < cpus_used a" "tb \<in> set (btasks b)"
    "kzh15_task_new api (MS_TO_NS (word_of_int (btperiod_ms tb))) off jobs (objects b) tb sizes 16 = Some (ptask q, sizes')"
    using bosch_tasks_built [OF ts0] q(1) unfolding task_built_def by blast
  then show thesis using fr insts by (intro that) simp_all
qed

section \<open>The keys of the tasks\<close>

definition all_keys :: "kzh15_task \<Rightarrow> string set" where
  "all_keys t = set (wo_keys t @ inter_written_keys t @ intra_written_keys t @ ro_keys t @ inter_read_keys t @ intra_read_keys t)"

lemma add_runnable_labels_keys:
  "add_runnable_labels mx r (t, m) = (t', m') \<Longrightarrow> all_keys t' = all_keys t \<union> dec_int ` set (listed_labels r)"
  by (auto simp: add_runnable_labels_def all_keys_def listed_labels_def split: prod.splits dest!: label_values_keys)

lemma kzh15_task_new_keys:
  assumes "kzh15_task_new api period offset jobs objs tb sizes mx = Some (t, sizes')" "k \<in> all_keys t"
  shows "\<exists>i l. Some i \<in> set (btrunnables tb) \<and> l \<in> set (listed_labels (objs ! i)) \<and> k = dec_int l"
proof -
  have fresh: "all_keys (fresh_task p off j ig a b w) = {}" for p off j ig a b w by (simp add: fresh_task_def all_keys_def)
  obtain t0 where t0: "all_keys t0 = {}"
    and f: "fold_option (\<lambda>p a. case p of Some i \<Rightarrow> Some (add_runnable_labels mx (objs ! i) a) | None \<Rightarrow> None) (btrunnables tb) (t0, sizes) = Some (t, sizes')"
    using assms(1) fresh by (fastforce simp: kzh15_task_new_def Let_def split: if_splits bind_splits)
  have "\<forall>k \<in> all_keys (fst (t, sizes')). \<exists>i l. Some i \<in> set (btrunnables tb) \<and> l \<in> set (listed_labels (objs ! i)) \<and> k = dec_int l"
  proof (rule fold_option_inv_mem [OF f])
    fix x a b
    assume x: "x \<in> set (btrunnables tb)" and step: "(case x of Some i \<Rightarrow> Some (add_runnable_labels mx (objs ! i) a) | None \<Rightarrow> None) = Some b"
      and a: "\<forall>k \<in> all_keys (fst a). \<exists>i l. Some i \<in> set (btrunnables tb) \<and> l \<in> set (listed_labels (objs ! i)) \<and> k = dec_int l"
    obtain i where i: "x = Some i" "add_runnable_labels mx (objs ! i) (fst a, snd a) = (fst b, snd b)" using step by (auto split: option.splits)
    show "\<forall>k \<in> all_keys (fst b). \<exists>i l. Some i \<in> set (btrunnables tb) \<and> l \<in> set (listed_labels (objs ! i)) \<and> k = dec_int l"
      unfolding add_runnable_labels_keys [OF i(2)] using a x i(1) by blast
  qed (simp add: t0)
  then show ?thesis using assms(2) by simp
qed

lemma dec_short: "n < 10 ^ Suc k \<Longrightarrow> length (dec n) \<le> Suc k"
proof (induction k arbitrary: n)
  case (Suc k)
  then have "length (dec (n div 10)) \<le> Suc k" by (intro Suc.IH) simp
  then show ?case by (subst dec.simps) simp
qed (subst dec.simps, simp)

lemma prepare_parts:
  "btasks (prepare_benchmark s b) = btasks (trim_benchmark s (resolve_label_dependencies s b))"
  "objects (prepare_benchmark s b) = objects (trim_benchmark s (resolve_label_dependencies s b))"
  "brunnables (prepare_benchmark s b) = brunnables (trim_benchmark s (resolve_label_dependencies s b))"
  "fst ` set (label_sizes (prepare_benchmark s b)) = fst ` set (label_sizes (trim_benchmark s (resolve_label_dependencies s b)))"
  by (force simp: prepare_benchmark_def shrink_label_sizes_def)+

text \<open>A generated instance of at most ten million labels fits the keys of the stores.\<close>

lemma instance_keys_fit:
  assumes ok: "instance_ok inst" "b0 = basic_of rnd inst" and few: "\<forall>l \<in> set (labels inst). lid l < 10 ^ 7"
    and made: "bosch_setup api connect accept a b0 = Some (insts, ts)" and p: "p \<in> set ts"
  shows "\<forall>k \<in> all_keys (ptask p). length k \<le> 7"
  using made p refl
proof (rule setup_task)
  fix tb off jobs sizes sizes' t fr
  let ?b = "prepare_benchmark (smallest_period_ms a) b0"
  assume tb: "tb \<in> set (btasks ?b)" and new: "kzh15_task_new api (MS_TO_NS (word_of_int (btperiod_ms tb))) off jobs (objects ?b) tb sizes 16 = Some (t, sizes')"
    and pt: "ptask p = t\<lparr>freshness := fr\<rparr>"
  note closed = trimmed_closed [OF ok, of "smallest_period_ms a", unfolded closed_benchmark_def, folded prepare_parts]
  show ?thesis
  proof
    fix k assume "k \<in> all_keys (ptask p)"
    then have "k \<in> all_keys t" by (simp add: pt all_keys_def)
    then obtain i l where il: "Some i \<in> set (btrunnables tb)" "l \<in> set (listed_labels (objects ?b ! i))" "k = dec_int l"
      using kzh15_task_new_keys [OF new] by blast
    have "i \<in> set (brunnables ?b)" using closed tb il(1) by blast
    then have "l \<in> fst ` set (label_sizes ?b)" using closed il(2) by blast
    then have "l \<in> fst ` set (label_sizes b0)"
      unfolding prepare_parts by (auto simp: trim_benchmark_def resolve_label_dependencies_def Let_def)
    then obtain l' where "l' \<in> set (labels inst)" "l = int (lid l')" by (auto simp: ok(2) basic_of_def)
    then have "k = dec (lid l')" "lid l' < 10 ^ Suc 6" using few il(3) by (simp_all add: dec_int_def)
    then show "length k \<le> 7" using dec_short by fastforce
  qed
qed

text \<open>C9 (bosch_tasks_complete): every task that the experiment sets up, released over the store of its processor, whatever the tasks
  around it do to the store in between. If the keys that it writes have at most seven characters, which is so for label ids below ten million
  (\<open>instance_keys_fit\<close>), and it has at most 180000 jobs, it runs all of its jobs without a failed assertion and reports each read
  and write of each job once. The other cases fail an assertion: more jobs that of the release loop, a longer key
  that of the store, if the first job comes to its writes in time.\<close>

theorem bosch_tasks_complete:
  assumes made: "bosch_setup api connect accept a b0 = Some (insts, ts)" and p: "p \<in> set ts"
    and written: "written = set (wo_keys (ptask p) @ inter_written_keys (ptask p) @ intra_written_keys (ptask p) @ ro_keys (ptask p))"
    and cs: "insts ! pcpu p = (c, s)"
    and others: "\<forall>(env, x) \<in> set ticks. \<forall>s. bft_ok c 7 15 s \<and> stored_fit 15 s \<longrightarrow> bft_ok c 7 15 (env s) \<and> stored_fit 15 (env s)"
    and ticks: "unat (kmax_jobs (ptask p)) \<le> length ticks"
  shows "((\<forall>k \<in> written. length k \<le> 7) \<and> unat (kmax_jobs (ptask p)) \<le> MAX_NUM_JOBS \<longrightarrow>
      (\<exists>t' s'. kzh15_run try_read (try_write c 7 15) ticks (ptask p) s = Some (t', s') \<and>
        knum_jobs t' = kmax_jobs (ptask p) \<and>
        successful_reads t' + failed_reads t' = kmax_jobs (ptask p) * word_of_nat (num_reads (ptask p)) \<and>
        successful_writes t' + failed_writes t' = kmax_jobs (ptask p) * word_of_nat (num_writes (ptask p)))) \<and>
    (MAX_NUM_JOBS < unat (kmax_jobs (ptask p)) \<longrightarrow> kzh15_run try_read (try_write c 7 15) ticks (ptask p) s = None) \<and>
    (\<forall>env now w clk rest. ticks = (env, now, w, clk) # rest \<and> (\<exists>k \<in> written. 7 < length k) \<and> 0 < kmax_jobs (ptask p) \<and>
        (\<forall>j i. w j i < my_release_time_without_offset now (kperiod_ns (ptask p)) + kperiod_ns (ptask p)) \<longrightarrow>
      kzh15_run try_read (try_write c 7 15) ticks (ptask p) s = None)"
  using made p refl
proof (rule setup_task)
  fix tb off jobs sizes sizes' t fr
  let ?b = "prepare_benchmark (smallest_period_ms a) b0" and ?run = "kzh15_run try_read (try_write c 7 15) ticks (ptask p) s"
  assume cpu: "pcpu p < cpus_used a" and insts: "bosch_kvs_instances a (get_total_labels ?b) = Some insts"
    and new: "kzh15_task_new api (MS_TO_NS (word_of_int (btperiod_ms tb))) off jobs (objects ?b) tb sizes 16 = Some (t, sizes')"
    and pt: "ptask p = t\<lparr>freshness := fr\<rparr>" and fr: "length fr = length (inter_read_keys t)"
  have "(c, s) \<in> set insts" using cpu instances_ok [OF insts] cs by (metis nth_mem)
  then have st: "bft_ok c 7 15 s" "stored_fit 15 s" using instances_ok [OF insts] by (auto simp: stored_fit_def)
  have jobs: "kmax_jobs (ptask p) = jobs" "knum_jobs (ptask p) = 0"
    using kzh15_task_new_counters [OF new] pt by (simp_all add: fresh_counters_def)
  have "kzh15_ok (ptask p)" using kzh15_task_new_ok [OF new] pt by (simp add: kzh15_ok_def)
  then have long: "?run = None"
    if "ticks = (env, now, w, clk) # rest" "k \<in> written" "7 < length k" "0 < kmax_jobs (ptask p)"
      "\<forall>j i. w j i < my_release_time_without_offset now (kperiod_ns (ptask p)) + kperiod_ns (ptask p)" for env now w clk rest k
    using long_key_job [of "ptask p" k 7 w now] that jobs(2) unfolding written by (simp add: kzh15_terminate_def)
  have many: "?run = None" if "MAX_NUM_JOBS < unat (kmax_jobs (ptask p))"
    using jobs(2) that by (rule run_too_many_jobs)
  have completes: "\<exists>t' s'. ?run = Some (t', s') \<and> knum_jobs t' = jobs \<and>
      successful_reads t' + failed_reads t' = jobs * word_of_nat (num_reads (ptask p)) \<and>
      successful_writes t' + failed_writes t' = jobs * word_of_nat (num_writes (ptask p))"
    if short: "\<forall>k \<in> written. length k \<le> 7" and few: "unat jobs \<le> MAX_NUM_JOBS"
    using run_completes [OF new pt _ short [unfolded written] _ _ st others] fr ticks few jobs(1) by auto
  show ?thesis
  proof (intro conjI impI allI)
    assume "(\<forall>k \<in> written. length k \<le> 7) \<and> unat (kmax_jobs (ptask p)) \<le> MAX_NUM_JOBS"
    then show "\<exists>t' s'. ?run = Some (t', s') \<and> knum_jobs t' = kmax_jobs (ptask p) \<and>
        successful_reads t' + failed_reads t' = kmax_jobs (ptask p) * word_of_nat (num_reads (ptask p)) \<and>
        successful_writes t' + failed_writes t' = kmax_jobs (ptask p) * word_of_nat (num_writes (ptask p))"
      unfolding jobs(1) using completes by simp
  next
    fix env now w clk rest
    assume "ticks = (env, now, w, clk) # rest \<and> (\<exists>k \<in> written. 7 < length k) \<and> 0 < kmax_jobs (ptask p) \<and>
        (\<forall>j i. w j i < my_release_time_without_offset now (kperiod_ns (ptask p)) + kperiod_ns (ptask p))"
    then show "?run = None" by (elim conjE bexE) (rule long)
  qed (rule many)
qed


section \<open>The number of freshness constraints\<close>

definition writers :: "benchmark_basic \<Rightarrow> string \<Rightarrow> nat" where
  "writers b r = (\<Sum>tb \<leftarrow> btasks b. count_list (task_labels binter_written (objects b) tb) r)"

lemma length_writer_periods:
  "length (writer_periods ts r) = (\<Sum>ws \<leftarrow> map (snd \<circ> inter_keys) ts. count_list ws r)"
proof (induction ts)
  case (Cons t ts)
  have "length (filter (\<lambda>w. r = w) ws) = count_list ws r" for ws :: "string list"
    by (induction ws) auto
  then show ?case using Cons by (simp add: writer_periods_def inter_keys_def)
qed (simp add: writer_periods_def)

lemma sum_list_repeat: "(\<Sum>x \<leftarrow> concat (map (\<lambda>_ :: nat. xs) is). f x) = length is * (\<Sum>x \<leftarrow> xs. f x :: nat)"
  by (induction "is") simp_all

lemma writer_periods_repeated:
  assumes "bosch_tasks api a b = Some ts"
  shows "length (writer_periods ts r) = cpus_used a * writers b r"
proof -
  have "map (snd \<circ> inter_keys) ts = concat (map (\<lambda>_. map (task_labels binter_written (objects b)) (btasks b)) [0..<cpus_used a])"
    using arg_cong [OF bosch_tasks_inter [OF assms], of "map snd"]
    by (simp add: map_concat o_def task_inter_labels_def)
  then show ?thesis
    unfolding length_writer_periods writers_def by (simp only: sum_list_repeat length_upt map_map) (simp add: o_def)
qed

lemma constraint_counts:
  assumes "bosch_setup api connect accept a b0 = Some (insts, ts)" "b = prepare_benchmark (smallest_period_ms a) b0"
    and "tb \<in> set (btasks b)" "0 < cpus_used a"
  shows "length (task_labels binter_read (objects b) tb) = (\<Sum>r \<leftarrow> task_labels binter_read (objects b) tb. cpus_used a * writers b r)"
  using assms(1,2)
proof (rule setup_parts)
  fix ts0
  assume ts0: "bosch_tasks api a b = Some ts0" and fill: "list_all2 (\<lambda>p q. fill_freshness ts0 p = Some q) ts0 ts"
  have "task_inter_labels b tb \<in> set (map inter_keys ts0)"
    unfolding bosch_tasks_inter [OF ts0] using assms(3,4) by auto
  then obtain p where p: "p \<in> set ts0" "inter_read_keys (ptask p) = task_labels binter_read (objects b) tb"
    by (auto simp: inter_keys_def task_inter_labels_def)
  obtain q where "fill_freshness ts0 p = Some q" using list_all2_left [OF fill p(1)] by blast
  moreover obtain off jobs tb' sizes sizes' where "kzh15_task_new api (MS_TO_NS (word_of_int (btperiod_ms tb'))) off jobs (objects b) tb' sizes 16 = Some (ptask p, sizes')"
    using bosch_tasks_built [OF ts0] p(1) unfolding task_built_def by blast
  then have "freshness (ptask p) = []" using kzh15_task_new_inter by blast
  ultimately have "length (inter_read_keys (ptask p)) = length (concat (map (writer_periods ts0) (inter_read_keys (ptask p))))"
    using fill_freshness_some by fastforce
  then show ?thesis
    by (simp add: p(2) length_concat o_def writer_periods_repeated [OF ts0])
qed

text \<open>C26 (several_processors_abort): on more than one processor the setup fails its assertion on the number of
  freshness constraints as soon as some task reads labels of other tasks, each of them written by some task: the
  copies of the writers on the other processors are counted, too.\<close>

theorem several_processors_abort:
  assumes "2 \<le> cpus_used a" "b = prepare_benchmark (smallest_period_ms a) b0"
    and "tb \<in> set (btasks b)" "task_labels binter_read (objects b) tb \<noteq> []"
    and "\<forall>r \<in> set (task_labels binter_read (objects b) tb). 0 < writers b r"
  shows "bosch_setup api connect accept a b0 = None"
proof (rule ccontr)
  assume "bosch_setup api connect accept a b0 \<noteq> None"
  then obtain insts ts where "bosch_setup api connect accept a b0 = Some (insts, ts)" by auto
  then have "length (task_labels binter_read (objects b) tb) = (\<Sum>r \<leftarrow> task_labels binter_read (objects b) tb. cpus_used a * writers b r)"
    using constraint_counts assms(1-3) by simp
  moreover have "2 * length rs \<le> (\<Sum>r \<leftarrow> rs. cpus_used a * writers b r)" if "\<forall>r \<in> set rs. 0 < writers b r" for rs
    using that
  proof (induction rs)
    case (Cons r rs)
    have "2 * 1 \<le> cpus_used a * writers b r" using Cons.prems assms(1) by (intro mult_le_mono) auto
    then show ?case using Cons by simp
  qed simp
  ultimately show False using assms(4,5) by fastforce
qed


lemma nth_concat_singletons:
  "\<forall>x \<in> set xs. length (f x) = 1 \<Longrightarrow> i < length xs \<Longrightarrow> length (concat (map f xs)) = length xs \<and> concat (map f xs) ! i = hd (f (xs ! i))"
proof (induction xs arbitrary: i)
  case (Cons x xs)
  obtain y where y: "f x = [y]" using Cons.prems(1) by (auto simp: length_Suc_conv)
  have len: "length (concat (map f xs)) = length xs" using Cons.prems(1) by (induction xs) auto
  show ?case using Cons.IH [of "i - 1"] Cons.prems y len by (cases i) auto
qed simp

lemma writer_periods_mem: "x \<in> set (writer_periods ts r) \<Longrightarrow> \<exists>t \<in> set ts. r \<in> set (inter_written_keys (ptask t)) \<and> x = kperiod_ns (ptask t)"
  by (auto simp: writer_periods_def)

lemma writer_periods_single:
  "length (writer_periods ts r) = 1 \<Longrightarrow>
   \<exists>t. {t' \<in> set ts. r \<in> set (inter_written_keys (ptask t'))} = {t} \<and> writer_periods ts r = [kperiod_ns (ptask t)]"
proof (induction ts)
  case (Cons t ts)
  let ?own = "map (\<lambda>_. kperiod_ns (ptask t)) (filter (\<lambda>w. r = w) (inter_written_keys (ptask t)))"
  have split: "writer_periods (t # ts) r = ?own @ writer_periods ts r" by (simp add: writer_periods_def)
  show ?case
  proof (cases "r \<in> set (inter_written_keys (ptask t))")
    case False
    then have "filter (\<lambda>w. r = w) (inter_written_keys (ptask t)) = []" by (auto simp: filter_empty_conv)
    moreover from this obtain u where "{t' \<in> set ts. r \<in> set (inter_written_keys (ptask t'))} = {u}" "writer_periods ts r = [kperiod_ns (ptask u)]"
      using Cons split by auto
    moreover have "{t' \<in> set (t # ts). r \<in> set (inter_written_keys (ptask t'))} = {t' \<in> set ts. r \<in> set (inter_written_keys (ptask t'))}"
      using False by auto
    ultimately show ?thesis using split by auto
  next
    case True
    then have "filter (\<lambda>w. r = w) (inter_written_keys (ptask t)) \<noteq> []" by (auto simp: filter_empty_conv)
    then obtain w ws where w: "filter (\<lambda>w. r = w) (inter_written_keys (ptask t)) = w # ws" by (meson neq_Nil_conv)
    then have rest: "ws = []" "writer_periods ts r = []" using Cons.prems unfolding split by simp_all
    then have "\<forall>t' \<in> set ts. r \<notin> set (inter_written_keys (ptask t'))" by (auto simp: writer_periods_def filter_empty_conv)
    then have "{t' \<in> set (t # ts). r \<in> set (inter_written_keys (ptask t'))} = {t}" using True by auto
    then show ?thesis unfolding split using w rest by auto
  qed
qed (simp add: writer_periods_def)

text \<open>As many entries as lists, none of which is empty: one each.\<close>

lemma length_concat_ge: "\<forall>x \<in> set xs. f x \<noteq> [] \<Longrightarrow> length xs \<le> length (concat (map f xs))"
proof (induction xs)
  case (Cons x xs)
  then have "0 < length (f x)" "length xs \<le> length (concat (map f xs))" by auto
  then show ?case unfolding list.map concat.simps length_append list.size by linarith
qed simp

lemma one_each:
  "\<forall>x \<in> set xs. f x \<noteq> [] \<Longrightarrow> length (concat (map f xs)) = length xs \<Longrightarrow> \<forall>x \<in> set xs. length (f x) = 1"
proof (induction xs)
  case (Cons x xs)
  have "0 < length (f x)" "length xs \<le> length (concat (map f xs))" using Cons.prems(1) length_concat_ge [of xs f] by auto
  moreover have "length (f x) + length (concat (map f xs)) = Suc (length xs)" using Cons.prems(2) by simp
  ultimately have "length (f x) = 1" "length (concat (map f xs)) = length xs" by linarith+
  then show ?case using Cons by simp
qed simp

text \<open>Filling in the constraints does not change who writes what.\<close>

lemma filled_writers:
  "list_all2 (\<lambda>p q. fill_freshness ts0 p = Some q) ts1 ts \<Longrightarrow> writer_periods ts r = writer_periods ts1 r"
proof (induction ts1 ts rule: list_all2_induct)
  case (Cons p ps q qs)
  have "kperiod_ns (ptask q) = kperiod_ns (ptask p)" "inter_written_keys (ptask q) = inter_written_keys (ptask p)"
    using fill_freshness_some [OF Cons.hyps(1)] by auto
  then show ?case using Cons.IH by (simp add: writer_periods_def)
qed simp

text \<open>In a generated instance every label that a task reads from other tasks has a writer that is still there.\<close>

lemma remaining_in_task:
  assumes ok: "instance_ok inst" "b0 = basic_of rnd inst" and b: "b = prepare_benchmark s b0" and i: "i \<in> set (brunnables b)"
  shows "\<exists>tb \<in> set (btasks b). Some i \<in> set (btrunnables tb)"
proof -
  let ?n = "length (runnables inst)"
  have run: "brunnables (resolve_label_dependencies s b0) = [0..<?n]"
    by (simp add: resolve_label_dependencies_def ok(2) basic_of_def Let_def)
  have objs: "objects (resolve_label_dependencies s b0) = map (erase_inter (delete_set s b0) \<circ> basic_runnable rnd) (runnables inst)"
    using update_all [of ?n "map (basic_runnable rnd) (runnables inst)" "erase_inter (delete_set s b0)"]
    by (simp add: resolve_label_dependencies_def ok(2) basic_of_def Let_def)
  have n: "i < ?n" and keep: "\<not> too_fast s (brperiod_ms (objects (resolve_label_dependencies s b0) ! i))"
    using i unfolding b prepare_parts(3) by (simp_all add: trim_benchmark_def run)
  then have slow: "\<not> too_fast s (get_min_period_ms (rperiod_ms (runnables inst ! i)))"
    by (simp add: objs erase_inter_def basic_runnable_def)
  have "set_mset (mset (grouped (tasks inst))) = set_mset (mset [0..<?n])" using ok(1) by (simp only: instance_ok_def)
  then have "i \<in> set (grouped (tasks inst))" using n by simp
  then obtain u where u: "u \<in> set (tasks inst)" "i \<in> set (trunnables u)" by (auto simp: grouped_def)
  then have "rperiod_ms (runnables inst ! i) = tperiod_ms u" using ok(1) by (simp add: instance_ok_def task_ok_def)
  then have "basic_task rnd u \<in> set (btasks b)"
    unfolding b prepare_parts(1) using u(1) slow
    by (simp add: trim_benchmark_def resolve_label_dependencies_def ok(2) basic_of_def Let_def basic_task_def)
  moreover have "Some i \<in> set (btrunnables (basic_task rnd u))" using u(2) by (simp add: basic_task_def)
  ultimately show ?thesis by blast
qed

lemma instance_labels_written:
  assumes ok: "instance_ok inst" "b0 = basic_of rnd inst" and b: "b = prepare_benchmark s b0"
    and tb: "tb \<in> set (btasks b)" and r: "r \<in> set (task_labels binter_read (objects b) tb)"
  shows "0 < writers b r"
proof -
  note closed = trimmed_closed [OF ok, of s, unfolded closed_benchmark_def, folded prepare_parts, folded b]
  obtain i l where i: "Some i \<in> set (btrunnables tb)" "l \<in> set (binter_read (objects b ! i))" "r = dec_int l"
    using r by (auto simp: task_labels_def split: option.splits)
  have "i \<in> set (brunnables b)" using closed tb i(1) by blast
  then obtain j where j: "j \<in> set (brunnables b)" "l \<in> set (binter_written (objects b ! j))" using closed i(2) by blast
  obtain tw where tw: "tw \<in> set (btasks b)" "Some j \<in> set (btrunnables tw)" using remaining_in_task [OF ok b j(1)] by blast
  have "r \<in> set (task_labels binter_written (objects b) tw)"
    unfolding task_labels_def i(3) using tw(2) j(2) by (force split: option.splits)
  then have "0 < count_list (task_labels binter_written (objects b) tw) r" by (simp add: count_list_0_iff neq0_conv [symmetric])
  moreover have "f x \<le> (\<Sum>y \<leftarrow> xs. f y)" if "x \<in> set xs" for f :: "task_basic \<Rightarrow> nat" and x xs
    using that by (induction xs) auto
  from this [OF tw(1)] have "count_list (task_labels binter_written (objects b) tw) r \<le> writers b r" unfolding writers_def .
  ultimately show ?thesis by simp
qed

text \<open>C21 (freshness_names_writer): in a setup that succeeds, when every label that a task reads from other tasks is written by some
  task of the benchmark, as it is in a generated instance (\<open>instance_labels_written\<close>), the assertion on the number of constraints, which adds up the
  writers of all labels, suffices for each label: exactly one of the placed tasks writes it, and the constraint at its position is the
  period of that task.\<close>

theorem freshness_names_writer:
  assumes made: "bosch_setup api connect accept a b0 = Some (insts, ts)" and p: "p \<in> set ts"
    and b: "b = prepare_benchmark (smallest_period_ms a) b0"
    and written: "\<forall>r \<in> set (inter_read_keys (ptask p)). 0 < writers b r"
  shows "length (freshness (ptask p)) = length (inter_read_keys (ptask p)) \<and>
    (\<forall>i < length (inter_read_keys (ptask p)). \<exists>t.
       {t' \<in> set ts. inter_read_keys (ptask p) ! i \<in> set (inter_written_keys (ptask t'))} = {t} \<and>
       freshness (ptask p) ! i = kperiod_ns (ptask t))"
  using made b
proof (rule setup_parts)
  fix ts0
  assume ts0: "bosch_tasks api a b = Some ts0" and fill: "list_all2 (\<lambda>p q. fill_freshness ts0 p = Some q) ts0 ts"
  let ?rs = "inter_read_keys (ptask p)"
  obtain q where q: "q \<in> set ts0" "fill_freshness ts0 q = Some p" using list_all2_right [OF fill p] by blast
  have "pcpu q < cpus_used a" and none: "freshness (ptask q) = []"
    using bosch_tasks_built [OF ts0] q(1) kzh15_task_new_inter unfolding task_built_def by blast+
  then have cpus: "0 < cpus_used a" by simp
  have same: "writer_periods ts = writer_periods ts0" using filled_writers [OF fill] by (rule ext)
  have fr: "freshness (ptask p) = concat (map (writer_periods ts) ?rs)" "length (freshness (ptask p)) = length ?rs"
    unfolding same using fill_freshness_some [OF q(2)] none by auto
  have "writer_periods ts r \<noteq> []" if "r \<in> set ?rs" for r
    using writer_periods_repeated [OF ts0, of r] filled_writers [OF fill, of r] written that cpus by fastforce
  then have one: "\<forall>r \<in> set ?rs. length (writer_periods ts r) = 1" using one_each [of ?rs "writer_periods ts"] fr by simp
  have "\<exists>t. {t' \<in> set ts. ?rs ! i \<in> set (inter_written_keys (ptask t'))} = {t} \<and> freshness (ptask p) ! i = kperiod_ns (ptask t)"
    if i: "i < length ?rs" for i
  proof -
    have "length (writer_periods ts (?rs ! i)) = 1" using one nth_mem [OF i] by blast
    then show ?thesis using writer_periods_single [of ts "?rs ! i"] nth_concat_singletons [OF one i] fr(1) by auto
  qed
  then show ?thesis using fr(2) by blast
qed

section \<open>A concrete experiment\<close>

definition demo_args :: bosch_args where
  "demo_args = \<lparr>smallest_period_ms = 50, config_file_name = ''kzh15_113pcu_1018l.cfg'', exp_duration_s = 1 / 10, kvs_type = ''BFTKVS'',
     node_id = 1, total_nodes = 4, cpus_used = 1\<rparr>"

definition demo_benchmark :: benchmark_basic where
  "demo_benchmark = \<lparr>
     objects = [\<lparr>brid = 0, brperiod_ms = 50, bracet_us = 2, brbcet_us = 1, brwcet_us = 3, bro_read = [1], bwo_written = [2],
                  bintra_read = [], bintra_written = [], binter_read = [], binter_written = [3]\<rparr>,
                \<lparr>brid = 1, brperiod_ms = 100, bracet_us = 2, brbcet_us = 1, brwcet_us = 3, bro_read = [], bwo_written = [],
                  bintra_read = [], bintra_written = [], binter_read = [3], binter_written = []\<rparr>],
     brunnables = [0, 1],
     btasks = [\<lparr>btid = 0, btperiod_ms = 50, btacet_us = 2, btbcet_us = 1, btwcet_us = 3, btrunnables = [Some 0]\<rparr>,
               \<lparr>btid = 1, btperiod_ms = 100, btacet_us = 2, btbcet_us = 1, btwcet_us = 3, btrunnables = [Some 1]\<rparr>],
     label_sizes = [(1, 4), (2, 1), (3, 20)]\<rparr>"

lemma demo_wcets: "task_wcets demo_args = (2, 2, 2, 2)"
  by (simp add: task_wcets_def demo_args_def get_preset_wcets_def word_less_nat_alt)

lemma demo_prepared: "prepare_benchmark 50 demo_benchmark = demo_benchmark\<lparr>label_sizes := [(1, 4), (2, 1), (3, 16)]\<rparr>"
  by code_simp

lemma demo_jobs: "jobs_of (1 / 10) (MS_TO_NS 50) = Some 2" "jobs_of (1 / 10) (MS_TO_NS 100) = Some 1"
  by (simp_all add: jobs_of_def MS_TO_NS_def trunc_def Let_def)

lemma demo_offsets: "task_offset_ms demo_args 0 50 = 0" "task_offset_ms demo_args 0 100 = 2"
  by (simp_all add: task_offset_ms_def demo_wcets nmr_offset_ns_def)

definition demo_writer :: kzh15_task where
  "demo_writer = \<lparr>kperiod_ns = 50000000, koffset_ns = 0, knum_jobs = 0, ro_keys = [''1''], ro_values = [''aaa''], wo_keys = [''2''],
     wo_values = [''a''], inter_read_keys = [], inter_read_values = [], inter_written_keys = [''3''],
     inter_written_values = [replicate 15 (CHR ''a'')], intra_read_keys = [], intra_read_values = [], intra_written_keys = [],
     intra_written_values = [], freshness = [], acet_ns = 2000, bcet_ns = 1000, wcet_ns = 3000, kmax_jobs = 2, num_jobs_to_ignore = 40,
     successful_batch_reads = 0, successful_batch_writes = 0, successful_reads = 0, successful_writes = 0,
     failed_batch_reads = 0, failed_batch_writes = 0, failed_reads = 0, failed_writes = 0\<rparr>"

definition demo_reader :: kzh15_task where
  "demo_reader = \<lparr>kperiod_ns = 100000000, koffset_ns = 2000000, knum_jobs = 0, ro_keys = [], ro_values = [], wo_keys = [],
     wo_values = [], inter_read_keys = [''3''], inter_read_values = [replicate 15 (CHR ''a'')], inter_written_keys = [],
     inter_written_values = [], intra_read_keys = [], intra_read_values = [], intra_written_keys = [],
     intra_written_values = [], freshness = [], acet_ns = 2000, bcet_ns = 1000, wcet_ns = 3000, kmax_jobs = 1, num_jobs_to_ignore = 20,
     successful_batch_reads = 0, successful_batch_writes = 0, successful_reads = 0, successful_writes = 0,
     failed_batch_reads = 0, failed_batch_writes = 0, failed_reads = 0, failed_writes = 0\<rparr>"

lemma demo_task_new:
  "kzh15_task_new sample_boost 50000000 0 2 (objects demo_benchmark) (btasks demo_benchmark ! 0) [(1, 4), (2, 1), (3, 16)] 16
     = Some (demo_writer, [(1, 4), (2, 1), (3, 16)])"
  "kzh15_task_new sample_boost 100000000 2000000 1 (objects demo_benchmark) (btasks demo_benchmark ! 1) [(1, 4), (2, 1), (3, 16)] 16
     = Some (demo_reader, [(1, 4), (2, 1), (3, 16)])"
  by code_simp+

definition demo_placed :: "placed_task list" where
  "demo_placed = [\<lparr>ptid = 1001, pprio = 20, pcpu = 0, ptask = demo_writer\<rparr>, \<lparr>ptid = 1002, pprio = 19, pcpu = 0, ptask = demo_reader\<rparr>]"

lemma demo_tasks: "bosch_tasks sample_boost demo_args (prepare_benchmark 50 demo_benchmark) = Some demo_placed"
proof -
  have "btasks demo_benchmark = [btasks demo_benchmark ! 0, btasks demo_benchmark ! 1]"
    "btperiod_ms (btasks demo_benchmark ! 0) = 50" "btperiod_ms (btasks demo_benchmark ! 1) = 100"
    by (simp_all add: demo_benchmark_def)
  note b = this
  have a: "cpus_used demo_args = 1" "smallest_period_ms demo_args = 50" "exp_duration_s demo_args = 1 / 10" "node_id demo_args = 1"
    by (simp_all add: demo_args_def)
  have ms: "MS_TO_NS 50 = 50000000" "MS_TO_NS 100 = 100000000" "MS_TO_NS 0 = 0" "MS_TO_NS 2 = 2000000" by (simp_all add: MS_TO_NS_def)
  have prio: "get_period_based_priority 50 = 20" "get_period_based_priority 100 = 19"
    by (simp_all add: get_period_based_priority_def word_le_nat_alt)
  note j = demo_jobs [unfolded ms]
  have u: "[0..<1] = [0 :: nat]" by simp
  show ?thesis
    unfolding demo_prepared bosch_tasks_def
    by (simp add: a u del: One_nat_def, subst b(1))
      (simp add: bosch_task_def a u b(2,3) ms j demo_offsets demo_task_new prio too_fast_def word_less_nat_alt demo_placed_def del: One_nat_def)
qed


lemma demo_labels: "get_total_labels (prepare_benchmark 50 demo_benchmark) = 3"
  unfolding demo_prepared by (simp add: get_total_labels_def)

lemma demo_config: "\<exists>conf. bosch_kvs_config demo_args 0 = Some conf \<and> length (cpeers conf) = 4 \<and> crounds conf = 2"
proof -
  obtain ps where "peers_of demo_args 0 = Some ps" "length ps = 4" by (simp add: peers_of_def demo_args_def entry_def port_of_def node_ips_def
        bft_kvs_ports_def upt_rec numeral_eq_Suc)
  moreover have "port_of 0 (node_index 1) = Some ''8080''" by (simp add: port_of_def node_index_def entry_def bft_kvs_ports_def)
  moreover have a: "smallest_period_ms demo_args = 50" "exp_duration_s demo_args = 1 / 10" "node_id demo_args = 1"
    by (simp_all add: demo_args_def)
  ultimately show ?thesis unfolding bosch_kvs_config_def a demo_wcets Let_def demo_jobs by simp
qed

lemma demo_instances:
  obtains s where "bosch_kvs_instances demo_args 3 = Some [(100, s)]"
proof -
  obtain conf where c: "bosch_kvs_config demo_args 0 = Some conf" "length (cpeers conf) = 4" "crounds conf = 2" using demo_config by auto
  obtain t where "eig_new (zero_node 100 7 15) 4 (2 :: u32) = Some t" by (simp add: eig_new_def Let_def)
  then obtain s where "bft_new 100 7 15 4 (unat (cprocess conf)) 2 (cperiod_ns conf) (coffset_ns conf) (cmax_jobs conf) = Some s"
    by (simp add: bft_new_def)
  moreover have "capacity_for 3 = Some 100" by (simp add: capacity_for_def)
  moreover have "cpus_used demo_args = 1" by (simp add: demo_args_def)
  ultimately have "bosch_kvs_instances demo_args 3 = Some [(100, s)]"
    by (simp add: bosch_kvs_instances_def bftkvs_init_from_config_def c)
  then show ?thesis by (rule that)
qed

lemma those_pair: "f x = Some a \<Longrightarrow> f y = Some b \<Longrightarrow> those (map f [x, y]) = Some [a, b]"
  by simp

lemma demo_setup:
  obtains s where "bosch_setup sample_boost (\<lambda>c s. Some ()) (\<lambda>c s. Some ()) demo_args demo_benchmark =
    Some ([(100, s)], [demo_placed ! 0, (demo_placed ! 1)\<lparr>ptask := demo_reader\<lparr>freshness := [50000000]\<rparr>\<rparr>])"
proof (rule demo_instances)
  fix s
  assume s: "bosch_kvs_instances demo_args 3 = Some [(100, s)]"
  have a: "kvs_type demo_args = ''BFTKVS''" "smallest_period_ms demo_args = 50" by (simp_all add: demo_args_def)
  have c: "cast_and_call 3 (\<lambda>c s. Some ()) x = Some ()" for x by (simp add: cast_and_call_def capacity_for_def)
  have f: "fill_freshness demo_placed (demo_placed ! 0) = Some (demo_placed ! 0)"
    "fill_freshness demo_placed (demo_placed ! 1) = Some ((demo_placed ! 1)\<lparr>ptask := demo_reader\<lparr>freshness := [50000000]\<rparr>\<rparr>)"
    by (simp_all add: fill_freshness_def demo_placed_def demo_writer_def demo_reader_def writer_periods_def)
  have "demo_placed = [demo_placed ! 0, demo_placed ! 1]" by (simp add: demo_placed_def)
  then have "those (map (fill_freshness demo_placed) demo_placed) =
      Some [demo_placed ! 0, (demo_placed ! 1)\<lparr>ptask := demo_reader\<lparr>freshness := [50000000]\<rparr>\<rparr>]"
    using f by (metis (no_types) those_pair)
  then have "bosch_setup sample_boost (\<lambda>c s. Some ()) (\<lambda>c s. Some ()) demo_args demo_benchmark =
    Some ([(100, s)], [demo_placed ! 0, (demo_placed ! 1)\<lparr>ptask := demo_reader\<lparr>freshness := [50000000]\<rparr>\<rparr>])"
    by (simp add: bosch_setup_def a demo_labels s demo_tasks bftkvs_connect_to_severs_def bftkvs_connect_to_clients_def c)
  then show ?thesis by (rule that)
qed

theorem bosch_tasks_complete_witness:
  "\<exists>s t' s'. bosch_setup sample_boost (\<lambda>c s. Some ()) (\<lambda>c s. Some ()) demo_args demo_benchmark =
       Some ([(100, s)], [demo_placed ! 0, (demo_placed ! 1)\<lparr>ptask := demo_reader\<lparr>freshness := [50000000]\<rparr>\<rparr>]) \<and>
     kzh15_run try_read (try_write 100 7 15)
       [(\<lambda>s. s, 50000000, \<lambda>_ _. 50000100, \<lambda>_. 50000100), (\<lambda>s. s\<lparr>unpublished := zero_node 100 7 15\<rparr>, 100000000, \<lambda>_ _. 100000100, \<lambda>_. 100000100)]
       demo_writer s = Some (t', s') \<and> knum_jobs t' = 2 \<and> successful_writes t' + failed_writes t' = 6"
proof (rule demo_setup)
  fix s
  let ?ticks = "[(\<lambda>s. s, 50000000, \<lambda>_ _. 50000100, \<lambda>_. 50000100), (\<lambda>s. s\<lparr>unpublished := zero_node 100 7 15\<rparr>, 100000000, \<lambda>_ _. 100000100, \<lambda>_. 100000100)]"
  assume made: "bosch_setup sample_boost (\<lambda>c s. Some ()) (\<lambda>c s. Some ()) demo_args demo_benchmark =
    Some ([(100, s)], [demo_placed ! 0, (demo_placed ! 1)\<lparr>ptask := demo_reader\<lparr>freshness := [50000000]\<rparr>\<rparr>])"
  have p: "ptask (demo_placed ! 0) = demo_writer" "pcpu (demo_placed ! 0) = 0" by (simp_all add: demo_placed_def)
  have w: "kmax_jobs demo_writer = 2" "num_writes demo_writer = 3"
    "\<forall>k \<in> set (wo_keys demo_writer @ inter_written_keys demo_writer @ intra_written_keys demo_writer @ ro_keys demo_writer). length k \<le> 7"
    by (simp_all add: demo_writer_def num_writes_def)
  have others: "\<forall>(env, x) \<in> set ?ticks. \<forall>s. bft_ok 100 7 15 s \<and> stored_fit 15 s \<longrightarrow> bft_ok 100 7 15 (env s) \<and> stored_fit 15 (env s)"
    using zero_node_pending [of 100 7 15] by (simp add: bft_ok_def stored_fit_def)
  show ?thesis
  proof (intro exI [of _ s])
    have "unat (kmax_jobs (ptask (demo_placed ! 0))) \<le> length ?ticks" "[(100, s)] ! pcpu (demo_placed ! 0) = (100, s)"
      "demo_placed ! 0 \<in> set [demo_placed ! 0, (demo_placed ! 1)\<lparr>ptask := demo_reader\<lparr>freshness := [50000000]\<rparr>\<rparr>]"
      by (simp_all add: p w)
    note c = bosch_tasks_complete [OF made this(3) refl this(2) others this(1), THEN conjunct1, THEN mp, unfolded p w]
    have "unat (2 :: u64) \<le> MAX_NUM_JOBS" by (simp add: MAX_NUM_JOBS_def)
    from c [OF conjI, OF w(3) this] obtain t' s' where "kzh15_run try_read (try_write 100 7 15) ?ticks demo_writer s = Some (t', s')"
      "knum_jobs t' = 2" "successful_writes t' + failed_writes t' = 2 * word_of_nat 3" by auto
    then show "\<exists>t' s'. bosch_setup sample_boost (\<lambda>c s. Some ()) (\<lambda>c s. Some ()) demo_args demo_benchmark =
       Some ([(100, s)], [demo_placed ! 0, (demo_placed ! 1)\<lparr>ptask := demo_reader\<lparr>freshness := [50000000]\<rparr>\<rparr>]) \<and>
     kzh15_run try_read (try_write 100 7 15) ?ticks demo_writer s = Some (t', s') \<and> knum_jobs t' = 2 \<and> successful_writes t' + failed_writes t' = 6"
      using made by (intro exI [of _ t'] exI [of _ s']) simp
  qed
qed

lemma demo_writers: "writers (prepare_benchmark 50 demo_benchmark) ''3'' = 1"
  "task_labels binter_read (objects (prepare_benchmark 50 demo_benchmark)) (btasks demo_benchmark ! 1) = [''3'']"
  by code_simp+

theorem several_processors_abort_witness:
  "bosch_setup sample_boost (\<lambda>c s. Some ()) (\<lambda>c s. Some ()) (demo_args\<lparr>cpus_used := 2\<rparr>) demo_benchmark = None"
proof (rule several_processors_abort [where tb = "btasks demo_benchmark ! 1" and b = "prepare_benchmark 50 demo_benchmark"])
  show "btasks demo_benchmark ! 1 \<in> set (btasks (prepare_benchmark 50 demo_benchmark))"
    unfolding demo_prepared by (simp add: demo_benchmark_def)
qed (simp_all add: demo_writers demo_args_def del: One_nat_def)

theorem freshness_names_writer_witness:
  "\<exists>s. bosch_setup sample_boost (\<lambda>c s. Some ()) (\<lambda>c s. Some ()) demo_args demo_benchmark =
       Some ([(100, s)], [demo_placed ! 0, (demo_placed ! 1)\<lparr>ptask := demo_reader\<lparr>freshness := [50000000]\<rparr>\<rparr>]) \<and>
     (\<exists>t. {t' \<in> {demo_placed ! 0, (demo_placed ! 1)\<lparr>ptask := demo_reader\<lparr>freshness := [50000000]\<rparr>\<rparr>}.
        ''3'' \<in> set (inter_written_keys (ptask t'))} = {t} \<and> 50000000 = kperiod_ns (ptask t))"
proof (rule demo_setup)
  fix s
  let ?p = "(demo_placed ! 1)\<lparr>ptask := demo_reader\<lparr>freshness := [50000000]\<rparr>\<rparr>"
  assume made: "bosch_setup sample_boost (\<lambda>c s. Some ()) (\<lambda>c s. Some ()) demo_args demo_benchmark = Some ([(100, s)], [demo_placed ! 0, ?p])"
  have keys: "inter_read_keys (ptask ?p) = [''3'']" "freshness (ptask ?p) = [50000000]" by (simp_all add: demo_reader_def)
  have "smallest_period_ms demo_args = 50" by (simp add: demo_args_def)
  then have "\<forall>r \<in> set (inter_read_keys (ptask ?p)). 0 < writers (prepare_benchmark (smallest_period_ms demo_args) demo_benchmark) r"
    unfolding keys by (simp add: demo_writers)
  from freshness_names_writer [OF made _ refl this] have "\<exists>t. {t' \<in> set [demo_placed ! 0, ?p]. ''3'' \<in> set (inter_written_keys (ptask t'))} = {t} \<and>
      50000000 = kperiod_ns (ptask t)" unfolding keys by simp
  then show ?thesis using made by auto
qed

end
