(* ===== verification/Exp_Stats.thy ===== *)
theory Exp_Stats imports Exp_Common begin

text \<open>
  The summaries of the experiments \<^verbatim>\<open>exp/bosch1.cpp\<close> and \<^verbatim>\<open>exp/ivp1.cpp\<close>: the statistics of all tasks
  and stores, and the line that is appended to the result file. A file is its content, \<open>None\<close> when it does
  not exist. The stream output of a double, which can be no number, is the argument \<open>sd\<close>.
\<close>

section \<open>Collecting\<close>

definition counts_of :: "kzh15_task \<Rightarrow> access_counts" where
  "counts_of t = \<lparr>succ_reads = successful_reads t, succ_writes = successful_writes t,
     succ_batch_reads = successful_batch_reads t, succ_batch_writes = successful_batch_writes t,
     fail_reads = failed_reads t, fail_writes = failed_writes t,
     fail_batch_reads = failed_batch_reads t, fail_batch_writes = failed_batch_writes t\<rparr>"

definition sum_counts :: "access_counts list \<Rightarrow> access_counts" where
  "sum_counts cs = fold add_counts cs zero_counts"

record success_rates =
  avg_succ_read_pc :: "rat option"
  avg_succ_write_pc :: "rat option"
  avg_succ_batch_read_pc :: "rat option"
  avg_succ_batch_write_pc :: "rat option"

definition success_rates_of :: "access_counts \<Rightarrow> success_rates" where
  "success_rates_of c =
     \<lparr>avg_succ_read_pc = percent (succ_reads c) (fail_reads c),
      avg_succ_write_pc = percent (succ_writes c) (fail_writes c),
      avg_succ_batch_read_pc = percent (succ_batch_reads c) (fail_batch_reads c),
      avg_succ_batch_write_pc = percent (succ_batch_writes c) (fail_batch_writes c)\<rparr>"

section \<open>Lines of the result file\<close>

fun csv :: "string list \<Rightarrow> string" where
  "csv [] = []"
| "csv [c] = c"
| "csv (c # cs) = c @ '', '' @ csv cs"

record bosch_stats =
  bworkload :: string
  bconfig_file :: string
  bnum_tasks :: nat
  bnum_labels :: nat
  baverage_label_size_bytes :: "rat option"
  btotal_task_utilization_pc :: "rat option"
  bexp_duration_s :: u64
  bnum_cpus_used :: int
  bsmallest_period_ms :: u64
  bkvs_type :: string
  bnode_id :: int
  brates :: success_rates
  bapp_ms :: "rat \<times> rat option \<times> rat"
  bkvs_ms :: "rat \<times> rat option \<times> rat"

definition bosch_get_string :: "(rat option \<Rightarrow> string) \<Rightarrow> bosch_stats \<Rightarrow> string" where
  "bosch_get_string sd st = csv
     [bworkload st, bconfig_file st, dec (bnum_tasks st), dec (bnum_labels st), sd (baverage_label_size_bytes st),
      sd (btotal_task_utilization_pc st), dec (unat (bexp_duration_s st)), dec_int (bnum_cpus_used st),
      dec (unat (bsmallest_period_ms st)), bkvs_type st, dec_int (bnode_id st),
      sd (avg_succ_read_pc (brates st)), sd (avg_succ_write_pc (brates st)),
      sd (avg_succ_batch_read_pc (brates st)), sd (avg_succ_batch_write_pc (brates st)),
      sd (Some (fst (bapp_ms st))), sd (fst (snd (bapp_ms st))), sd (Some (snd (snd (bapp_ms st)))),
      sd (Some (fst (bkvs_ms st))), sd (fst (snd (bkvs_ms st))), sd (Some (snd (snd (bkvs_ms st))))]"

definition bosch_get_header :: string where
  "bosch_get_header = csv
     [''Workload'', ''Benchmark Config'', ''#Tasks'', ''#Labels'', ''Avg. label size (bytes)'', ''Configured total task utilization (%)'',
      ''Duration (s)'', ''#CPUs'', ''Smallest Period (ms)'', ''KVS Type'', ''Node ID'', ''Success Read %'', ''Success Write %'',
      ''Success Read Iterations %'', ''Success Write Iterations %'', ''App BCET (ms)'', ''App ACET (ms)'', ''App WCET (ms)'',
      ''KVS BCET (ms)'', ''KVS ACET (ms)'', ''KVS WCET (ms)'']"

record ivp_stats =
  iworkload :: string
  iexp_duration_s :: u64
  inum_tasks_per_cpu :: int
  inum_cpus_used :: int
  iperiod_ms :: u64
  ikvs_type :: string
  inode_id :: int
  irates :: success_rates
  iapp_ms :: "rat \<times> rat option \<times> rat"
  ikvs_ms :: "rat \<times> rat option \<times> rat"
  icontrol_status :: string

definition ivp_get_string :: "(rat option \<Rightarrow> string) \<Rightarrow> ivp_stats \<Rightarrow> string" where
  "ivp_get_string sd st = csv
     [iworkload st, dec (unat (iexp_duration_s st)), dec_int (inum_tasks_per_cpu st), dec_int (inum_cpus_used st),
      dec (unat (iperiod_ms st)), ikvs_type st, dec_int (inode_id st),
      sd (avg_succ_read_pc (irates st)), sd (avg_succ_write_pc (irates st)),
      sd (avg_succ_batch_read_pc (irates st)), sd (avg_succ_batch_write_pc (irates st)),
      sd (Some (fst (iapp_ms st))), sd (fst (snd (iapp_ms st))), sd (Some (snd (snd (iapp_ms st)))),
      sd (Some (fst (ikvs_ms st))), sd (fst (snd (ikvs_ms st))), sd (Some (snd (snd (ikvs_ms st)))), icontrol_status st]"

definition ivp_get_header :: string where
  "ivp_get_header = csv
     [''Workload'', ''Duration (s)'', ''#Tasks/CPU'', ''#CPUs'', ''Period (ms)'', ''KVS Type'', ''Node ID'',
      ''Successful Reads (%)'', ''Successful Writes (%)'', ''Successful Read Iterations (%)'', ''Successful Write Iterations (%)'',
      ''App BCET (ms)'', ''App ACET (ms)'', ''App WCET (ms)'', ''KVS BCET (ms)'', ''KVS ACET (ms)'', ''KVS WCET (ms)'', ''Stable control?'']"

definition append_to_file :: "string \<Rightarrow> string \<Rightarrow> string option \<Rightarrow> string option" where
  "append_to_file header line content =
     Some ((case content of None \<Rightarrow> header @ [CHR 0x0A] | Some c \<Rightarrow> c) @ line @ [CHR 0x0A])"

section \<open>The statistics of an experiment\<close>

definition bosch_stats_of :: "string \<Rightarrow> benchmark_basic \<Rightarrow> rat \<Rightarrow> int \<Rightarrow> u64 \<Rightarrow> string \<Rightarrow> int \<Rightarrow> measured list \<Rightarrow> measured list
    \<Rightarrow> kzh15_task list \<Rightarrow> bosch_stats" where
  "bosch_stats_of config b duration cpus smallest stype node kvs_ms app_ms ts =
     \<lparr>bworkload = ''Bosch1'', bconfig_file = config, bnum_tasks = get_total_tasks b, bnum_labels = get_total_labels b,
      baverage_label_size_bytes = get_avg_label_size b, btotal_task_utilization_pc = total_utilization_basic b,
      bexp_duration_s = word_of_int (trunc duration), bnum_cpus_used = cpus, bsmallest_period_ms = smallest, bkvs_type = stype,
      bnode_id = node, brates = success_rates_of (sum_counts (map counts_of ts)),
      bapp_ms = measured_over app_ms, bkvs_ms = measured_over kvs_ms\<rparr>"

section \<open>Properties\<close>

text \<open>The number of columns of a line.\<close>

definition commas :: "string \<Rightarrow> nat" where
  "commas s = count_list s (CHR '','')"

lemma commas_csv: "cs \<noteq> [] \<Longrightarrow> \<forall>c \<in> set cs. commas c = 0 \<Longrightarrow> commas (csv cs) = length cs - 1"
proof (induction cs rule: csv.induct)
  case (3 c c' cs)
  then show ?case by (simp add: commas_def)
qed (simp_all add: commas_def)

lemma commas_dec: "commas (dec n) = 0"
proof -
  have "CHR '','' \<notin> set (dec n)" using dec_digits [of n] by (force simp: is_digit_def)
  then show ?thesis by (simp add: commas_def count_notin)
qed

lemma commas_dec_int: "commas (dec_int i) = 0"
  using commas_dec by (simp add: dec_int_def commas_def)

lemma append_lines:
  "lines \<noteq> [] \<Longrightarrow> fold (append_to_file header) lines None = Some (concat (map (\<lambda>l. l @ [CHR 0x0A]) (header # lines)))"
proof (induction lines rule: rev_induct)
  case (snoc l ls)
  then show ?case by (cases "ls = []") (simp_all add: append_to_file_def)
qed simp

text \<open>Lemma (bosch_result_file): appending the summaries of some runs to a new result file gives one header line, before
  the lines of the runs in their order, and each line has as many columns as the header.\<close>

theorem bosch_result_file:
  assumes "stats \<noteq> []" "\<forall>x. commas (sd x) = 0"
    and "\<forall>st \<in> set stats. commas (bworkload st) = 0 \<and> commas (bconfig_file st) = 0 \<and> commas (bkvs_type st) = 0"
  shows "fold (append_to_file bosch_get_header) (map (bosch_get_string sd) stats) None =
      Some (concat (map (\<lambda>l. l @ [CHR 0x0A]) (bosch_get_header # map (bosch_get_string sd) stats))) \<and>
    (\<forall>st \<in> set stats. commas (bosch_get_string sd st) = commas bosch_get_header)"
proof
  show "fold (append_to_file bosch_get_header) (map (bosch_get_string sd) stats) None =
      Some (concat (map (\<lambda>l. l @ [CHR 0x0A]) (bosch_get_header # map (bosch_get_string sd) stats)))"
    using assms(1) by (intro append_lines) simp
  have h: "commas bosch_get_header = 20" by code_simp
  show "\<forall>st \<in> set stats. commas (bosch_get_string sd st) = commas bosch_get_header"
  proof
    fix st assume "st \<in> set stats"
    then show "commas (bosch_get_string sd st) = commas bosch_get_header"
      unfolding h bosch_get_string_def using assms(2,3)
      by (subst commas_csv) (simp_all add: commas_dec commas_dec_int)
  qed
qed

lemma ratio_percent:
  assumes "0 < a + b"
  shows "0 \<le> of_nat a * 100 / (of_nat (a + b) :: rat) \<and> of_nat a * 100 / (of_nat (a + b) :: rat) \<le> 100 \<and>
    (of_nat a * 100 / (of_nat (a + b) :: rat) = 100 \<longleftrightarrow> b = 0) \<and> (of_nat a * 100 / (of_nat (a + b) :: rat) = 0 \<longleftrightarrow> a = 0)"
proof -
  have n: "(0 :: rat) < of_nat (a + b)" using assms by (simp only: of_nat_0_less_iff)
  have "(of_nat a * 100 / (of_nat (a + b) :: rat) = 100) = ((of_nat a :: rat) * 100 = 100 * of_nat (a + b))"
    using n by (simp only: divide_eq_eq less_irrefl split: if_splits) simp
  then have "(of_nat a * 100 / (of_nat (a + b) :: rat) = 100) = (b = 0)" by simp
  moreover have "of_nat a * 100 / (of_nat (a + b) :: rat) \<le> 100"
    using n by (simp only: pos_divide_le_eq) simp
  moreover have "(of_nat a * 100 / (of_nat (a + b) :: rat) = 0) = (a = 0)" using n by (simp only: divide_eq_0_iff) simp
  ultimately show ?thesis by simp
qed

text \<open>Lemma (success_rate_bounds): a success rate whose counters do not wrap around is a percentage, it is 100 exactly when
  nothing failed and 0 exactly when nothing succeeded; it is no number exactly when there was no access.\<close>

theorem success_rate_bounds:
  assumes "unat s + unat f < 2 ^ 64"
  shows "(percent s f = None \<longleftrightarrow> s = 0 \<and> f = 0) \<and>
    (\<forall>p. percent s f = Some p \<longrightarrow> 0 \<le> p \<and> p \<le> 100 \<and> (p = 100 \<longleftrightarrow> f = 0) \<and> (p = 0 \<longleftrightarrow> s = 0))"
proof -
  have sum: "unat (s + f) = unat s + unat f" using assms by (simp add: unat_word_ariths(1))
  have z: "unat x = 0 \<longleftrightarrow> x = 0" for x :: u64 by (simp add: unat_eq_zero)
  show ?thesis
  proof (cases "s = 0 \<and> f = 0")
    case True
    then show ?thesis by (simp add: percent_def quotient_def)
  next
    case False
    then have pos: "0 < unat s + unat f" using z by auto
    then have "of_nat (unat s + unat f) \<noteq> (0 :: rat)" by (simp only: of_nat_eq_0_iff)
    then have p: "percent s f = Some (of_nat (unat s) * 100 / of_nat (unat s + unat f))"
      unfolding percent_def quotient_def sum by (simp only: if_False)
    show ?thesis using False p z ratio_percent [OF pos] by simp
  qed
qed


definition demo_stats :: bosch_stats where
  "demo_stats = \<lparr>bworkload = ''Bosch1'', bconfig_file = ''a.cfg'', bnum_tasks = 2, bnum_labels = 3, baverage_label_size_bytes = Some 7,
     btotal_task_utilization_pc = None, bexp_duration_s = 10, bnum_cpus_used = 1, bsmallest_period_ms = 50, bkvs_type = ''BFTKVS'', bnode_id = 1,
     brates = success_rates_of zero_counts, bapp_ms = (0, None, 1), bkvs_ms = (0, Some 1, 1)\<rparr>"

theorem bosch_result_file_witness:
  "fold (append_to_file bosch_get_header) (map (bosch_get_string (\<lambda>_. ''x'')) [demo_stats]) None =
     Some (concat (map (\<lambda>l. l @ [CHR 0x0A]) [bosch_get_header, bosch_get_string (\<lambda>_. ''x'') demo_stats])) \<and>
   commas (bosch_get_string (\<lambda>_. ''x'') demo_stats) = 20"
proof -
  have "commas bosch_get_header = 20" by code_simp
  then show ?thesis
    using bosch_result_file [of "[demo_stats]" "\<lambda>_. ''x''"] by (simp add: commas_def demo_stats_def)
qed

theorem success_rate_bounds_witness:
  "\<exists>p. percent 3 1 = Some p \<and> 0 < p \<and> p < 100"
  using success_rate_bounds [of 3 1] by (cases "percent 3 1") (auto simp: less_le)

end
