(* ===== verification/Fixed_Point.thy ===== *)
theory Fixed_Point imports Decimal Complex_Main begin

text \<open>
  Doubles as texts: \<^verbatim>\<open>std::to_string(double)\<close> writes six decimals, rounded to the nearest value (ties to
  even), and \<^verbatim>\<open>std::stod\<close> reads the longest prefix that is a number. Doubles are rationals here, so the
  sign of a zero is not kept. \<open>decimal_stod\<close> reads plain decimal texts, the ones that the
  sources write; the other forms that \<^verbatim>\<open>std::stod\<close> knows (exponents, hexadecimal, infinities) are left to the
  argument \<open>stod\<close> of the definitions that use it.
\<close>

definition round_even :: "rat \<Rightarrow> int" where
  "round_even x =
     (let f = floor x; d = x - of_int f
      in if d < 1 / 2 then f else if 1 / 2 < d then f + 1 else if even f then f else f + 1)"

definition micros :: "rat \<Rightarrow> nat" where
  "micros x = nat (round_even (\<bar>x\<bar> * 1000000))"

definition pad6 :: "nat \<Rightarrow> string" where
  "pad6 n = replicate (6 - length (dec n)) (CHR ''0'') @ dec n"

definition to_string_double :: "rat \<Rightarrow> string" where
  "to_string_double x =
     (if x < 0 then ''-'' else []) @ dec (micros x div 1000000) @ [CHR ''.''] @ pad6 (micros x mod 1000000)"

text \<open>The value that is written.\<close>

definition rounded :: "rat \<Rightarrow> rat" where
  "rounded x = (if x < 0 then - 1 else 1) * (of_nat (micros x) / 1000000)"

definition unsigned_decimal :: "string \<Rightarrow> rat option" where
  "unsigned_decimal s =
     (let ip = takeWhile is_digit s; rest = dropWhile is_digit s;
          fp = (case rest of [] \<Rightarrow> [] | c # r \<Rightarrow> if c = CHR ''.'' then takeWhile is_digit r else [])
      in if ip = [] \<and> fp = [] then None else Some (of_nat (undec ip) + of_nat (undec fp) / 10 ^ length fp))"

definition decimal_stod :: "string \<Rightarrow> rat option" where
  "decimal_stod s = (case s of [] \<Rightarrow> None | c # r \<Rightarrow>
     if c = CHR ''-'' then map_option uminus (unsigned_decimal r)
     else if c = CHR ''+'' then unsigned_decimal r else unsigned_decimal s)"

section \<open>Rounding\<close>

lemma round_even_close: "\<bar>of_int (round_even x) - x\<bar> \<le> 1 / 2"
proof -
  have "of_int (floor x) \<le> x" "x < of_int (floor x) + 1" by linarith+
  then show ?thesis by (simp add: round_even_def Let_def)
qed

lemma round_even_nonneg: "0 \<le> x \<Longrightarrow> 0 \<le> round_even x"
  by (simp add: round_even_def Let_def)

lemma micros_close: "\<bar>of_nat (micros x) / 1000000 - \<bar>x\<bar>\<bar> \<le> 1 / 2000000"
proof -
  have "of_nat (micros x) = (of_int (round_even (\<bar>x\<bar> * 1000000)) :: rat)"
    using round_even_nonneg [of "\<bar>x\<bar> * 1000000"] by (simp add: micros_def)
  then have "\<bar>of_nat (micros x) - \<bar>x\<bar> * 1000000\<bar> \<le> 1 / 2" using round_even_close [of "\<bar>x\<bar> * 1000000"] by simp
  then show ?thesis by (simp add: abs_if field_simps split: if_splits)
qed

lemma rounded_close: "\<bar>rounded x - x\<bar> \<le> 1 / 2000000"
  using micros_close [of x] by (simp add: rounded_def abs_if split: if_splits)

lemma round_even_of_int: "round_even (of_int n) = n"
  by (simp add: round_even_def Let_def)

lemma rounded_exact: "rounded (of_int k / 1000000) = of_int k / 1000000"
proof -
  have "\<bar>of_int k / 1000000\<bar> * 1000000 = (of_int \<bar>k\<bar> :: rat)" by simp
  then have "micros (of_int k / 1000000) = nat \<bar>k\<bar>" by (simp only: micros_def round_even_of_int)
  then show ?thesis by (simp add: rounded_def)
qed

text \<open>Rounding twice is rounding once.\<close>

lemma rounded_rounded: "rounded (rounded x) = rounded x"
proof -
  have "rounded x = of_int ((if x < 0 then - 1 else 1) * int (micros x)) / 1000000" by (simp add: rounded_def)
  then show ?thesis using rounded_exact by metis
qed

section \<open>The round trip\<close>

lemma length_dec: "0 < k \<Longrightarrow> n < 10 ^ k \<Longrightarrow> length (dec n) \<le> k"
proof (induction k arbitrary: n)
  case (Suc k)
  show ?case
  proof (cases "n < 10")
    case False
    then have "0 < k" using Suc.prems by (cases k) auto
    moreover have "n div 10 < 10 ^ k" using Suc.prems by (simp add: less_mult_imp_div_less mult.commute)
    ultimately have "length (dec (n div 10)) \<le> k" by (rule Suc.IH)
    then show ?thesis using False by (subst dec.simps) simp
  qed (subst dec.simps, simp)
qed simp

lemma undec_zeros: "undec (replicate k (CHR ''0'') @ s) = undec s"
  by (induction k) (simp_all add: undec_cons digit_of_def)

lemma pad6_props:
  assumes "n < 1000000"
  shows "length (pad6 n) = 6 \<and> undec (pad6 n) = n \<and> (\<forall>c \<in> set (pad6 n). is_digit c)"
proof -
  have "length (dec n) \<le> 6" using length_dec [of 6 n] assms by simp
  moreover have "is_digit (CHR ''0'')" by (simp add: is_digit_def)
  ultimately show ?thesis using dec_digits by (auto simp: pad6_def undec_zeros)
qed

lemma unsigned_decimal_written:
  assumes "\<forall>c \<in> set fp. is_digit c"
  shows "unsigned_decimal (dec n @ CHR ''.'' # fp) = Some (of_nat n + of_nat (undec fp) / 10 ^ length fp)"
proof -
  have "\<not> is_digit (CHR ''.'')" by (simp add: is_digit_def)
  then have "takeWhile is_digit (dec n @ CHR ''.'' # fp) = dec n" "dropWhile is_digit (dec n @ CHR ''.'' # fp) = CHR ''.'' # fp"
    using dec_digits by (simp_all add: takeWhile_append dropWhile_append)
  moreover have "takeWhile is_digit fp = fp" using assms by (simp add: takeWhile_eq_all_conv)
  ultimately show ?thesis unfolding unsigned_decimal_def Let_def by (simp only: list.case if_True) simp
qed

lemma dec_head: "\<exists>d r. dec n = d # r \<and> is_digit d"
  using dec_digits [of n] dec_not_empty [of n] by (cases "dec n") auto

lemma stod_to_string: "decimal_stod (to_string_double x) = Some (rounded x)"
proof -
  let ?n = "micros x div 1000000" and ?f = "pad6 (micros x mod 1000000)"
  have f: "length ?f = 6" "undec ?f = micros x mod 1000000" "\<forall>c \<in> set ?f. is_digit c"
    using pad6_props [of "micros x mod 1000000"] by simp_all
  have "unsigned_decimal (dec ?n @ CHR ''.'' # ?f) = Some (of_nat ?n + of_nat (micros x mod 1000000) / 1000000)"
    using unsigned_decimal_written [OF f(3)] f(1,2) by simp
  moreover have "of_nat ?n + of_nat (micros x mod 1000000) / 1000000 = (of_nat (micros x) / 1000000 :: rat)"
  proof -
    have "of_nat q + of_nat r / 1000000 = (of_nat (q * 1000000 + r) / 1000000 :: rat)" for q r by (simp add: field_simps)
    then show ?thesis by (simp only: div_mult_mod_eq)
  qed
  ultimately have u: "unsigned_decimal (dec ?n @ CHR ''.'' # ?f) = Some (of_nat (micros x) / 1000000)" by simp
  obtain d r where d: "dec ?n = d # r" "is_digit d" using dec_head by blast
  then have "d \<noteq> CHR ''-''" "d \<noteq> CHR ''+''" by (auto simp: is_digit_def)
  then show ?thesis using u d(1) by (simp add: decimal_stod_def to_string_double_def rounded_def)
qed

lemma length_to_string:
  assumes "\<bar>x\<bar> \<le> 9999999"
  shows "length (to_string_double x) \<le> 15"
proof -
  have "of_nat (micros x) / 1000000 \<le> \<bar>x\<bar> + 1 / 2000000" using micros_close [of x] by linarith
  then have "rat_of_nat (micros x) \<le> rat_of_nat 9999999000001" using assms by simp
  then have "micros x \<le> 9999999000001" by (simp only: of_nat_le_iff)
  then have "micros x div 1000000 < 10 ^ 7" by simp
  then have "length (dec (micros x div 1000000)) \<le> 7" by (intro length_dec) simp_all
  moreover have "length (pad6 (micros x mod 1000000)) = 6" using pad6_props by simp
  ultimately show ?thesis by (simp add: to_string_double_def)
qed

end
