(* ===== verification/Simple_Kvs.thy ===== *)
theory Simple_Kvs imports Decimal Std_Containers begin

text \<open>
  The in-memory store of \<^verbatim>\<open>src/achal/simple_kvs.cpp\<close> and the default vote of
  \<^verbatim>\<open>src/achal/bft_kvs.cpp\<close>. The store is a map from keys to texts without times. A vector
  that is indexed past its end is the outcome \<open>None\<close>.
\<close>

section \<open>The simple store\<close>

type_synonym simple_store = "string \<rightharpoonup> string"

definition simple_write :: "string \<Rightarrow> string \<Rightarrow> simple_store \<Rightarrow> simple_store" where
  "simple_write key val st = st(key \<mapsto> val)"

definition simple_write_at :: "string \<Rightarrow> u64 \<Rightarrow> string \<Rightarrow> simple_store \<Rightarrow> simple_store" where
  "simple_write_at key publish_time val st = simple_write key val st"

fun simple_write_batch :: "string list \<Rightarrow> string list \<Rightarrow> simple_store \<Rightarrow> simple_store option" where
  "simple_write_batch [] vals st = Some st"
| "simple_write_batch (k # ks) [] st = None"
| "simple_write_batch (k # ks) (v # vals) st = simple_write_batch ks vals (st(k \<mapsto> v))"

definition simple_try_write :: "string \<Rightarrow> u64 \<Rightarrow> string \<Rightarrow> simple_store \<Rightarrow> bool \<times> simple_store" where
  "simple_try_write key publish_time val st = (True, simple_write key val st)"

definition simple_try_write_batch :: "string list \<Rightarrow> u64 \<Rightarrow> string list \<Rightarrow> simple_store \<Rightarrow> (bool \<times> simple_store) option" where
  "simple_try_write_batch ks publish_time vals st = map_option (\<lambda>st'. (True, st')) (simple_write_batch ks vals st)"

text \<open>\<^verbatim>\<open>store[key]\<close> inserts an empty text for a key that is not there.\<close>

definition simple_read :: "string \<Rightarrow> simple_store \<Rightarrow> string \<times> simple_store" where
  "simple_read key st = (case st key of Some v \<Rightarrow> (v, st) | None \<Rightarrow> ('''', st(key \<mapsto> '''')))"

fun simple_read_batch :: "string list \<Rightarrow> string list \<Rightarrow> simple_store \<Rightarrow> (string list \<times> simple_store) option" where
  "simple_read_batch [] vals st = Some (vals, st)"
| "simple_read_batch (k # ks) [] st = None"
| "simple_read_batch (k # ks) (_ # vals) st =
     (let (v, st1) = simple_read k st
      in case simple_read_batch ks vals st1 of
           None \<Rightarrow> None
         | Some (vs, st2) \<Rightarrow> Some (v # vs, st2))"

definition simple_try_read :: "string \<Rightarrow> u64 \<Rightarrow> simple_store \<Rightarrow> bool \<times> string \<times> simple_store" where
  "simple_try_read key no_earlier_than st = (True, simple_read key st)"

definition simple_try_read_batch :: "string list \<Rightarrow> u64 \<Rightarrow> string list \<Rightarrow> simple_store \<Rightarrow> (bool \<times> string list \<times> simple_store) option" where
  "simple_try_read_batch ks no_earlier_than vals st = map_option (\<lambda>r. (True, r)) (simple_read_batch ks vals st)"

lemma simple_write_batch_spec:
  "length ks \<le> length vals \<Longrightarrow> simple_write_batch ks vals st = Some (st ++ map_of (rev (zip ks vals)))"
  by (induction ks vals st rule: simple_write_batch.induct) (simp_all add: map_add_upd_left map_add_def fun_eq_iff split: option.split)

lemma simple_read_batch_present:
  assumes "set ks \<subseteq> dom st" "length ks = length out"
  shows "simple_read_batch ks out st = Some (map (\<lambda>k. the (st k)) ks, st)"
  using assms
proof (induction ks arbitrary: out)
  case (Cons k ks)
  obtain x xs where out: "out = x # xs" using Cons.prems(2) by (cases out) auto
  obtain v where "st k = Some v" using Cons.prems(1) by auto
  then show ?case using Cons out by (simp add: simple_read_def)
qed simp

text \<open>Lemma (simple_batch_roundtrip): a batch that is written, whatever its publish time, is read
  back, for any number of distinct keys, and no other key changes.\<close>

theorem simple_batch_roundtrip:
  assumes "distinct ks" "length vals = length ks" "length out = length ks"
  shows "\<exists>st'. simple_try_write_batch ks publish_time vals st = Some (True, st') \<and>
    simple_try_read_batch ks no_earlier_than out st' = Some (True, vals, st') \<and>
    (\<forall>k. k \<notin> set ks \<longrightarrow> st' k = st k)"
proof -
  let ?m = "map_of (zip ks vals)"
  have rev: "map_of (rev (zip ks vals)) = ?m"
    using assms(1,2) by (intro map_of_rev_distinct) simp
  have dom: "dom ?m = set ks" using assms(2) by (simp add: dom_map_of_zip)
  have look: "map (\<lambda>k. the ((st ++ ?m) k)) ks = vals"
  proof (rule nth_equalityI)
    fix i assume "i < length (map (\<lambda>k. the ((st ++ ?m) k)) ks)"
    then have "i < length ks" by simp
    then have "?m (ks ! i) = Some (vals ! i)" using assms(1,2) by (simp add: map_of_zip_nth)
    then show "map (\<lambda>k. the ((st ++ ?m) k)) ks ! i = vals ! i" using \<open>i < length ks\<close> by (simp add: map_add_def)
  qed (simp add: assms(2))
  have "simple_read_batch ks out (st ++ ?m) = Some (vals, st ++ ?m)"
    using simple_read_batch_present [of ks "st ++ ?m" out] dom assms(3) look by simp
  moreover have "(st ++ ?m) k = st k" if "k \<notin> set ks" for k
    using that dom by (metis domIff map_add_dom_app_simps(3))
  ultimately show ?thesis
    using simple_write_batch_spec [of ks vals st] assms(2) rev
    by (simp add: simple_try_write_batch_def simple_try_read_batch_def)
qed

theorem simple_batch_roundtrip_witness:
  "\<exists>st'. simple_try_write_batch [''a'', ''b''] 9 [''1'', ''2''] Map.empty = Some (True, st') \<and>
     simple_try_read_batch [''a'', ''b''] 5 ['''', ''''] st' = Some (True, [''1'', ''2''], st')"
  using simple_batch_roundtrip [of "[''a'', ''b'']" "[''1'', ''2'']" "['''', '''']" 9 Map.empty 5] by auto

section \<open>The default vote\<close>

interpretation text_order: ordered_keys text_less
proof
  show "\<not> text_less k k" for k
    unfolding text_less_def by (rule lexord_irreflexive) simp
  show "text_less a c" if "text_less a b" "text_less b c" for a b c
    using that unfolding text_less_def by (rule lexord_trans) (simp add: trans_def)
  show "text_less a b \<or> text_less b a" if "a \<noteq> b" for a b
    using lexord_linear [of "{(a, b). (of_char a :: nat) < of_char b}" a b] that
    unfolding text_less_def by (metis (mono_tags, lifting) case_prodI linorder_neqE mem_Collect_eq of_char_eq_iff)
qed

fun count_frequencies :: "string list \<Rightarrow> (string \<times> int) list \<Rightarrow> (string \<times> int) list" where
  "count_frequencies [] f = f"
| "count_frequencies (v # vs) f =
     (let f1 = (if map_of f v = None then om_put text_less v 0 f else f)
      in count_frequencies vs (om_put text_less v (the (map_of f1 v) + 1) f1))"

fun scan_frequencies :: "(string \<times> int) list \<Rightarrow> int \<Rightarrow> string \<Rightarrow> string" where
  "scan_frequencies [] max_frequency majority = majority"
| "scan_frequencies ((v, n) # f) max_frequency majority =
     (if n > max_frequency then scan_frequencies f n v else scan_frequencies f max_frequency majority)"

definition simpleMajority :: "string list \<Rightarrow> string \<Rightarrow> bool \<times> string" where
  "simpleMajority vals majority =
     (let frequencies = count_frequencies vals []
      in if length frequencies = 0 then (False, majority)
         else (True, scan_frequencies frequencies (-1) majority))"

definition fuse_default :: "string list \<Rightarrow> string" where
  "fuse_default vals = snd (simpleMajority vals '''')"

lemma count_frequencies_spec:
  assumes "om_sorted text_less f"
  shows "om_sorted text_less (count_frequencies vs f) \<and>
    map_of (count_frequencies vs f) v =
      (if v \<in> set vs then Some (int (count_list vs v) + (case map_of f v of None \<Rightarrow> 0 | Some n \<Rightarrow> n)) else map_of f v)"
  using assms
proof (induction vs arbitrary: f)
  case (Cons x vs)
  define g where "g = om_put text_less x ((case map_of f x of None \<Rightarrow> 0 | Some n \<Rightarrow> n) + 1)
    (if map_of f x = None then om_put text_less x 0 f else f)"
  have step: "count_frequencies (x # vs) f = count_frequencies vs g"
    by (auto simp: g_def Let_def text_order.map_of_put split: option.split)
  have "om_sorted text_less g" using Cons.prems by (simp add: g_def text_order.sorted_put)
  moreover have "map_of g = (map_of f)(x \<mapsto> (case map_of f x of None \<Rightarrow> 0 | Some n \<Rightarrow> n) + 1)"
    by (auto simp: g_def text_order.map_of_put)
  ultimately show ?case using Cons.IH [of g] unfolding step by (auto split: option.split)
qed simp

lemma scan_frequencies_spec:
  assumes "om_sorted text_less f" "r = scan_frequencies f mx m"
  shows "r = m \<and> (\<forall>(k, n) \<in> set f. n \<le> mx) \<or>
    (\<exists>n. (r, n) \<in> set f \<and> mx < n \<and> (\<forall>(k, n') \<in> set f. n' < n \<or> n' = n \<and> (k = r \<or> text_less r k)))"
  using assms
proof (induction f arbitrary: mx m)
  case (Cons e f)
  obtain v n where e: "e = (v, n)" by (cases e)
  have f: "om_sorted text_less f" "\<forall>k \<in> fst ` set f. text_less v k"
    using Cons.prems(1) e by (simp_all add: text_order.om_sorted_Cons)
  show ?case
  proof (cases "n > mx")
    case True
    then have r: "r = scan_frequencies f n v" using Cons.prems(2) e by simp
    from Cons.IH [OF f(1) r] show ?thesis
    proof
      assume *: "r = v \<and> (\<forall>(k, n') \<in> set f. n' \<le> n)"
      have "n' < n \<or> n' = n \<and> (k = r \<or> text_less r k)" if "(k, n') \<in> set (e # f)" for k n'
        using that * e f(2) by (force simp: order_le_less)
      then show ?thesis using True e * by (intro disjI2 exI [of _ n]) auto
    next
      assume "\<exists>n1. (r, n1) \<in> set f \<and> n < n1 \<and> (\<forall>(k, n') \<in> set f. n' < n1 \<or> n' = n1 \<and> (k = r \<or> text_less r k))"
      then obtain n1 where "(r, n1) \<in> set f" "n < n1" "\<forall>(k, n') \<in> set f. n' < n1 \<or> n' = n1 \<and> (k = r \<or> text_less r k)"
        by blast
      then show ?thesis using True e by (intro disjI2 exI [of _ n1]) auto
    qed
  next
    case False
    then have r: "r = scan_frequencies f mx m" using Cons.prems(2) e by simp
    from Cons.IH [OF f(1) r] show ?thesis using False e by fastforce
  qed
qed simp

text \<open>Lemma (fuse_default_plurality): despite its name the default vote does not need a majority: it
  returns a most frequent value, the least of them in the order of texts, and the empty text
  only for an empty vote or when that value is empty.\<close>

theorem fuse_default_plurality:
  "if vals = [] then fuse_default vals = ''''
   else fuse_default vals \<in> set vals \<and>
     (\<forall>v \<in> set vals. count_list vals v \<le> count_list vals (fuse_default vals) \<and>
        (count_list vals v = count_list vals (fuse_default vals) \<longrightarrow>
           v = fuse_default vals \<or> text_less (fuse_default vals) v))"
proof (cases "vals = []")
  case True
  then show ?thesis by (simp add: fuse_default_def simpleMajority_def)
next
  case False
  define f where "f = count_frequencies vals []"
  have f: "om_sorted text_less f" "\<And>v. map_of f v = (if v \<in> set vals then Some (int (count_list vals v)) else None)"
    using count_frequencies_spec [OF text_order.om_sorted_Nil, of vals] by (auto simp: f_def)
  then have entry: "(v, n) \<in> set f \<longleftrightarrow> v \<in> set vals \<and> n = int (count_list vals v)" for v n
    using text_order.sorted_distinct [OF f(1)] by (metis map_of_eq_Some_iff option.distinct(1) option.inject)
  have "f \<noteq> []" using False entry by (metis empty_iff empty_set last_in_set)
  then have r: "fuse_default vals = scan_frequencies f (-1) ''''"
    by (simp add: fuse_default_def simpleMajority_def f_def Let_def)
  have "last vals \<in> set vals" using False by simp
  then have "(last vals, int (count_list vals (last vals))) \<in> set f" using entry by blast
  then have "\<not> (\<forall>(k, n) \<in> set f. n \<le> -1)" by fastforce
  then obtain n where n: "(fuse_default vals, n) \<in> set f"
    "\<forall>(k, n') \<in> set f. n' < n \<or> n' = n \<and> (k = fuse_default vals \<or> text_less (fuse_default vals) k)"
    using scan_frequencies_spec [OF f(1) r] by blast
  then have max: "fuse_default vals \<in> set vals" "n = int (count_list vals (fuse_default vals))"
    using entry by blast+
  have "count_list vals k \<le> count_list vals (fuse_default vals) \<and>
      (count_list vals k = count_list vals (fuse_default vals) \<longrightarrow> k = fuse_default vals \<or> text_less (fuse_default vals) k)"
    if "k \<in> set vals" for k
  proof -
    have "(k, int (count_list vals k)) \<in> set f" using that entry by blast
    then have "int (count_list vals k) < n \<or> int (count_list vals k) = n \<and> (k = fuse_default vals \<or> text_less (fuse_default vals) k)"
      using n(2) by blast
    then show ?thesis unfolding max(2) by auto
  qed
  then show ?thesis using False max(1) by simp
qed

lemma fuse_default_plurality_witness:
  "count_list [''b'', ''a'', ''c'', ''b''] ''a'' \<le> count_list [''b'', ''a'', ''c'', ''b''] (fuse_default [''b'', ''a'', ''c'', ''b'']) \<and>
   fuse_default [''b'', ''a''] = ''a''"
proof -
  have "count_list [''b'', ''a'', ''c'', ''b''] ''a'' \<le> count_list [''b'', ''a'', ''c'', ''b''] (fuse_default [''b'', ''a'', ''c'', ''b''])"
    using fuse_default_plurality [of "[''b'', ''a'', ''c'', ''b'']"] by (auto split: if_splits)
  moreover have "fuse_default [''b'', ''a''] = ''a''" by code_simp
  ultimately show ?thesis by simp
qed


end
