(* ===== verification/Ivp_Dynamics.thy ===== *)
theory Ivp_Dynamics imports Fixed_Point Simple_Kvs Kzh15_Stats Periodic begin

text \<open>
  The physics and the controller of the inverted pendulum (\<^verbatim>\<open>src/applications/inverted_pendulum_sim.cpp\<close>):
  the state is a map from names to texts, read with \<^verbatim>\<open>std::stod\<close> and written with \<^verbatim>\<open>std::to_string\<close>.
  Doubles are rationals; \<^verbatim>\<open>sin\<close>, \<^verbatim>\<open>cos\<close> and \<^verbatim>\<open>stod\<close> are the fields of \<open>double_api\<close>. \<open>None\<close> is the exception of
  \<^verbatim>\<open>stod\<close> (a missing name is inserted as an empty text, which is no number either) or a
  quotient that is not finite.
\<close>

section \<open>State\<close>

record double_api =
  sine :: "rat \<Rightarrow> rat"
  cosine :: "rat \<Rightarrow> rat"
  stod :: "string \<Rightarrow> rat option"

type_synonym pendulum = "(string \<times> string) list"

definition num :: "double_api \<Rightarrow> pendulum \<Rightarrow> string \<Rightarrow> rat option" where
  "num api st k = do { v \<leftarrow> map_of st k; stod api v }"

definition set_text :: "string \<Rightarrow> string \<Rightarrow> pendulum \<Rightarrow> pendulum" where
  "set_text k v st = om_put text_less k v st"

definition set_num :: "string \<Rightarrow> rat \<Rightarrow> pendulum \<Rightarrow> pendulum" where
  "set_num k x st = set_text k (to_string_double x) st"

record dynamics =
  mass :: rat
  cart_mass :: rat
  rod_length :: rat
  gravity :: rat
  lin_friction :: rat
  ang_friction :: rat
  current_force :: rat
  previous_force :: rat
  angular_position :: rat
  angular_velocity :: rat
  cart_position :: rat
  cart_velocity :: rat

definition read_dynamics :: "double_api \<Rightarrow> pendulum \<Rightarrow> dynamics option" where
  "read_dynamics api st = do {
     m \<leftarrow> num api st ''D:M''; cm \<leftarrow> num api st ''D:CM''; l \<leftarrow> num api st ''D:RL''; g \<leftarrow> num api st ''D:G'';
     lf \<leftarrow> num api st ''D:LF''; af \<leftarrow> num api st ''D:AF''; cf \<leftarrow> num api st ''D:CF''; pf \<leftarrow> num api st ''D:PF'';
     ap \<leftarrow> num api st ''D:AP''; av \<leftarrow> num api st ''D:AV''; cp \<leftarrow> num api st ''D:CP''; cv \<leftarrow> num api st ''D:CV'';
     Some \<lparr>mass = m, cart_mass = cm, rod_length = l, gravity = g, lin_friction = lf, ang_friction = af, current_force = cf,
       previous_force = pf, angular_position = ap, angular_velocity = av, cart_position = cp, cart_velocity = cv\<rparr> }"

section \<open>Accelerations\<close>

definition sqr :: "rat \<Rightarrow> rat" where
  "sqr value = value * value"

text \<open>The numerators and denominators under a force \<open>p\<close> at an angle \<open>a\<close> with the velocities \<open>av\<close> and \<open>cv\<close>.\<close>

definition ang_num :: "double_api \<Rightarrow> dynamics \<Rightarrow> rat \<Rightarrow> rat \<Rightarrow> rat \<Rightarrow> rat \<Rightarrow> rat option" where
  "ang_num api d p a av cv = do {
     q \<leftarrow> quotient ((cart_mass d + mass d) * ang_friction d) (mass d);
     Some (p * cosine api a - (cart_mass d + mass d) * gravity d * sine api a +
           mass d * rod_length d * cosine api a * sine api a * sqr av +
           lin_friction d * cosine api a * cv + q * av) }"

definition ang_den :: "double_api \<Rightarrow> dynamics \<Rightarrow> rat \<Rightarrow> rat" where
  "ang_den api d a = mass d * rod_length d * sqr (cosine api a) - (cart_mass d + mass d) * rod_length d"

definition lin_num :: "double_api \<Rightarrow> dynamics \<Rightarrow> rat \<Rightarrow> rat \<Rightarrow> rat \<Rightarrow> rat" where
  "lin_num api d p a av =
     p + mass d * rod_length d * sine api a * sqr av - mass d * gravity d * cosine api a * sine api a +
     cosine api a * ang_friction d * av"

definition lin_den :: "double_api \<Rightarrow> dynamics \<Rightarrow> rat \<Rightarrow> rat" where
  "lin_den api d a = cart_mass d + mass d - mass d * sqr (cosine api a)"

section \<open>Integration\<close>

text \<open>Both integrators end alike: they store the four values, the force becomes the previous force, and the
  time advances by the time step of the state.\<close>

definition store_step :: "double_api \<Rightarrow> rat \<Rightarrow> rat \<Rightarrow> rat \<Rightarrow> rat \<Rightarrow> pendulum \<Rightarrow> pendulum option" where
  "store_step api z1 z2 z3 z4 st = do {
     let st = set_num ''D:CV'' z4 (set_num ''D:CP'' z3 (set_num ''D:AV'' z2 (set_num ''D:AP'' z1 st)));
     cf \<leftarrow> map_of st ''D:CF'';
     let st = set_text ''D:PF'' cf st;
     tt \<leftarrow> num api st ''D:TT'';
     ts \<leftarrow> num api st ''D:TS'';
     Some (set_num ''D:TT'' (tt + ts) st) }"

definition integrateForwardEuler :: "double_api \<Rightarrow> rat \<Rightarrow> pendulum \<Rightarrow> pendulum option" where
  "integrateForwardEuler api h st = do {
     d \<leftarrow> read_dynamics api st;
     let a = angular_position d; let av = angular_velocity d; let cv = cart_velocity d; let p = previous_force d;
     n \<leftarrow> ang_num api d p a av cv;
     l \<leftarrow> quotient (h * n) (ang_den api d a);
     n' \<leftarrow> quotient (h * lin_num api d p a av) (lin_den api d a);
     store_step api (a + h * av) (av + l) (cart_position d + h * cv) (cv + n') st }"

definition accelerations :: "double_api \<Rightarrow> dynamics \<Rightarrow> rat \<Rightarrow> rat \<Rightarrow> rat \<Rightarrow> rat \<Rightarrow> (rat \<times> rat) option" where
  "accelerations api d p a av cv = do {
     n \<leftarrow> ang_num api d p a av cv;
     l \<leftarrow> quotient n (ang_den api d a);
     n' \<leftarrow> quotient (lin_num api d p a av) (lin_den api d a);
     Some (l, n') }"

definition integrateForwardRungeKutta4 :: "double_api \<Rightarrow> rat \<Rightarrow> pendulum \<Rightarrow> pendulum option" where
  "integrateForwardRungeKutta4 api h st = do {
     d \<leftarrow> read_dynamics api st;
     let pf = previous_force d; let pm = (previous_force d + current_force d) / 2;
     let a = angular_position d; let av = angular_velocity d; let cp = cart_position d; let cv = cart_velocity d;
     let k1 = av; let m1 = cv;
     (l1, n1) \<leftarrow> accelerations api d pf a av cv;
     let k2 = av + h / 2 * l1; let m2 = cv + h / 2 * n1;
     (l2, n2) \<leftarrow> accelerations api d pm (a + h / 2 * k1) k2 m2;
     let k3 = av + h / 2 * l2; let m3 = cv + h / 2 * n2;
     (l3, n3) \<leftarrow> accelerations api d pm (a + h / 2 * k2) k3 m3;
     let k4 = av + h * l3; let m4 = cv + h * n3;
     (l4, n4) \<leftarrow> accelerations api d pf (a + h * k3) k4 m4;
     store_step api
       (a + h * (1 / 6 * k1 + 2 / 6 * k2 + 2 / 6 * k3 + 1 / 6 * k4))
       (av + h * (1 / 6 * l1 + 2 / 6 * l2 + 2 / 6 * l3 + 1 / 6 * l4))
       (cp + h * (1 / 6 * m1 + 2 / 6 * m2 + 2 / 6 * m3 + 1 / 6 * m4))
       (cv + h * (1 / 6 * n1 + 2 / 6 * n2 + 2 / 6 * n3 + 1 / 6 * n4)) st }"

text \<open>The versions without an argument take the time step of the state.\<close>

definition forward_euler :: "double_api \<Rightarrow> pendulum \<Rightarrow> pendulum option" where
  "forward_euler api st = do { h \<leftarrow> num api st ''D:TS''; integrateForwardEuler api h st }"

definition forward_runge_kutta4 :: "double_api \<Rightarrow> pendulum \<Rightarrow> pendulum option" where
  "forward_runge_kutta4 api st = do { h \<leftarrow> num api st ''D:TS''; integrateForwardRungeKutta4 api h st }"

section \<open>The controller\<close>

definition NS_TO_SEC :: "u64 \<Rightarrow> rat" where
  "NS_TO_SEC t = of_nat (unat t) / 1000000000"

text \<open>The saved error and the integral are local variables; only the force is stored.\<close>

definition compute_actr_cmds :: "double_api \<Rightarrow> u64 \<Rightarrow> rat \<Rightarrow> pendulum \<Rightarrow> pendulum option" where
  "compute_actr_cmds api period_ns dt st = do {
     let dt = (if dt = 0 then NS_TO_SEC period_ns else dt);
     pre_error \<leftarrow> num api st ''I:PE''; integral \<leftarrow> num api st ''I:I'';
     k_p \<leftarrow> num api st ''I:KP''; k_d \<leftarrow> num api st ''I:KD''; k_i \<leftarrow> num api st ''I:KI'';
     a_p \<leftarrow> num api st ''D:AP'';
     let err = a_p - 0; let pout = k_p * err; let integral = integral + err * dt; let iout = k_i * integral;
     derivative \<leftarrow> quotient (err - pre_error) dt;
     let dout = k_d * derivative; let force = pout + iout + dout;
     Some (set_num ''D:CF'' force st) }"


section \<open>Keys and numbers\<close>

definition state_keys :: "string list" where
  "state_keys = [''D:AF'', ''D:AP'', ''D:AV'', ''D:CF'', ''D:CM'', ''D:CP'', ''D:CV'', ''D:G'', ''D:LF'', ''D:M'', ''D:PF'', ''D:RL'', ''D:TS'', ''D:TT'',
     ''I:I'', ''I:KD'', ''I:KI'', ''I:KP'', ''I:PE'']"

definition pendulum_ok :: "pendulum \<Rightarrow> bool" where
  "pendulum_ok st \<longleftrightarrow> map fst st = state_keys"

lemma state_keys_sorted: "sorted_wrt text_less state_keys"
  by (simp add: state_keys_def text_less_def)

lemma pendulum_ok_set: "pendulum_ok st \<Longrightarrow> k \<in> set state_keys \<Longrightarrow> pendulum_ok (set_text k v st)"
  using state_keys_sorted text_order.map_fst_put [of st k v]
  by (auto simp: pendulum_ok_def set_text_def om_sorted_def simp flip: set_map)

lemma map_of_set: "map_of (set_text k v st) = (map_of st)(k \<mapsto> v)"
  by (simp add: set_text_def text_order.map_of_put)

lemma num_set: "num api (set_text k v st) k' = (if k' = k then stod api v else num api st k')"
  by (simp add: num_def map_of_set)

lemma num_set_num: "num api (set_num k x st) k' = (if k' = k then stod api (to_string_double x) else num api st k')"
  by (simp add: set_num_def num_set)

lemma pendulum_ok_set_num: "pendulum_ok st \<Longrightarrow> k \<in> set state_keys \<Longrightarrow> pendulum_ok (set_num k x st)"
  by (simp add: set_num_def pendulum_ok_set)

lemmas state_facts = num_set num_set_num map_of_set set_num_def

text \<open>The standard library reads back what it has written, up to the six decimals.\<close>

definition reads_back_doubles :: "double_api \<Rightarrow> bool" where
  "reads_back_doubles api \<longleftrightarrow> (\<forall>x. stod api (to_string_double x) = Some (rounded x))"

definition numeric :: "double_api \<Rightarrow> pendulum \<Rightarrow> bool" where
  "numeric api st \<longleftrightarrow> pendulum_ok st \<and> (\<forall>k \<in> set state_keys. num api st k \<noteq> None)"

lemma numeric_set_num: "reads_back_doubles api \<Longrightarrow> numeric api st \<Longrightarrow> k \<in> set state_keys \<Longrightarrow> numeric api (set_num k x st)"
  by (simp add: numeric_def pendulum_ok_set_num num_set_num reads_back_doubles_def)

lemma numeric_copy:
  "numeric api st \<Longrightarrow> map_of st k = Some v \<Longrightarrow> k \<in> set state_keys \<Longrightarrow> k' \<in> set state_keys \<Longrightarrow> numeric api (set_text k' v st)"
  by (auto simp: numeric_def pendulum_ok_set num_set) (auto simp: num_def)

lemma numeric_num: "numeric api st \<Longrightarrow> k \<in> set state_keys \<Longrightarrow> \<exists>x. num api st k = Some x"
  by (auto simp: numeric_def)

lemma store_step_numeric:
  assumes "reads_back_doubles api" "numeric api st"
  obtains st' where "store_step api z1 z2 z3 z4 st = Some st'" "numeric api st'"
    "num api st' ''D:AP'' = Some (rounded z1)" "num api st' ''D:AV'' = Some (rounded z2)" "num api st' ''D:CP'' = Some (rounded z3)"
    "num api st' ''D:CV'' = Some (rounded z4)" "num api st' ''D:PF'' = num api st ''D:CF''"
    "\<forall>k. k \<notin> {''D:AP'', ''D:AV'', ''D:CP'', ''D:CV'', ''D:PF'', ''D:TT''} \<longrightarrow> num api st' k = num api st k"
proof -
  let ?s1 = "set_num ''D:CV'' z4 (set_num ''D:CP'' z3 (set_num ''D:AV'' z2 (set_num ''D:AP'' z1 st)))"
  have n1: "numeric api ?s1" using assms by (intro numeric_set_num) (simp_all add: state_keys_def)
  obtain cf where cf: "map_of ?s1 ''D:CF'' = Some cf"
    using numeric_num [OF n1, of "''D:CF''"] by (auto simp: state_keys_def num_def split: bind_splits)
  let ?s2 = "set_text ''D:PF'' cf ?s1"
  have n2: "numeric api ?s2" by (rule numeric_copy [OF n1 cf]) (simp_all add: state_keys_def)
  obtain tt ts where t: "num api ?s2 ''D:TT'' = Some tt" "num api ?s2 ''D:TS'' = Some ts"
    using numeric_num [OF n2, of "''D:TT''"] numeric_num [OF n2, of "''D:TS''"] by (auto simp: state_keys_def)
  let ?s3 = "set_num ''D:TT'' (tt + ts) ?s2"
  have n3: "numeric api ?s3" using n2 assms(1) by (intro numeric_set_num) (simp_all add: state_keys_def)
  have e: "store_step api z1 z2 z3 z4 st = Some ?s3" unfolding store_step_def Let_def by (simp only: cf t Option.bind.simps)
  have "num api ?s1 ''D:CF'' = stod api cf" using cf by (simp add: num_def)
  then have "stod api cf = num api st ''D:CF''" by (simp add: num_set_num)
  then show ?thesis
    using that [OF e n3] assms(1) by (simp add: num_set_num num_set reads_back_doubles_def)
qed


lemma read_dynamics_numeric:
  assumes "numeric api st"
  obtains d where "read_dynamics api st = Some d"
    "num api st ''D:M'' = Some (mass d)" "num api st ''D:CM'' = Some (cart_mass d)" "num api st ''D:RL'' = Some (rod_length d)"
    "num api st ''D:CF'' = Some (current_force d)" "num api st ''D:PF'' = Some (previous_force d)"
    "num api st ''D:AP'' = Some (angular_position d)" "num api st ''D:AV'' = Some (angular_velocity d)"
    "num api st ''D:CP'' = Some (cart_position d)" "num api st ''D:CV'' = Some (cart_velocity d)"
proof -
  have "\<exists>x. num api st k = Some x" if "k \<in> set state_keys" for k using numeric_num [OF assms that] .
  then obtain m cm l g lf af cf pf ap av cp cv where
    v: "num api st ''D:M'' = Some m" "num api st ''D:CM'' = Some cm" "num api st ''D:RL'' = Some l" "num api st ''D:G'' = Some g"
    "num api st ''D:LF'' = Some lf" "num api st ''D:AF'' = Some af" "num api st ''D:CF'' = Some cf" "num api st ''D:PF'' = Some pf"
    "num api st ''D:AP'' = Some ap" "num api st ''D:AV'' = Some av" "num api st ''D:CP'' = Some cp" "num api st ''D:CV'' = Some cv"
    unfolding state_keys_def by (metis (no_types) list.set_intros(1,2))
  let ?d = "\<lparr>mass = m, cart_mass = cm, rod_length = l, gravity = g, lin_friction = lf, ang_friction = af, current_force = cf,
       previous_force = pf, angular_position = ap, angular_velocity = av, cart_position = cp, cart_velocity = cv\<rparr>"
  have "read_dynamics api st = Some ?d" by (simp add: read_dynamics_def v)
  then show ?thesis using v by (intro that [of ?d]) simp_all
qed

section \<open>The controller has no memory\<close>

text \<open>Lemma (controller_is_memoryless): the controller changes the force and nothing else. As it stores neither the error nor
  the integral, with both at their initial zero the force is a multiple of the angle that depends on the time step only:
  the integral and derivative terms never see an earlier angle.\<close>

theorem controller_is_memoryless:
  assumes "compute_actr_cmds api period_ns dt st = Some st'"
    and "num api st ''I:PE'' = Some 0" "num api st ''I:I'' = Some 0"
    and "num api st ''I:KP'' = Some kp" "num api st ''I:KD'' = Some kd" "num api st ''I:KI'' = Some ki"
    and "num api st ''D:AP'' = Some ap" "dt' = (if dt = 0 then NS_TO_SEC period_ns else dt)"
  shows "map_of st' = (map_of st)(''D:CF'' \<mapsto> to_string_double ((kp + ki * dt' + kd / dt') * ap))"
  using assms
  by (auto simp: compute_actr_cmds_def Let_def quotient_def set_num_def map_of_set algebra_simps split: if_splits bind_splits)

lemma NS_TO_SEC_nonzero: "t \<noteq> 0 \<Longrightarrow> NS_TO_SEC t \<noteq> 0"
proof -
  assume "t \<noteq> 0"
  then have "unat t \<noteq> 0" by (simp add: unat_eq_zero)
  then have "of_nat (unat t) \<noteq> (0 :: rat)" by (simp only: of_nat_eq_0_iff) simp
  then show ?thesis unfolding NS_TO_SEC_def by (simp only: divide_eq_0_iff) simp
qed

lemma compute_numeric:
  assumes "reads_back_doubles api" "numeric api st" "dt \<noteq> 0 \<or> period_ns \<noteq> 0"
  obtains force where "compute_actr_cmds api period_ns dt st = Some (set_num ''D:CF'' force st)"
proof -
  have "\<exists>x. num api st k = Some x" if "k \<in> set state_keys" for k using numeric_num [OF assms(2) that] .
  then obtain pe i kp kd ki ap where
    v: "num api st ''I:PE'' = Some pe" "num api st ''I:I'' = Some i" "num api st ''I:KP'' = Some kp" "num api st ''I:KD'' = Some kd"
    "num api st ''I:KI'' = Some ki" "num api st ''D:AP'' = Some ap"
    unfolding state_keys_def by (metis (no_types) list.set_intros(1,2))
  have "(if dt = 0 then NS_TO_SEC period_ns else dt) \<noteq> 0"
    using assms(3) by (simp add: NS_TO_SEC_nonzero)
  then show ?thesis by (intro that) (simp add: compute_actr_cmds_def v quotient_def Let_def)
qed

section \<open>The upright position\<close>

text \<open>The pendulum stands upright, nothing moves, and no force is applied.\<close>

definition at_rest :: "double_api \<Rightarrow> pendulum \<Rightarrow> bool" where
  "at_rest api st \<longleftrightarrow> (\<forall>k \<in> {''D:AP'', ''D:AV'', ''D:CV'', ''D:PF'', ''D:CF'', ''I:PE'', ''I:I''}. num api st k = Some 0)"

lemma rounded_zero: "rounded 0 = 0"
  using rounded_exact [of 0] by simp

lemma accelerations_at_rest:
  assumes "sine api 0 = 0" "cosine api 0 = 1" "mass d \<noteq> 0" "cart_mass d \<noteq> 0" "rod_length d \<noteq> 0"
  shows "accelerations api d 0 0 0 0 = Some (0, 0)"
  using assms by (simp add: accelerations_def ang_num_def ang_den_def lin_num_def lin_den_def quotient_def sqr_def algebra_simps)

text \<open>One step of the simulation between reading and writing the state.\<close>

definition simulate :: "double_api \<Rightarrow> u64 \<Rightarrow> rat \<Rightarrow> pendulum \<Rightarrow> pendulum option" where
  "simulate api period_ns dt st = do { st \<leftarrow> forward_runge_kutta4 api st; compute_actr_cmds api period_ns dt st }"

text \<open>Lemma (upright_is_equilibrium): a pendulum at rest in the upright position stays there: the step succeeds, and angle,
  velocities and forces are again zero, and the cart has not moved (its position is a text of six decimals).\<close>

theorem upright_is_equilibrium:
  assumes "reads_back_doubles api" "sine api 0 = 0" "cosine api 0 = 1"
    and "numeric api st" "at_rest api st" "num api st ''D:CP'' = Some (rounded x)"
    and "num api st ''D:M'' \<noteq> Some 0" "num api st ''D:CM'' \<noteq> Some 0" "num api st ''D:RL'' \<noteq> Some 0" "period_ns \<noteq> 0"
  shows "\<exists>st'. simulate api period_ns dt st = Some st' \<and> numeric api st' \<and> at_rest api st' \<and>
    num api st' ''D:CP'' = Some (rounded x)"
proof -
  obtain h where h: "num api st ''D:TS'' = Some h" using numeric_num [OF assms(4), of "''D:TS''"] by (auto simp: state_keys_def)
  obtain d where d: "read_dynamics api st = Some d" "mass d \<noteq> 0" "cart_mass d \<noteq> 0" "rod_length d \<noteq> 0" "current_force d = 0"
    "previous_force d = 0" "angular_position d = 0" "angular_velocity d = 0" "cart_velocity d = 0" "cart_position d = rounded x"
    by (rule read_dynamics_numeric [OF assms(4)]) (use assms(5-9) in \<open>auto simp: at_rest_def\<close>)
  note acc = accelerations_at_rest [OF assms(2,3) d(2-4)]
  obtain st1 where st1: "store_step api 0 0 (rounded x) 0 st = Some st1" "numeric api st1"
    "num api st1 ''D:AP'' = Some (rounded 0)" "num api st1 ''D:AV'' = Some (rounded 0)" "num api st1 ''D:CP'' = Some (rounded (rounded x))"
    "num api st1 ''D:CV'' = Some (rounded 0)" "num api st1 ''D:PF'' = num api st ''D:CF''"
    "\<forall>k. k \<notin> {''D:AP'', ''D:AV'', ''D:CP'', ''D:CV'', ''D:PF'', ''D:TT''} \<longrightarrow> num api st1 k = num api st k"
    by (rule store_step_numeric [OF assms(1,4)])
  have rk: "forward_runge_kutta4 api st = Some st1"
    by (simp add: forward_runge_kutta4_def integrateForwardRungeKutta4_def h d acc st1(1))
  have rest1: "at_rest api st1" using assms(5) st1(3,4,6,7,8) by (simp add: at_rest_def rounded_zero)
  obtain force where f: "compute_actr_cmds api period_ns dt st1 = Some (set_num ''D:CF'' force st1)"
    using compute_numeric [OF assms(1) st1(2)] assms(10) by blast
  obtain kp kd ki where k: "num api st1 ''I:KP'' = Some kp" "num api st1 ''I:KD'' = Some kd" "num api st1 ''I:KI'' = Some ki"
    using numeric_num [OF st1(2), of "''I:KP''"] numeric_num [OF st1(2), of "''I:KD''"] numeric_num [OF st1(2), of "''I:KI''"]
    by (auto simp: state_keys_def)
  have "set_num ''D:CF'' force st1 = set_num ''D:CF'' 0 st1"
    using f k rest1 unfolding at_rest_def
    by (auto simp: compute_actr_cmds_def Let_def quotient_def split: if_splits bind_splits)
  then have "num api (set_num ''D:CF'' force st1) ''D:CF'' = Some 0"
    using assms(1) by (simp only: num_set_num reads_back_doubles_def rounded_zero if_True refl)
  then have "at_rest api (set_num ''D:CF'' force st1)" using rest1 by (simp add: at_rest_def num_set_num)
  moreover have "numeric api (set_num ''D:CF'' force st1)" using st1(2) assms(1) by (simp add: numeric_set_num state_keys_def)
  moreover have "num api (set_num ''D:CF'' force st1) ''D:CP'' = Some (rounded x)" using st1(5) by (simp add: num_set_num rounded_rounded)
  ultimately show ?thesis using rk f by (simp add: simulate_def)
qed


section \<open>The simulation never fails\<close>

text \<open>Numbers everywhere and positive masses and length.\<close>

definition physical :: "double_api \<Rightarrow> pendulum \<Rightarrow> bool" where
  "physical api st \<longleftrightarrow> numeric api st \<and> (\<forall>k \<in> {''D:M'', ''D:CM'', ''D:RL''}. \<exists>x > 0. num api st k = Some x)"

lemma accelerations_some:
  assumes "\<bar>cosine api a\<bar> \<le> 1" "0 < mass d" "0 < cart_mass d" "0 < rod_length d"
  shows "\<exists>l n. accelerations api d p a av cv = Some (l, n)"
proof -
  have "\<bar>cosine api a\<bar> * \<bar>cosine api a\<bar> \<le> 1 * 1" using assms(1) by (intro mult_mono) auto
  then have c: "sqr (cosine api a) \<le> 1" by (simp add: sqr_def)
  then have mc: "mass d * sqr (cosine api a) \<le> mass d * 1" using assms(2) by (intro mult_left_mono) auto
  then have "0 < lin_den api d a" using assms(3) by (simp add: lin_den_def)
  moreover have "ang_den api d a = - (rod_length d * lin_den api d a)" by (simp add: ang_den_def lin_den_def algebra_simps)
  ultimately have "lin_den api d a \<noteq> 0" "ang_den api d a \<noteq> 0" using assms(4) by simp_all
  then show ?thesis using assms(2) by (simp add: accelerations_def ang_num_def quotient_def)
qed

lemma runge_kutta_physical:
  assumes "reads_back_doubles api" "\<forall>a. \<bar>cosine api a\<bar> \<le> 1" "physical api st"
  obtains st' where "forward_runge_kutta4 api st = Some st'" "physical api st'"
proof -
  have n: "numeric api st" using assms(3) by (simp add: physical_def)
  obtain h where h: "num api st ''D:TS'' = Some h" using numeric_num [OF n, of "''D:TS''"] by (auto simp: state_keys_def)
  obtain d where d: "read_dynamics api st = Some d" "0 < mass d" "0 < cart_mass d" "0 < rod_length d"
    by (rule read_dynamics_numeric [OF n]) (use assms(3) in \<open>auto simp: physical_def\<close>)
  have acc: "\<exists>l n. accelerations api d p a av cv = Some (l, n)" for p a av cv
    using accelerations_some assms(2) d(2-4) by blast
  obtain z1 z2 z3 z4 where e: "forward_runge_kutta4 api st = store_step api z1 z2 z3 z4 st"
  proof -
    let ?a = "angular_position d" and ?av = "angular_velocity d" and ?cv = "cart_velocity d"
    let ?pf = "previous_force d" and ?pm = "(previous_force d + current_force d) / 2"
    obtain l1 n1 where 1: "accelerations api d ?pf ?a ?av ?cv = Some (l1, n1)" using acc by blast
    obtain l2 n2 where 2: "accelerations api d ?pm (?a + h / 2 * ?av) (?av + h / 2 * l1) (?cv + h / 2 * n1) = Some (l2, n2)" using acc by blast
    obtain l3 n3 where 3: "accelerations api d ?pm (?a + h / 2 * (?av + h / 2 * l1)) (?av + h / 2 * l2) (?cv + h / 2 * n2) = Some (l3, n3)"
      using acc by blast
    obtain l4 n4 where 4: "accelerations api d ?pf (?a + h * (?av + h / 2 * l2)) (?av + h * l3) (?cv + h * n3) = Some (l4, n4)" using acc by blast
    show ?thesis
      by (rule that) (unfold forward_runge_kutta4_def integrateForwardRungeKutta4_def Let_def h d(1) Option.bind.simps 1 2 3 4 prod.case, rule refl)
  qed
  obtain st' where st': "store_step api z1 z2 z3 z4 st = Some st'" "numeric api st'"
    "\<forall>k. k \<notin> {''D:AP'', ''D:AV'', ''D:CP'', ''D:CV'', ''D:PF'', ''D:TT''} \<longrightarrow> num api st' k = num api st k"
    by (rule store_step_numeric [OF assms(1) n])
  have "physical api st'" using assms(3) st'(2,3) by (simp add: physical_def)
  then show ?thesis using that e st'(1) by simp
qed

lemma compute_physical:
  assumes "reads_back_doubles api" "physical api st" "dt \<noteq> 0 \<or> period_ns \<noteq> 0"
  obtains st' where "compute_actr_cmds api period_ns dt st = Some st'" "physical api st'"
proof -
  have n: "numeric api st" using assms(2) by (simp add: physical_def)
  obtain force where "compute_actr_cmds api period_ns dt st = Some (set_num ''D:CF'' force st)"
    by (rule compute_numeric [OF assms(1) n assms(3)])
  moreover have "physical api (set_num ''D:CF'' force st)"
    using assms(2) numeric_set_num [OF assms(1) n, of "''D:CF''"] by (simp add: physical_def num_set_num state_keys_def)
  ultimately show ?thesis by (rule that)
qed

text \<open>C23 (simulation_never_fails): with positive masses and length and a cosine between -1 and 1 a step of the simulation
  neither divides by zero nor reads a text that is no number, and it leaves a state with the same property.\<close>

theorem simulation_never_fails:
  assumes "reads_back_doubles api" "\<forall>a. \<bar>cosine api a\<bar> \<le> 1" "physical api st" "period_ns \<noteq> 0"
  shows "\<exists>st'. simulate api period_ns dt st = Some st' \<and> physical api st'"
proof -
  obtain st1 where "forward_runge_kutta4 api st = Some st1" "physical api st1"
    by (rule runge_kutta_physical [OF assms(1-3)])
  moreover from this obtain st2 where "compute_actr_cmds api period_ns dt st1 = Some st2" "physical api st2"
    using compute_physical [OF assms(1)] assms(4) by blast
  ultimately show ?thesis by (simp add: simulate_def)
qed

section \<open>A concrete pendulum\<close>

definition demo_api :: double_api where
  "demo_api = \<lparr>sine = (\<lambda>_. 0), cosine = (\<lambda>_. 1), stod = decimal_stod\<rparr>"

lemma demo_api_reads: "reads_back_doubles demo_api"
  by (simp add: reads_back_doubles_def demo_api_def stod_to_string)

lemma stod_dec_int: "decimal_stod (dec_int (int n)) = Some (of_nat n)"
proof -
  obtain d r where d: "dec n = d # r" "is_digit d" using dec_head by blast
  have "d \<noteq> CHR ''-''" "d \<noteq> CHR ''+''" using d(2) by (auto simp: is_digit_def)
  moreover have tw: "takeWhile is_digit (dec n) = dec n" "dropWhile is_digit (dec n) = []"
    using dec_digits by (simp_all add: takeWhile_eq_all_conv dropWhile_eq_Nil_conv)
  have "undec [] = 0" by (simp add: undec_def)
  then have "unsigned_decimal (dec n) = Some (of_nat n)" by (simp add: unsigned_decimal_def Let_def tw)
  ultimately show ?thesis using d(1) by (simp add: decimal_stod_def dec_int_def)
qed


text \<open>A pendulum with the parameters of the task: \<open>ap\<close> is its angle.\<close>

definition demo_pendulum :: "rat \<Rightarrow> pendulum" where
  "demo_pendulum ap =
     [(''D:AF'', ''1''), (''D:AP'', to_string_double ap), (''D:AV'', ''0''), (''D:CF'', ''0''), (''D:CM'', ''10''), (''D:CP'', to_string_double 3),
      (''D:CV'', ''0''), (''D:G'', to_string_double (98 / 10)), (''D:LF'', ''0''), (''D:M'', ''1''), (''D:PF'', ''0''), (''D:RL'', ''1''),
      (''D:TS'', to_string_double (5 / 100)), (''D:TT'', ''0''), (''I:I'', ''0''), (''I:KD'', ''1''), (''I:KI'', ''25''), (''I:KP'', ''125''), (''I:PE'', ''0'')]"

lemma demo_texts: "decimal_stod ''0'' = Some 0" "decimal_stod ''1'' = Some 1" "decimal_stod ''10'' = Some 10" "decimal_stod ''25'' = Some 25"
  "decimal_stod ''125'' = Some 125"
  by code_simp+

lemma demo_physical: "physical demo_api (demo_pendulum ap)"
  by (simp add: physical_def numeric_def pendulum_ok_def state_keys_def num_def demo_pendulum_def demo_api_def demo_texts stod_to_string)

lemma demo_nums: "num demo_api (demo_pendulum ap) ''D:AP'' = Some (rounded ap)" "num demo_api (demo_pendulum ap) ''D:CP'' = Some (rounded 3)"
  "num demo_api (demo_pendulum ap) ''I:PE'' = Some 0" "num demo_api (demo_pendulum ap) ''I:I'' = Some 0"
  "num demo_api (demo_pendulum ap) ''I:KP'' = Some 125" "num demo_api (demo_pendulum ap) ''I:KD'' = Some 1" "num demo_api (demo_pendulum ap) ''I:KI'' = Some 25"
  "num demo_api (demo_pendulum ap) ''D:M'' = Some 1" "num demo_api (demo_pendulum ap) ''D:CM'' = Some 10" "num demo_api (demo_pendulum ap) ''D:RL'' = Some 1"
  by (simp_all add: num_def demo_pendulum_def demo_api_def demo_texts stod_to_string)

theorem simulation_never_fails_witness:
  "\<exists>st'. simulate demo_api 50000000 (1 / 20) (demo_pendulum (1 / 10)) = Some st' \<and> physical demo_api st'"
  by (rule simulation_never_fails [OF demo_api_reads _ demo_physical]) (simp_all add: demo_api_def)

theorem controller_is_memoryless_witness:
  "\<exists>st'. compute_actr_cmds demo_api 50000000 (1 / 20) (demo_pendulum (1 / 10)) = Some st' \<and>
     map_of st' = (map_of (demo_pendulum (1 / 10)))(''D:CF'' \<mapsto> to_string_double (14625 / 1000))"
proof (rule compute_physical [OF demo_api_reads demo_physical])
  show "1 / 20 \<noteq> (0 :: rat) \<or> 50000000 \<noteq> (0 :: u64)" by simp
next
  fix st'
  assume c: "compute_actr_cmds demo_api 50000000 (1 / 20) (demo_pendulum (1 / 10)) = Some st'"
  have r: "rounded (1 / 10) = 1 / 10" using rounded_exact [of 100000] by simp
  show ?thesis using controller_is_memoryless [OF c demo_nums(3-7) demo_nums(1) refl, unfolded r] c by simp
qed

theorem upright_is_equilibrium_witness:
  "\<exists>st'. simulate demo_api 50000000 (1 / 20) (demo_pendulum 0) = Some st' \<and> at_rest demo_api st' \<and>
     num demo_api st' ''D:CP'' = Some (rounded 3)"
proof -
  have "at_rest demo_api (demo_pendulum 0)"
    by (simp add: at_rest_def num_def demo_pendulum_def demo_api_def demo_texts stod_to_string rounded_zero)
  moreover have "numeric demo_api (demo_pendulum 0)" using demo_physical by (simp add: physical_def)
  moreover have "sine demo_api 0 = 0" "cosine demo_api 0 = 1" by (simp_all add: demo_api_def)
  ultimately show ?thesis
    using upright_is_equilibrium [OF demo_api_reads, of "demo_pendulum 0" 3 50000000 "1 / 20"] by (auto simp: demo_nums)
qed

end
