(* ===== verification/Ivp_Sim.thy ===== *)
theory Ivp_Sim imports Ivp_Dynamics Bft_Kvs begin

text \<open>
  The periodic task that simulates the inverted pendulum (\<^verbatim>\<open>src/applications/inverted_pendulum_sim.cpp\<close>
  and \<^verbatim>\<open>.h\<close>): each job reads the state from a key-value store, integrates, computes the force and
  publishes the state for its next release. The store is the pair of methods of the locale \<open>kvs\<close>; \<open>c j i\<close> is the
  clock at the \<open>i\<close>-th read (\<open>j = 0\<close>) or write (\<open>j = 1\<close>). The array of angles is a function.
\<close>

section \<open>The task\<close>

record ivp_sim =
  vperiod_ns :: u64
  voffset_ns :: u64
  vnum_jobs :: u64
  vmax_jobs :: u64
  vstate :: pendulum
  vangular_positions :: "nat \<Rightarrow> rat"
  vmultiplier :: rat
  vcounts :: access_counts

definition MAX_AP_VALUE_LOGGED :: nat where
  "MAX_AP_VALUE_LOGGED = 72000"

text \<open>The assignments of the constructor; a map keeps its entries in the order of the keys.\<close>

definition initial_state :: pendulum where
  "initial_state = fold (\<lambda>(k, v). set_text k v)
     [(''I:PE'', dec_int 0), (''I:I'', dec_int 0), (''I:KP'', dec_int 125), (''I:KI'', dec_int 25), (''I:KD'', dec_int 1),
      (''D:M'', dec_int 1), (''D:CM'', dec_int 10), (''D:RL'', dec_int 1), (''D:G'', to_string_double (98 / 10)),
      (''D:LF'', dec_int 0), (''D:AF'', dec_int 1), (''D:CF'', dec_int 0), (''D:PF'', dec_int 0),
      (''D:AP'', to_string_double (1 / 10)), (''D:AV'', dec_int 0), (''D:CP'', dec_int 0), (''D:CV'', dec_int 0),
      (''D:TS'', to_string_double (5 / 100)), (''D:TT'', dec_int 0)] []"

text \<open>\<open>None\<close>: the assertion on the number of jobs, or a multiplier that is not finite.\<close>

definition ivp_sim_new :: "double_api \<Rightarrow> u64 \<Rightarrow> u64 \<Rightarrow> u64 \<Rightarrow> ivp_sim option" where
  "ivp_sim_new api period offset jobs =
     (if unat jobs \<le> MAX_AP_VALUE_LOGGED then do {
        ts \<leftarrow> num api initial_state ''D:TS'';
        m \<leftarrow> quotient ts (NS_TO_SEC period);
        Some \<lparr>vperiod_ns = period, voffset_ns = offset, vnum_jobs = 0, vmax_jobs = jobs, vstate = initial_state,
          vangular_positions = (\<lambda>_. 0), vmultiplier = m, vcounts = zero_counts\<rparr> }
      else None)"

definition ivp_terminate :: "ivp_sim \<Rightarrow> bool" where
  "ivp_terminate t \<longleftrightarrow> vnum_jobs t \<ge> vmax_jobs t"

section \<open>The job\<close>

fun read_state :: "(nat \<Rightarrow> string \<Rightarrow> u64 \<Rightarrow> string option) \<Rightarrow> nat \<Rightarrow> u64 \<Rightarrow> pendulum \<Rightarrow> stat \<Rightarrow> stat \<times> pendulum" where
  "read_state rd i published [] st = (st, [])"
| "read_state rd i published ((k, v) # m) (su, fa) =
     (case rd i k published of
        Some v' \<Rightarrow> (let (r, m') = read_state rd (Suc i) published m (su + 1, fa) in (r, (k, v') # m'))
      | None \<Rightarrow> (let (r, m') = read_state rd (Suc i) published m (su, fa + 1) in (r, (k, v) # m')))"

definition count_state_reads :: "stat \<Rightarrow> access_counts \<Rightarrow> access_counts" where
  "count_state_reads r c =
     (let c = c\<lparr>succ_reads := succ_reads c + fst r, fail_reads := fail_reads c + snd r\<rparr>
      in if snd r = 0 then c\<lparr>succ_batch_reads := succ_batch_reads c + 1\<rparr> else c\<lparr>fail_batch_reads := fail_batch_reads c + 1\<rparr>)"

definition count_state_writes :: "stat \<Rightarrow> access_counts \<Rightarrow> access_counts" where
  "count_state_writes w c =
     (let c = c\<lparr>succ_writes := succ_writes c + fst w, fail_writes := fail_writes c + snd w\<rparr>
      in if snd w = 0 then c\<lparr>succ_batch_writes := succ_batch_writes c + 1\<rparr> else c\<lparr>fail_batch_writes := fail_batch_writes c + 1\<rparr>)"

text \<open>The job; \<open>now1\<close> and \<open>now2\<close> are the clock at the two computations of the release time, \<open>arrival\<close> is the last
  inter-arrival time of the timer. The loop over the writes is the one of \<^verbatim>\<open>try_write_batch\<close>.\<close>

definition ivp_job :: "double_api \<Rightarrow> ('s \<Rightarrow> u64 \<Rightarrow> string \<Rightarrow> u64 \<Rightarrow> string option)
    \<Rightarrow> (u64 \<Rightarrow> string \<Rightarrow> u64 \<Rightarrow> string \<Rightarrow> 's \<Rightarrow> (bool \<times> 's) option) \<Rightarrow> u64 \<Rightarrow> u64 \<Rightarrow> (nat \<Rightarrow> nat \<Rightarrow> u64) \<Rightarrow> u64
    \<Rightarrow> ivp_sim \<Rightarrow> 's \<Rightarrow> (ivp_sim \<times> 's) option" where
  "ivp_job api rd wr now1 now2 c arrival t s = do {
     let publishing_time = my_release_time now1 (vperiod_ns t) (voffset_ns t) + vperiod_ns t;
     let published_time = my_release_time now2 (vperiod_ns t) (voffset_ns t) - vperiod_ns t;
     let (r, st) = (if vnum_jobs t = 0 then ((word_of_nat (length (vstate t)), 0), vstate t)
                    else read_state (\<lambda>i. rd s (c 0 i)) 0 published_time (vstate t) (0, 0));
     st \<leftarrow> forward_runge_kutta4 api st;
     ap \<leftarrow> num api st ''D:AP'';
     if unat (vnum_jobs t) < MAX_AP_VALUE_LOGGED then do {
       st \<leftarrow> compute_actr_cmds api (vperiod_ns t) (NS_TO_SEC arrival * vmultiplier t) st;
       (w, s) \<leftarrow> try_write_batch (\<lambda>i. wr (c 1 i)) 0 st publishing_time s (0, 0);
       Some (t\<lparr>vnum_jobs := vnum_jobs t + 1, vstate := st,
               vangular_positions := (vangular_positions t)(unat (vnum_jobs t) := ap),
               vcounts := count_state_writes w (count_state_reads r (vcounts t))\<rparr>, s)
     } else None }"

text \<open>The last ten jobs: the start is a difference of 64-bit integers that becomes a 32-bit index.\<close>

definition did_ivp_stabilize :: "ivp_sim \<Rightarrow> bool" where
  "did_ivp_stabilize t \<longleftrightarrow>
     (\<forall>i \<in> set [unat (ucast (vnum_jobs t - 10) :: u32)..<unat (vnum_jobs t)].
        \<not> (vangular_positions t i > 1 / 100000 \<or> vangular_positions t i < - 1 / 100000))"

section \<open>Stability\<close>

lemma unat_u32_small: "unat (x :: u64) < 2 ^ 32 \<Longrightarrow> unat (ucast x :: u32) = unat x"
  by (simp add: unsigned_ucast_eq take_bit_nat_eq_self)

lemma within_bound: "\<not> (x > 1 / 100000 \<or> x < - 1 / 100000) \<longleftrightarrow> \<bar>x\<bar> \<le> 1 / (100000 :: rat)"
  by linarith

lemma wrapped_start: "unat (x :: u64) < 10 \<Longrightarrow> unat x \<le> unat (ucast (x - 10) :: u32)"
proof -
  assume "unat x < 10"
  then have "unat x \<in> {0, 1, 2, 3, 4, 5, 6, 7, 8, 9}" by auto
  then have "x \<in> {0, 1, 2, 3, 4, 5, 6, 7, 8, 9}" by (simp add: word_unat_eq_iff)
  moreover have "unat (ucast (- 1 :: u64) :: u32) = 4294967295"
    by (simp add: unsigned_ucast_eq unsigned_minus_1_eq_mask mask_eq_exp_minus_1 take_bit_eq_mod)
  ultimately show ?thesis by (elim insertE emptyE) simp_all
qed

text \<open>Lemma (stability_of_last_ten): after at least ten jobs the task reports a stable pendulum exactly when the last ten
  angles are within the bound; after fewer jobs it always does, as the difference wraps around and the
  loop does not run.\<close>

theorem stability_of_last_ten:
  assumes "unat (vnum_jobs t) \<le> MAX_AP_VALUE_LOGGED"
  shows "did_ivp_stabilize t \<longleftrightarrow>
    (10 \<le> unat (vnum_jobs t) \<longrightarrow>
      (\<forall>i. unat (vnum_jobs t) - 10 \<le> i \<and> i < unat (vnum_jobs t) \<longrightarrow> \<bar>vangular_positions t i\<bar> \<le> 1 / 100000))"
proof (cases "10 \<le> unat (vnum_jobs t)")
  case True
  have "unat (vnum_jobs t - 10) = unat (vnum_jobs t) - 10" using True by (simp add: unat_sub word_le_nat_alt)
  then have "unat (ucast (vnum_jobs t - 10) :: u32) = unat (vnum_jobs t) - 10"
    using assms by (subst unat_u32_small) (simp_all add: MAX_AP_VALUE_LOGGED_def)
  then show ?thesis using True unfolding did_ivp_stabilize_def within_bound by auto
next
  case False
  let ?n = "unat (vnum_jobs t)"
  have "?n \<le> unat (ucast (vnum_jobs t - 10) :: u32)" using False by (intro wrapped_start) simp
  then show ?thesis using False by (simp add: did_ivp_stabilize_def)
qed


section \<open>Counting\<close>

lemma read_state_counts:
  "read_state rd i nv st (a, b) = ((a', b'), st') \<Longrightarrow> a' + b' = a + b + word_of_nat (length st) \<and> map fst st' = map fst st"
proof (induction rd i nv st "(a, b)" arbitrary: a b a' b' st' rule: read_state.induct)
  case (2 rd i nv k v m a b)
  obtain a1 b1 m1 where "read_state rd (Suc i) nv m (if rd i k nv = None then (a, b + 1) else (a + 1, b)) = ((a1, b1), m1)"
    by (metis prod.exhaust)
  then show ?case using 2 by (cases "rd i k nv") (auto simp: algebra_simps)
qed simp

lemma try_write_state_counts:
  "try_write_batch wr i m pt s (a, b) = Some ((a', b'), s') \<Longrightarrow> a' + b' = a + b + word_of_nat (length m)"
proof (induction wr i m pt s "(a, b)" arbitrary: a b rule: try_write_batch.induct)
  case (2 wr i k v m pt s a b)
  then show ?case by (auto simp: algebra_simps split: option.splits if_splits)
qed simp

lemma store_step_ok: "store_step api z1 z2 z3 z4 st = Some st' \<Longrightarrow> pendulum_ok st \<Longrightarrow> pendulum_ok st'"
  by (auto simp: store_step_def Let_def state_keys_def intro!: pendulum_ok_set pendulum_ok_set_num split: bind_splits)

lemma rk4_ok: "forward_runge_kutta4 api st = Some st' \<Longrightarrow> pendulum_ok st \<Longrightarrow> pendulum_ok st'"
  by (auto simp: forward_runge_kutta4_def integrateForwardRungeKutta4_def Let_def split: bind_splits) (rule store_step_ok)

lemma compute_ok: "compute_actr_cmds api p dt st = Some st' \<Longrightarrow> pendulum_ok st \<Longrightarrow> pendulum_ok st'"
  by (auto simp: compute_actr_cmds_def Let_def state_keys_def intro!: pendulum_ok_set_num split: bind_splits)

lemma ivp_job_parts:
  assumes "ivp_job api rd wr now1 now2 c arrival t s = Some (t', s')"
  obtains r st0 st1 ap st2 w where
    "(if vnum_jobs t = 0 then ((word_of_nat (length (vstate t)), 0), vstate t)
      else read_state (\<lambda>i. rd s (c 0 i)) 0 (my_release_time now2 (vperiod_ns t) (voffset_ns t) - vperiod_ns t) (vstate t) (0, 0)) = (r, st0)"
    "forward_runge_kutta4 api st0 = Some st1" "num api st1 ''D:AP'' = Some ap" "unat (vnum_jobs t) < MAX_AP_VALUE_LOGGED"
    "compute_actr_cmds api (vperiod_ns t) (NS_TO_SEC arrival * vmultiplier t) st1 = Some st2"
    "try_write_batch (\<lambda>i. wr (c 1 i)) 0 st2 (my_release_time now1 (vperiod_ns t) (voffset_ns t) + vperiod_ns t) s (0, 0) = Some (w, s')"
    "t' = t\<lparr>vnum_jobs := vnum_jobs t + 1, vstate := st2, vangular_positions := (vangular_positions t)(unat (vnum_jobs t) := ap),
       vcounts := count_state_writes w (count_state_reads r (vcounts t))\<rparr>"
proof -
  obtain r st0 where r: "(if vnum_jobs t = 0 then ((word_of_nat (length (vstate t)), 0), vstate t)
      else read_state (\<lambda>i. rd s (c 0 i)) 0 (my_release_time now2 (vperiod_ns t) (voffset_ns t) - vperiod_ns t) (vstate t) (0, 0)) = (r, st0)"
    by fastforce
  show ?thesis
    using assms that [OF r] unfolding ivp_job_def Let_def r by (auto split: bind_splits if_splits)
qed

lemma count_state_reads_spec:
  "succ_reads (count_state_reads r c) + fail_reads (count_state_reads r c) = succ_reads c + fail_reads c + (fst r + snd r) \<and>
   succ_batch_reads (count_state_reads r c) + fail_batch_reads (count_state_reads r c) = succ_batch_reads c + fail_batch_reads c + 1 \<and>
   succ_writes (count_state_reads r c) = succ_writes c \<and> fail_writes (count_state_reads r c) = fail_writes c \<and>
   succ_batch_writes (count_state_reads r c) = succ_batch_writes c \<and> fail_batch_writes (count_state_reads r c) = fail_batch_writes c"
  by (simp add: count_state_reads_def Let_def algebra_simps)

lemma count_state_writes_spec:
  "succ_writes (count_state_writes w c) + fail_writes (count_state_writes w c) = succ_writes c + fail_writes c + (fst w + snd w) \<and>
   succ_batch_writes (count_state_writes w c) + fail_batch_writes (count_state_writes w c) = succ_batch_writes c + fail_batch_writes c + 1 \<and>
   succ_reads (count_state_writes w c) = succ_reads c \<and> fail_reads (count_state_writes w c) = fail_reads c \<and>
   succ_batch_reads (count_state_writes w c) = succ_batch_reads c \<and> fail_batch_reads (count_state_writes w c) = fail_batch_reads c"
  by (simp add: count_state_writes_def Let_def algebra_simps)

definition nineteen :: "access_counts \<Rightarrow> access_counts \<Rightarrow> bool" where
  "nineteen c c' \<longleftrightarrow> succ_reads c' + fail_reads c' = succ_reads c + fail_reads c + 19 \<and>
     succ_writes c' + fail_writes c' = succ_writes c + fail_writes c + 19 \<and>
     succ_batch_reads c' + fail_batch_reads c' = succ_batch_reads c + fail_batch_reads c + 1 \<and>
     succ_batch_writes c' + fail_batch_writes c' = succ_batch_writes c + fail_batch_writes c + 1"

lemma ivp_job_counted:
  assumes "ivp_job api rd wr now1 now2 c arrival t s = Some (t', s')" "pendulum_ok (vstate t)"
  shows "pendulum_ok (vstate t') \<and> vnum_jobs t' = vnum_jobs t + 1 \<and> nineteen (vcounts t) (vcounts t')"
  using assms(1)
proof (rule ivp_job_parts)
  fix r st0 st1 ap st2 w
  assume r: "(if vnum_jobs t = 0 then ((word_of_nat (length (vstate t)), 0), vstate t)
      else read_state (\<lambda>i. rd s (c 0 i)) 0 (my_release_time now2 (vperiod_ns t) (voffset_ns t) - vperiod_ns t) (vstate t) (0, 0)) = (r, st0)"
    and rk: "forward_runge_kutta4 api st0 = Some st1"
    and comp: "compute_actr_cmds api (vperiod_ns t) (NS_TO_SEC arrival * vmultiplier t) st1 = Some st2"
    and w: "try_write_batch (\<lambda>i. wr (c 1 i)) 0 st2 (my_release_time now1 (vperiod_ns t) (voffset_ns t) + vperiod_ns t) s (0, 0) = Some (w, s')"
    and t': "t' = t\<lparr>vnum_jobs := vnum_jobs t + 1, vstate := st2, vangular_positions := (vangular_positions t)(unat (vnum_jobs t) := ap),
       vcounts := count_state_writes w (count_state_reads r (vcounts t))\<rparr>"
  have len: "length st = 19" if "pendulum_ok st" for st
    using arg_cong [OF that [unfolded pendulum_ok_def], of length] by (simp add: state_keys_def)
  have rs: "fst r + snd r = word_of_nat (length (vstate t)) \<and> map fst st0 = map fst (vstate t)"
    using r read_state_counts [of "\<lambda>i. rd s (c 0 i)" 0 "my_release_time now2 (vperiod_ns t) (voffset_ns t) - vperiod_ns t" "vstate t" 0 0 "fst r" "snd r" st0]
    by (auto split: if_splits)
  then have "pendulum_ok st0" using assms(2) by (simp add: pendulum_ok_def)
  then have ok: "pendulum_ok st2" using rk4_ok [OF rk] compute_ok [OF comp] by blast
  have "fst w + snd w = 19" using try_write_state_counts [of _ 0 st2 _ s 0 0 "fst w" "snd w" s'] w len [OF ok] by simp
  moreover have "fst r + snd r = 19" using rs len [OF assms(2)] by simp
  ultimately show ?thesis
    using ok count_state_reads_spec [of r "vcounts t"] count_state_writes_spec [of w "count_state_reads r (vcounts t)"]
    unfolding t' by (simp add: nineteen_def)
qed

text \<open>Lemma (ivp_job_counts): a job keeps the nineteen entries of the state and counts each of its nineteen reads and writes once,
  as a success or a failure, and one batch of each kind; the first job reads nothing and counts its reads as successes.\<close>

theorem ivp_job_counts:
  assumes "ivp_job api rd wr now1 now2 c arrival t s = Some (t', s')" "pendulum_ok (vstate t)"
  shows "pendulum_ok (vstate t') \<and> vnum_jobs t' = vnum_jobs t + 1 \<and> nineteen (vcounts t) (vcounts t') \<and>
    (vnum_jobs t = 0 \<longrightarrow> fail_reads (vcounts t') = fail_reads (vcounts t))"
proof -
  have "fail_reads (vcounts t') = fail_reads (vcounts t)" if "vnum_jobs t = 0"
    using assms(1)
  proof (rule ivp_job_parts)
    fix r st0 w st2 ap
    assume "(if vnum_jobs t = 0 then ((word_of_nat (length (vstate t)), 0), vstate t)
      else read_state (\<lambda>i. rd s (c 0 i)) 0 (my_release_time now2 (vperiod_ns t) (voffset_ns t) - vperiod_ns t) (vstate t) (0, 0)) = (r, st0)"
      and "t' = t\<lparr>vnum_jobs := vnum_jobs t + 1, vstate := st2, vangular_positions := (vangular_positions t)(unat (vnum_jobs t) := ap),
       vcounts := count_state_writes w (count_state_reads r (vcounts t))\<rparr>"
    then show ?thesis using that by (auto simp: count_state_writes_def count_state_reads_def Let_def)
  qed
  then show ?thesis using ivp_job_counted [OF assms] by simp
qed

section \<open>The job and its store\<close>

context kvs
begin

lemma ivp_job_store:
  assumes "ivp_job api try_read try_write now1 now2 c arrival t s = Some (t', s')" "inv s"
  shows "inv s' \<and> ((\<forall>i. my_release_time now1 (vperiod_ns t) (voffset_ns t) + vperiod_ns t \<le> c 1 i) \<longrightarrow>
    s' = s \<and> succ_writes (vcounts t') = succ_writes (vcounts t))"
  using assms(1)
proof (rule ivp_job_parts)
  fix r st0 st1 ap st2 w
  let ?pt = "my_release_time now1 (vperiod_ns t) (voffset_ns t) + vperiod_ns t"
  assume w: "try_write_batch (\<lambda>i. try_write (c 1 i)) 0 st2 ?pt s (0, 0) = Some (w, s')"
    and t': "t' = t\<lparr>vnum_jobs := vnum_jobs t + 1, vstate := st2, vangular_positions := (vangular_positions t)(unat (vnum_jobs t) := ap),
       vcounts := count_state_writes w (count_state_reads r (vcounts t))\<rparr>"
  have "s' = s \<and> fst w = 0" if "\<forall>i. ?pt \<le> c 1 i" using late_batch [OF that, of 0 st2 s 0 0] w by auto
  then show ?thesis
    using batch_inv [OF assms(2) w] count_state_reads_spec [of r "vcounts t"] unfolding t' by (auto simp: count_state_writes_def Let_def)
qed

end

text \<open>Lemma (ivp_job_keeps_store): over the BFT store, a job keeps the invariant of the store, and a job that comes to its writes
  only when its next release has passed publishes nothing.\<close>

theorem ivp_job_keeps_store:
  assumes "ivp_job api try_read (try_write NT KS VS) now1 now2 c arrival t s = Some (t', s')" "bft_ok NT KS VS s"
  shows "bft_ok NT KS VS s' \<and> ((\<forall>i. my_release_time now1 (vperiod_ns t) (voffset_ns t) + vperiod_ns t \<le> c 1 i) \<longrightarrow>
    s' = s \<and> succ_writes (vcounts t') = succ_writes (vcounts t))"
  using assms by (rule bft.ivp_job_store)


section \<open>A concrete task\<close>

lemma initial_state_ok: "pendulum_ok initial_state"
  by (simp add: initial_state_def set_text_def pendulum_ok_def state_keys_def text_less_def)

definition demo_ivp :: ivp_sim where
  "demo_ivp = \<lparr>vperiod_ns = 50000000, voffset_ns = 0, vnum_jobs = 0, vmax_jobs = 100, vstate = demo_pendulum (1 / 10),
     vangular_positions = (\<lambda>_. 0), vmultiplier = 1, vcounts = zero_counts\<rparr>"

lemma demo_ivp_job:
  "\<exists>t' s'. ivp_job demo_api try_read (try_write 1 3 3) 100000000 100000000 (\<lambda>_ _. 150000000) 50000000 demo_ivp demo_kvs = Some (t', s')"
proof (rule runge_kutta_physical [OF demo_api_reads _ demo_physical])
  show "\<forall>a. \<bar>cosine demo_api a\<bar> \<le> 1" by (simp add: demo_api_def)
next
  fix st1 assume st1: "forward_runge_kutta4 demo_api (demo_pendulum (1 / 10)) = Some st1" "physical demo_api st1"
  obtain ap where ap: "num demo_api st1 ''D:AP'' = Some ap"
    using st1(2) numeric_num [of demo_api st1 "''D:AP''"] by (auto simp: physical_def state_keys_def)
  have period: "(50000000 :: u64) \<noteq> 0" by simp
  obtain st2 where st2: "compute_actr_cmds demo_api 50000000 (NS_TO_SEC 50000000) st1 = Some st2"
    using compute_physical [OF demo_api_reads st1(2), of "NS_TO_SEC 50000000" 50000000] period by blast
  have pt: "my_release_time 100000000 50000000 0 + 50000000 = (150000000 :: u64)" by (simp add: my_release_time_def)
  have "try_write_batch (\<lambda>i. try_write 1 3 3 150000000) 0 st2 150000000 demo_kvs (0, 0) = Some ((0, word_of_nat (length st2)), demo_kvs)"
    using bft.late_batch [of 150000000 "\<lambda>_. 150000000" 1 3 3 0 st2 demo_kvs 0 0] by simp
  then show ?thesis
    by (simp add: ivp_job_def demo_ivp_def Let_def st1(1) ap st2 pt MAX_AP_VALUE_LOGGED_def)
qed

theorem ivp_job_counts_witness:
  "\<exists>t' s'. ivp_job demo_api try_read (try_write 1 3 3) 100000000 100000000 (\<lambda>_ _. 150000000) 50000000 demo_ivp demo_kvs = Some (t', s') \<and>
     vnum_jobs t' = 1 \<and> succ_reads (vcounts t') = 19"
proof -
  obtain t' s' where job: "ivp_job demo_api try_read (try_write 1 3 3) 100000000 100000000 (\<lambda>_ _. 150000000) 50000000 demo_ivp demo_kvs = Some (t', s')"
    using demo_ivp_job by blast
  have "pendulum_ok (vstate demo_ivp)" using demo_physical by (simp add: demo_ivp_def physical_def numeric_def)
  then show ?thesis using ivp_job_counts [OF job] job by (auto simp: demo_ivp_def nineteen_def zero_counts_def)
qed

theorem ivp_job_keeps_store_witness:
  "\<exists>t'. ivp_job demo_api try_read (try_write 1 3 3) 100000000 100000000 (\<lambda>_ _. 150000000) 50000000 demo_ivp demo_kvs = Some (t', demo_kvs)"
proof -
  obtain t' s' where job: "ivp_job demo_api try_read (try_write 1 3 3) 100000000 100000000 (\<lambda>_ _. 150000000) 50000000 demo_ivp demo_kvs = Some (t', s')"
    using demo_ivp_job by blast
  have "my_release_time 100000000 (vperiod_ns demo_ivp) (voffset_ns demo_ivp) + vperiod_ns demo_ivp \<le> 150000000"
    by (simp add: demo_ivp_def my_release_time_def)
  then show ?thesis using ivp_job_keeps_store [OF job demo_kvs_ok] job by auto
qed

theorem stability_of_last_ten_witness:
  "did_ivp_stabilize (demo_ivp\<lparr>vnum_jobs := 3, vangular_positions := (\<lambda>_. 1)\<rparr>) \<and>
   \<not> did_ivp_stabilize (demo_ivp\<lparr>vnum_jobs := 20, vangular_positions := (\<lambda>_. 1)\<rparr>)"
  using stability_of_last_ten [of "demo_ivp\<lparr>vnum_jobs := 3, vangular_positions := (\<lambda>_. 1)\<rparr>"]
    stability_of_last_ten [of "demo_ivp\<lparr>vnum_jobs := 20, vangular_positions := (\<lambda>_. 1)\<rparr>"]
  by (auto simp: MAX_AP_VALUE_LOGGED_def intro: exI [of _ 15])

end
