(* ===== verification/Exp_Ivp.thy ===== *)
theory Exp_Ivp imports Exp_Stats Ivp_Sim Redis_Kvs begin

text \<open>
  The experiment \<^verbatim>\<open>exp/ivp1.cpp\<close>: pendulum tasks over BFT stores, Redis or etcd, on the processors of one node (local) or
  replicated over nodes (distributed), with injected faults, and the two files of results. The arguments of the program are given as parsed
  values; \<open>None\<close> is an error exit or a failed assertion. The connections to other processes are
  parameters; threads and printing are not part of the model.
\<close>

section \<open>Arguments\<close>

record ivp_args =
  period_ms :: u64
  num_tasks_per_cpu :: nat
  ivp_duration_s :: rat
  ivp_kvs_type :: string
  exp_type :: string
  ivp_node_id :: int
  ivp_total_nodes :: nat
  ivp_cpus_used :: nat
  ivp_task_wcet_ms :: u64
  kvs_task_wcet_ms :: u64
  fault_mode :: int
  number_of_faulty_nodes :: int

definition ivp_period_based_priority :: "u64 \<Rightarrow> int" where
  "ivp_period_based_priority p =
     (if p \<le> 1 then 25 else if p \<le> 2 then 24 else if p \<le> 5 then 23 else if p \<le> 10 then 22 else if p \<le> 20 then 21
      else if p \<le> 50 then 20 else if p \<le> 100 then 19 else if p \<le> 200 then 18 else 17)"

lemma same_priorities: "ivp_period_based_priority = get_period_based_priority"
  by (simp add: fun_eq_iff ivp_period_based_priority_def get_period_based_priority_def)

text \<open>The address of replica \<open>i\<close> of an instance.\<close>

definition replica_address :: "string \<Rightarrow> int \<Rightarrow> int \<Rightarrow> int \<Rightarrow> (string \<times> string) option" where
  "replica_address etype node nmr i =
     (if etype = ''local'' then do {
        addr \<leftarrow> entry node_ips (node - 1);
        p \<leftarrow> port_of i (node_index node);
        Some (addr, p) }
      else do {
        addr \<leftarrow> entry node_ips (if node \<le> 4 then i else i + 4);
        p \<leftarrow> port_of nmr i;
        Some (addr, p) })"

definition get_peers_minus_self :: "string \<Rightarrow> int \<Rightarrow> int \<Rightarrow> nat \<Rightarrow> int \<Rightarrow> tcp_node list option" where
  "get_peers_minus_self etype node nmr replication self =
     fold_option (\<lambda>i ps. if int i = self then Some ps
                        else do { (addr, p) \<leftarrow> replica_address etype node nmr (int i); Some (ps @ [\<lparr>ip = addr, port = p\<rparr>]) })
       [0..<replication] []"

definition num_nmr_instances :: "ivp_args \<Rightarrow> nat" where
  "num_nmr_instances a = (if exp_type a = ''distributed'' then ivp_cpus_used a else 1)"

definition replication_factor :: "ivp_args \<Rightarrow> nat" where
  "replication_factor a = (if exp_type a = ''local'' then ivp_cpus_used a else ivp_total_nodes a)"

definition arguments_ok :: "nat \<Rightarrow> ivp_args \<Rightarrow> bool" where
  "arguments_ok max_cpus a \<longleftrightarrow> ivp_kvs_type a \<in> {''BFTKVS'', ''RedisKVS2'', ''ETCDKVS''} \<and>
     exp_type a \<in> {''local'', ''distributed''} \<and> ivp_cpus_used a < max_cpus"

section \<open>Stores\<close>

text \<open>The configuration of an instance, with the assertion that the tasks and the store fit the period.\<close>

definition ivp_kvs_config :: "ivp_args \<Rightarrow> nat \<Rightarrow> kvs_config option" where
  "ivp_kvs_config a nmr =
     (if word_of_nat (num_tasks_per_cpu a) * ivp_task_wcet_ms a + kvs_task_wcet_ms a \<le> period_ms a then do {
        let period = MS_TO_NS (period_ms a);
        jobs \<leftarrow> jobs_of (ivp_duration_s a) period;
        ps \<leftarrow> fold_option (\<lambda>i ps. do {
          (addr, p) \<leftarrow> replica_address (exp_type a) (ivp_node_id a) (int nmr) (int i);
          Some (ps @ [\<lparr>pid = int i, pip = addr, pport = p\<rparr>]) }) [0..<replication_factor a] [];
        Some \<lparr>cid = 0, cperiod_ns = period,
          coffset_ns = nmr_offset_ns (period_ms a) (num_nmr_instances a) nmr + MS_TO_NS (word_of_nat (num_tasks_per_cpu a) * ivp_task_wcet_ms a),
          cpriority = BFT_KVS_DEFAULT_PRIORITY, ccpu = 0, cport = 0, cpeers = ps, cdelay_ns = 100 * 1000, crounds = 2,
          cprocess = 0, cmax_jobs = jobs\<rparr> }
      else None)"

record ivp_instance =
  iconfig :: kvs_config
  istore :: bft_kvs
  icollect_ets :: bool
  idies :: bool
  ilies :: bool

definition bft_instance :: "kvs_config \<Rightarrow> ivp_instance option" where
  "bft_instance conf = do {
     s \<leftarrow> bft_new 100 7 15 (length (cpeers conf)) (unat (cprocess conf)) (crounds conf) (cperiod_ns conf) (coffset_ns conf) (cmax_jobs conf);
     Some \<lparr>iconfig = conf, istore = s, icollect_ets = False, idies = False, ilies = False\<rparr> }"

text \<open>On one node: one instance per processor, all from the first configuration.\<close>

definition local_instance :: "ivp_args \<Rightarrow> kvs_config list \<Rightarrow> nat \<Rightarrow> ivp_instance option" where
  "local_instance a confs i = do {
     conf \<leftarrow> entry confs 0;
     p \<leftarrow> port_of (int i) (node_index (ivp_node_id a));
     bft_instance (conf\<lparr>cport := undec p, cid := 1000 * ivp_node_id a + 100 * int i, ccpu := i, cprocess := word_of_nat i\<rparr>) }"

text \<open>On several nodes: one instance per configuration; the processes below the number of faulty nodes
  die or lie, according to the fault mode.\<close>

definition distributed_instance :: "ivp_args \<Rightarrow> kvs_config list \<Rightarrow> nat \<Rightarrow> ivp_instance option" where
  "distributed_instance a confs i = do {
     conf \<leftarrow> entry confs (int i);
     p \<leftarrow> (if crounds conf = 2 then port_of (int i) (node_index (ivp_node_id a)) else None);
     inst \<leftarrow> bft_instance (conf\<lparr>cport := undec p, cid := 1000 * ivp_node_id a + 100 * int i, ccpu := i,
       cprocess := word_of_int (node_index (ivp_node_id a))\<rparr>);
     let faulty = int (my_process_id (istore inst)) < number_of_faulty_nodes a;
     Some (inst\<lparr>icollect_ets := number_of_faulty_nodes a > 0, idies := fault_mode a = 1 \<and> faulty,
       ilies := fault_mode a = 2 \<and> faulty\<rparr>) }"

definition ivp_kvs_instances :: "ivp_args \<Rightarrow> ivp_instance list option" where
  "ivp_kvs_instances a = do {
     confs \<leftarrow> those (map (ivp_kvs_config a) [0..<num_nmr_instances a]);
     if exp_type a = ''local'' then those (map (local_instance a confs) [0..<replication_factor a])
     else those (map (distributed_instance a confs) [0..<num_nmr_instances a]) }"

section \<open>Baseline stores\<close>

record 's placed_store =
  pl_id :: int
  pl_period_ns :: u64
  pl_offset_ns :: u64
  pl_prio :: int
  pl_cpu :: nat
  pl_store :: 's

text \<open>Instance \<open>i\<close> of RedisKVS2 or EtcdKVS: on one node all come from the first configuration and differ in the replica that they
  are; on several nodes each has a configuration, and the node is the replica.\<close>

definition baseline_instance :: "(u64 \<Rightarrow> u32 \<Rightarrow> tcp_node list \<Rightarrow> 's option) \<Rightarrow> ivp_args \<Rightarrow> kvs_config list \<Rightarrow> nat \<Rightarrow> 's placed_store option" where
  "baseline_instance new a confs i = do {
     let here = exp_type a = ''local'';
     conf \<leftarrow> entry confs (if here then 0 else int i);
     p \<leftarrow> port_of (int i) (node_index (ivp_node_id a));
     peers \<leftarrow> get_peers_minus_self (exp_type a) (ivp_node_id a) (if here then 0 else int i) (replication_factor a)
       (if here then int i else node_index (ivp_node_id a));
     s \<leftarrow> new (cmax_jobs conf) (word_of_nat (undec p)) peers;
     Some \<lparr>pl_id = 1000 * ivp_node_id a + 100 * int i, pl_period_ns = cperiod_ns conf, pl_offset_ns = coffset_ns conf,
       pl_prio = cpriority conf, pl_cpu = i, pl_store = s\<rparr> }"

definition redis2_instance :: "(string \<Rightarrow> 'r option) \<Rightarrow> u64 \<Rightarrow> u32 \<Rightarrow> tcp_node list \<Rightarrow> 'r redis_kvs2 option" where
  "redis2_instance get_redis_client jobs prt peers =
     map_option redis2_update_fuse_function (redis2_new get_redis_client jobs prt peers)"

definition etcd_instance :: "(string \<Rightarrow> 'e option) \<Rightarrow> u64 \<Rightarrow> u32 \<Rightarrow> tcp_node list \<Rightarrow> 'e etcd_kvs option" where
  "etcd_instance get_etcd_client jobs prt peers =
     map_option etcd_update_fuse_function (etcd_new get_etcd_client jobs prt peers)"

definition baseline_instances :: "(u64 \<Rightarrow> u32 \<Rightarrow> tcp_node list \<Rightarrow> 's option) \<Rightarrow> ivp_args \<Rightarrow> 's placed_store list option" where
  "baseline_instances new a = do {
     confs \<leftarrow> those (map (ivp_kvs_config a) [0..<num_nmr_instances a]);
     those (map (baseline_instance new a confs)
       [0..<if exp_type a = ''local'' then replication_factor a else num_nmr_instances a]) }"

datatype ('r, 'e) ivp_stores =
  Bft_stores "ivp_instance list"
| Redis_stores "'r redis_kvs2 placed_store list"
| Etcd_stores "'e etcd_kvs placed_store list"

text \<open>The connections between BFT stores, first as clients, then as servers, are the argument \<open>connect\<close>.\<close>

definition ivp_stores_of :: "(ivp_instance list \<Rightarrow> unit option) \<Rightarrow> (string \<Rightarrow> 'r option) \<Rightarrow> (string \<Rightarrow> 'e option)
    \<Rightarrow> ivp_args \<Rightarrow> ('r, 'e) ivp_stores option" where
  "ivp_stores_of connect get_redis_client get_etcd_client a =
     (if ivp_kvs_type a = ''BFTKVS'' then do {
        insts \<leftarrow> ivp_kvs_instances a;
        connect insts;
        Some (Bft_stores insts) }
      else if ivp_kvs_type a = ''RedisKVS2'' then map_option Redis_stores (baseline_instances (redis2_instance get_redis_client) a)
      else if ivp_kvs_type a = ''ETCDKVS'' then map_option Etcd_stores (baseline_instances (etcd_instance get_etcd_client) a)
      else None)"

section \<open>Tasks\<close>

record placed_ivp =
  ivp_id :: int
  ivp_prio :: int
  ivp_cpu :: nat
  ivp_collect_ets :: bool
  ivp_sim :: ivp_sim

definition ivp_task_offset_ms :: "ivp_args \<Rightarrow> nat \<Rightarrow> nat \<Rightarrow> u64" where
  "ivp_task_offset_ms a cpu unique =
     nmr_offset_ns (period_ms a) (ivp_cpus_used a) cpu div 1000000 + word_of_nat unique * ivp_task_wcet_ms a"

definition ivp_task :: "double_api \<Rightarrow> ivp_args \<Rightarrow> nat \<Rightarrow> nat \<Rightarrow> placed_ivp option" where
  "ivp_task api a cpu unique = do {
     jobs \<leftarrow> jobs_of (ivp_duration_s a) (MS_TO_NS (period_ms a));
     t \<leftarrow> ivp_sim_new api (MS_TO_NS (period_ms a)) (MS_TO_NS (ivp_task_offset_ms a cpu unique)) jobs;
     Some \<lparr>ivp_id = 1000 * ivp_node_id a + 100 * int cpu + (int unique + 1), ivp_prio = ivp_period_based_priority (period_ms a),
       ivp_cpu = cpu, ivp_collect_ets = number_of_faulty_nodes a > 0, ivp_sim = t\<rparr> }"

definition ivp_tasks :: "double_api \<Rightarrow> ivp_args \<Rightarrow> placed_ivp list option" where
  "ivp_tasks api a = those (map (\<lambda>(cpu, k). ivp_task api a cpu k)
     (concat (map (\<lambda>cpu. map (\<lambda>k. (cpu, k)) [0..<num_tasks_per_cpu a]) [0..<ivp_cpus_used a])))"

definition ivp_setup :: "(ivp_instance list \<Rightarrow> unit option) \<Rightarrow> (string \<Rightarrow> 'r option) \<Rightarrow> (string \<Rightarrow> 'e option) \<Rightarrow> double_api
    \<Rightarrow> nat \<Rightarrow> ivp_args \<Rightarrow> (('r, 'e) ivp_stores \<times> placed_ivp list) option" where
  "ivp_setup connect get_redis_client get_etcd_client api max_cpus a =
     (if arguments_ok max_cpus a then do {
        stores \<leftarrow> ivp_stores_of connect get_redis_client get_etcd_client a;
        ts \<leftarrow> ivp_tasks api a;
        Some (stores, ts) }
      else None)"

section \<open>The summary\<close>

text \<open>The loop that sets the status of the control for each task.\<close>

definition control_status :: "ivp_sim list \<Rightarrow> string" where
  "control_status ts = fold (\<lambda>t st. if did_ivp_stabilize t then ''success'' else ''failure'') ts []"

definition ivp_stats_of :: "ivp_args \<Rightarrow> measured list \<Rightarrow> measured list \<Rightarrow> ivp_sim list \<Rightarrow> ivp_stats" where
  "ivp_stats_of a kvs_ms app_ms ts =
     \<lparr>iworkload = ''IvP1'', iexp_duration_s = word_of_int (trunc (ivp_duration_s a)), inum_tasks_per_cpu = int (num_tasks_per_cpu a),
      inum_cpus_used = int (ivp_cpus_used a), iperiod_ms = period_ms a, ikvs_type = ivp_kvs_type a, inode_id = ivp_node_id a,
      irates = success_rates_of (sum_counts (map vcounts ts)), iapp_ms = measured_over app_ms, ikvs_ms = measured_over kvs_ms,
      icontrol_status = control_status ts\<rparr>"
text \<open>The file of execution times: a header with all tasks and stores, and a row per job with the times of those that
  collect them; the index of the array must be in range. An entry is an identifier, whether times are collected, and the times.\<close>

definition et_cells :: "(rat \<Rightarrow> string) \<Rightarrow> nat \<Rightarrow> (int \<times> bool \<times> (nat \<Rightarrow> rat)) list \<Rightarrow> string" where
  "et_cells sd i xs = concat (map (\<lambda>(_, collect, ets). if collect then '', '' @ sd (ets i) else []) xs)"

definition et_header :: "int list \<Rightarrow> int list \<Rightarrow> string" where
  "et_header task_ids kvs_ids = ''Job'' @ concat (map (\<lambda>i. '', IvPSim'' @ dec_int i) task_ids) @
     concat (map (\<lambda>i. '', KVS'' @ dec_int i) kvs_ids)"

definition et_row :: "(rat \<Rightarrow> string) \<Rightarrow> (int \<times> bool \<times> (nat \<Rightarrow> rat)) list \<Rightarrow> (int \<times> bool \<times> (nat \<Rightarrow> rat)) list \<Rightarrow> nat \<Rightarrow> string option" where
  "et_row sd ts kvss i =
     (if i < MAX_NUM_JOBS \<or> (\<forall>(_, collect, _) \<in> set (ts @ kvss). \<not> collect)
      then Some (dec i @ et_cells sd i ts @ et_cells sd i kvss) else None)"

definition et_table :: "(rat \<Rightarrow> string) \<Rightarrow> rat \<Rightarrow> u64 \<Rightarrow> (int \<times> bool \<times> (nat \<Rightarrow> rat)) list \<Rightarrow> (int \<times> bool \<times> (nat \<Rightarrow> rat)) list \<Rightarrow> string list option" where
  "et_table sd duration_s period ts kvss = do {
     q \<leftarrow> quotient (duration_s * 1000) (of_nat (unat period));
     rows \<leftarrow> those (map (et_row sd ts kvss) [0..<unat (word_of_int (trunc q) :: u64)]);
     Some (et_header (map fst ts) (map fst kvss) # rows) }"

text \<open>Lemma (et_columns): the header of the file of execution times has a column for every task and store, but a row only
  for those that collect times, so without injected faults all of its rows lack every column but the first.\<close>

theorem et_columns:
  assumes "et_table sd duration_s period ts kvss = Some (header # rows)" "\<forall>x. commas (sd x) = 0"
  shows "commas header = length ts + length kvss \<and>
    (\<forall>row \<in> set rows. commas row = length (filter (\<lambda>(_, collect, _). collect) (ts @ kvss)))"
proof -
  have app: "commas (x @ y) = commas x + commas y" for x y by (simp add: commas_def)
  have names: "commas (concat (map (\<lambda>i. '', IvPSim'' @ dec_int i) is)) = length is" "commas (concat (map (\<lambda>i. '', KVS'' @ dec_int i) is)) = length is" for "is"
    by (induction "is") (simp_all add: commas_def commas_dec_int [unfolded commas_def])
  have cells: "commas (et_cells sd i xs) = length (filter (\<lambda>(_, collect, _). collect) xs)" for i xs
    using assms(2) by (induction xs) (auto simp: et_cells_def commas_def)
  obtain n where h: "header = et_header (map fst ts) (map fst kvss)" and n: "those (map (et_row sd ts kvss) [0..<n]) = Some rows"
    using assms(1) by (auto simp: et_table_def split: bind_splits)
  have cols: "commas row = length (filter (\<lambda>(_, collect, _). collect) (ts @ kvss))" if "et_row sd ts kvss i = Some row" for row i
    using that cells by (auto simp: et_row_def app commas_dec split: if_splits)
  have "\<exists>i. et_row sd ts kvss i = Some row" if "row \<in> set rows" for row
  proof -
    have "map Some rows = map (et_row sd ts kvss) [0..<n]"
      using those_map_image [OF n, of Some "et_row sd ts kvss"] by simp
    then have "Some row \<in> set (map (et_row sd ts kvss) [0..<n])" using that by (metis image_eqI set_map)
    then show ?thesis by auto
  qed
  moreover have "commas header = length ts + length kvss"
  proof -
    have "commas ''Job'' = 0" by (simp add: commas_def)
    then show ?thesis unfolding h et_header_def by (simp only: app names length_map)
  qed
  ultimately show ?thesis using cols by blast
qed

section \<open>Identifiers\<close>

definition store_ids :: "('r, 'e) ivp_stores \<Rightarrow> int list" where
  "store_ids st = (case st of Bft_stores xs \<Rightarrow> map (cid \<circ> iconfig) xs | Redis_stores xs \<Rightarrow> map pl_id xs | Etcd_stores xs \<Rightarrow> map pl_id xs)"

lemma bft_instance_config: "bft_instance conf = Some x \<Longrightarrow> iconfig x = conf"
  by (auto simp: bft_instance_def split: bind_splits)

lemma instance_ids:
  "local_instance a confs i = Some x \<Longrightarrow> cid (iconfig x) = 1000 * ivp_node_id a + 100 * int i"
  "distributed_instance a confs i = Some x \<Longrightarrow> cid (iconfig x) = 1000 * ivp_node_id a + 100 * int i"
  "baseline_instance new a confs i = Some y \<Longrightarrow> pl_id y = 1000 * ivp_node_id a + 100 * int i"
  by (auto simp: local_instance_def distributed_instance_def baseline_instance_def Let_def dest!: bft_instance_config
      split: bind_splits if_splits)

lemma number_of_stores:
  "exp_type a \<in> {''local'', ''distributed''} \<Longrightarrow>
     (if exp_type a = ''local'' then replication_factor a else num_nmr_instances a) = ivp_cpus_used a"
  by (auto simp: replication_factor_def num_nmr_instances_def)

lemma baseline_ids:
  assumes "baseline_instances new a = Some xs" "exp_type a \<in> {''local'', ''distributed''}"
  shows "map pl_id xs = map (\<lambda>i. 1000 * ivp_node_id a + 100 * int i) [0..<ivp_cpus_used a]"
proof -
  obtain confs where "those (map (baseline_instance new a confs) [0..<ivp_cpus_used a]) = Some xs"
    using assms(1) unfolding baseline_instances_def number_of_stores [OF assms(2)] by (auto split: bind_splits)
  then show ?thesis by (rule those_map_image) (rule instance_ids(3))
qed

lemma store_ids_of:
  assumes "ivp_stores_of connect gr ge a = Some stores" "exp_type a \<in> {''local'', ''distributed''}"
  shows "store_ids stores = map (\<lambda>i. 1000 * ivp_node_id a + 100 * int i) [0..<ivp_cpus_used a]"
proof -

  have "map (cid \<circ> iconfig) xs = map (\<lambda>i. 1000 * ivp_node_id a + 100 * int i) [0..<ivp_cpus_used a]"
    if made: "ivp_kvs_instances a = Some xs" for xs
  proof -
    obtain confs where "those (map (local_instance a confs) [0..<ivp_cpus_used a]) = Some xs \<or>
        those (map (distributed_instance a confs) [0..<ivp_cpus_used a]) = Some xs"
      using made number_of_stores [OF assms(2)] by (auto simp: ivp_kvs_instances_def split: bind_splits if_splits)
    then show ?thesis
      by (elim disjE) (rule those_map_image, assumption, simp add: instance_ids(1,2))+
  qed
  then show ?thesis using assms(1)
    by (auto simp: ivp_stores_of_def store_ids_def intro: baseline_ids [OF _ assms(2)] split: if_splits bind_splits)
qed

lemma task_ids:
  assumes "ivp_tasks api a = Some ts"
  shows "map (\<lambda>t. (ivp_id t, ivp_cpu t)) ts =
    map (\<lambda>(cpu, k). (1000 * ivp_node_id a + 100 * int cpu + (int k + 1), cpu)) (List.product [0..<ivp_cpus_used a] [0..<num_tasks_per_cpu a])"
  using assms unfolding ivp_tasks_def product_concat_map [symmetric]
  by (rule those_map_image) (auto simp: ivp_task_def split: bind_splits)

lemma place_ids_inj: "inj_on (\<lambda>(cpu, k). n + 100 * int cpu + int k) {(cpu, k). k < 100}"
proof (rule inj_onI; clarify)
  fix c k c' k' :: nat
  assume *: "n + 100 * int c + int k = n + 100 * int c' + int k'" "k < 100" "k' < 100"
  then have "\<not> c < c'" "\<not> c' < c" by linarith+
  then have c: "c = c'" by simp
  then have "int k = int k'" using *(1) by linarith
  then show "c = c' \<and> k = k'" using c by simp
qed

text \<open>C22 (ivp_setup_places): an experiment that is set up, whatever its kind of store, has one store per processor and as many tasks
  per processor as requested, each with a store on its own processor; the identifiers of stores and tasks are distinct as
  long as there are fewer than a hundred tasks per processor.\<close>

theorem ivp_setup_places:
  assumes up: "ivp_setup connect get_redis_client get_etcd_client api max_cpus a = Some (stores, ts)" and few: "num_tasks_per_cpu a < 100"
  shows "store_ids stores = map (\<lambda>i. 1000 * ivp_node_id a + 100 * int i) [0..<ivp_cpus_used a] \<and>
    length ts = ivp_cpus_used a * num_tasks_per_cpu a \<and> (\<forall>t \<in> set ts. ivp_cpu t < length (store_ids stores)) \<and>
    distinct (store_ids stores @ map ivp_id ts)"
proof -
  let ?ps = "List.product [0..<ivp_cpus_used a] [0..<num_tasks_per_cpu a]" and ?g = "\<lambda>(cpu, k). 1000 * ivp_node_id a + 100 * int cpu + int k"
  have s: "store_ids stores = map (\<lambda>i. 1000 * ivp_node_id a + 100 * int i) [0..<ivp_cpus_used a]" and t: "ivp_tasks api a = Some ts"
    using up store_ids_of [of connect get_redis_client get_etcd_client a stores]
    by (auto simp: ivp_setup_def arguments_ok_def split: if_splits bind_splits)
  have ids: "map ivp_id ts = map ?g (map (\<lambda>(cpu, k). (cpu, Suc k)) ?ps)" and cpus: "map ivp_cpu ts = map fst ?ps"
    using arg_cong [OF task_ids [OF t], of "map fst"] arg_cong [OF task_ids [OF t], of "map snd"]
    by (simp_all add: o_def case_prod_beta' add.assoc)
  have "length ts = length ?ps" using arg_cong [OF cpus, of length] by simp
  moreover have "set (map ivp_cpu ts) \<subseteq> {0..<ivp_cpus_used a}" unfolding cpus by auto
  moreover have "distinct (map ?g (map (\<lambda>i. (i, 0)) [0..<ivp_cpus_used a] @ map (\<lambda>(cpu, k). (cpu, Suc k)) ?ps))"
  proof -
    have d: "distinct (map (\<lambda>i. (i, 0 :: nat)) [0..<ivp_cpus_used a] @ map (\<lambda>(cpu, k). (cpu, Suc k)) ?ps)"
      by (auto simp: distinct_map inj_on_def distinct_product)
    have "set (map (\<lambda>i. (i, 0)) [0..<ivp_cpus_used a] @ map (\<lambda>(cpu, k). (cpu, Suc k)) ?ps) \<subseteq> {(cpu, k). k < 100}"
      using few by auto
    then show ?thesis unfolding distinct_map using d inj_on_subset [OF place_ids_inj] by blast
  qed
  ultimately show ?thesis unfolding s ids by (auto simp: length_product o_def)
qed

section \<open>Slots in a period\<close>

lemma unat_mult_u64: "unat a * unat b < 2 ^ 64 \<Longrightarrow> unat (a * b :: u64) = unat a * unat b"
  by (simp add: unat_word_ariths(2))

lemma unat_add_u64: "unat a + unat b < 2 ^ 64 \<Longrightarrow> unat (a + b :: u64) = unat a + unat b"
  by (simp add: unat_word_ariths(1))

lemma unat_ms: "unat t * 1000000 < 2 ^ 64 \<Longrightarrow> unat (MS_TO_NS t) = unat t * 1000000"
  unfolding MS_TO_NS_def by (subst unat_mult_u64) simp_all

lemma unat_nmr_offset:
  assumes "unat p * 1000000 < 2 ^ 64" "n < 2 ^ 64" "i < n"
  shows "unat (nmr_offset_ns p n i) = i * (unat p * 1000000 div n)" "i * (unat p * 1000000 div n) \<le> unat p * 1000000"
proof -
  have "i * (unat p * 1000000 div n) \<le> n * (unat p * 1000000 div n)" using assms(3) by (intro mult_le_mono) simp_all
  also have "\<dots> \<le> unat p * 1000000" by (simp add: times_div_less_eq_dividend)
  finally show le: "i * (unat p * 1000000 div n) \<le> unat p * 1000000" .
  have "unat (MS_TO_NS p div word_of_nat n) = unat p * 1000000 div n"
    using unat_ms [OF assms(1)] unat_of_nat_u64 [OF assms(2)] by (simp add: unat_div)
  moreover have "unat (word_of_nat i :: u64) = i" using assms(2,3) by (intro unat_of_nat_u64) simp
  ultimately show "unat (nmr_offset_ns p n i) = i * (unat p * 1000000 div n)"
    unfolding nmr_offset_ns_def using le assms(1) by (subst unat_mult_u64) simp_all
qed

lemma task_offset:
  assumes "unat (period_ms a) * 2000000 < 2 ^ 64" "ivp_cpus_used a < 2 ^ 64" "cpu < ivp_cpus_used a" "k < 2 ^ 64"
    and "k * unat (ivp_task_wcet_ms a) \<le> unat (period_ms a)"
  shows "unat (MS_TO_NS (ivp_task_offset_ms a cpu k)) =
    (unat (nmr_offset_ns (period_ms a) (ivp_cpus_used a) cpu) div 1000000 + k * unat (ivp_task_wcet_ms a)) * 1000000"
proof -
  let ?o = "nmr_offset_ns (period_ms a) (ivp_cpus_used a) cpu"
  have o: "unat ?o \<le> unat (period_ms a) * 1000000"
    using unat_nmr_offset [of "period_ms a" "ivp_cpus_used a" cpu] assms(1-3) by simp
  have w: "unat (word_of_nat k * ivp_task_wcet_ms a) = k * unat (ivp_task_wcet_ms a)"
    using unat_of_nat_u64 [OF assms(4)] assms(1,5) by (subst unat_mult_u64) simp_all
  have d: "unat (?o div 1000000) = unat ?o div 1000000" by (simp add: unat_div)
  have le: "unat ?o div 1000000 \<le> unat (period_ms a)" using o by simp
  have s: "unat (ivp_task_offset_ms a cpu k) = unat ?o div 1000000 + k * unat (ivp_task_wcet_ms a)"
    unfolding ivp_task_offset_ms_def using w d le assms(1,5) by (subst unat_add_u64) simp_all
  show ?thesis using le assms(1,5) by (subst unat_ms) (simp_all add: s)
qed

lemma slot_next: "x + w \<le> (y :: nat) \<Longrightarrow> (q + x) * 1000000 + w * 1000000 \<le> (q + y) * 1000000"
  by simp

lemma slot_last: "x + w \<le> (y :: nat) \<Longrightarrow> (n div 1000000 + x) * 1000000 + w * 1000000 \<le> n + y * 1000000"
proof -
  assume "x + w \<le> y"
  moreover have "n div 1000000 * 1000000 \<le> n" by (rule div_times_less_eq_dividend)
  ultimately show ?thesis unfolding add_mult_distrib by linarith
qed

lemma slot_store: "x + w \<le> (p :: nat) \<Longrightarrow> n + x * 1000000 + w * 1000000 \<le> n + p * 1000000"
  by simp

text \<open>C20 (ivp_slots_disjoint): in the distributed experiment, the tasks of a processor and its store run in
  consecutive slots of the period: a task is released when the slot of the task before it has ended, the store when the slot of
  the last task has ended, and the slot of the store ends within one period from the offset of the processor.\<close>

theorem ivp_slots_disjoint:
  assumes conf: "ivp_kvs_config a cpu = Some conf" and dist: "exp_type a = ''distributed''" and cpu: "cpu < ivp_cpus_used a"
    and k: "k < num_tasks_per_cpu a"
    and small: "unat (period_ms a) * 2000000 < 2 ^ 64" "ivp_cpus_used a < 2 ^ 64" "num_tasks_per_cpu a < 2 ^ 64"
      "num_tasks_per_cpu a * unat (ivp_task_wcet_ms a) + unat (kvs_task_wcet_ms a) < 2 ^ 64"
  shows "(\<forall>j < k. unat (MS_TO_NS (ivp_task_offset_ms a cpu j)) + unat (ivp_task_wcet_ms a) * 1000000
      \<le> unat (MS_TO_NS (ivp_task_offset_ms a cpu k))) \<and>
    unat (MS_TO_NS (ivp_task_offset_ms a cpu k)) + unat (ivp_task_wcet_ms a) * 1000000 \<le> unat (coffset_ns conf) \<and>
    unat (coffset_ns conf) + unat (kvs_task_wcet_ms a) * 1000000
      \<le> unat (nmr_offset_ns (period_ms a) (ivp_cpus_used a) cpu) + unat (period_ms a) * 1000000"
proof -
  let ?n = "num_tasks_per_cpu a" and ?w = "unat (ivp_task_wcet_ms a)" and ?p = "unat (period_ms a)"
  let ?o = "nmr_offset_ns (period_ms a) (ivp_cpus_used a) cpu"
  have nw: "unat (word_of_nat ?n * ivp_task_wcet_ms a) = ?n * ?w"
    using unat_of_nat_u64 [OF small(3)] small(4) by (subst unat_mult_u64) simp_all
  have "word_of_nat ?n * ivp_task_wcet_ms a + kvs_task_wcet_ms a \<le> period_ms a"
    and off: "coffset_ns conf = ?o + MS_TO_NS (word_of_nat ?n * ivp_task_wcet_ms a)"
    using conf dist by (auto simp: ivp_kvs_config_def num_nmr_instances_def Let_def split: if_splits bind_splits)
  then have fit: "?n * ?w + unat (kvs_task_wcet_ms a) \<le> ?p"
    unfolding word_le_nat_alt using small(4) nw by (subst (asm) unat_add_u64) simp_all
  have le: "j * ?w \<le> ?p" if "j \<le> ?n" for j using mult_le_mono1 [OF that, of ?w] fit by linarith
  have o: "unat ?o \<le> ?p * 1000000" using unat_nmr_offset [of "period_ms a" "ivp_cpus_used a" cpu] small cpu by simp
  have "unat (MS_TO_NS (word_of_nat ?n * ivp_task_wcet_ms a)) = ?n * ?w * 1000000"
    using le [of ?n] small(1) nw by (subst unat_ms) simp_all
  then have c: "unat (coffset_ns conf) = unat ?o + ?n * ?w * 1000000"
    unfolding off using o le [of ?n] small(1) by (subst unat_add_u64) simp_all
  have t: "unat (MS_TO_NS (ivp_task_offset_ms a cpu j)) = (unat ?o div 1000000 + j * ?w) * 1000000" if "j < ?n" for j
    using task_offset [of a cpu j] that le [of j] small cpu by simp
  have step: "j * ?w + ?w \<le> i * ?w" if "j < i" for j i using mult_le_mono1 [of "Suc j" i ?w] that by simp
  show ?thesis
  proof (intro conjI allI impI)
    fix j assume j: "j < k"
    then have "j < ?n" using k by simp
    show "unat (MS_TO_NS (ivp_task_offset_ms a cpu j)) + ?w * 1000000 \<le> unat (MS_TO_NS (ivp_task_offset_ms a cpu k))"
      unfolding t [OF k] t [OF \<open>j < ?n\<close>] by (rule slot_next [OF step [OF j]])
  next
    show "unat (MS_TO_NS (ivp_task_offset_ms a cpu k)) + ?w * 1000000 \<le> unat (coffset_ns conf)"
      unfolding t [OF k] c by (rule slot_last [OF step [OF k]])
  next
    show "unat (coffset_ns conf) + unat (kvs_task_wcet_ms a) * 1000000 \<le> unat ?o + ?p * 1000000"
      unfolding c by (rule slot_store [OF fit])
  qed
qed

text \<open>Lemma (last_task_decides): the control status of an experiment is the one of its last task: a pendulum that fell
  in an earlier task is not reported.\<close>

theorem last_task_decides:
  "control_status (ts @ [t]) = (if did_ivp_stabilize t then ''success'' else ''failure'')"
  by (simp add: control_status_def)


section \<open>A concrete experiment\<close>

definition demo_ivp_args :: ivp_args where
  "demo_ivp_args = \<lparr>period_ms = 100, num_tasks_per_cpu = 2, ivp_duration_s = 1, ivp_kvs_type = ''BFTKVS'', exp_type = ''distributed'',
     ivp_node_id = 2, ivp_total_nodes = 4, ivp_cpus_used = 2, ivp_task_wcet_ms = 10, kvs_task_wcet_ms = 5, fault_mode = 1, number_of_faulty_nodes = 1\<rparr>"

lemma demo_ivp_config: "\<exists>conf. ivp_kvs_config demo_ivp_args 1 = Some conf"
proof -
  have "\<exists>ps. fold_option (\<lambda>i ps. do {
          (addr, p) \<leftarrow> replica_address ''distributed'' 2 1 (int i);
          Some (ps @ [\<lparr>pid = int i, pip = addr, pport = p\<rparr>]) }) [0..<4] [] = Some ps"
    by (simp add: replica_address_def entry_def port_of_def node_ips_def bft_kvs_ports_def upt_rec numeral_eq_Suc)
  moreover have "jobs_of 1 (MS_TO_NS 100) = Some 10" by (simp add: jobs_of_def MS_TO_NS_def trunc_def Let_def)
  ultimately show ?thesis
    by (auto simp: ivp_kvs_config_def demo_ivp_args_def replication_factor_def word_le_nat_alt Let_def)
qed

theorem ivp_slots_disjoint_witness:
  "\<exists>conf. ivp_kvs_config demo_ivp_args 1 = Some conf \<and>
     unat (MS_TO_NS (ivp_task_offset_ms demo_ivp_args 1 0)) + 10000000 \<le> unat (MS_TO_NS (ivp_task_offset_ms demo_ivp_args 1 1)) \<and>
     unat (MS_TO_NS (ivp_task_offset_ms demo_ivp_args 1 1)) + 10000000 \<le> unat (coffset_ns conf)"
proof -
  obtain conf where conf: "ivp_kvs_config demo_ivp_args 1 = Some conf" using demo_ivp_config by blast
  show ?thesis using ivp_slots_disjoint [OF conf, of 1] conf by (simp add: demo_ivp_args_def)
qed

theorem last_task_decides_witness:
  "control_status [demo_ivp\<lparr>vnum_jobs := 20, vangular_positions := (\<lambda>_. 1)\<rparr>, demo_ivp] = ''success''"
  using last_task_decides [of "[demo_ivp\<lparr>vnum_jobs := 20, vangular_positions := (\<lambda>_. 1)\<rparr>]" demo_ivp]
  by (simp add: did_ivp_stabilize_def demo_ivp_def)

definition demo_redis_args :: ivp_args where
  "demo_redis_args = demo_ivp_args\<lparr>ivp_kvs_type := ''RedisKVS2''\<rparr>"

lemma demo_redis_conf:
  assumes "nmr = 0 \<or> nmr = 1"
  shows "\<exists>conf. ivp_kvs_config demo_redis_args nmr = Some conf"
proof -
  have "\<exists>ps. fold_option (\<lambda>i ps. do {
          (addr, p) \<leftarrow> replica_address ''distributed'' 2 (int nmr) (int i);
          Some (ps @ [\<lparr>pid = int i, pip = addr, pport = p\<rparr>]) }) [0..<4] [] = Some ps"
    using assms by (auto simp: replica_address_def entry_def port_of_def node_ips_def bft_kvs_ports_def upt_rec numeral_eq_Suc)
  moreover have "jobs_of 1 (MS_TO_NS 100) = Some 10" by (simp add: jobs_of_def MS_TO_NS_def trunc_def Let_def)
  ultimately show ?thesis
    by (auto simp: ivp_kvs_config_def demo_redis_args_def demo_ivp_args_def replication_factor_def word_le_nat_alt Let_def)
qed

lemma demo_peers: "\<exists>ps. get_peers_minus_self ''distributed'' 2 i 4 1 = Some ps" if "i = 0 \<or> i = 1"
  using that by (auto simp: get_peers_minus_self_def replica_address_def entry_def port_of_def node_ips_def bft_kvs_ports_def upt_rec numeral_eq_Suc)

lemma demo_stores: "baseline_instances (redis2_instance (\<lambda>_. Some ())) demo_redis_args \<noteq> None"
proof -
  obtain c0 c1 where c: "ivp_kvs_config demo_redis_args 0 = Some c0" "ivp_kvs_config demo_redis_args 1 = Some c1"
    using demo_redis_conf [of 0] demo_redis_conf [of 1] by blast
  have "\<exists>s. baseline_instance (redis2_instance (\<lambda>_. Some ())) demo_redis_args [c0, c1] i = Some s" if "i = 0 \<or> i = 1" for i
  proof -
    have "int i = 0 \<or> int i = 1" using that by auto
    then obtain ps where "get_peers_minus_self ''distributed'' 2 (int i) 4 1 = Some ps" using demo_peers by blast
    then show ?thesis using that
      by (auto simp: baseline_instance_def demo_redis_args_def demo_ivp_args_def entry_def port_of_def node_index_def bft_kvs_ports_def
          replication_factor_def redis2_instance_def redis2_new_def)
  qed
  from this [of 0] this [of 1] show ?thesis
    using c by (auto simp: baseline_instances_def num_nmr_instances_def demo_redis_args_def demo_ivp_args_def upt_rec)
qed

lemma demo_sim: "\<exists>t. ivp_sim_new demo_api (MS_TO_NS 100) offset 10 = Some t"
proof -
  have "num demo_api initial_state ''D:TS'' = Some (rounded (5 / 100))"
    by (simp add: num_def initial_state_def set_text_def text_less_def demo_api_def stod_to_string)
  moreover have "NS_TO_SEC (MS_TO_NS 100) \<noteq> 0" by (simp add: NS_TO_SEC_def MS_TO_NS_def)
  ultimately show ?thesis by (simp add: ivp_sim_new_def MAX_AP_VALUE_LOGGED_def quotient_def)
qed

lemma demo_ivp_tasks: "\<exists>ts. ivp_tasks demo_api demo_redis_args = Some ts"
proof -
  have "jobs_of 1 (MS_TO_NS 100) = Some 10" by (simp add: jobs_of_def MS_TO_NS_def trunc_def Let_def)
  then have "\<exists>p. ivp_task demo_api demo_redis_args cpu k = Some p" for cpu k
    using demo_sim [of "MS_TO_NS (ivp_task_offset_ms demo_redis_args cpu k)"]
    by (auto simp: ivp_task_def demo_redis_args_def demo_ivp_args_def)
  then obtain f where f: "ivp_task demo_api demo_redis_args cpu k = Some (f cpu k)" for cpu k by metis
  have "those (map (\<lambda>(cpu, k). ivp_task demo_api demo_redis_args cpu k) xs) = Some (map (\<lambda>(cpu, k). f cpu k) xs)" for xs
    by (induction xs) (auto simp: f)
  then show ?thesis unfolding ivp_tasks_def by blast
qed

theorem ivp_setup_places_witness:
  "\<exists>stores ts. ivp_setup (\<lambda>_. None) (\<lambda>_. Some ()) (\<lambda>_. None :: unit option) demo_api 4 demo_redis_args = Some (stores, ts) \<and>
     store_ids stores = [2000, 2100] \<and> length ts = 4"
proof -
  obtain stores ts where "baseline_instances (redis2_instance (\<lambda>_. Some ())) demo_redis_args = Some stores"
    "ivp_tasks demo_api demo_redis_args = Some ts"
    using demo_stores demo_ivp_tasks by blast
  then have up: "ivp_setup (\<lambda>_. None) (\<lambda>_. Some ()) (\<lambda>_. None :: unit option) demo_api 4 demo_redis_args = Some (Redis_stores stores, ts)"
    by (simp add: ivp_setup_def ivp_stores_of_def arguments_ok_def demo_redis_args_def demo_ivp_args_def)
  have "num_tasks_per_cpu demo_redis_args < 100" by (simp add: demo_redis_args_def demo_ivp_args_def)
  then show ?thesis using ivp_setup_places [OF up] up by (auto simp: demo_redis_args_def demo_ivp_args_def upt_rec)
qed


theorem et_columns_witness:
  "\<exists>header row. et_table (\<lambda>_. ''x'') 1 1000 [(2001, False, (\<lambda>_. 0))] [(2000, False, (\<lambda>_. 0))] = Some [header, row] \<and>
     commas header = 2 \<and> commas row = 0"
proof -
  have u: "unat (word_of_int (trunc 1) :: u64) = 1" by (simp add: trunc_def)
  obtain header row where t: "et_table (\<lambda>_. ''x'') 1 1000 [(2001, False, (\<lambda>_. 0))] [(2000, False, (\<lambda>_. 0))] = Some [header, row]"
    by (simp add: et_table_def quotient_def u et_row_def)
  then show ?thesis using et_columns [OF t] by (auto simp: commas_def)
qed


end
