(* ===== verification/Exp_Arguments.thy ===== *)
theory Exp_Arguments imports Exp_Bosch Exp_Ivp begin

text \<open>
  The command lines of the experiments \<^verbatim>\<open>exp/bosch1.cpp\<close> and \<^verbatim>\<open>exp/ivp1.cpp\<close>: the conversions of the standard library with
  their two exceptions, which nobody catches, the checks at the start of both programs, the usage texts, the directory of
  the project (\<^verbatim>\<open>src/utils/misc.cpp\<close>), and the order in which the threads are started and joined. The conversion of a double is the
  argument \<open>read_double\<close>. Shown: decimal numerals are read as their numbers, a minus sign is accepted by the unsigned conversion and
  wraps around, and the usage text of the pendulum experiment does not describe a call that is accepted.
\<close>

section \<open>Conversions\<close>

text \<open>\<^verbatim>\<open>isspace\<close> in the C locale.\<close>

definition is_space :: "char \<Rightarrow> bool" where
  "is_space c \<longleftrightarrow> (of_char c :: nat) = 32 \<or> 9 \<le> (of_char c :: nat) \<and> (of_char c :: nat) \<le> 13"

text \<open>What \<^verbatim>\<open>strtol\<close> and \<^verbatim>\<open>strtoul\<close> read in base ten: white space, a sign, digits; the rest of the text is ignored.\<close>

definition split_sign :: "string \<Rightarrow> bool \<times> string" where
  "split_sign s = (case s of
     [] \<Rightarrow> (False, [])
   | c # r \<Rightarrow> if c = CHR ''-'' then (True, r) else if c = CHR ''+'' then (False, r) else (False, s))"

definition read_integer :: "string \<Rightarrow> int option" where
  "read_integer s =
     (let (minus, r) = split_sign (dropWhile is_space s); ds = takeWhile is_digit r
      in if ds = [] then None else Some (if minus then - int (undec ds) else int (undec ds)))"

definition stoi :: "string \<Rightarrow> int stod_result" where
  "stoi s = (case read_integer s of
     None \<Rightarrow> Invalid_argument
   | Some i \<Rightarrow> if - (2 ^ 31) \<le> i \<and> i < 2 ^ 31 then Converted i else Out_of_range)"

definition stoul :: "string \<Rightarrow> u64 stod_result" where
  "stoul s = (case read_integer s of
     None \<Rightarrow> Invalid_argument
   | Some i \<Rightarrow> if \<bar>i\<bar> < 2 ^ 64 then Converted (word_of_int i) else Out_of_range)"

section \<open>Starting an experiment\<close>

datatype 'a start = Usage | Uncaught_invalid_argument | Uncaught_out_of_range | Unsupported | Begin 'a

definition converted :: "'d stod_result \<Rightarrow> ('d \<Rightarrow> 'a start) \<Rightarrow> 'a start" where
  "converted r k = (case r of
     Converted v \<Rightarrow> k v
   | Invalid_argument \<Rightarrow> Uncaught_invalid_argument
   | Out_of_range \<Rightarrow> Uncaught_out_of_range)"

text \<open>The arguments as the programs hold them, the counts being of type \<^verbatim>\<open>int\<close>. \<open>argv\<close> are the arguments without the name of
  the program.\<close>

record bosch_call =
  bosch_period_ms :: u64
  bosch_config_file :: string
  bosch_duration_s :: rat
  bosch_kvs :: string
  bosch_output_file :: string
  bosch_exp_type :: string
  bosch_node :: int
  bosch_nodes :: int
  bosch_cpus :: int

definition bosch_start :: "(string \<Rightarrow> rat stod_result) \<Rightarrow> string list \<Rightarrow> bosch_call start" where
  "bosch_start read_double argv =
     (if length argv + 1 < 10 then Usage
      else converted (stoul (argv ! 0)) (\<lambda>period.
           converted (read_double (argv ! 2)) (\<lambda>duration.
           converted (stoi (argv ! 6)) (\<lambda>node.
           converted (stoi (argv ! 7)) (\<lambda>nodes.
           converted (stoi (argv ! 8)) (\<lambda>cpus.
             if argv ! 3 \<noteq> ''BFTKVS'' then Unsupported
             else Begin \<lparr>bosch_period_ms = period, bosch_config_file = argv ! 1, bosch_duration_s = duration, bosch_kvs = argv ! 3,
                         bosch_output_file = argv ! 4, bosch_exp_type = argv ! 5, bosch_node = node, bosch_nodes = nodes,
                         bosch_cpus = cpus\<rparr>))))))"

record ivp_call =
  call_period_ms :: u64
  call_tasks_per_cpu :: int
  call_duration_s :: rat
  call_kvs :: string
  call_output_file :: string
  call_exp_type :: string
  call_node :: int
  call_nodes :: int
  call_cpus :: int
  call_task_wcet_ms :: u64
  call_kvs_wcet_ms :: u64
  call_fault_mode :: int
  call_faulty_nodes :: int

text \<open>\<^verbatim>\<open>cpus_used >= max_cpus\<close> compares an \<^verbatim>\<open>int\<close> with an \<^verbatim>\<open>unsigned\<close>: a negative number is a large one.\<close>

definition too_many_cpus :: "u32 \<Rightarrow> int \<Rightarrow> bool" where
  "too_many_cpus max_cpus cpus \<longleftrightarrow> (word_of_int cpus :: u32) \<ge> max_cpus"

definition ivp_start :: "(string \<Rightarrow> rat stod_result) \<Rightarrow> u32 \<Rightarrow> string list \<Rightarrow> ivp_call start" where
  "ivp_start read_double max_cpus argv =
     (if length argv + 1 < 14 then Usage
      else converted (stoul (argv ! 0)) (\<lambda>period.
           converted (stoi (argv ! 1)) (\<lambda>tasks.
           converted (read_double (argv ! 2)) (\<lambda>duration.
           converted (stoi (argv ! 6)) (\<lambda>node.
           converted (stoi (argv ! 7)) (\<lambda>nodes.
           converted (stoi (argv ! 8)) (\<lambda>cpus.
             if argv ! 3 \<notin> {''BFTKVS'', ''RedisKVS2'', ''ETCDKVS''} then Unsupported
             else if argv ! 5 \<notin> {''local'', ''distributed''} then Unsupported
             else if too_many_cpus max_cpus cpus then Unsupported
             else converted (stoul (argv ! 9)) (\<lambda>task_wcet.
                  converted (stoul (argv ! 10)) (\<lambda>kvs_wcet.
                  converted (stoi (argv ! 11)) (\<lambda>mode.
                  converted (stoi (argv ! 12)) (\<lambda>faulty_nodes.
                    Begin \<lparr>call_period_ms = period, call_tasks_per_cpu = tasks, call_duration_s = duration, call_kvs = argv ! 3,
                           call_output_file = argv ! 4, call_exp_type = argv ! 5, call_node = node, call_nodes = nodes, call_cpus = cpus,
                           call_task_wcet_ms = task_wcet, call_kvs_wcet_ms = kvs_wcet, call_fault_mode = mode,
                           call_faulty_nodes = faulty_nodes\<rparr>)))))))))))"

text \<open>The calls whose counts are not negative are those that the setups of Exp_Bosch and Exp_Ivp follow.\<close>

definition bosch_args_of :: "bosch_call \<Rightarrow> bosch_args option" where
  "bosch_args_of c = (if 0 \<le> bosch_nodes c \<and> 0 \<le> bosch_cpus c
     then Some \<lparr>smallest_period_ms = bosch_period_ms c, config_file_name = bosch_config_file c, exp_duration_s = bosch_duration_s c,
       kvs_type = bosch_kvs c, node_id = bosch_node c, total_nodes = nat (bosch_nodes c), cpus_used = nat (bosch_cpus c)\<rparr>
     else None)"

definition ivp_args_of :: "ivp_call \<Rightarrow> ivp_args option" where
  "ivp_args_of c = (if 0 \<le> call_tasks_per_cpu c \<and> 0 \<le> call_nodes c \<and> 0 \<le> call_cpus c
     then Some \<lparr>period_ms = call_period_ms c, num_tasks_per_cpu = nat (call_tasks_per_cpu c), ivp_duration_s = call_duration_s c,
       ivp_kvs_type = call_kvs c, exp_type = call_exp_type c, ivp_node_id = call_node c, ivp_total_nodes = nat (call_nodes c),
       ivp_cpus_used = nat (call_cpus c), ivp_task_wcet_ms = call_task_wcet_ms c, kvs_task_wcet_ms = call_kvs_wcet_ms c,
       fault_mode = call_fault_mode c, number_of_faulty_nodes = call_faulty_nodes c\<rparr>
     else None)"

section \<open>Usage\<close>

abbreviation TAB :: char where "TAB \<equiv> CHR 0x09"
abbreviation QUOTE :: char where "QUOTE \<equiv> CHR 0x27"

definition bosch_usage :: "string list" where
  "bosch_usage =
     [''Error: Incorrect usage'',
      ''Usage: bosch1 [smallest_period_ms] [benchnark_cfg] [exp_duration_s] [kvs_type] [output_file] [exp_type] [node_id] [total_nodes] [cpus_used]'',
      TAB # ''smallest_period_ms: typically, between 0 to 100'',
      TAB # ''benchmark_cfg: *.cfg filename, e.g., kzh15_42pcu_1031l.cfg'',
      TAB # ''exp_duration_s: typically, 10'',
      TAB # ''kvs_type: either BFTKVS, RedisKVS1, or RedisKVS2'',
      TAB # ''output_file: *.data filename, where the aggregate stats are written'',
      TAB # ''exp_type: '' @ [QUOTE] @ ''local'' @ [QUOTE] @ '' or '' @ [QUOTE] @ ''distributed'' @ [QUOTE] @ '''',
      TAB # ''node_id: set to x for achalx'',
      TAB # ''total_nodes: number of nodes being used'',
      TAB # TAB # ''if '' @ [QUOTE] @ ''local'' @ [QUOTE] @ '', set to 1'',
      TAB # TAB # ''if '' @ [QUOTE] @ ''distributed'' @ [QUOTE] @ '', typically 3 or 4'',
      TAB # ''cpus_used: number of cpus to use (typically, between 1 and 3)'',
      TAB # TAB # ''if '' @ [QUOTE] @ ''local'' @ [QUOTE] @ '', each cpu mimics an independent node'',
      TAB # TAB # ''if '' @ [QUOTE] @ ''distributed'' @ [QUOTE] @ '', each cpu runs identical task sets (not replicas)'']"

definition ivp_usage :: "string list" where
  "ivp_usage =
     [''Error: Incorrect usage'',
      ''Usage: ivp1 [period_ms] [num_tasks_per_cpu] [exp_duration_s] [kvs_type] [output_file] [exp_type] [node_id] [total_nodes] [cpus_used] [ivp_task_wcet_ms] [kvs_task_wcet_ms]'',
      TAB # ''period_ms: typically, between 0 and 1000'',
      TAB # ''num_tasks_per_cpu: number of unique tasks (not replicas) per CPU (at least 1)'',
      TAB # ''exp_duration_s: typically, between 10 and 3600'',
      TAB # ''kvs_type: either BFTKVS, RedisKVS1, or RedisKVS2'',
      TAB # ''output_file: *.data filename, where the aggregate stats are written'',
      TAB # ''exp_type: '' @ [QUOTE] @ ''local'' @ [QUOTE] @ '' or '' @ [QUOTE] @ ''distributed'' @ [QUOTE] @ '''',
      TAB # ''node_id: set to x for achalx'',
      TAB # ''total_nodes: number of nodes being used'',
      TAB # TAB # ''if '' @ [QUOTE] @ ''local'' @ [QUOTE] @ '', set to 1'',
      TAB # TAB # ''if '' @ [QUOTE] @ ''distributed'' @ [QUOTE] @ '', typically 3 or 4'',
      TAB # ''cpus_used: number of cpus to use (typically, between 1 and 3)'',
      TAB # TAB # ''if '' @ [QUOTE] @ ''local'' @ [QUOTE] @ '', each cpu mimics an independent node'',
      TAB # TAB # ''if '' @ [QUOTE] @ ''distributed'' @ [QUOTE] @ '', each cpu runs identical task sets (not replicas)'',
      TAB # ''ivp_task_wcet_ms: if profiled and for BFTKVS, provide the WCET of the IvP task (optional)'',
      TAB # ''kvs_task_wcet_ms: if profiled and for BFTKVS, provide the WCET of the KVS task (optional)'']"

text \<open>The number of arguments that a usage text names in brackets.\<close>

definition usage_arguments :: "string list \<Rightarrow> nat" where
  "usage_arguments lines = length (filter (\<lambda>c. c = CHR ''['') (lines ! 1))"

section \<open>Reading numbers\<close>

lemma digit_no_space: "is_digit c \<Longrightarrow> \<not> is_space c \<and> c \<noteq> CHR ''-'' \<and> c \<noteq> CHR ''+''"
  by (auto simp: is_digit_def is_space_def)

lemma takeWhile_dec: "takeWhile is_digit (dec n) = dec n"
  using dec_digits by (simp only: takeWhile_eq_all_conv)

lemma read_integer_digits: "read_integer (dec n) = Some (int n)"
proof -
  obtain c r where c: "dec n = c # r" by (cases "dec n") (use dec_not_empty in auto)
  then have "is_digit c" using dec_digits [of n] by simp
  then have "split_sign (dropWhile is_space (dec n)) = (False, dec n)"
    using digit_no_space [of c] by (simp add: c split_sign_def)
  then show ?thesis by (simp add: read_integer_def takeWhile_dec)
qed

lemma read_integer_minus: "read_integer (''-'' @ dec n) = Some (- int n)"
proof -
  have "split_sign (dropWhile is_space (''-'' @ dec n)) = (True, dec n)" by (simp add: split_sign_def is_space_def)
  then show ?thesis by (simp add: read_integer_def takeWhile_dec)
qed

lemma stoi_dec_int: "- (2 ^ 31) \<le> i \<Longrightarrow> i < 2 ^ 31 \<Longrightarrow> stoi (dec_int i) = Converted i"
  using read_integer_digits [of "nat i"] read_integer_minus [of "nat (- i)"] by (simp add: stoi_def dec_int_def)

lemma stoul_dec: "stoul (dec (unat t)) = Converted t"
proof -
  have "int (unat t) < 2 ^ 64" using unat_lt_u64 [of t] by (metis of_nat_less_iff of_nat_numeral of_nat_power)
  then have "stoul (dec (unat t)) = Converted (word_of_int (int (unat t)))" by (simp add: stoul_def read_integer_digits del: uint_nat)
  then show ?thesis by simp
qed

lemma stoul_minus: "n < 2 ^ 64 \<Longrightarrow> stoul (''-'' @ dec n) = Converted (- word_of_nat n)"
  using read_integer_minus [of n] by (simp add: stoul_def)

section \<open>Properties of the command lines\<close>

lemma converted_usage: "(\<And>v. k v \<noteq> Usage) \<Longrightarrow> converted r k \<noteq> Usage"
  by (simp add: converted_def split: stod_result.splits)

lemma usage_counts: "usage_arguments bosch_usage = 9" "usage_arguments ivp_usage = 11"
  by (simp_all add: usage_arguments_def bosch_usage_def ivp_usage_def)

text \<open>Lemma (usage_of_ivp_is_refused): a call of the benchmark experiment with as many arguments as its usage text names is not
  answered with that text. A call of the pendulum experiment with as many arguments as its text names is always answered with it: the
  program asks for two more, the mode and the number of faults. And the store \<open>RedisKVS1\<close>, which both texts offer, never gets
  an experiment started.\<close>

theorem usage_of_ivp_is_refused:
  "(length argv = usage_arguments bosch_usage \<longrightarrow> bosch_start read_double argv \<noteq> Usage) \<and>
   (length argv = usage_arguments ivp_usage \<longrightarrow> ivp_start read_double max_cpus argv = Usage) \<and>
   (argv ! 3 = ''RedisKVS1'' \<longrightarrow> bosch_start read_double argv \<noteq> Begin b \<and> ivp_start read_double max_cpus argv \<noteq> Begin v)"
proof (intro conjI impI)
  assume "length argv = usage_arguments bosch_usage"
  then show "bosch_start read_double argv \<noteq> Usage"
    by (auto simp: bosch_start_def usage_counts intro!: converted_usage split: if_splits)
next
  assume "length argv = usage_arguments ivp_usage"
  then show "ivp_start read_double max_cpus argv = Usage" by (simp add: ivp_start_def usage_counts)
next
  assume "argv ! 3 = ''RedisKVS1''"
  then show "bosch_start read_double argv \<noteq> Begin b" "ivp_start read_double max_cpus argv \<noteq> Begin v"
    by (simp_all add: bosch_start_def ivp_start_def converted_def split: stod_result.splits)
qed

text \<open>What an accepted call has been given; and a negative period is accepted: \<^verbatim>\<open>stoul\<close> reads the minus sign and
  negates the number modulo \<open>2^64\<close>.\<close>

lemma bosch_start_accepts:
  assumes "bosch_start read_double argv = Begin c"
  shows "9 \<le> length argv \<and> stoul (argv ! 0) = Converted (bosch_period_ms c) \<and> read_double (argv ! 2) = Converted (bosch_duration_s c) \<and>
    stoi (argv ! 6) = Converted (bosch_node c) \<and> stoi (argv ! 7) = Converted (bosch_nodes c) \<and>
    stoi (argv ! 8) = Converted (bosch_cpus c) \<and> argv ! 3 = ''BFTKVS'' \<and> bosch_kvs c = ''BFTKVS''"
  using assms by (auto simp: bosch_start_def converted_def split: stod_result.splits if_splits)

lemma negative_period_wraps:
  assumes "length argv = 9" "argv ! 0 = ''-'' @ dec n" "n < 2 ^ 64" "bosch_start read_double argv = Begin c"
  shows "bosch_period_ms c = - word_of_nat n"
  using assms stoul_minus [OF assms(3)] by (auto simp: bosch_start_def converted_def split: stod_result.splits if_splits)

section \<open>The project directory\<close>

text \<open>\<^verbatim>\<open>dirname\<close> of the C library on a text.\<close>

definition strip_slashes :: "string \<Rightarrow> string" where
  "strip_slashes p = rev (dropWhile (\<lambda>c. c = CHR ''/'') (rev p))"

definition drop_component :: "string \<Rightarrow> string" where
  "drop_component p = rev (dropWhile (\<lambda>c. c \<noteq> CHR ''/'') (rev p))"

definition dirname :: "string \<Rightarrow> string" where
  "dirname p =
     (if p = [] then ''.''
      else let q = strip_slashes p
           in if q = [] then ''/''
              else if CHR ''/'' \<notin> set q then ''.''
              else let r = strip_slashes (drop_component q) in if r = [] then ''/'' else r)"

text \<open>\<^verbatim>\<open>readlink\<close> fills the front of a buffer of 1024 bytes, which is not initialised (\<open>junk\<close>), and writes no terminator.
  \<open>None\<close> stands for a buffer without a terminator, which \<^verbatim>\<open>dirname\<close> reads beyond its end.\<close>

definition get_project_directory :: "string \<Rightarrow> string \<Rightarrow> string option" where
  "get_project_directory junk exe =
     (let buf = splice junk 0 (take (length junk) exe)
      in if NUL \<in> set buf then Some (dirname (dirname (cstr buf))) else None)"

lemma strip_slashes_id: "p \<noteq> [] \<Longrightarrow> last p \<noteq> CHR ''/'' \<Longrightarrow> strip_slashes p = p"
  by (cases p rule: rev_cases) (simp_all add: strip_slashes_def)

lemma drop_component_append: "CHR ''/'' \<notin> set f \<Longrightarrow> drop_component (d @ ''/'' @ f) = d @ ''/''"
  by (induction f rule: rev_induct) (auto simp: drop_component_def)

lemma dirname_join:
  assumes "d \<noteq> []" "last d \<noteq> CHR ''/''" "f \<noteq> []" "CHR ''/'' \<notin> set f"
  shows "dirname (d @ ''/'' @ f) = d"
proof -
  have "last (d @ ''/'' @ f) \<noteq> CHR ''/''" using assms(3,4) by (metis last_appendR last_in_set append_is_Nil_conv)
  then have "strip_slashes (d @ ''/'' @ f) = d @ ''/'' @ f" by (intro strip_slashes_id) simp_all
  moreover have "strip_slashes (d @ ''/'') = d"
    using assms(1,2) strip_slashes_id [of d] by (simp add: strip_slashes_def)
  ultimately show ?thesis using assms drop_component_append [of f d] by (simp add: dirname_def Let_def)
qed

lemma cstr_append_plain: "NUL \<notin> set s \<Longrightarrow> cstr (s @ r) = s @ cstr r"
  by (induction s) (auto simp: cstr_def)

text \<open>Lemma (project_directory_found): the directory of the project is found although the path of the executable is read into an
  uninitialised buffer without a terminator, provided that there is a terminator behind it by chance and no slash before that: what is
  between then belongs to the name of the executable, which is dropped. A path that fills a buffer of non-zero bytes leaves no terminator.\<close>

theorem project_directory_found:
  assumes "exe = base @ ''/'' @ dir @ ''/'' @ file" "NUL \<notin> set exe" "length exe \<le> length junk"
    and "base \<noteq> []" "last base \<noteq> CHR ''/''" "dir \<noteq> []" "CHR ''/'' \<notin> set dir" "file \<noteq> []" "CHR ''/'' \<notin> set file"
    and "CHR ''/'' \<notin> set (cstr (drop (length exe) junk))"
  shows "get_project_directory junk exe = (if NUL \<in> set (drop (length exe) junk) then Some base else None)"
proof -
  let ?g = "cstr (drop (length exe) junk)" and ?d = "base @ ''/'' @ dir"
  have "splice junk 0 (take (length junk) exe) = exe @ drop (length exe) junk" using assms(3) by (simp add: splice_def)
  then have "cstr (splice junk 0 (take (length junk) exe)) = ?d @ ''/'' @ (file @ ?g)"
    using cstr_append_plain [OF assms(2)] assms(1) by simp
  moreover have "last ?d \<noteq> CHR ''/''" using assms(6,7) by (metis last_appendR last_in_set append_is_Nil_conv)
  then have "dirname (?d @ ''/'' @ (file @ ?g)) = ?d" using assms(8-10) by (intro dirname_join) simp_all
  moreover have "dirname ?d = base" using assms(4-7) by (rule dirname_join)
  moreover have "NUL \<in> set (splice junk 0 (take (length junk) exe)) \<longleftrightarrow> NUL \<in> set (drop (length exe) junk)"
    using assms(2,3) by (simp add: splice_def)
  ultimately show ?thesis by (simp add: get_project_directory_def Let_def)
qed

section \<open>Threads\<close>

text \<open>What the programs do with the stores and tasks once they are set up, by position.\<close>

datatype thread = Store nat | Application nat

datatype action = Spawn thread | Join thread | Print_stats thread

definition experiment_actions :: "nat \<Rightarrow> nat \<Rightarrow> action list" where
  "experiment_actions n_stores n_tasks =
     map (\<lambda>i. Spawn (Store i)) [0..<n_stores] @ map (\<lambda>i. Spawn (Application i)) [0..<n_tasks] @
     map (\<lambda>i. Join (Application i)) [0..<n_tasks] @ map (\<lambda>i. Join (Store i)) [0..<n_stores] @
     map (\<lambda>i. Print_stats (Store i)) [0..<n_stores] @ map (\<lambda>i. Print_stats (Application i)) [0..<n_tasks]"

text \<open>The threads that run after some of the actions; \<open>None\<close> stands for starting a running thread or joining one that is not
  running.\<close>

fun running :: "action list \<Rightarrow> thread set \<Rightarrow> thread set option" where
  "running [] T = Some T"
| "running (Spawn t # as) T = (if t \<in> T then None else running as (insert t T))"
| "running (Join t # as) T = (if t \<in> T then running as (T - {t}) else None)"
| "running (Print_stats t # as) T = (if t \<in> T then None else running as T)"

lemma running_append: "running (as @ bs) T = (case running as T of None \<Rightarrow> None | Some T' \<Rightarrow> running bs T')"
  by (induction as T rule: running.induct) (auto split: option.splits)

lemma running_spawns:
  "distinct (map f is) \<Longrightarrow> f ` set is \<inter> T = {} \<Longrightarrow> running (map (\<lambda>i. Spawn (f i)) is) T = Some (T \<union> f ` set is)"
  by (induction "is" arbitrary: T) auto

lemma running_joins:
  "distinct (map f is) \<Longrightarrow> f ` set is \<subseteq> T \<Longrightarrow> running (map (\<lambda>i. Join (f i)) is) T = Some (T - f ` set is)"
proof (induction "is" arbitrary: T)
  case (Cons i "is")
  have i: "f i \<in> T" "f i \<notin> f ` set is" "f ` set is \<subseteq> T" "distinct (map f is)" using Cons.prems by simp_all
  then have "f ` set is \<subseteq> T - {f i}" by blast
  moreover have "T - {f i} - f ` set is = T - f ` set (i # is)" by auto
  ultimately show ?case using Cons.IH [OF i(4), of "T - {f i}"] i(1) by simp
qed simp

lemma running_prints: "f ` set is \<inter> T = {} \<Longrightarrow> running (map (\<lambda>i. Print_stats (f i)) is) T = Some T"
  by (induction "is") auto

text \<open>Every thread is started once and joined, all stores run while the tasks do, and statistics are printed of threads that have ended.\<close>

lemma experiment_threads: "running (experiment_actions n_stores n_tasks) {} = Some {}"
proof -
  let ?S = "Store ` {0..<n_stores}" and ?A = "Application ` {0..<n_tasks}"
  have "running (map (\<lambda>i. Spawn (Store i)) [0..<n_stores]) {} = Some ?S" by (subst running_spawns) (auto simp: distinct_map inj_on_def)
  moreover have "running (map (\<lambda>i. Spawn (Application i)) [0..<n_tasks]) ?S = Some (?S \<union> ?A)"
    by (subst running_spawns) (auto simp: distinct_map inj_on_def)
  moreover have "running (map (\<lambda>i. Join (Application i)) [0..<n_tasks]) (?S \<union> ?A) = Some ?S"
    by (subst running_joins) (auto simp: distinct_map inj_on_def)
  moreover have "running (map (\<lambda>i. Join (Store i)) [0..<n_stores]) ?S = Some {}"
    by (subst running_joins) (auto simp: distinct_map inj_on_def)
  ultimately show ?thesis by (simp add: experiment_actions_def running_append running_prints)
qed

section \<open>Files\<close>

definition config_file_path :: "string \<Rightarrow> string \<Rightarrow> string" where
  "config_file_path directory name = directory @ ''/config/benchmarks/'' @ name"

definition output_file_path :: "string \<Rightarrow> string \<Rightarrow> string" where
  "output_file_path directory name = directory @ ''/data/'' @ name"

text \<open>The pendulum experiment has its own copy of the method that appends a line to a file, given the content of all files.\<close>

definition ivp_append_to_file :: "(rat option \<Rightarrow> string) \<Rightarrow> string \<Rightarrow> ivp_stats \<Rightarrow> (string \<rightharpoonup> string) \<Rightarrow> (string \<rightharpoonup> string)" where
  "ivp_append_to_file sd filepath st files =
     (let file_exists = files filepath \<noteq> None;
          content = (case files filepath of None \<Rightarrow> [] | Some c \<Rightarrow> c);
          header = (if file_exists then [] else ivp_get_header @ [CHR 0x0A])
      in files(filepath \<mapsto> content @ header @ ivp_get_string sd st @ [CHR 0x0A]))"

lemma ivp_append_is_append:
  "ivp_append_to_file sd file_name st files file_name = append_to_file ivp_get_header (ivp_get_string sd st) (files file_name)"
  "q \<noteq> file_name \<Longrightarrow> ivp_append_to_file sd file_name st files q = files q"
  by (auto simp: ivp_append_to_file_def append_to_file_def Let_def split: option.splits)

section \<open>Concrete calls\<close>

definition demo_bosch_call :: bosch_call where
  "demo_bosch_call = \<lparr>bosch_period_ms = 50, bosch_config_file = ''b.cfg'', bosch_duration_s = 10, bosch_kvs = ''BFTKVS'',
     bosch_output_file = ''o.data'', bosch_exp_type = ''distributed'', bosch_node = 1, bosch_nodes = 4, bosch_cpus = 1\<rparr>"

theorem usage_of_ivp_is_refused_witness:
  "bosch_start (\<lambda>_. Converted 1) (replicate 9 ''1'') \<noteq> Usage \<and> ivp_start (\<lambda>_. Converted 1) 4 (replicate 11 ''1'') = Usage \<and>
   bosch_start (\<lambda>_. Invalid_argument) (replicate 9 ''RedisKVS1'') \<noteq> Begin demo_bosch_call"
  using usage_of_ivp_is_refused [of "replicate 9 ''1''" "\<lambda>_. Converted 1" 4]
    usage_of_ivp_is_refused [of "replicate 11 ''1''" "\<lambda>_. Converted 1" 4]
    usage_of_ivp_is_refused [of "replicate 9 ''RedisKVS1''" "\<lambda>_. Invalid_argument" 4 demo_bosch_call] by (simp add: usage_counts)

theorem project_directory_found_witness:
  "get_project_directory (''0123456789xy'' @ [NUL, CHR ''/'']) ''/r/bin/exp'' = Some ''/r''"
  using project_directory_found [of "''/r/bin/exp''" "''/r''" "''bin''" "''exp''" "''0123456789xy'' @ [NUL, CHR ''/'']"]
  by (simp add: cstr_def)

end
