(* ===== verification/Spec2Isabelle.thy ===== *)
theory Spec2Isabelle
  imports Eig_Properties Bft_Fuse_Spec Bft_History Bft_Framing Bft_Connect Kvs_Clients Release_Schedule Bin_Pack Achal_Config Exp_Arguments
begin

text \<open>
  A model of Achal, the time-aware key-value store of In-ConcReTeS, and of the utilities around it.
  Processes that replicate a controller propose values for keys and future times; every period
  each process runs a job that exchanges the proposals of all processes through exponential
  information gathering (EIG), so that all correct processes hold the same vector of proposals
  even if some processes lie, and a fuse function turns the vector into values that are
  committed under their times. Reads and writes of the application only touch the local copy.

  \<^bold>\<open>Parts and theories.\<close> Source files are relative to \<^verbatim>\<open>src/src\<close>, those under \<^verbatim>\<open>exp\<close> to \<^verbatim>\<open>src\<close>.

  \<^item> \<open>Prelude\<close>: the collections of simplification rules, machine words, generic lemmas.
  \<^item> \<open>Std_Containers\<close>: hash maps (with an arbitrary iteration order as a parameter) and ordered
    maps as association lists; the locale \<open>ordered_keys\<close>, interpreted for every key order in use.
  \<^item> \<open>Eig_Tree\<close>, \<open>Eig_Paths\<close>, \<open>Eig_Exchange\<close>, \<open>Eig_Reduce\<close>, \<open>Eig_Vote\<close>, \<open>Eig_Properties\<close>:
    \<^verbatim>\<open>achal/eig_tree.h\<close>. The arrays of the class are the fields of \<open>eig_tree\<close>; a node is an index
    into its level, and \<open>Eig_Paths\<close> relates indices to the paths of processes through which a value
    travelled. \<open>reduce\<close> is the in-place vote from the leaves to the root. Shown: the constructor
    builds the tree of repetition-free paths, sender and receiver agree on the payload
    of a round, a payload lands in its slots, and the reduction is the recursive vote over paths.
  \<^item> \<open>Bft_Rounds\<close>, \<open>Bft_Consensus\<close>: the rounds of \<^verbatim>\<open>BFTKVS::job\<close> (\<^verbatim>\<open>achal/bft_kvs.h\<close>) among a
    cluster of processes, of which those outside \<open>C\<close> may send anything; interactive consistency, if more
    than two thirds of the processes are correct and checksums do not collide.
  \<^item> \<open>Bft_Store\<close>, \<open>Bft_Fuse\<close>, \<open>Bft_Fuse_Spec\<close>, \<open>Bft_Kvs\<close>, \<open>Bft_Job\<close>: tuples, buckets of at most
    twenty values, the fuse functions, reading and writing, and the whole job; replicas that start
    with equal stores keep them equal, and what a majority proposes is committed everywhere. The padding of the structs is part
    of the model, because checksums and the network see it.
  \<^item> \<open>Bft_History\<close>: any number of periods in a row, each with the writes of the tasks, the jobs of all processes and then
    reads, while the faulty processes change their behaviour. Shown: the correct replicas never diverge and read alike, a period
    always completes, what a majority writes is read, and what is read was written by correct processes. Reads and writes are those of
    \<open>Bft_Kvs\<close>, the exchange is that of \<open>Bft_Consensus\<close>, and the commit is specified in \<open>Bft_Fuse_Spec\<close>.
  \<^item> \<open>Bft_Framing\<close>: the bytes under a round: the memory image of nodes, frames with their delimiter, and the two reads of
    a receiver. The memory image is a specification of the layout of the structs, not code. Shown: rounds over bytes refine the rounds
    over nodes, and a frame that arrives early makes the size of the second read wrap around.
  \<^item> \<open>Bft_Connect\<close>, \<open>Bft_Event_Loop\<close>: how processes connect to each other, and the event loop of a round, a step relation
    over the completions of the asynchronous operations, the intermediate ones included, and the timer. Shown: correct processes connect in both
    directions, the loop of a round ends, and the order in which its handlers run does not change the result of a job.
  \<^item> \<open>Kvs_Interface\<close>: \<^verbatim>\<open>achal/kvs_interface.h\<close>, batches and the vote over redundant values, proved
    once in the locales \<open>kvs\<close> and \<open>transactional_kvs\<close> and interpreted for the BFT store and for the stores of
    \<open>Etcd_Kvs\<close> and \<open>Redis_Kvs\<close>.
  \<^item> \<open>Simple_Kvs\<close>, \<open>Etcd_Kvs\<close>, \<open>Redis_Kvs\<close>, \<open>Decimal\<close>: the baselines \<^verbatim>\<open>achal/simple_kvs.cpp\<close>,
    \<^verbatim>\<open>achal/etcd_kvs.cpp\<close>, \<^verbatim>\<open>achal/redis_kvs.cpp\<close>, the vote of \<^verbatim>\<open>achal/bft_kvs.cpp\<close>, and
    decimal numerals. The clients of etcd and Redis are records of functions.
  \<^item> \<open>Kvs_Clients\<close>: how the stores on Redis and etcd connect to servers that all nodes share, and what their destructors do to
    them; a node that connects or finishes erases what others have published.
  \<^item> \<open>Periodic\<close>, \<open>Periodic_Task\<close>, \<open>Release_Schedule\<close>: \<^verbatim>\<open>utils/timespec.h\<close>, \<^verbatim>\<open>utils/periodic_timer.cpp\<close>,
    \<^verbatim>\<open>utils/periodic_task.cpp\<close>; clock readings are arguments. \<open>Release_Schedule\<close> composes timer and release loop: a task
    whose jobs end in time is released once per period.
  \<^item> \<open>Bin_Pack\<close>: \<^verbatim>\<open>utils/binpack.cpp\<close>, the four heuristics, with the locale \<open>fit_rule\<close> for the
    three that search all bins.
  \<^item> \<open>Kzh15_Data\<close>, \<open>Kzh15_Config\<close>, \<open>Kzh15_Generator\<close>, \<open>Kzh15_Labels\<close>, \<open>Kzh15_Instance\<close>,
    \<open>Kzh15_Stats\<close>, \<open>Kzh15_Basic\<close>: \<^verbatim>\<open>utils/kzh15_benchmark_generator.cpp\<close>, the generator of
    automotive benchmarks: its data, the configuration and its printing, runnables, tasks and
    labels, statistics, export, import and trimming. Random draws are lists; shown are the
    promises of a finished instance for every list, and that they survive export and trimming.
  \<^item> \<open>Kzh15_Task\<close>, \<open>Kzh15_Run\<close>: \<^verbatim>\<open>applications/kzh15.cpp\<close>, the periodic task that plays a task of a benchmark
    against a store. The job is proved in the context of the locale \<open>bounded_kvs\<close> (\<open>Kvs_Interface\<close>), and \<open>Kzh15_Run\<close> interprets
    it with the BFT store and runs the release loop while the store changes between the jobs: no assertion
    fails as long as keys fit and there are at most 180000 jobs, and each access is counted once.
  \<^item> \<open>Fixed_Point\<close>, \<open>Ivp_Dynamics\<close>, \<open>Ivp_Sim\<close>: \<^verbatim>\<open>applications/inverted_pendulum_sim.cpp\<close>. The state of the pendulum is
    the map of texts that the program keeps; \<open>Ivp_Dynamics\<close> has the two integrators and the controller over
    it, \<open>Ivp_Sim\<close> the task. \<open>Fixed_Point\<close> is one instance of the conversions between doubles and texts, with six
    decimals as \<^verbatim>\<open>std::to_string\<close> has. Shown: rest is kept, the simulation does not fail on physical
    parameters, what the job counts and keeps, and what the test for stability needs.
  \<^item> \<open>Achal_Config\<close>: \<^verbatim>\<open>achal/config.cpp\<close>, hosts and applications read through libconfig.
  \<^item> \<open>Exp_Common\<close>, \<open>Exp_Stats\<close>, \<open>Exp_Bosch\<close>, \<open>Exp_Ivp\<close>: the experiments \<^verbatim>\<open>exp/bosch1.cpp\<close>, \<^verbatim>\<open>exp/ivp1.cpp\<close> with
    \<^verbatim>\<open>exp/common.h\<close>: addresses, priorities, configurations of stores, tasks with their offsets and freshness
    constraints, and the summary that is appended to a file. \<open>bosch_tasks_complete\<close> composes benchmark, store,
    task and release loop.
  \<^item> \<open>Exp_Arguments\<close>: the command lines of both experiments with their checks and usage texts, the names of the files they use
    (\<^verbatim>\<open>utils/misc.cpp\<close>), and the order in which threads are started and joined. Shown: how the conversions read
    numbers, and which calls that the usage texts describe are refused.

  \<^bold>\<open>Conventions.\<close> Failures are values: \<open>None\<close> or the left summand stand for exceptions, failed
  assertions and undefined behaviour. Unsigned integers that may wrap are words of their width; counters
  that the program cannot overflow are \<open>nat\<close> or \<open>int\<close>. Doubles are exact rationals, and their output
  is a function parameter; those of the median fuse, which come from other processes, are numbers of any linear order or NaNs (\<open>Bft_Fuse\<close>). Loops are structural recursions; the loops that repeat a draw
  end with the list of draws, and the wait loops of the timer take the results of the system
  calls as a list. The release loop of a task takes a list of ticks (clock reading and what the other tasks did to the
  store since the last job); as many ticks as jobs are enough, and that is proved. No other recursion needs fuel. A history
  (\<open>Bft_History\<close>) is an inductive relation over the list of its periods, and \<open>period_completes\<close> shows that it can always go on.

  \<^bold>\<open>Assumptions on foreign code.\<close> Hash functions are arbitrary; theorems that need it assume no collision
  among the values in question. Iteration orders of hash tables are arbitrary permutations. libconfig
  reads back the tree that was written (\<open>reads_back\<close>, with \<open>tree_settings\<close> as an instance), and a
  quantile of a beta distribution lies in the unit interval. Sine and cosine satisfy the law of Pythagoras, and
  \<^verbatim>\<open>std::stod\<close> reads what \<^verbatim>\<open>std::to_string\<close> has written (\<open>demo_api\<close> is an instance). Redis reads back a text that was set
  and \<^verbatim>\<open>FLUSHALL\<close> deletes all keys (\<open>admin_laws\<close>, \<open>demo_admin\<close> is an instance); etcd removes a directory by its prefix (\<open>rmdir_law\<close>).

  \<^bold>\<open>Not modelled.\<close> Logging and the statistics that are only printed; system calls for scheduling, pinning and cache flushing, which
  have no effect on the values computed; the concurrent execution of threads, of which the model has the interleavings
  at the granularity of jobs and handlers; the \<^verbatim>\<open>record_result\<close> callback, which only observes; closing of sockets and
  release of memory. Outside of the median fuse a double is an exact rational, so rounding of intermediate results, overflow to
  infinity and the sign of zero are outside of the model.
\<close>

end
